(* ===== verification/Prelude.thy ===== *)
theory Prelude
  imports Main "HOL-Library.Word" "HOL-Library.Char_ord" "HOL-Library.List_Lexorder"
    "HOL-Library.Signed_Division"
begin

text \<open>
  Shared vocabulary of the development: the machine types of the Rust sources, the parts of
  the Rust standard library the components use (decimal and hexadecimal formatting, parsing,
  splitting, deduplication), the iteration order of a hash map, and the generic lemmas the
  component theories share.

  \<^item> A Rust \<open>String\<close>, \<open>&str\<close> or \<open>Vec<u8>\<close> is the list of its bytes. An Isabelle \<open>char\<close>
    is a byte, so \<open>length\<close> is Rust's \<open>len()\<close> and the order of the imported lexicographic
    instance is Rust's \<open>Ord\<close> on strings.
  \<^item> \<open>u32\<close> and \<open>u64\<close> are words. An \<open>i32\<close> or \<open>i64\<close> is an \<open>int\<close>; where the source adds
    or multiplies, the wrap-around of the release build is written out with \<open>wrap64\<close>.
  \<^item> A Rust \<open>Duration\<close> is its number of nanoseconds.
\<close>

type_synonym u8 = "8 word"
type_synonym u32 = "32 word"
type_synonym u64 = "64 word"
type_synonym i32 = int
type_synonym i64 = int
type_synonym bytes = "char list"
type_synonym duration = nat

named_theorems i64_simps \<open>wrap-around free reading of i64 arithmetic\<close>

section \<open>Signed 64-bit arithmetic\<close>

definition wrap64 :: "int \<Rightarrow> i64" where
  "wrap64 x = signed_take_bit 63 x"

definition in_i64 :: "int \<Rightarrow> bool" where
  "in_i64 x \<longleftrightarrow> - (2 ^ 63) \<le> x \<and> x < 2 ^ 63"

lemma wrap64_id [i64_simps]: "in_i64 x \<Longrightarrow> wrap64 x = x"
  by (simp add: wrap64_def in_i64_def signed_take_bit_int_eq_self)

lemma wrap64_in_i64 [simp]: "in_i64 (wrap64 x)"
  using signed_take_bit_int_greater_eq_minus_exp [of 63 x] signed_take_bit_int_less_exp [of 63 x]
  by (simp add: wrap64_def in_i64_def)

lemma wrap64_wrap64 [simp]: "wrap64 (wrap64 x) = wrap64 x"
  by (simp add: wrap64_id)

lemma in_i64_mono: "in_i64 a \<Longrightarrow> in_i64 c \<Longrightarrow> a \<le> b \<Longrightarrow> b \<le> c \<Longrightarrow> in_i64 b"
  by (auto simp: in_i64_def)

text \<open>Rust's \<open>i64::try_from\<close> on an unsigned value.\<close>

definition i64_of_nat :: "nat \<Rightarrow> i64 option" where
  "i64_of_nat n = (if n < 2 ^ 63 then Some (int n) else None)"

text \<open>\<open>checked_add\<close> on \<open>i64\<close> and on \<open>u64\<close>.\<close>

definition checked_add_i64 :: "i64 \<Rightarrow> i64 \<Rightarrow> i64 option" where
  "checked_add_i64 a b = (if in_i64 (a + b) then Some (a + b) else None)"

definition checked_add_word :: "'a::len word \<Rightarrow> 'a word \<Rightarrow> 'a word option" where
  "checked_add_word a b = (if uint a + uint b < 2 ^ LENGTH('a) then Some (a + b) else None)"

text \<open>\<open>saturating_add\<close> and \<open>saturating_sub\<close> on words.\<close>

definition saturating_add :: "'a::len word \<Rightarrow> 'a word \<Rightarrow> 'a word" where
  "saturating_add a b = (if uint a + uint b < 2 ^ LENGTH('a) then a + b else - 1)"

definition saturating_sub :: "'a::len word \<Rightarrow> 'a word \<Rightarrow> 'a word" where
  "saturating_sub a b = (if b \<le> a then a - b else 0)"

lemma unat_saturating_sub: "unat (saturating_sub a b) = unat a - unat b"
  by (auto simp: saturating_sub_def unat_sub word_le_nat_alt)

lemma unat_minus_one_max: "unat (- 1 :: 'a::len word) = 2 ^ LENGTH('a) - 1"
  by (simp add: unsigned_minus_1_eq_mask mask_eq_exp_minus_1)

lemma unat_saturating_add:
  "unat (saturating_add a b) = min (unat a + unat b) (2 ^ LENGTH('a) - 1)"
  for a b :: "'a::len word"
proof (cases "uint a + uint b < 2 ^ LENGTH('a)")
  case True
  then have "unat a + unat b < 2 ^ LENGTH('a)"
    by (metis (mono_tags) of_nat_add of_nat_less_iff of_nat_numeral of_nat_power uint_nat)
  with True show ?thesis
    by (auto simp: saturating_add_def unat_word_ariths)
next
  case False
  then have "\<not> unat a + unat b < 2 ^ LENGTH('a)"
    by (metis (mono_tags) of_nat_add of_nat_less_iff of_nat_numeral of_nat_power uint_nat)
  with False show ?thesis
    by (auto simp: saturating_add_def unat_minus_one_max min_def)
qed

text \<open>Counters of 64 bits do not collide before they wrap.\<close>

lemma of_nat_u64_inj: "c + 1 < 2 ^ 64 \<Longrightarrow> d + 1 < 2 ^ 64 \<Longrightarrow> (of_nat (c + 1) :: u64) = of_nat (d + 1) \<Longrightarrow> c = d"
  by (simp add: word_of_nat_eq_iff take_bit_nat_eq_self del: of_nat_Suc of_nat_add)

section \<open>Durations\<close>

definition as_millis :: "duration \<Rightarrow> nat" where
  "as_millis d = d div 1000000"

section \<open>Formatting and parsing of integers\<close>

text \<open>\<open>Display\<close> for integers, and the \<open>{:0Nx}\<close> format.\<close>

definition digit_char :: "nat \<Rightarrow> char" where
  "digit_char n = char_of (if n < 10 then 48 + n else 87 + n)"

fun show_base :: "nat \<Rightarrow> nat \<Rightarrow> string" where
  "show_base b n =
     (if n < b \<or> b < 2 then [digit_char n] else show_base b (n div b) @ [digit_char (n mod b)])"

declare show_base.simps [simp del]

definition show_nat :: "nat \<Rightarrow> string" where
  "show_nat n = show_base 10 n"

definition show_int :: "int \<Rightarrow> string" where
  "show_int i = (if i < 0 then ''-'' @ show_nat (nat (- i)) else show_nat (nat i))"

definition show_hex :: "nat \<Rightarrow> nat \<Rightarrow> string" where
  "show_hex width n = (let s = show_base 16 n in replicate (width - length s) CHR ''0'' @ s)"

text \<open>Digit values, and \<open>str::parse::<i64>\<close>: an optional sign, at least one digit, and the
  value in range.\<close>

definition digit_val :: "char \<Rightarrow> nat" where
  "digit_val c = (if of_char c < (58 :: nat) then of_char c - 48 else of_char c - 87)"

definition is_ascii_digit :: "char \<Rightarrow> bool" where
  "is_ascii_digit c \<longleftrightarrow> 48 \<le> (of_char c :: nat) \<and> (of_char c :: nat) \<le> 57"

definition read_base :: "nat \<Rightarrow> string \<Rightarrow> nat" where
  "read_base b s = foldl (\<lambda>n c. b * n + digit_val c) 0 s"

definition parse_digits :: "string \<Rightarrow> nat option" where
  "parse_digits s = (if s \<noteq> [] \<and> list_all is_ascii_digit s then Some (read_base 10 s) else None)"

definition parse_i64 :: "string \<Rightarrow> i64 option" where
  "parse_i64 s =
     (let v = (case s of
          [] \<Rightarrow> None
        | c # cs \<Rightarrow>
            if c = CHR ''-'' then map_option (\<lambda>n. - int n) (parse_digits cs)
            else if c = CHR ''+'' then map_option int (parse_digits cs)
            else map_option int (parse_digits (c # cs)))
      in case v of None \<Rightarrow> None | Some i \<Rightarrow> if in_i64 i then Some i else None)"

lemma digit_val_digit_char: "n < 36 \<Longrightarrow> digit_val (digit_char n) = n"
  by (simp add: digit_val_def digit_char_def)

lemma digit_char_decimal: "n < 10 \<Longrightarrow> is_ascii_digit (digit_char n)"
  by (simp add: is_ascii_digit_def digit_char_def)

lemma read_base_snoc [simp]: "read_base b (s @ [c]) = b * read_base b s + digit_val c"
  by (simp add: read_base_def)

lemma read_base_show_base:
  "2 \<le> b \<Longrightarrow> b \<le> 36 \<Longrightarrow> read_base b (show_base b n) = n"
proof (induction b n rule: show_base.induct)
  case (1 b n)
  show ?case
  proof (cases "n < b")
    case True
    with 1 show ?thesis
      by (simp add: show_base.simps [of b n] read_base_def digit_val_digit_char)
  next
    case False
    moreover have "n mod b < 36"
      using "1.prems" mod_less_divisor [of b n] by linarith
    ultimately show ?thesis
      using 1 by (simp add: show_base.simps [of b n] digit_val_digit_char)
  qed
qed

lemma show_base_inj: "2 \<le> b \<Longrightarrow> b \<le> 36 \<Longrightarrow> show_base b m = show_base b n \<Longrightarrow> m = n"
  by (metis read_base_show_base)

lemma show_base_nonempty [simp]: "show_base b n \<noteq> []"
  by (simp add: show_base.simps)

lemma show_nat_digits: "list_all is_ascii_digit (show_nat n)"
proof -
  have "b = 10 \<Longrightarrow> list_all is_ascii_digit (show_base b n)" for b
  proof (induction b n rule: show_base.induct)
    case (1 b n)
    then show ?case
      by (cases "n < b") (simp_all add: show_base.simps [of 10 n] digit_char_decimal)
  qed
  then show ?thesis by (simp add: show_nat_def)
qed

lemma show_nat_inj [simp]: "show_nat m = show_nat n \<longleftrightarrow> m = n"
  using show_base_inj [of 10] by (auto simp: show_nat_def)

lemma parse_digits_show_nat [simp]: "parse_digits (show_nat n) = Some n"
  using show_nat_digits [of n] read_base_show_base [of 10 n]
  by (simp add: parse_digits_def show_nat_def)

lemma parse_i64_show_int: "in_i64 i \<Longrightarrow> parse_i64 (show_int i) = Some i"
proof (cases "i < 0")
  case True
  moreover assume "in_i64 i"
  ultimately show ?thesis by (simp add: parse_i64_def show_int_def)
next
  case False
  assume rng: "in_i64 i"
  obtain c cs where s: "show_nat (nat i) = c # cs"
    by (metis list.exhaust show_base_nonempty show_nat_def)
  with show_nat_digits [of "nat i"] have "is_ascii_digit c" by simp
  then have "c \<noteq> CHR ''-''" "c \<noteq> CHR ''+''" by (auto simp: is_ascii_digit_def)
  with False rng s show ?thesis
    using parse_digits_show_nat [of "nat i"] by (simp add: parse_i64_def show_int_def)
qed

lemma show_int_inj: "show_int i = show_int j \<Longrightarrow> i = j"
proof -
  have minus: "CHR ''-'' \<notin> set (show_nat n)" for n
    using show_nat_digits [of n] by (auto simp: list_all_iff is_ascii_digit_def)
  assume "show_int i = show_int j"
  then show "i = j"
    using minus [of "nat i"] minus [of "nat j"]
    by (auto simp: show_int_def split: if_splits)
      (metis append_Cons append_Nil list.set_intros(1))+
qed

section \<open>Strings\<close>

text \<open>\<open>str::split\<close> on one character, \<open>[String]::join\<close>, and \<open>str::strip_prefix\<close>.\<close>

fun split_on :: "char \<Rightarrow> string \<Rightarrow> string list" where
  "split_on d [] = [[]]"
| "split_on d (c # cs) =
     (if c = d then [] # split_on d cs
      else (case split_on d cs of [] \<Rightarrow> [[c]] | w # ws \<Rightarrow> (c # w) # ws))"

fun join_with :: "string \<Rightarrow> string list \<Rightarrow> string" where
  "join_with d [] = []"
| "join_with d [w] = w"
| "join_with d (w # v # ws) = w @ d @ join_with d (v # ws)"

fun strip_prefix :: "string \<Rightarrow> string \<Rightarrow> string option" where
  "strip_prefix [] s = Some s"
| "strip_prefix (p # ps) [] = None"
| "strip_prefix (p # ps) (c # cs) = (if p = c then strip_prefix ps cs else None)"

definition is_ascii :: "char \<Rightarrow> bool" where
  "is_ascii c \<longleftrightarrow> (of_char c :: nat) < 128"

lemma strip_prefix_Some: "strip_prefix p s = Some r \<longleftrightarrow> s = p @ r"
  by (induction p s rule: strip_prefix.induct) auto

lemma split_on_no_delim: "d \<notin> set w \<Longrightarrow> split_on d w = [w]"
  by (induction w) auto

lemma split_on_append: "d \<notin> set w \<Longrightarrow> split_on d (w @ d # s) = w # split_on d s"
  by (induction w) auto

lemma split_on_not_Nil [simp]: "split_on d s \<noteq> []"
  by (induction s) (auto split: list.splits)

lemma join_split_on: "join_with [d] (split_on d s) = s"
proof (induction s)
  case Nil
  then show ?case by simp
next
  case (Cons c cs)
  obtain w ws where "split_on d cs = w # ws" by (cases "split_on d cs") auto
  with Cons show ?case by (cases ws) auto
qed

section \<open>Hash maps and sets\<close>

text \<open>
  The iteration order of a \<open>HashMap\<close> is unspecified: every key comes exactly once. An
  operation that iterates takes the order as an argument, and a statement about it holds for
  every order of the map's keys.
\<close>

definition iter_order :: "('k \<rightharpoonup> 'v) \<Rightarrow> 'k list \<Rightarrow> bool" where
  "iter_order m ord \<longleftrightarrow> distinct ord \<and> set ord = dom m"

lemma iter_order_in_dom: "iter_order m ord \<Longrightarrow> k \<in> set ord \<longleftrightarrow> (\<exists>v. m k = Some v)"
  by (auto simp: iter_order_def)

lemma iter_order_finite: "iter_order m ord \<Longrightarrow> finite (dom m)"
  by (auto simp: iter_order_def dest: sym)

text \<open>\<open>sort\<close> followed by \<open>dedup\<close>, which drops equal neighbours.\<close>

definition sort_dedup :: "'a::linorder list \<Rightarrow> 'a list" where
  "sort_dedup xs = remdups_adj (sort xs)"

lemma set_sort_dedup [simp]: "set (sort_dedup xs) = set xs"
  by (simp add: sort_dedup_def)

lemma sorted_sort_dedup [simp]: "sorted (sort_dedup xs)"
  by (simp add: sort_dedup_def sorted_remdups_adj)

lemma distinct_remdups_adj_sorted: "sorted xs \<Longrightarrow> distinct (remdups_adj xs)"
  by (induction xs rule: remdups_adj.induct) (auto dest: order.antisym)

lemma distinct_sort_dedup [simp]: "distinct (sort_dedup xs)"
  by (simp add: sort_dedup_def distinct_remdups_adj_sorted)

lemma sort_dedup_idem [simp]: "sort_dedup (sort_dedup xs) = sort_dedup xs"
  by (metis distinct_sort_dedup distinct_remdups_id remdups_adj_distinct sort_dedup_def
      sorted_sort_dedup sorted_sort_id)

lemma sort_dedup_cong: "set xs = set ys \<Longrightarrow> sort_dedup xs = sort_dedup ys"
  by (metis distinct_sort_dedup set_sort_dedup sorted_distinct_set_unique sorted_sort_dedup)

text \<open>Sorting by an injective key does not depend on the order of the input.\<close>

lemma sort_key_unique:
  assumes "distinct xs" "distinct ys" "set xs = set ys" "inj_on f (set xs)"
  shows "sort_key f xs = sort_key f ys"
proof -
  have "map f (sort_key f xs) = map f (sort_key f ys)"
    using assms by (intro sorted_distinct_set_unique) (auto simp: distinct_map)
  with assms(3,4) show ?thesis
    by (simp add: inj_on_map_eq_map)
qed

end
