(* ===== verification/Shared.thy ===== *)
theory Shared
  imports Prelude
begin

unbundle bit_operations_syntax

text \<open>
  The crate headgate-shared (src/crates/headgate-shared/src/lib.rs): the outcome and
  missed-run vocabularies with their wire spellings, the defaults of omitted envelope fields,
  the boundary checks of \<open>admit\<close> and \<open>ack\<close>, the gate's explanation of why a job is not
  running, and the checkpoint of a resumable job.
\<close>

section \<open>Outcomes and missed-run policies\<close>

datatype outcome =
    Outcome_Success
  | Outcome_Retry
  | Outcome_Skip
  | Outcome_Revoke
  | Outcome_Snooze
  | Outcome_LeaseLost
  | Outcome_Undecodable
  | Outcome_RateLimited

fun outcome_as_str :: "outcome \<Rightarrow> string" where
  "outcome_as_str Outcome_Success = ''success''"
| "outcome_as_str Outcome_Retry = ''retry''"
| "outcome_as_str Outcome_Skip = ''skip''"
| "outcome_as_str Outcome_Revoke = ''revoke''"
| "outcome_as_str Outcome_Snooze = ''snooze''"
| "outcome_as_str Outcome_LeaseLost = ''lease_lost''"
| "outcome_as_str Outcome_Undecodable = ''undecodable''"
| "outcome_as_str Outcome_RateLimited = ''rate_limited''"

definition outcome_parse :: "string \<Rightarrow> outcome option" where
  "outcome_parse value =
     (if value = ''success'' then Some Outcome_Success
      else if value = ''retry'' then Some Outcome_Retry
      else if value = ''skip'' then Some Outcome_Skip
      else if value = ''revoke'' then Some Outcome_Revoke
      else if value = ''snooze'' then Some Outcome_Snooze
      else if value = ''lease_lost'' then Some Outcome_LeaseLost
      else if value = ''undecodable'' then Some Outcome_Undecodable
      else if value = ''rate_limited'' then Some Outcome_RateLimited
      else None)"

datatype missed_policy = Missed_Skip | Missed_RunOnce | Missed_Backfill

fun missed_as_str :: "missed_policy \<Rightarrow> string" where
  "missed_as_str Missed_Skip = ''skip''"
| "missed_as_str Missed_RunOnce = ''run_once''"
| "missed_as_str Missed_Backfill = ''backfill''"

definition missed_parse :: "string \<Rightarrow> missed_policy option" where
  "missed_parse value =
     (if value = ''skip'' then Some Missed_Skip
      else if value = ''run_once'' then Some Missed_RunOnce
      else if value = ''backfill'' then Some Missed_Backfill
      else None)"

text \<open>The outcomes are an enumerable type, so a table over them is checked by evaluation.\<close>

instantiation outcome :: enum
begin

definition enum_outcome :: "outcome list" where
  "enum_outcome = [Outcome_Success, Outcome_Retry, Outcome_Skip, Outcome_Revoke, Outcome_Snooze,
     Outcome_LeaseLost, Outcome_Undecodable, Outcome_RateLimited]"

definition enum_all_outcome :: "(outcome \<Rightarrow> bool) \<Rightarrow> bool" where
  "enum_all_outcome P \<longleftrightarrow> list_all P enum_class.enum"

definition enum_ex_outcome :: "(outcome \<Rightarrow> bool) \<Rightarrow> bool" where
  "enum_ex_outcome P \<longleftrightarrow> list_ex P enum_class.enum"

instance
proof
  have univ: "x \<in> set (enum_class.enum :: outcome list)" for x :: outcome
    by (cases x) (simp_all add: enum_outcome_def)
  then show "(UNIV :: outcome set) = set enum_class.enum" by blast
  show "distinct (enum_class.enum :: outcome list)" by (simp add: enum_outcome_def)
  show "enum_class.enum_all P \<longleftrightarrow> Ball UNIV P" for P :: "outcome \<Rightarrow> bool"
    using univ by (auto simp: enum_all_outcome_def list_all_iff)
  show "enum_class.enum_ex P \<longleftrightarrow> Bex UNIV P" for P :: "outcome \<Rightarrow> bool"
    using univ by (auto simp: enum_ex_outcome_def list_ex_iff)
qed

end

lemma outcome_parse_as_str [simp]: "outcome_parse (outcome_as_str o') = Some o'"
  by (cases o') (simp_all add: outcome_parse_def)

lemma outcome_parse_Some: "outcome_parse s = Some o' \<Longrightarrow> s = outcome_as_str o'"
  by (auto simp: outcome_parse_def split: if_splits)

lemma missed_parse_as_str [simp]: "missed_parse (missed_as_str p) = Some p"
  by (cases p) (simp_all add: missed_parse_def)

lemma missed_parse_Some: "missed_parse s = Some p \<Longrightarrow> s = missed_as_str p"
  by (auto simp: missed_parse_def split: if_splits)

section \<open>Defaults and boundary checks\<close>

definition DEFAULT_QUEUE :: string where "DEFAULT_QUEUE = ''default''"
definition DEFAULT_SCHEMA_VERSION :: u32 where "DEFAULT_SCHEMA_VERSION = 1"
definition DEFAULT_MAX_ATTEMPTS :: u32 where "DEFAULT_MAX_ATTEMPTS = 25"
definition DEFAULT_WEIGHT :: u32 where "DEFAULT_WEIGHT = 1"
definition MAX_OPAQUE_SCHEMA_VERSION :: u32 where "MAX_OPAQUE_SCHEMA_VERSION = 2147483647"

definition normalize_queues :: "string list \<Rightarrow> string list" where
  "normalize_queues queues = sort_dedup queues"

definition duration_millis :: "duration \<Rightarrow> i64 option" where
  "duration_millis d =
     (case i64_of_nat (as_millis d) of
        None \<Rightarrow> None
      | Some millis \<Rightarrow> if millis > 0 then Some millis else None)"

definition effective_queue :: "string \<Rightarrow> string" where
  "effective_queue queue = (if queue = [] then DEFAULT_QUEUE else queue)"

definition effective_schema_version :: "u32 \<Rightarrow> u32" where
  "effective_schema_version version = (if version = 0 then DEFAULT_SCHEMA_VERSION else version)"

definition effective_max_attempts :: "u32 \<Rightarrow> u32" where
  "effective_max_attempts max_attempts =
     (if max_attempts = 0 then DEFAULT_MAX_ATTEMPTS else max_attempts)"

definition effective_weight :: "u32 \<Rightarrow> u32" where
  "effective_weight weight = (if weight = 0 then DEFAULT_WEIGHT else weight)"

lemma effective_queue_nonempty [simp]: "effective_queue q \<noteq> []"
  by (simp add: effective_queue_def DEFAULT_QUEUE_def)

lemma effective_weight_pos [simp]: "0 < uint (effective_weight w)"
  by (auto simp: effective_weight_def DEFAULT_WEIGHT_def less_le uint_0_iff)

lemma duration_millis_Some:
  "duration_millis d = Some ms \<longleftrightarrow> ms = int (as_millis d) \<and> 0 < ms \<and> in_i64 ms"
  by (auto simp: duration_millis_def i64_of_nat_def in_i64_def)

datatype ack_validation = Ack_Valid | Ack_LeaseLost | Ack_SnoozeDelayRequired

definition validate_ack :: "outcome \<Rightarrow> i64 option \<Rightarrow> ack_validation" where
  "validate_ack outcome delay_ms =
     (if outcome = Outcome_LeaseLost then Ack_LeaseLost
      else if outcome = Outcome_Snooze \<and>
          \<not> (case delay_ms of Some delay \<Rightarrow> delay > 0 | None \<Rightarrow> False) then Ack_SnoozeDelayRequired
      else Ack_Valid)"

datatype opaque_schema_validation = Opaque_Valid | Opaque_Zero | Opaque_TooLarge

definition validate_opaque_schema :: "u32 \<Rightarrow> opaque_schema_validation" where
  "validate_opaque_schema version =
     (if version = 0 then Opaque_Zero
      else if version > MAX_OPAQUE_SCHEMA_VERSION then Opaque_TooLarge
      else Opaque_Valid)"

definition bulk_action_states :: "string \<Rightarrow> string list option" where
  "bulk_action_states action =
     (if action = ''retry'' then Some [''archived'', ''cancelled'']
      else if action = ''cancel'' then Some [''scheduled'', ''available'', ''running'']
      else if action = ''delete'' then
        Some [''scheduled'', ''available'', ''retryable'', ''completed'', ''archived'',
              ''cancelled'', ''quarantined'', ''undecodable'']
      else None)"

definition valid_worker_command :: "string \<Rightarrow> bool" where
  "valid_worker_command command \<longleftrightarrow>
     command \<in> {'''', ''quiet'', ''resume'', ''restart'', ''terminate'', ''resign''}"

definition format_generated_id :: "u64 \<Rightarrow> u32 \<Rightarrow> u64 \<Rightarrow> string" where
  "format_generated_id now_ms process_id sequence =
     ''hg'' @ show_hex 12 (unat now_ms) @ show_hex 5 (unat (process_id AND 0xFFFFF))
       @ show_hex 4 (unat (sequence AND 0xFFFF))"

section \<open>Why a job is not running\<close>

record admission_facts =
  af_state :: string
  af_now_ms :: i64
  af_scheduled_at_ms :: i64
  af_queue_paused :: bool
  af_quarantined :: bool
  af_fingerprint :: string
  af_rate_class :: string
  af_weight :: i64
  af_tokens_available :: "i64 option"
  af_tokens_ahead :: i64
  af_limit_per_window :: i64
  af_window_ms :: i64
  af_max_concurrent :: "i64 option"
  af_inflight :: i64
  af_saturation :: string
  af_position :: i64
  af_deficit :: i64

record admission_evaluation =
  ev_admissible :: bool
  ev_blocked_by :: "string option"
  ev_detail :: "(string \<times> string) list"
  ev_estimated_admission_ms :: "i64 option"

text \<open>The closure \<open>block\<close>: a blocked evaluation with its reason and its estimate.\<close>

definition block_on ::
  "(string \<times> string) list \<Rightarrow> string \<Rightarrow> i64 option \<Rightarrow> admission_evaluation" where
  "block_on detail by' eta =
     \<lparr>ev_admissible = False, ev_blocked_by = Some by', ev_detail = detail,
      ev_estimated_admission_ms = eta\<rparr>"

text \<open>The rate-class clause: the detail it adds, and the block when the budget is short.\<close>

definition rate_clause ::
  "admission_facts \<Rightarrow> (string \<times> string) list \<times> i64 option option" where
  "rate_clause f =
     (if af_rate_class f = [] then ([], None)
      else
        let weight = max (af_weight f) 1;
            required = wrap64 (af_tokens_ahead f + weight);
            d = [(''rate_class'', af_rate_class f), (''weight'', show_int weight),
                 (''tokens_ahead_in_class'', show_int (af_tokens_ahead f))]
        in case af_tokens_available f of
             Some available \<Rightarrow>
               (d @ [(''tokens_available'', show_int available)],
                if available < required then
                  Some (if af_limit_per_window f > 0
                        then Some (wrap64 (max (wrap64 (required - available)) 1 * af_window_ms f)
                                   sdiv af_limit_per_window f)
                        else None)
                else None)
           | None \<Rightarrow> (d @ [(''tokens_available'', ''unlimited (no such rate class)'')], None))"

text \<open>The concurrency clause.\<close>

definition concurrency_clause :: "admission_facts \<Rightarrow> (string \<times> string) list \<times> bool" where
  "concurrency_clause f =
     (case af_max_concurrent f of
        None \<Rightarrow> ([], False)
      | Some max_concurrent \<Rightarrow>
          let strategy = (if af_saturation f = [] then ''queue'' else af_saturation f)
          in ([(''max_concurrent'', show_int max_concurrent), (''inflight'', show_int (af_inflight f)),
               (''on_saturated'', strategy)],
              af_inflight f \<ge> max_concurrent \<and> strategy \<noteq> ''cancel_running''))"

definition evaluate_admission :: "admission_facts \<Rightarrow> admission_evaluation" where
  "evaluate_admission f =
     (let detail = [(''state'', af_state f)];
          sched = (''scheduled_at_ms'', show_int (af_scheduled_at_ms f))
      in if af_state f = ''running'' then
           \<lparr>ev_admissible = True, ev_blocked_by = None, ev_detail = detail,
            ev_estimated_admission_ms = Some 0\<rparr>
         else if af_state f = ''scheduled'' \<or> af_state f = ''retryable'' then
           block_on (detail @ [sched]) ''schedule''
             (Some (max (wrap64 (af_scheduled_at_ms f - af_now_ms f)) 0))
         else if af_state f = ''quarantined'' then block_on detail ''quarantine'' None
         else if af_state f \<noteq> ''available'' then
           \<lparr>ev_admissible = False, ev_blocked_by = None, ev_detail = detail,
            ev_estimated_admission_ms = None\<rparr>
         else if af_queue_paused f then block_on detail ''queue_paused'' None
         else if af_scheduled_at_ms f > af_now_ms f then
           block_on (detail @ [sched]) ''schedule'' (Some (wrap64 (af_scheduled_at_ms f - af_now_ms f)))
         else if af_quarantined f then
           block_on (detail @ [(''fingerprint'', af_fingerprint f)]) ''quarantine'' None
         else
           let (rd, rblock) = rate_clause f; (cd, cblock) = concurrency_clause f
           in case rblock of
                Some eta \<Rightarrow> block_on (detail @ rd) ''rate_class'' eta
              | None \<Rightarrow>
                  if cblock then block_on (detail @ rd @ cd) ''concurrency_limit'' None
                  else
                    \<lparr>ev_admissible = True, ev_blocked_by = None,
                     ev_detail = detail @ rd @ cd
                       @ [(''position_in_partition'', show_int (af_position f)),
                          (''partition_deficit'', show_int (af_deficit f))],
                     ev_estimated_admission_ms = Some 0\<rparr>)"

section \<open>Checkpoints\<close>

record checkpoint =
  last_completed_step :: "string option"
  completed_steps :: "string list"
  in_progress_step :: "string option"
  cursor_step :: "string option"
  cursor :: "bytes option"
  cp_schema_version :: u32
  step_set_hash :: string
  crashes_by_step :: "(string \<times> u32) list"

definition checkpoint_default :: checkpoint where
  "checkpoint_default =
     \<lparr>last_completed_step = None, completed_steps = [], in_progress_step = None,
      cursor_step = None, cursor = None, cp_schema_version = 0, step_set_hash = [],
      crashes_by_step = []\<rparr>"

datatype resume = Resume_Continue | Resume_Remapped | Resume_Undecodable

definition resumability :: "checkpoint \<Rightarrow> u32 \<Rightarrow> string \<Rightarrow> resume" where
  "resumability cp current_version current_step_set_hash =
     (if step_set_hash cp = [] \<or> step_set_hash cp = current_step_set_hash then Resume_Continue
      else if cp_schema_version cp \<noteq> current_version then Resume_Remapped
      else Resume_Undecodable)"

section \<open>Inspection arithmetic\<close>

definition age_ms :: "i64 \<Rightarrow> i64 \<Rightarrow> i64" where
  "age_ms now_ms at_ms = (let age = wrap64 (now_ms - at_ms) in if age > 0 then age else 0)"

end
