(* ===== verification/Lifecycle.thy ===== *)
theory Lifecycle
  imports Shared
begin

text \<open>
  The state machine of headgate-core (src/crates/headgate-core/src/lib.rs): the eleven job
  states, the transition table of a worker's outcome, and the table of lifecycle events
  (sweeps and operator actions).
\<close>

section \<open>States and tables\<close>

datatype state =
    State_Pending
  | State_Scheduled
  | State_Available
  | State_Running
  | State_Retryable
  | State_Completed
  | State_Archived
  | State_Cancelled
  | State_Quarantined
  | State_Undecodable
  | State_Deleted

definition is_terminal :: "state \<Rightarrow> bool" where
  "is_terminal s \<longleftrightarrow>
     s \<in> {State_Completed, State_Archived, State_Cancelled, State_Quarantined, State_Undecodable,
          State_Deleted}"

record transition_ctx =
  ctx_attempt :: u32
  ctx_max_attempts :: u32
  ctx_crash_attempt :: u32
  ctx_crash_limit :: u32
  ctx_retention_ms :: i64

text \<open>The worker's outcomes. The source matches the pairs of \<open>State::Running\<close> with each
  outcome; its last arm keeps the state of every other pair.\<close>

definition transition :: "state \<Rightarrow> outcome \<Rightarrow> transition_ctx \<Rightarrow> state" where
  "transition from on ctx =
     (if from \<noteq> State_Running then from
      else case on of
        Outcome_Success \<Rightarrow> if ctx_retention_ms ctx > 0 then State_Completed else State_Deleted
      | Outcome_Skip \<Rightarrow> State_Archived
      | Outcome_Revoke \<Rightarrow> State_Deleted
      | Outcome_Snooze \<Rightarrow> State_Scheduled
      | Outcome_Undecodable \<Rightarrow> State_Undecodable
      | Outcome_RateLimited \<Rightarrow> State_Available
      | Outcome_Retry \<Rightarrow>
          if ctx_attempt ctx + 1 < ctx_max_attempts ctx then State_Retryable else State_Archived
      | Outcome_LeaseLost \<Rightarrow>
          if ctx_crash_attempt ctx + 1 < ctx_crash_limit ctx then State_Retryable
          else State_Quarantined)"

datatype lifecycle_event =
    OperatorPromote
  | ScheduleDue
  | Admitted
  | BackoffDue
  | CheckpointStale
  | OperatorRetry
  | OperatorRelease
  | OperatorCancel

text \<open>The arms of the source, grouped by event.\<close>

definition lifecycle_transition :: "state \<Rightarrow> lifecycle_event \<Rightarrow> state option" where
  "lifecycle_transition from ev =
     (case ev of
        OperatorPromote \<Rightarrow> if from = State_Pending then Some State_Available else None
      | ScheduleDue \<Rightarrow> if from = State_Scheduled then Some State_Available else None
      | Admitted \<Rightarrow> if from = State_Available then Some State_Running else None
      | BackoffDue \<Rightarrow> if from = State_Retryable then Some State_Available else None
      | CheckpointStale \<Rightarrow> if from = State_Running then Some State_Undecodable else None
      | OperatorRetry \<Rightarrow>
          if from \<in> {State_Archived, State_Cancelled, State_Undecodable} then Some State_Available
          else None
      | OperatorRelease \<Rightarrow> if from = State_Quarantined then Some State_Available else None
      | OperatorCancel \<Rightarrow>
          if from \<in> {State_Pending, State_Available, State_Scheduled, State_Running,
                     State_Retryable}
          then Some State_Cancelled else None)"

section \<open>Reachability in the table\<close>

text \<open>
  One step of a job's life: an outcome of a running attempt, or a lifecycle event. The
  operator's actions are told apart because only they may leave a terminal state.
\<close>

definition operator_event :: "lifecycle_event \<Rightarrow> bool" where
  "operator_event ev \<longleftrightarrow> ev \<in> {OperatorPromote, OperatorRetry, OperatorRelease, OperatorCancel}"

inductive auto_step :: "state \<Rightarrow> state \<Rightarrow> bool" where
  acked: "auto_step s (transition s out ctx)"
| event: "lifecycle_transition s ev = Some t \<Longrightarrow> \<not> operator_event ev \<Longrightarrow> auto_step s t"

inductive life_step :: "state \<Rightarrow> state \<Rightarrow> bool" where
  auto: "auto_step s t \<Longrightarrow> life_step s t"
| operator: "lifecycle_transition s ev = Some t \<Longrightarrow> operator_event ev \<Longrightarrow> life_step s t"

inductive_cases auto_stepE: "auto_step s t"
inductive_cases life_stepE: "life_step s t"

lemma transition_not_running: "s \<noteq> State_Running \<Longrightarrow> transition s out ctx = s"
  by (simp add: transition_def)

lemma transition_terminal: "is_terminal s \<Longrightarrow> transition s out ctx = s"
  by (rule transition_not_running) (auto simp: is_terminal_def)

lemma lifecycle_terminal_operator:
  "is_terminal s \<Longrightarrow> lifecycle_transition s ev = Some t \<Longrightarrow> operator_event ev"
  by (cases ev) (auto simp: is_terminal_def operator_event_def lifecycle_transition_def
      split: if_splits)

lemma auto_step_terminal: "is_terminal s \<Longrightarrow> auto_step s t \<Longrightarrow> t = s"
  by (auto elim!: auto_stepE dest: transition_terminal lifecycle_terminal_operator)

lemma auto_steps_terminal: "auto_step\<^sup>*\<^sup>* s t \<Longrightarrow> is_terminal s \<Longrightarrow> t = s"
  by (induction rule: rtranclp_induct) (auto dest: auto_step_terminal)

lemma life_step_deleted: "life_step State_Deleted t \<Longrightarrow> t = State_Deleted"
proof (erule life_stepE)
  assume "auto_step State_Deleted t"
  then show ?thesis by (intro auto_step_terminal) (simp_all add: is_terminal_def)
next
  fix ev
  assume "lifecycle_transition State_Deleted ev = Some t"
  then show ?thesis by (cases ev) (simp_all add: lifecycle_transition_def)
qed

lemma into_running:
  assumes "life_step s State_Running" "s \<noteq> State_Running"
  shows "s = State_Available"
  using assms
  by (auto elim!: life_stepE auto_stepE simp: transition_not_running lifecycle_transition_def
      split: lifecycle_event.splits if_splits)

section \<open>Properties\<close>

text \<open>Terminal states are final for the machine: whatever acknowledgements, sweeps and
  admissions happen, a job in a terminal state stays in it; and when a step does take a job out
  of a terminal state, it is an operator's retry or release, and the job becomes available.\<close>

theorem terminal_states_final:
  assumes "is_terminal s"
  shows "(auto_step\<^sup>*\<^sup>* s t \<longrightarrow> t = s) \<and>
    (life_step s t \<and> t \<noteq> s \<longrightarrow>
       t = State_Available \<and>
       (lifecycle_transition s OperatorRetry = Some t \<or>
        lifecycle_transition s OperatorRelease = Some t))"
proof (intro conjI impI)
  show "auto_step\<^sup>*\<^sup>* s t \<Longrightarrow> t = s" using assms auto_steps_terminal by blast
  assume st: "life_step s t \<and> t \<noteq> s"
  then have "\<not> auto_step s t" using assms auto_step_terminal by blast
  with st obtain ev where ev: "lifecycle_transition s ev = Some t" by (auto elim: life_stepE)
  with assms show "t = State_Available"
    by (cases ev) (auto simp: is_terminal_def lifecycle_transition_def split: if_splits)
  from ev assms show "lifecycle_transition s OperatorRetry = Some t \<or>
      lifecycle_transition s OperatorRelease = Some t"
    by (cases ev) (auto simp: is_terminal_def lifecycle_transition_def split: if_splits)
qed

theorem terminal_states_final_witness:
  "is_terminal State_Quarantined \<and> life_step State_Quarantined State_Available \<and>
   lifecycle_transition State_Quarantined OperatorRelease = Some State_Available \<and>
   \<not> auto_step\<^sup>*\<^sup>* State_Quarantined State_Available"
proof -
  have t: "is_terminal State_Quarantined" by (simp add: is_terminal_def)
  have l: "lifecycle_transition State_Quarantined OperatorRelease = Some State_Available"
    by (simp add: lifecycle_transition_def)
  have "life_step State_Quarantined State_Available"
    by (rule life_step.operator [OF l]) (simp add: operator_event_def)
  with t l terminal_states_final [OF t, of State_Available] show ?thesis by auto
qed

end
