(* ===== verification/Envelope.thy ===== *)
theory Envelope
  imports Lifecycle
begin

text \<open>
  The data of headgate-core (src/crates/headgate-core/src/lib.rs): the envelope of a job, the
  errors of the store port, leases and claims, and every boundary check that runs before a
  store writes anything.
\<close>

unbundle bit_operations_syntax

section \<open>Envelopes and store errors\<close>

record envelope =
  env_id :: string
  kind :: string
  schema_version :: u32
  payload :: bytes
  queue :: string
  partition_key :: string
  rate_class :: string
  weight :: u32
  fingerprint :: string
  priority :: i32
  attempt :: u32
  crash_attempt :: u32
  max_attempts :: u32
  scheduled_at_ms :: i64
  timeout_ms :: i64
  deadline_ms :: i64
  unique_key :: "bytes option"
  unique_states :: u32
  unique_window_ms :: i64
  unique_replace :: u32
  unique_debounce_ms :: i64
  unique_exclude_kind :: bool
  retention_ms :: i64
  periodic_schedule_id :: string
  periodic_tick_ms :: i64
  headers :: "(string \<times> string) list"
  tags :: "string list"
  pending :: bool
  sticky_worker :: string

text \<open>\<open>#[derive(Default)]\<close>.\<close>

definition envelope_default :: envelope where
  "envelope_default =
     \<lparr>env_id = [], kind = [], schema_version = 0, payload = [], queue = [], partition_key = [],
      rate_class = [], weight = 0, fingerprint = [], priority = 0, attempt = 0,
      crash_attempt = 0, max_attempts = 0, scheduled_at_ms = 0, timeout_ms = 0, deadline_ms = 0,
      unique_key = None, unique_states = 0, unique_window_ms = 0, unique_replace = 0,
      unique_debounce_ms = 0, unique_exclude_kind = False, retention_ms = 0,
      periodic_schedule_id = [], periodic_tick_ms = 0, headers = [], tags = [], pending = False,
      sticky_worker = []\<rparr>"

datatype store_error =
    Duplicate (existing_id: string) (replaced: bool)
  | IdConflict string
  | Quarantined string
  | Backpressure string u64 u64 u64
  | LeaseRejected string
  | Unavailable string
  | NotFound string
  | Invalid string
  | Backend string

type_synonym 'a result = "store_error + 'a"

text \<open>An early return: the error where the condition holds, the rest of the body otherwise.\<close>

definition reject_if :: "bool \<Rightarrow> 'e \<Rightarrow> 'e + 'a \<Rightarrow> 'e + 'a" where
  "reject_if b e rest = (if b then Inl e else rest)"

lemma reject_if_eq_Inr [simp]: "reject_if b e rest = Inr x \<longleftrightarrow> \<not> b \<and> rest = Inr x"
  by (simp add: reject_if_def)

lemma reject_if_simps [simp]: "reject_if True e rest = Inl e" "reject_if False e rest = rest"
  by (simp_all add: reject_if_def)

definition UNIQUE_REPLACE_PAYLOAD :: u32 where "UNIQUE_REPLACE_PAYLOAD = push_bit 0 1"
definition UNIQUE_REPLACE_SCHEDULED_AT :: u32 where "UNIQUE_REPLACE_SCHEDULED_AT = push_bit 1 1"
definition UNIQUE_REPLACE_PRIORITY :: u32 where "UNIQUE_REPLACE_PRIORITY = push_bit 2 1"
definition UNIQUE_REPLACE_MAX_ATTEMPTS :: u32 where "UNIQUE_REPLACE_MAX_ATTEMPTS = push_bit 3 1"
definition UNIQUE_REPLACE_ALL :: u32 where
  "UNIQUE_REPLACE_ALL = UNIQUE_REPLACE_PAYLOAD OR UNIQUE_REPLACE_SCHEDULED_AT
     OR UNIQUE_REPLACE_PRIORITY OR UNIQUE_REPLACE_MAX_ATTEMPTS"

lemmas unique_replace_defs =
  UNIQUE_REPLACE_PAYLOAD_def UNIQUE_REPLACE_SCHEDULED_AT_def UNIQUE_REPLACE_PRIORITY_def
  UNIQUE_REPLACE_MAX_ATTEMPTS_def UNIQUE_REPLACE_ALL_def

section \<open>Identity: fingerprints, unique keys, tags\<close>

text \<open>\<open>u32::to_le_bytes\<close> and \<open>u32::to_be_bytes\<close> of a length cast with \<open>as u32\<close>.\<close>

definition be_bytes32 :: "nat \<Rightarrow> bytes" where
  "be_bytes32 n = map (\<lambda>i. char_of (n div 256 ^ i mod 256)) [3, 2, 1, 0]"

definition le_bytes32 :: "nat \<Rightarrow> bytes" where
  "le_bytes32 n = rev (be_bytes32 n)"

definition fingerprint_preimage :: "string \<Rightarrow> bytes \<Rightarrow> bytes" where
  "fingerprint_preimage k p = le_bytes32 (length k) @ k @ le_bytes32 (length p) @ p"

text \<open>The digest function is the sha2 crate's, a parameter.\<close>

definition fingerprint_of :: "(bytes \<Rightarrow> bytes) \<Rightarrow> string \<Rightarrow> bytes \<Rightarrow> string" where
  "fingerprint_of sha256 k p =
     concat (map (\<lambda>b. show_hex 2 (of_char b)) (take 16 (sha256 (fingerprint_preimage k p))))"

definition effective_unique_key :: "envelope \<Rightarrow> bytes option" where
  "effective_unique_key e =
     (case unique_key e of
        None \<Rightarrow> None
      | Some raw \<Rightarrow>
          Some (char_of (1 :: nat) #
            (if unique_exclude_kind e then CHR ''G'' # raw
             else CHR ''K'' # be_bytes32 (length (kind e)) @ kind e @ raw)))"

definition canonical_tags :: "string list \<Rightarrow> string list" where
  "canonical_tags ts = sort_dedup ts"

lemma length_be_bytes32 [simp]: "length (be_bytes32 n) = 4"
  by (simp add: be_bytes32_def)

lemma length_le_bytes32 [simp]: "length (le_bytes32 n) = 4"
  by (simp add: le_bytes32_def)

lemma be_bytes32_inj:
  assumes "m < 2 ^ 32" "n < 2 ^ 32" "be_bytes32 m = be_bytes32 n"
  shows "m = n"
proof -
  have digits: "k = k div 16777216 mod 256 * 16777216 + k div 65536 mod 256 * 65536
      + k div 256 mod 256 * 256 + k mod 256" if "k < 2 ^ 32" for k :: nat
  proof -
    have "k = k div 256 * 256 + k mod 256"
      and "k div 256 = k div 65536 * 256 + k div 256 mod 256"
      and "k div 65536 = k div 16777216 * 256 + k div 65536 mod 256"
      using div_mult_mod_eq [of "k div 256" 256] div_mult_mod_eq [of "k div 65536" 256]
      by (simp_all add: div_mult2_eq [symmetric])
    moreover have "k div 16777216 mod 256 = k div 16777216" using that by simp
    ultimately show ?thesis by linarith
  qed
  have vals: "map of_char (be_bytes32 k) =
      [k div 16777216 mod 256, k div 65536 mod 256, k div 256 mod 256, k mod (256 :: nat)]" for k
    by (simp add: be_bytes32_def)
  from arg_cong [OF assms(3), of "map (of_char :: char \<Rightarrow> nat)"]
  have eqs: "m div 16777216 mod 256 = n div 16777216 mod 256"
    "m div 65536 mod 256 = n div 65536 mod 256" "m div 256 mod 256 = n div 256 mod 256"
    "m mod 256 = n mod 256"
    unfolding vals by (simp_all only: list.inject)
  show ?thesis
    by (subst digits [OF assms(1)], subst digits [OF assms(2)]) (simp only: eqs)
qed

lemma le_bytes32_inj: "m < 2 ^ 32 \<Longrightarrow> n < 2 ^ 32 \<Longrightarrow> le_bytes32 m = le_bytes32 n \<Longrightarrow> m = n"
  by (simp add: le_bytes32_def be_bytes32_inj)

end
