(* ===== verification/Boundary.thy ===== *)
theory Boundary
  imports Envelope
begin

text \<open>
  The boundary checks of headgate-core: task kinds, progress reports, opaque results, rate
  classes, concurrency limits, and \<open>validate_enqueue\<close>, the one validation that every backend's
  enqueue runs before it writes.
\<close>

unbundle bit_operations_syntax

section \<open>Kinds\<close>

definition word_char :: "char \<Rightarrow> bool" where
  "word_char c \<longleftrightarrow>
     (let n = of_char c :: nat
      in (48 \<le> n \<and> n \<le> 57) \<or> (65 \<le> n \<and> n \<le> 90) \<or> (97 \<le> n \<and> n \<le> 122) \<or> c = CHR ''_'')"

definition kind_ok :: "string \<Rightarrow> bool" where
  "kind_ok k \<longleftrightarrow>
     k \<noteq> [] \<and> length k \<le> 128 \<and> word_char (hd k) \<and>
     list_all (\<lambda>c. word_char c \<or> c \<in> set ''-[]<>/.:+'') (drop 1 k)"

definition validate_kind :: "string \<Rightarrow> string + unit" where
  "validate_kind k =
     (if kind_ok k then Inr ()
      else Inl (''invalid kind `'' @ k @
        ''`: 1-128 characters, first [A-Za-z0-9_], rest [A-Za-z0-9_] or one of -[]<>/.:+''))"

text \<open>The names of the registry in the order they are visited: each type, then its aliases.\<close>

definition registered_names :: "(string \<times> string list) list \<Rightarrow> string list" where
  "registered_names kinds = concat (map (\<lambda>(ty, aliases). ty # aliases) kinds)"

fun check_names :: "string set \<Rightarrow> string list \<Rightarrow> string + unit" where
  "check_names seen [] = Inr ()"
| "check_names seen (k # ks) =
     (case validate_kind k of
        Inl e \<Rightarrow> Inl e
      | Inr _ \<Rightarrow>
          if k \<in> seen then Inl (''kind `'' @ k @ ''` is registered more than once'')
          else check_names (insert k seen) ks)"

definition check_kind_collisions :: "(string \<times> string list) list \<Rightarrow> string + unit" where
  "check_kind_collisions kinds = check_names {} (registered_names kinds)"

lemma validate_kind_Inr [simp]: "validate_kind k = Inr () \<longleftrightarrow> kind_ok k"
  by (simp add: validate_kind_def)

lemma check_names_Inr:
  "check_names seen ks = Inr () \<longleftrightarrow> list_all kind_ok ks \<and> distinct ks \<and> set ks \<inter> seen = {}"
proof (induction ks arbitrary: seen)
  case Nil
  then show ?case by simp
next
  case (Cons k ks)
  show ?case
  proof (cases "kind_ok k")
    case True
    then show ?thesis by (auto simp: Cons.IH validate_kind_def)
  next
    case False
    then show ?thesis by (simp add: validate_kind_def)
  qed
qed

section \<open>Progress, opaque values, policy configuration\<close>

record job_result =
  res_schema_version :: u32
  res_bytes :: bytes

record job_output =
  out_schema_version :: u32
  out_bytes :: bytes
  out_fence :: u64
  out_updated_at_ms :: i64

record progress_update =
  pu_current :: u64
  pu_total :: u64
  pu_message :: "string option"

record job_progress =
  jp_current :: u64
  jp_total :: u64
  jp_message :: "string option"
  jp_fence :: u64
  jp_updated_at_ms :: i64

definition MAX_OPAQUE_BYTES :: nat where "MAX_OPAQUE_BYTES = 32 * 1024 * 1024"
definition MAX_PROGRESS_VALUE :: u64 where "MAX_PROGRESS_VALUE = 9007199254740991"
definition MAX_PROGRESS_MESSAGE_BYTES :: nat where "MAX_PROGRESS_MESSAGE_BYTES = 512"

definition validate_opaque_value :: "string \<Rightarrow> job_result \<Rightarrow> unit result" where
  "validate_opaque_value subject v =
     (case validate_opaque_schema (res_schema_version v) of
        Opaque_Zero \<Rightarrow> Inl (Invalid (subject @ '' schema_version must be greater than zero''))
      | Opaque_TooLarge \<Rightarrow>
          Inl (Invalid (subject @ '' schema_version exceeds the portable signed-integer limit''))
      | Opaque_Valid \<Rightarrow>
          if length (res_bytes v) > MAX_OPAQUE_BYTES
          then Inl (Invalid (subject @ '' bytes exceed the 32 MiB limit''))
          else Inr ())"

definition validate_progress :: "progress_update \<Rightarrow> unit result" where
  "validate_progress u =
     (if pu_total u = 0 then Inl (Invalid ''progress total must be greater than zero'')
      else if pu_current u > pu_total u then
        Inl (Invalid ''progress current must not exceed total'')
      else if pu_total u > MAX_PROGRESS_VALUE then
        Inl (Invalid ''progress total exceeds the portable JSON safe-integer limit'')
      else case pu_message u of
        None \<Rightarrow> Inr ()
      | Some message \<Rightarrow>
          if length message > MAX_PROGRESS_MESSAGE_BYTES then
            Inl (Invalid ''progress message exceeds the 512-byte limit'')
          else if char_of (0 :: nat) \<in> set message then
            Inl (Invalid ''progress message must not contain NUL'')
          else Inr ())"

record rate_class_config =
  rcc_name :: string
  rcc_limit :: i64
  rcc_window_ms :: i64
  rcc_burst :: i64
  rcc_paused :: bool

definition validate_rate_class_config :: "rate_class_config \<Rightarrow> unit result" where
  "validate_rate_class_config cfg =
     (if rcc_window_ms cfg < 1 then Inl (Invalid ''window_ms must be >= 1'')
      else if rcc_limit cfg < 0 \<or> rcc_burst cfg < 1 then
        Inl (Invalid ''limit must be >= 0 and burst >= 1'')
      else Inr ())"

datatype saturation_strategy =
  Saturation_Queue | Saturation_Discard | Saturation_CancelRunning | Saturation_CancelIncoming

fun saturation_as_str :: "saturation_strategy \<Rightarrow> string" where
  "saturation_as_str Saturation_Queue = ''queue''"
| "saturation_as_str Saturation_Discard = ''discard''"
| "saturation_as_str Saturation_CancelRunning = ''cancel_running''"
| "saturation_as_str Saturation_CancelIncoming = ''cancel_incoming''"

definition saturation_try_from :: "string \<Rightarrow> saturation_strategy result" where
  "saturation_try_from value =
     (if value = ''queue'' then Inr Saturation_Queue
      else if value = ''discard'' then Inr Saturation_Discard
      else if value = ''cancel_running'' then Inr Saturation_CancelRunning
      else if value = ''cancel_incoming'' then Inr Saturation_CancelIncoming
      else Inl (Invalid (''unknown saturation strategy `'' @ value @ ''`'')))"

record concurrency_limit_config =
  clc_name :: string
  clc_queue :: string
  clc_max_concurrent :: u64
  clc_on_saturated :: saturation_strategy

definition validate_concurrency_limit :: "concurrency_limit_config \<Rightarrow> i64 result" where
  "validate_concurrency_limit cfg =
     (if clc_name cfg = [] \<or> clc_queue cfg = [] then
        Inl (Invalid ''name and queue must not be empty'')
      else if clc_max_concurrent cfg = 0 then Inl (Invalid ''max_concurrent must be >= 1'')
      else case i64_of_nat (unat (clc_max_concurrent cfg)) of
        None \<Rightarrow> Inl (Invalid ''max_concurrent is too large'')
      | Some n \<Rightarrow> Inr n)"

definition SCHEDULE_EVENT_LIMIT :: u32 where "SCHEDULE_EVENT_LIMIT = 100"
definition DURABLE_EVENT_LIMIT :: u32 where "DURABLE_EVENT_LIMIT = 100"

definition validate_schedule_event_limit :: "u32 \<Rightarrow> unit result" where
  "validate_schedule_event_limit limit =
     (if limit = 0 \<or> limit > SCHEDULE_EVENT_LIMIT then
        Inl (Invalid ''schedule event limit must be between 1 and 100'')
      else Inr ())"

definition validate_durable_event_limit :: "u32 \<Rightarrow> unit result" where
  "validate_durable_event_limit limit =
     (if limit = 0 \<or> limit > DURABLE_EVENT_LIMIT then
        Inl (Invalid ''durable event limit must be between 1 and 100'')
      else Inr ())"

definition validate_ack_request :: "outcome \<Rightarrow> i64 option \<Rightarrow> unit result" where
  "validate_ack_request outcome delay_ms =
     (case validate_ack outcome delay_ms of
        Ack_LeaseLost \<Rightarrow> Inl (Invalid ''lease_lost is applied by the reclaimer, not acked'')
      | Ack_SnoozeDelayRequired \<Rightarrow> Inl (Invalid ''snooze requires delay_ms > 0'')
      | Ack_Valid \<Rightarrow> Inr ())"

section \<open>Enqueue validation\<close>

definition MAX_ENQUEUE_BATCH_SIZE :: nat where "MAX_ENQUEUE_BATCH_SIZE = 1000"
definition MAX_JOB_PAYLOAD_BYTES :: nat where "MAX_JOB_PAYLOAD_BYTES = 2 ^ 20"
definition MAX_JOB_HEADERS_BYTES :: nat where "MAX_JOB_HEADERS_BYTES = 64 * 2 ^ 10"
definition MAX_JOB_HEADER_COUNT :: nat where "MAX_JOB_HEADER_COUNT = 128"
definition MAX_JOB_IDENTIFIER_LEN :: nat where "MAX_JOB_IDENTIFIER_LEN = 255"
definition MAX_UNIQUE_KEY_BYTES :: nat where "MAX_UNIQUE_KEY_BYTES = 2 ^ 10"
definition MAX_ENQUEUE_BYTES :: nat where "MAX_ENQUEUE_BYTES = 16 * 2 ^ 20"

definition enqueue_queue :: "envelope \<Rightarrow> string" where
  "enqueue_queue e = effective_queue (queue e)"

definition same_job_content :: "envelope \<Rightarrow> string \<Rightarrow> string \<Rightarrow> string \<Rightarrow> bool" where
  "same_job_content e k fp q \<longleftrightarrow> kind e = k \<and> fingerprint e = fp \<and> enqueue_queue e = q"

definition unique_key_len :: "envelope \<Rightarrow> nat" where
  "unique_key_len e = (case unique_key e of None \<Rightarrow> 0 | Some k \<Rightarrow> length k)"

definition unique_key_missing :: "envelope \<Rightarrow> bool" where
  "unique_key_missing e \<longleftrightarrow> (case unique_key e of None \<Rightarrow> True | Some k \<Rightarrow> k = [])"

definition header_bytes :: "envelope \<Rightarrow> nat" where
  "header_bytes e = sum_list (map (\<lambda>(k, v). length k + length v) (headers e))"

definition identifier_fields :: "envelope \<Rightarrow> (string \<times> string) list" where
  "identifier_fields e =
     [(''envelope id'', env_id e), (''queue'', queue e), (''partition_key'', partition_key e),
      (''rate_class'', rate_class e), (''fingerprint'', fingerprint e),
      (''periodic_schedule_id'', periodic_schedule_id e)]"

definition envelope_bytes :: "envelope \<Rightarrow> nat" where
  "envelope_bytes e =
     length (payload e) + header_bytes e + length (env_id e) + length (kind e) + length (queue e)
     + length (partition_key e) + length (rate_class e) + length (fingerprint e)
     + unique_key_len e"

text \<open>The tag loop, with the running byte total.\<close>

fun validate_tags :: "string set \<Rightarrow> nat \<Rightarrow> string list \<Rightarrow> nat result" where
  "validate_tags seen tot [] = Inr tot"
| "validate_tags seen tot (tag # ts) =
     (if tag = [] \<or> length tag > 64 \<or> \<not> list_all is_ascii tag then
        Inl (Invalid ''each tag must be 1-64 ASCII bytes'')
      else if tag \<in> seen then Inl (Invalid ''tags must not contain duplicates'')
      else validate_tags (insert tag seen) (tot + length tag) ts)"

text \<open>The fields up to the tags: the checks of one loop iteration in the order of the source,
  with the running total before the tags as the result.\<close>

definition validate_fields :: "nat \<Rightarrow> envelope \<Rightarrow> nat result" where
  "validate_fields tot e =
     reject_if (env_id e = []) (Invalid ''envelope id must not be empty'')
     (case validate_kind (kind e) of
        Inl m \<Rightarrow> Inl (Invalid m)
      | Inr _ \<Rightarrow>
     (case find (\<lambda>(name, v). length v > MAX_JOB_IDENTIFIER_LEN) (identifier_fields e) of
        Some (name, _) \<Rightarrow> Inl (Invalid (name @ '' must be at most 255 bytes''))
      | None \<Rightarrow>
     reject_if (length (payload e) > MAX_JOB_PAYLOAD_BYTES)
       (Invalid ''payload must be at most 1048576 bytes'')
     (reject_if (unique_key_len e > MAX_UNIQUE_KEY_BYTES)
       (Invalid ''unique_key must be at most 1024 bytes'')
     (reject_if (length (headers e) > MAX_JOB_HEADER_COUNT)
       (Invalid ''headers must contain at most 128 values'')
     (reject_if (header_bytes e > MAX_JOB_HEADERS_BYTES)
       (Invalid ''headers must total at most 65536 bytes'')
     (reject_if (tot + envelope_bytes e > MAX_ENQUEUE_BYTES)
       (Invalid ''enqueue batch data must total at most 16777216 bytes'')
     (reject_if (timeout_ms e < 0) (Invalid ''timeout_ms must be >= 0'')
     (reject_if (deadline_ms e < 0) (Invalid ''deadline_ms must be >= 0'')
     (reject_if (retention_ms e < 0) (Invalid ''retention_ms must be >= 0'')
     (reject_if (unique_window_ms e < 0) (Invalid ''unique_window_ms must be >= 0'')
     (reject_if (unique_debounce_ms e < 0) (Invalid ''unique_debounce_ms must be >= 0'')
     (reject_if (unique_debounce_ms e > 0 \<and> (unique_key_missing e \<or> unique_window_ms e > 0))
       (Invalid ''unique_debounce_ms requires lifecycle unique_key'')
     (reject_if (unique_replace e AND NOT UNIQUE_REPLACE_ALL \<noteq> 0)
       (Invalid ''unique_replace contains unknown fields'')
     (reject_if (unique_replace e \<noteq> 0 \<and> unique_key_missing e)
       (Invalid ''unique_replace requires unique_key'')
     (reject_if (length (tags e) > 32) (Invalid ''tags must contain at most 32 values'')
       (Inr (tot + envelope_bytes e)))))))))))))))))"

text \<open>The rest of the iteration, after the tags. The byte totals of the source saturate at
  \<open>usize::MAX\<close>, far above the limit they are compared with.\<close>

definition validate_routing :: "string set \<Rightarrow> nat \<Rightarrow> envelope \<Rightarrow> nat result" where
  "validate_routing seen tot e =
     (let tot' = tot + length (sticky_worker e) + length (periodic_schedule_id e)
      in reject_if (tot' > MAX_ENQUEUE_BYTES)
           (Invalid ''enqueue batch data must total at most 16777216 bytes'')
         (reject_if (pending e \<and> scheduled_at_ms e \<noteq> 0)
           (Invalid ''pending jobs cannot also set scheduled_at_ms'')
         (reject_if (sticky_worker e \<noteq> [] \<and>
             (length (sticky_worker e) > 255 \<or> \<not> list_all is_ascii (sticky_worker e)))
           (Invalid ''sticky_worker must be at most 255 ASCII bytes'')
         (reject_if ((periodic_schedule_id e = []) \<noteq> (periodic_tick_ms e = 0)
             \<or> periodic_tick_ms e < 0)
           (Invalid ''periodic_schedule_id and positive periodic_tick_ms must be set together'')
         (reject_if (env_id e \<in> seen) (IdConflict (env_id e))
           (Inr tot'))))))"

definition validate_one :: "string set \<Rightarrow> nat \<Rightarrow> envelope \<Rightarrow> nat result" where
  "validate_one seen tot e =
     (case validate_fields tot e of
        Inl err \<Rightarrow> Inl err
      | Inr t1 \<Rightarrow>
          (case validate_tags {} t1 (tags e) of
             Inl err \<Rightarrow> Inl err
           | Inr t2 \<Rightarrow> validate_routing seen t2 e))"

fun validate_all :: "string set \<Rightarrow> nat \<Rightarrow> envelope list \<Rightarrow> unit result" where
  "validate_all seen tot [] = Inr ()"
| "validate_all seen tot (e # es) =
     (case validate_one seen tot e of
        Inl err \<Rightarrow> Inl err
      | Inr tot' \<Rightarrow> validate_all (insert (env_id e) seen) tot' es)"

definition validate_enqueue :: "envelope list \<Rightarrow> unit result" where
  "validate_enqueue batch =
     reject_if (length batch > MAX_ENQUEUE_BATCH_SIZE)
       (Invalid ''enqueue batch must contain at most 1000 jobs'')
     (case validate_all {} 0 batch of
        Inl err \<Rightarrow> Inl err
      | Inr _ \<Rightarrow>
          reject_if (length batch \<noteq> 1 \<and>
              list_ex (\<lambda>e. unique_replace e \<noteq> 0 \<or> unique_debounce_ms e > 0) batch)
            (Invalid ''unique replacement and debounce require a single-job enqueue'')
            (Inr ()))"

section \<open>What the validation accepts\<close>

definition tag_ok :: "string \<Rightarrow> bool" where
  "tag_ok t \<longleftrightarrow> t \<noteq> [] \<and> length t \<le> 64 \<and> list_all is_ascii t"

definition fields_valid :: "envelope \<Rightarrow> bool" where
  "fields_valid e \<longleftrightarrow>
     env_id e \<noteq> [] \<and> kind_ok (kind e) \<and>
     (\<forall>(name, v) \<in> set (identifier_fields e). length v \<le> MAX_JOB_IDENTIFIER_LEN) \<and>
     length (payload e) \<le> MAX_JOB_PAYLOAD_BYTES \<and> unique_key_len e \<le> MAX_UNIQUE_KEY_BYTES \<and>
     length (headers e) \<le> MAX_JOB_HEADER_COUNT \<and> header_bytes e \<le> MAX_JOB_HEADERS_BYTES \<and>
     0 \<le> timeout_ms e \<and> 0 \<le> deadline_ms e \<and> 0 \<le> retention_ms e \<and>
     0 \<le> unique_window_ms e \<and> 0 \<le> unique_debounce_ms e \<and>
     (0 < unique_debounce_ms e \<longrightarrow> \<not> unique_key_missing e \<and> unique_window_ms e = 0) \<and>
     unique_replace e AND NOT UNIQUE_REPLACE_ALL = 0 \<and>
     (unique_replace e \<noteq> 0 \<longrightarrow> \<not> unique_key_missing e) \<and>
     length (tags e) \<le> 32"

definition routing_valid :: "envelope \<Rightarrow> bool" where
  "routing_valid e \<longleftrightarrow>
     (pending e \<longrightarrow> scheduled_at_ms e = 0) \<and>
     length (sticky_worker e) \<le> 255 \<and> list_all is_ascii (sticky_worker e) \<and>
     (periodic_schedule_id e = [] \<longleftrightarrow> periodic_tick_ms e = 0) \<and> 0 \<le> periodic_tick_ms e"

definition envelope_valid :: "envelope \<Rightarrow> bool" where
  "envelope_valid e \<longleftrightarrow>
     fields_valid e \<and> list_all tag_ok (tags e) \<and> distinct (tags e) \<and> routing_valid e"

definition envelope_total :: "envelope \<Rightarrow> nat" where
  "envelope_total e =
     envelope_bytes e + sum_list (map length (tags e)) + length (sticky_worker e)
     + length (periodic_schedule_id e)"

lemma validate_fields_iff:
  "validate_fields tot e = Inr t \<longleftrightarrow>
   fields_valid e \<and> tot + envelope_bytes e \<le> MAX_ENQUEUE_BYTES \<and> t = tot + envelope_bytes e"
proof (cases "kind_ok (kind e) \<and>
    find (\<lambda>(name, v). length v > MAX_JOB_IDENTIFIER_LEN) (identifier_fields e) = None")
  case False
  then have "\<not> (kind_ok (kind e) \<and>
      (\<forall>(name, v) \<in> set (identifier_fields e). length v \<le> MAX_JOB_IDENTIFIER_LEN))"
    by (fastforce simp: find_None_iff)
  then have "\<not> fields_valid e" unfolding fields_valid_def by blast
  moreover from False have "validate_fields tot e \<noteq> Inr t"
    by (auto simp: validate_fields_def validate_kind_def split: option.splits)
  ultimately show ?thesis by simp
next
  case True
  then have k: "validate_kind (kind e) = Inr ()"
    and d: "find (\<lambda>(name, v). length v > MAX_JOB_IDENTIFIER_LEN) (identifier_fields e) = None"
    by simp_all
  from d have ids: "\<forall>(name, v) \<in> set (identifier_fields e). length v \<le> MAX_JOB_IDENTIFIER_LEN"
    by (fastforce simp: find_None_iff)
  show ?thesis
    unfolding validate_fields_def k d fields_valid_def
    using True ids by (auto simp: not_less)
qed

lemma validate_tags_iff:
  "validate_tags seen tot ts = Inr t \<longleftrightarrow>
   list_all tag_ok ts \<and> distinct ts \<and> set ts \<inter> seen = {} \<and> t = tot + sum_list (map length ts)"
proof (induction ts arbitrary: seen tot)
  case (Cons tag ts)
  show ?case
  proof (cases "tag_ok tag \<and> tag \<notin> seen")
    case True
    then have "validate_tags seen tot (tag # ts)
        = validate_tags (insert tag seen) (tot + length tag) ts"
      by (simp add: tag_ok_def not_less)
    with True Cons [of "insert tag seen" "tot + length tag"] show ?thesis by auto
  next
    case False
    then have "validate_tags seen tot (tag # ts) \<noteq> Inr t" by (auto simp: tag_ok_def)
    with False show ?thesis by auto
  qed
qed auto

lemma validate_routing_iff:
  "validate_routing seen tot e = Inr t \<longleftrightarrow>
   routing_valid e \<and> env_id e \<notin> seen \<and>
   t = tot + length (sticky_worker e) + length (periodic_schedule_id e) \<and> t \<le> MAX_ENQUEUE_BYTES"
  by (auto simp: validate_routing_def Let_def routing_valid_def)

lemma validate_one_iff:
  "validate_one seen tot e = Inr t \<longleftrightarrow>
   envelope_valid e \<and> env_id e \<notin> seen \<and> t = tot + envelope_total e \<and> t \<le> MAX_ENQUEUE_BYTES"
proof -
  have "validate_one seen tot e = Inr t \<longleftrightarrow>
      (\<exists>t1 t2. validate_fields tot e = Inr t1 \<and> validate_tags {} t1 (tags e) = Inr t2 \<and>
         validate_routing seen t2 e = Inr t)"
    by (auto simp: validate_one_def split: sum.splits)
  also have "\<dots> \<longleftrightarrow> envelope_valid e \<and> env_id e \<notin> seen \<and> t = tot + envelope_total e \<and>
      t \<le> MAX_ENQUEUE_BYTES"
    by (auto simp: validate_fields_iff validate_tags_iff validate_routing_iff envelope_valid_def
        envelope_total_def)
  finally show ?thesis .
qed

lemma validate_all_iff:
  "validate_all seen tot es = Inr () \<longleftrightarrow>
   (\<forall>e \<in> set es. envelope_valid e) \<and> distinct (map env_id es) \<and> env_id ` set es \<inter> seen = {} \<and>
   (es = [] \<or> tot + sum_list (map envelope_total es) \<le> MAX_ENQUEUE_BYTES)"
proof (induction es arbitrary: seen tot)
  case (Cons e es)
  have "validate_all seen tot (e # es) = Inr () \<longleftrightarrow>
      (\<exists>t. validate_one seen tot e = Inr t \<and> validate_all (insert (env_id e) seen) t es = Inr ())"
    by (auto split: sum.splits)
  with Cons show ?case by (cases "es = []") (auto simp: validate_one_iff)
qed simp

lemma validate_enqueue_Inr:
  "validate_enqueue batch = Inr () \<longleftrightarrow>
   length batch \<le> MAX_ENQUEUE_BATCH_SIZE \<and> (\<forall>e \<in> set batch. envelope_valid e) \<and>
   distinct (map env_id batch) \<and>
   sum_list (map envelope_total batch) \<le> MAX_ENQUEUE_BYTES \<and>
   (length batch \<noteq> 1 \<longrightarrow> (\<forall>e \<in> set batch. unique_replace e = 0 \<and> unique_debounce_ms e \<le> 0))"
proof (cases "validate_all {} 0 batch = Inr ()")
  case True
  then show ?thesis
    using validate_all_iff [of "{}" 0 batch]
    by (auto simp: validate_enqueue_def list_ex_iff not_less MAX_ENQUEUE_BYTES_def)
next
  case False
  then have "validate_enqueue batch \<noteq> Inr ()"
    by (auto simp: validate_enqueue_def split: sum.splits)
  with False show ?thesis using validate_all_iff [of "{}" 0 batch] by auto
qed

section \<open>Properties\<close>

text \<open>C35. The boundary validation accepts a batch exactly when it has at most a thousand jobs,
  every envelope satisfies the field, tag and routing rules, no id is repeated, the whole batch
  is within the byte budget, and replacement or debounce is asked for only by a batch of one
  job.\<close>

theorem validate_enqueue_characterised:
  "validate_enqueue batch = Inr () \<longleftrightarrow>
   length batch \<le> 1000 \<and> (\<forall>e \<in> set batch. envelope_valid e) \<and> distinct (map env_id batch) \<and>
   sum_list (map envelope_total batch) \<le> 16777216 \<and>
   (length batch \<noteq> 1 \<longrightarrow> (\<forall>e \<in> set batch. unique_replace e = 0 \<and> unique_debounce_ms e \<le> 0))"
  unfolding validate_enqueue_Inr MAX_ENQUEUE_BATCH_SIZE_def MAX_ENQUEUE_BYTES_def by simp

theorem validate_enqueue_characterised_witness:
  "validate_enqueue [envelope_default\<lparr>env_id := ''j1'', kind := ''mail''\<rparr>] = Inr () \<and>
   validate_enqueue [envelope_default\<lparr>env_id := ''j1'', kind := ''mail''\<rparr>,
     envelope_default\<lparr>env_id := ''j1'', kind := ''mail''\<rparr>] \<noteq> Inr ()"
proof -
  define e where "e = envelope_default\<lparr>env_id := ''j1'', kind := ''mail''\<rparr>"
  have "envelope_valid e"
    by (simp add: e_def envelope_default_def envelope_valid_def fields_valid_def routing_valid_def
        identifier_fields_def unique_key_len_def unique_key_missing_def header_bytes_def
        kind_ok_def word_char_def MAX_JOB_IDENTIFIER_LEN_def)
  moreover have "envelope_total e = 6"
    by (simp add: e_def envelope_default_def envelope_total_def envelope_bytes_def header_bytes_def
        unique_key_len_def)
  ultimately show ?thesis
    using validate_enqueue_characterised [of "[e]"] validate_enqueue_characterised [of "[e, e]"]
    by (simp add: e_def)
qed

text \<open>A registry passes the collision check exactly when every type name and alias obeys the
  kind rule and all of them are pairwise different, so a kind never dispatches to two
  handlers.\<close>

theorem check_kind_collisions_correct:
  "check_kind_collisions kinds = Inr () \<longleftrightarrow>
   list_all kind_ok (registered_names kinds) \<and> distinct (registered_names kinds)"
  by (simp add: check_kind_collisions_def check_names_Inr)

end
