(* ===== verification/Claims.thy ===== *)
theory Claims
  imports Boundary
begin

text \<open>
  Leases, claims and admission units of headgate-core, the grouping of claims into handler
  units, and the noisy-neighbour classification of partitions.
\<close>

section \<open>Requests, leases, claims\<close>

record admit_request =
  req_worker :: string
  req_lease_id :: string
  req_queues :: "string list"
  req_capacity :: u32
  req_lease :: duration
  req_quantum :: i64

definition normalize_admit_request :: "admit_request \<Rightarrow> (admit_request \<times> i64) result" where
  "normalize_admit_request req =
     (let req' = req\<lparr>req_queues := normalize_queues (req_queues req)\<rparr>
      in case duration_millis (req_lease req') of
           None \<Rightarrow> Inl (Invalid ''lease must be >= 1ms'')
         | Some lease_ms \<Rightarrow> Inr (req', lease_ms))"

record lease_ref =
  lr_job_id :: string
  lr_lease_id :: string
  lr_fence :: u64

record claim =
  cl_envelope :: envelope
  cl_lease_id :: string
  cl_fence :: u64
  cl_expires_at_ms :: i64
  cl_checkpoint :: checkpoint

definition claim_lease_ref :: "claim \<Rightarrow> lease_ref" where
  "claim_lease_ref c =
     \<lparr>lr_job_id = env_id (cl_envelope c), lr_lease_id = cl_lease_id c, lr_fence = cl_fence c\<rparr>"

text \<open>An admission unit is its list of claims (the struct has that one field).\<close>

type_synonym admission_unit = "claim list"

definition unit_size :: "admission_unit \<Rightarrow> nat" where
  "unit_size u = length u"

record reclaimed =
  rc_job_id :: string
  rc_fingerprint :: string
  rc_crash_attempt :: u32
  rc_quarantined :: bool

section \<open>Grouping claims into units\<close>

abbreviation claim_kind :: "claim \<Rightarrow> string" where
  "claim_kind c \<equiv> kind (cl_envelope c)"

definition accepts :: "nat \<Rightarrow> claim \<Rightarrow> admission_unit \<Rightarrow> bool" where
  "accepts mx c u \<longleftrightarrow>
     length u < mx \<and> (case u of [] \<Rightarrow> False | first # _ \<Rightarrow> claim_kind first = claim_kind c)"

text \<open>\<open>units.iter_mut().rev().find(..)\<close>: the last unit that accepts the claim, searched in
  the reversed list.\<close>

fun push_rev :: "nat \<Rightarrow> claim \<Rightarrow> admission_unit list \<Rightarrow> admission_unit list option" where
  "push_rev mx c [] = None"
| "push_rev mx c (u # us) =
     (if accepts mx c u then Some ((u @ [c]) # us)
      else map_option (\<lambda>us'. u # us') (push_rev mx c us))"

definition group_step :: "nat \<Rightarrow> admission_unit list \<Rightarrow> claim \<Rightarrow> admission_unit list" where
  "group_step mx units c =
     (case push_rev mx c (rev units) of Some us \<Rightarrow> rev us | None \<Rightarrow> units @ [[c]])"

definition group_admission_claims :: "claim list \<Rightarrow> u32 \<Rightarrow> admission_unit list" where
  "group_admission_claims claims max_unit_size =
     foldl (group_step (unat (max max_unit_size 1))) [] claims"

text \<open>
  The shape of the units: none is empty, none is above the bound, one kind each; and a unit
  that is not the last one of its kind is full. The reversed list is the one the code
  searches.
\<close>

definition unit_ok :: "nat \<Rightarrow> admission_unit \<Rightarrow> bool" where
  "unit_ok mx u \<longleftrightarrow> u \<noteq> [] \<and> length u \<le> mx \<and> (\<forall>c \<in> set u. claim_kind (hd u) = claim_kind c)"

fun units_rev_ok :: "nat \<Rightarrow> admission_unit list \<Rightarrow> bool" where
  "units_rev_ok mx [] \<longleftrightarrow> True"
| "units_rev_ok mx (u # us) \<longleftrightarrow>
     unit_ok mx u \<and> units_rev_ok mx us \<and>
     (\<forall>v \<in> set us. claim_kind (hd v) = claim_kind (hd u) \<longrightarrow> length v = mx)"

text \<open>The claims of one kind, oldest first, in a reversed list of units.\<close>

definition kind_claims :: "string \<Rightarrow> admission_unit list \<Rightarrow> claim list" where
  "kind_claims k us = filter (\<lambda>c. claim_kind c = k) (concat (rev us))"

lemma units_rev_ok_unit: "units_rev_ok mx us \<Longrightarrow> u \<in> set us \<Longrightarrow> unit_ok mx u"
  by (induction us) auto

lemma accepts_iff: "unit_ok mx u \<Longrightarrow>
    accepts mx c u \<longleftrightarrow> length u < mx \<and> claim_kind (hd u) = claim_kind c"
  by (cases u) (auto simp: accepts_def unit_ok_def)

lemma kind_claims_Cons:
  "kind_claims k (u # us) = kind_claims k us @ filter (\<lambda>c. claim_kind c = k) u"
  by (simp add: kind_claims_def)

lemma filter_other_kind:
  "unit_ok mx u \<Longrightarrow> claim_kind (hd u) \<noteq> k \<Longrightarrow> filter (\<lambda>c. claim_kind c = k) u = []"
  by (auto simp: unit_ok_def filter_empty_conv)

lemma push_rev_hd_kinds:
  "push_rev mx c us = Some us' \<Longrightarrow> units_rev_ok mx us \<Longrightarrow>
   (\<forall>v' \<in> set us'. \<exists>v \<in> set us. claim_kind (hd v') = claim_kind (hd v) \<and> length v \<le> length v')"
proof (induction us arbitrary: us')
  case (Cons u us)
  from Cons.prems(2) have "u \<noteq> []" by (auto simp: unit_ok_def)
  show ?case
  proof (cases "accepts mx c u")
    case True
    with Cons.prems(1) have "us' = (u @ [c]) # us" by simp
    with \<open>u \<noteq> []\<close> show ?thesis by auto
  next
    case False
    with Cons.prems(1) obtain vs where vs: "push_rev mx c us = Some vs" "us' = u # vs" by auto
    with Cons.IH [of vs] Cons.prems(2) show ?thesis by auto
  qed
qed simp

lemma push_rev_ok:
  assumes "push_rev mx c us = Some us'" "units_rev_ok mx us"
  shows "units_rev_ok mx us' \<and>
    (\<forall>k. kind_claims k us' = kind_claims k us @ (if claim_kind c = k then [c] else []))"
  using assms
proof (induction us arbitrary: us')
  case (Cons u us)
  show ?case
  proof (cases "accepts mx c u")
    case True
    with Cons.prems have us': "us' = (u @ [c]) # us" by simp
    from Cons.prems(2) have u: "unit_ok mx u" by simp
    with True have "length u < mx" "claim_kind (hd u) = claim_kind c"
      by (simp_all add: accepts_iff)
    with u Cons.prems(2) us' show ?thesis
      by (auto simp: kind_claims_Cons unit_ok_def)
  next
    case False
    with Cons.prems obtain vs where vs: "push_rev mx c us = Some vs" "us' = u # vs" by auto
    with Cons have IH: "units_rev_ok mx vs"
      "\<forall>k. kind_claims k vs = kind_claims k us @ (if claim_kind c = k then [c] else [])"
      by auto
    from Cons.prems(2) have u: "unit_ok mx u" by simp
    have full: "length v = mx" if "v \<in> set vs" "claim_kind (hd v) = claim_kind (hd u)" for v
    proof -
      from push_rev_hd_kinds [OF vs(1)] Cons.prems(2) that(1) obtain w where
        w: "w \<in> set us" "claim_kind (hd v) = claim_kind (hd w)" "length w \<le> length v"
        by auto
      with Cons.prems(2) that(2) have "length w = mx" by simp
      with w(3) units_rev_ok_unit [OF IH(1) that(1)] show ?thesis
        by (simp add: unit_ok_def)
    qed
    have other: "claim_kind c = k \<Longrightarrow> filter (\<lambda>c. claim_kind c = k) u = []" for k
    proof (rule filter_other_kind [OF u])
      assume k: "claim_kind c = k"
      show "claim_kind (hd u) \<noteq> k"
      proof
        assume hu: "claim_kind (hd u) = k"
        have none: "push_rev mx c ws = None"
          if "\<forall>v \<in> set ws. unit_ok mx v \<and> (claim_kind (hd v) = claim_kind (hd u) \<longrightarrow> length v = mx)"
          for ws
          using that hu k by (induction ws) (auto simp: accepts_iff)
        have "push_rev mx c us = None"
          using Cons.prems(2) by (intro none) (auto dest: units_rev_ok_unit)
        with vs(1) show False by simp
      qed
    qed
    with IH u full vs(2) show ?thesis by (auto simp: kind_claims_Cons)
  qed
qed simp

lemma push_rev_None:
  "push_rev mx c us = None \<Longrightarrow> u \<in> set us \<Longrightarrow> \<not> accepts mx c u"
  by (induction us) (auto split: if_splits)

lemma group_step_ok:
  assumes "units_rev_ok mx (rev units)" "1 \<le> mx"
  shows "units_rev_ok mx (rev (group_step mx units c)) \<and>
    (\<forall>k. kind_claims k (rev (group_step mx units c))
         = kind_claims k (rev units) @ (if claim_kind c = k then [c] else []))"
proof (cases "push_rev mx c (rev units)")
  case None
  have "length v = mx" if "v \<in> set units" "claim_kind (hd v) = claim_kind c" for v
    using push_rev_None [OF None, of v] that units_rev_ok_unit [OF assms(1), of v]
    by (auto simp: accepts_iff unit_ok_def)
  with None assms show ?thesis
    by (auto simp: group_step_def kind_claims_Cons unit_ok_def kind_claims_def)
next
  case (Some us)
  from push_rev_ok [OF this assms(1)] Some show ?thesis by (simp add: group_step_def)
qed

lemma group_foldl_ok:
  "units_rev_ok mx (rev units) \<Longrightarrow> 1 \<le> mx \<Longrightarrow>
   units_rev_ok mx (rev (foldl (group_step mx) units cs)) \<and>
   (\<forall>k. kind_claims k (rev (foldl (group_step mx) units cs))
        = kind_claims k (rev units) @ filter (\<lambda>c. claim_kind c = k) cs)"
proof (induction cs arbitrary: units)
  case (Cons c cs)
  from group_step_ok [OF Cons.prems, of c] Cons.IH [of "group_step mx units c"] Cons.prems(2)
  show ?case by auto
qed simp

section \<open>Noisy neighbours\<close>

definition partition_noisy :: "(string \<times> i64) list \<Rightarrow> nat \<Rightarrow> bool" where
  "partition_noisy loads i =
     (let n = max (snd (loads ! i)) 0;
          others = sum_list (map (\<lambda>j. max (snd (loads ! j)) 0)
                     (filter (\<lambda>j. j \<noteq> i) [0..<length loads]))
      in \<not> n < 2 \<and> n * (int (length loads) - 1) > 2 * others)"

definition noisy_partition_keys :: "(string \<times> i64) list \<Rightarrow> string list" where
  "noisy_partition_keys loads =
     (if length loads < 2 then []
      else sort_dedup (map (\<lambda>i. fst (loads ! i))
             (filter (partition_noisy loads) [0..<length loads])))"

section \<open>Properties\<close>

text \<open>Grouping claims into units loses, duplicates and reorders nothing within a kind: the
  claims of each kind, read through the units, are the claims of that kind in the order they
  were made; no unit is empty, larger than the bound (a bound of zero counts as one), or of
  mixed kinds; and only the last unit of a kind may be short.\<close>

theorem group_admission_claims_correct:
  "(\<forall>k. filter (\<lambda>c. claim_kind c = k) (concat (group_admission_claims claims m))
        = filter (\<lambda>c. claim_kind c = k) claims) \<and>
   (\<forall>u \<in> set (group_admission_claims claims m). unit_ok (unat (max m 1)) u) \<and>
   units_rev_ok (unat (max m 1)) (rev (group_admission_claims claims m))"
proof -
  define us where "us = group_admission_claims claims m"
  have "(1 :: u32) \<le> max m 1" by simp
  then have "1 \<le> unat (max m 1)" using word_le_nat_alt [of 1 "max m 1"] by simp
  with group_foldl_ok [of "unat (max m 1)" "[]" claims]
  have ok: "units_rev_ok (unat (max m 1)) (rev us)"
    and k: "kind_claims k (rev us) = filter (\<lambda>c. claim_kind c = k) claims" for k
    by (simp_all add: us_def group_admission_claims_def kind_claims_def)
  from ok have "u \<in> set us \<Longrightarrow> unit_ok (unat (max m 1)) u" for u
    using units_rev_ok_unit [of _ "rev us" u] by simp
  with ok k show ?thesis by (simp add: kind_claims_def us_def)
qed

theorem group_admission_claims_correct_witness:
  "\<exists>c d. claim_kind c = ''a'' \<and> claim_kind d = ''b'' \<and>
     group_admission_claims [c, d, c, c] 2 = [[c, c], [d], [c]] \<and>
     (\<forall>u \<in> set (group_admission_claims [c, d, c, c] 2). unit_ok (unat (max (2 :: u32) 1)) u)"
proof -
  define e where "e k = \<lparr>cl_envelope = envelope_default\<lparr>kind := k\<rparr>, cl_lease_id = [], cl_fence = 0,
    cl_expires_at_ms = 0, cl_checkpoint = checkpoint_default\<rparr>" for k
  have k: "claim_kind (e k) = k" for k by (simp add: e_def)
  have "group_admission_claims [e ''a'', e ''b'', e ''a'', e ''a''] 2
      = [[e ''a'', e ''a''], [e ''b''], [e ''a'']]"
    by (simp add: group_admission_claims_def group_step_def accepts_def k)
  with k group_admission_claims_correct [of "[e ''a'', e ''b'', e ''a'', e ''a'']" 2]
  show ?thesis by blast
qed

end
