(* ===== verification/Trace.thy ===== *)
theory Trace
  imports Envelope
begin

text \<open>
  W3C trace context on the envelope (src/crates/headgate-core/src/lib.rs): the parser of a
  \<open>traceparent\<close> header, its printer, and the read of the two reserved headers at dispatch.
\<close>

unbundle bit_operations_syntax

record trace_context =
  trace_id :: string
  span_id :: string
  trace_flags :: u8
  trace_state :: string

definition TRACEPARENT :: string where "TRACEPARENT = ''traceparent''"
definition TRACESTATE :: string where "TRACESTATE = ''tracestate''"

definition sampled :: "trace_context \<Rightarrow> bool" where
  "sampled tc \<longleftrightarrow> trace_flags tc AND 1 \<noteq> 0"

definition to_traceparent :: "trace_context \<Rightarrow> string" where
  "to_traceparent tc =
     ''00-'' @ trace_id tc @ ''-'' @ span_id tc @ ''-'' @ show_hex 2 (unat (trace_flags tc))"

definition lower_hex_char :: "char \<Rightarrow> bool" where
  "lower_hex_char c \<longleftrightarrow>
     is_ascii_digit c \<or> (97 \<le> (of_char c :: nat) \<and> (of_char c :: nat) \<le> 102)"

definition is_lower_hex :: "string \<Rightarrow> nat \<Rightarrow> bool" where
  "is_lower_hex s len \<longleftrightarrow> length s = len \<and> list_all lower_hex_char s"

definition parse_traceparent :: "string \<Rightarrow> trace_context option" where
  "parse_traceparent value =
     (case split_on CHR ''-'' value of
        [version, tid, sid, flags] \<Rightarrow>
          if version \<noteq> ''00'' \<or> \<not> is_lower_hex tid 32 \<or> \<not> is_lower_hex sid 16
              \<or> \<not> is_lower_hex flags 2 then None
          else if list_all (\<lambda>b. b = CHR ''0'') tid \<or> list_all (\<lambda>b. b = CHR ''0'') sid then None
          else Some \<lparr>trace_id = tid, span_id = sid, trace_flags = of_nat (read_base 16 flags),
                     trace_state = []\<rparr>
      | _ \<Rightarrow> None)"

definition trace_context_of :: "(string \<times> string) list \<Rightarrow> trace_context option" where
  "trace_context_of hs =
     (case map_of hs TRACEPARENT of
        None \<Rightarrow> None
      | Some value \<Rightarrow>
          (case parse_traceparent value of
             None \<Rightarrow> None
           | Some tc \<Rightarrow>
               Some (tc\<lparr>trace_state :=
                 (case map_of hs TRACESTATE of None \<Rightarrow> [] | Some st \<Rightarrow> st)\<rparr>)))"

text \<open>A context the parser can return: both ids well formed and neither of them zero.\<close>

definition trace_ok :: "trace_context \<Rightarrow> bool" where
  "trace_ok tc \<longleftrightarrow>
     is_lower_hex (trace_id tc) 32 \<and> is_lower_hex (span_id tc) 16 \<and>
     \<not> list_all (\<lambda>b. b = CHR ''0'') (trace_id tc) \<and>
     \<not> list_all (\<lambda>b. b = CHR ''0'') (span_id tc)"

section \<open>Hexadecimal fields\<close>

lemma lower_hex_no_dash: "list_all lower_hex_char s \<Longrightarrow> CHR ''-'' \<notin> set s"
  by (auto simp: list_all_iff lower_hex_char_def is_ascii_digit_def)

lemma digit_char_lower_hex: "n < 16 \<Longrightarrow> lower_hex_char (digit_char n)"
  by (auto simp: lower_hex_char_def is_ascii_digit_def digit_char_def)

lemma digit_val_lower_hex: "lower_hex_char c \<Longrightarrow> digit_val c < 16"
  by (auto simp: lower_hex_char_def is_ascii_digit_def digit_val_def)

lemma digit_char_val: "lower_hex_char c \<Longrightarrow> digit_char (digit_val c) = c"
proof -
  assume "lower_hex_char c"
  then have "(of_char (digit_char (digit_val c)) :: nat) = of_char c"
    by (auto simp: lower_hex_char_def is_ascii_digit_def digit_val_def digit_char_def)
  then show ?thesis by simp
qed

lemma digit_char_zero: "digit_char 0 = CHR ''0''"
  by code_simp

lemma show_hex_byte:
  assumes "n < 256"
  shows "show_hex 2 n = [digit_char (n div 16), digit_char (n mod 16)]"
proof (cases "n < 16")
  case True
  then show ?thesis
    by (simp add: show_hex_def show_base.simps [of 16 n]) (simp add: digit_char_zero)
next
  case False
  with assms show ?thesis
    by (simp add: show_hex_def show_base.simps [of 16 n] show_base.simps [of 16 "n div 16"]
        div_less_iff_less_mult)
qed

lemma read_hex_pair: "read_base 16 [a, b] = 16 * digit_val a + digit_val b"
  by (simp add: read_base_def)

lemma hex_pair_split:
  assumes "is_lower_hex s 2"
  obtains a b where "s = [a, b]" "lower_hex_char a" "lower_hex_char b"
proof -
  from assms have "length s = Suc (Suc 0)" by (simp add: is_lower_hex_def)
  then obtain a b where "s = [a, b]" by (auto simp: length_Suc_conv)
  with assms that show ?thesis by (simp add: is_lower_hex_def)
qed

lemma hex_pair_value:
  assumes "is_lower_hex s 2"
  shows "read_base 16 s < 256"
proof -
  obtain a b where "s = [a, b]" "lower_hex_char a" "lower_hex_char b"
    using assms by (rule hex_pair_split)
  then show ?thesis
    using digit_val_lower_hex [of a] digit_val_lower_hex [of b] by (simp add: read_hex_pair)
qed

lemma show_read_hex_pair:
  assumes "is_lower_hex s 2"
  shows "show_hex 2 (read_base 16 s) = s"
proof -
  obtain a b where s: "s = [a, b]" "lower_hex_char a" "lower_hex_char b"
    using assms by (rule hex_pair_split)
  then have "16 * digit_val a + digit_val b < 256"
    using hex_pair_value [OF assms] by (simp add: read_hex_pair)
  with s show ?thesis
    by (simp add: show_hex_byte read_hex_pair digit_val_lower_hex digit_char_val)
qed

lemma read_show_hex_byte: "n < 256 \<Longrightarrow> read_base 16 (show_hex 2 n) = n"
  by (simp add: show_hex_byte read_hex_pair digit_val_digit_char div_less_iff_less_mult)

lemma show_hex_byte_lower: "n < 256 \<Longrightarrow> is_lower_hex (show_hex 2 n) 2"
  by (simp add: show_hex_byte is_lower_hex_def digit_char_lower_hex div_less_iff_less_mult)

lemma split_traceparent:
  assumes "list_all lower_hex_char tid" "list_all lower_hex_char sid" "list_all lower_hex_char fl"
  shows "split_on CHR ''-'' (''00-'' @ tid @ ''-'' @ sid @ ''-'' @ fl) = [''00'', tid, sid, fl]"
  using assms [THEN lower_hex_no_dash]
  by (simp add: split_on_append split_on_no_delim)

lemma parse_Some:
  assumes "parse_traceparent v = Some tc"
  shows "trace_ok tc" "trace_state tc = []" "v = to_traceparent tc"
proof -
  from assms obtain tid sid fl where sp: "split_on CHR ''-'' v = [''00'', tid, sid, fl]"
    and hex: "is_lower_hex tid 32" "is_lower_hex sid 16" "is_lower_hex fl 2"
    and nz: "\<not> list_all (\<lambda>b. b = CHR ''0'') tid" "\<not> list_all (\<lambda>b. b = CHR ''0'') sid"
    and tc: "tc = \<lparr>trace_id = tid, span_id = sid, trace_flags = of_nat (read_base 16 fl),
                   trace_state = []\<rparr>"
    by (auto simp: parse_traceparent_def split: list.splits if_splits)
  from hex nz tc show "trace_ok tc" "trace_state tc = []" by (simp_all add: trace_ok_def)
  have "unat (of_nat (read_base 16 fl) :: u8) = read_base 16 fl"
    using hex_pair_value [OF hex(3)] by (simp add: unat_of_nat)
  then have "to_traceparent tc = join_with ''-'' [''00'', tid, sid, fl]"
    using tc hex(3) by (simp add: to_traceparent_def show_read_hex_pair)
  also have "\<dots> = v" using join_split_on [of "CHR ''-''" v] sp by simp
  finally show "v = to_traceparent tc" by simp
qed

lemma parse_to_traceparent:
  assumes "trace_ok tc"
  shows "parse_traceparent (to_traceparent tc) = Some (tc\<lparr>trace_state := []\<rparr>)"
proof -
  have b: "unat (trace_flags tc) < 256"
    using unsigned_less [of "trace_flags tc", where ?'a = nat] by simp
  have "split_on CHR ''-'' (to_traceparent tc) =
      [''00'', trace_id tc, span_id tc, show_hex 2 (unat (trace_flags tc))]"
    using assms show_hex_byte_lower [OF b] unfolding to_traceparent_def
    by (intro split_traceparent) (simp_all add: trace_ok_def is_lower_hex_def)
  with assms b show ?thesis
    by (simp add: parse_traceparent_def trace_ok_def show_hex_byte_lower read_show_hex_byte)
qed

section \<open>Properties\<close>

text \<open>The \<open>traceparent\<close> parser and printer are inverse: every string the parser accepts is
  exactly what the printer writes for the context it returned (so nothing else is accepted), and
  what the printer writes for a well-formed context parses back to it, flags included, with the
  vendor state left to the other header.\<close>

theorem traceparent_roundtrip:
  "(parse_traceparent v = Some tc \<longleftrightarrow>
     trace_ok tc \<and> trace_state tc = [] \<and> v = to_traceparent tc) \<and>
   (trace_ok tc \<longrightarrow> parse_traceparent (to_traceparent tc) = Some (tc\<lparr>trace_state := []\<rparr>))"
proof (intro conjI iffI impI)
  assume p: "parse_traceparent v = Some tc"
  show "trace_ok tc" "trace_state tc = []" "v = to_traceparent tc"
    using parse_Some [OF p] by auto
next
  assume "trace_ok tc \<and> trace_state tc = [] \<and> v = to_traceparent tc"
  moreover from this have "tc\<lparr>trace_state := []\<rparr> = tc" by (cases tc) simp
  ultimately show "parse_traceparent v = Some tc" using parse_to_traceparent [of tc] by simp
next
  assume "trace_ok tc"
  then show "parse_traceparent (to_traceparent tc) = Some (tc\<lparr>trace_state := []\<rparr>)"
    by (rule parse_to_traceparent)
qed

theorem traceparent_roundtrip_witness:
  "parse_traceparent ''00-4bf92f3577b34da6a3ce929d0e0e4736-00f067aa0ba902b7-01''
   = Some \<lparr>trace_id = ''4bf92f3577b34da6a3ce929d0e0e4736'', span_id = ''00f067aa0ba902b7'',
           trace_flags = 1, trace_state = []\<rparr>"
proof -
  define tc where "tc = \<lparr>trace_id = ''4bf92f3577b34da6a3ce929d0e0e4736'',
    span_id = ''00f067aa0ba902b7'', trace_flags = 1, trace_state = []\<rparr>"
  have ok: "trace_ok tc" by (simp add: tc_def trace_ok_def is_lower_hex_def lower_hex_char_def
        is_ascii_digit_def)
  have "to_traceparent tc = ''00-4bf92f3577b34da6a3ce929d0e0e4736-00f067aa0ba902b7-01''"
    unfolding tc_def by code_simp
  with ok traceparent_roundtrip [of _ tc] show ?thesis by (simp add: tc_def)
qed

end
