(* ===== verification/MemStore.thy ===== *)
theory MemStore
  imports Claims
begin

text \<open>
  The in-memory store of headgate-testkit (src/crates/headgate-testkit/src/lib.rs): its rows,
  its indexes, its clock and helpers, and the invariant that every operation keeps. Every operation takes the store time
  \<open>now\<close> and the contents behind the mutex, and returns the new contents. An operation that
  fails may still have written (a replacement on a duplicate key does), so results come as a
  pair of the return value and the contents.
\<close>

unbundle bit_operations_syntax

section \<open>Rows and indexes\<close>

record mem_job =
  env :: envelope
  jstate :: string
  fence :: u64
  lease_id :: string
  lease_expires :: i64
  finalized_at :: i64
  jcheckpoint :: checkpoint
  errs :: "string list"
  rate_charge :: i64
  jresult :: "job_result option"
  joutput :: "job_output option"
  jprogress :: "job_progress option"

definition mem_job_default :: mem_job where
  "mem_job_default =
     \<lparr>env = envelope_default, jstate = [], fence = 0, lease_id = [], lease_expires = 0,
      finalized_at = 0, jcheckpoint = checkpoint_default, errs = [], rate_charge = 0,
      jresult = None, joutput = None, jprogress = None\<rparr>"

record rate_bucket =
  rb_tokens :: i64
  rb_burst :: i64
  rb_limit :: i64
  rb_window :: i64
  rb_refilled :: i64

record inner =
  jobs :: "string \<rightharpoonup> mem_job"
  unique :: "bytes \<rightharpoonup> string"
  throttle :: "bytes \<rightharpoonup> string \<times> i64"
  quarantine :: "string \<rightharpoonup> bool"
  paused :: "string \<rightharpoonup> bool"
  rate :: "string \<rightharpoonup> rate_bucket"
  duties :: "string \<rightharpoonup> string \<times> i64"
  rr :: "string \<rightharpoonup> nat"

definition inner_default :: inner where
  "inner_default =
     \<lparr>jobs = Map.empty, unique = Map.empty, throttle = Map.empty, quarantine = Map.empty,
      paused = Map.empty, rate = Map.empty, duties = Map.empty, rr = Map.empty\<rparr>"

datatype clock = System | Frozen i64

record mem_config =
  crash_limit :: u32
  retry_base_ms :: i64
  retry_cap_ms :: i64

definition mem_config_new :: mem_config where
  "mem_config_new = \<lparr>crash_limit = 3, retry_base_ms = 1000, retry_cap_ms = 3600000\<rparr>"

text \<open>The store clock; \<open>sys\<close> is the system time in milliseconds.\<close>

definition mem_now :: "clock \<Rightarrow> i64 \<Rightarrow> i64" where
  "mem_now c sys = (case c of System \<Rightarrow> sys | Frozen ms \<Rightarrow> ms)"

definition freeze_clock_at :: "i64 \<Rightarrow> clock" where
  "freeze_clock_at ms = Frozen ms"

definition unfreeze_clock :: clock where
  "unfreeze_clock = System"

definition advance_clock :: "clock \<Rightarrow> i64 \<Rightarrow> i64 \<Rightarrow> clock" where
  "advance_clock c sys by_ms = Frozen (wrap64 (mem_now c sys + by_ms))"

section \<open>Helpers\<close>

text \<open>\<open>counts\<close>, over the map's iteration order \<open>ord\<close>: the state of each counted row bumps
  its entry.\<close>

definition counts :: "string list \<Rightarrow> string option \<Rightarrow> inner \<Rightarrow> string \<rightharpoonup> nat" where
  "counts ord q s =
     foldl (\<lambda>out i.
       case jobs s i of
         None \<Rightarrow> out
       | Some j \<Rightarrow>
           if (case q of None \<Rightarrow> True | Some q' \<Rightarrow> q' = queue (env j))
           then out(jstate j \<mapsto> (case out (jstate j) of None \<Rightarrow> 0 | Some n \<Rightarrow> n) + 1)
           else out) Map.empty ord"

definition set_queue_paused :: "string \<Rightarrow> bool \<Rightarrow> inner \<Rightarrow> inner" where
  "set_queue_paused q p s = s\<lparr>paused := (paused s)(q \<mapsto> p)\<rparr>"

definition set_rate_limit :: "i64 \<Rightarrow> string \<Rightarrow> i64 \<Rightarrow> i64 \<Rightarrow> i64 \<Rightarrow> inner \<Rightarrow> inner" where
  "set_rate_limit now name limit window_ms burst s =
     s\<lparr>rate := (rate s)(name \<mapsto>
       \<lparr>rb_tokens = burst, rb_burst = burst, rb_limit = limit, rb_window = window_ms,
        rb_refilled = now\<rparr>)\<rparr>"

definition job_state :: "string \<Rightarrow> inner \<Rightarrow> (envelope \<times> string) option" where
  "job_state i s = map_option (\<lambda>j. (env j, jstate j)) (jobs s i)"

definition errors_of :: "string \<Rightarrow> inner \<Rightarrow> string list" where
  "errors_of i s = (case jobs s i of None \<Rightarrow> [] | Some j \<Rightarrow> errs j)"

text \<open>The shift amount is cast to \<open>u32\<close> and a shift uses its low six bits.\<close>

definition default_backoff :: "i64 \<Rightarrow> i64 \<Rightarrow> i64 \<Rightarrow> i64" where
  "default_backoff n base cap =
     (let shift = min (max (- (2 ^ 63)) (n - 1)) 20
      in min (wrap64 (base * 2 ^ nat (shift mod 64))) cap)"

definition release_unique :: "string \<Rightarrow> inner \<Rightarrow> inner" where
  "release_unique i s =
     (case jobs s i of
        None \<Rightarrow> s
      | Some j \<Rightarrow>
          (case effective_unique_key (env j) of
             None \<Rightarrow> s
           | Some k \<Rightarrow>
               if unique_window_ms (env j) = 0 \<and> unique s k = Some i
               then s\<lparr>unique := (unique s)(k := None)\<rparr> else s))"

definition drop_lease :: "mem_job \<Rightarrow> mem_job" where
  "drop_lease j = j\<lparr>lease_id := [], lease_expires := 0\<rparr>"

definition holds_lease :: "lease_ref \<Rightarrow> mem_job \<Rightarrow> bool" where
  "holds_lease lease j \<longleftrightarrow>
     jstate j = ''running'' \<and> lease_id j = lr_lease_id lease \<and> fence j = lr_fence lease"

definition identity :: "inner \<Rightarrow> lease_ref \<Rightarrow> unit result" where
  "identity s lease =
     (case jobs s (lr_job_id lease) of
        Some j \<Rightarrow> if holds_lease lease j then Inr () else Inl (LeaseRejected (lr_job_id lease))
      | None \<Rightarrow> Inl (LeaseRejected (lr_job_id lease)))"

lemma identity_Inr:
  "identity s lease = Inr () \<longleftrightarrow> (\<exists>j. jobs s (lr_job_id lease) = Some j \<and> holds_lease lease j)"
  by (auto simp: identity_def split: option.splits)

lemma release_unique_frame [simp]:
  "jobs (release_unique i s) = jobs s" "throttle (release_unique i s) = throttle s"
  "quarantine (release_unique i s) = quarantine s" "paused (release_unique i s) = paused s"
  "rate (release_unique i s) = rate s" "duties (release_unique i s) = duties s"
  "rr (release_unique i s) = rr s"
  by (auto simp: release_unique_def split: option.splits)

section \<open>The invariant of the store\<close>

text \<open>The test both \<open>enqueue\<close> and \<open>admissible\<close> make on the quarantine map.\<close>

definition blocked_fingerprint :: "inner \<Rightarrow> string \<Rightarrow> bool" where
  "blocked_fingerprint s fp \<longleftrightarrow> fp \<noteq> [] \<and> quarantine s fp \<noteq> None"

text \<open>The states that the rows spell as strings; \<open>deleted\<close> is the absence of a row.\<close>

definition state_of_str :: "string \<Rightarrow> state option" where
  "state_of_str str =
     map_of [(''pending'', State_Pending), (''scheduled'', State_Scheduled),
       (''available'', State_Available), (''running'', State_Running),
       (''retryable'', State_Retryable), (''completed'', State_Completed),
       (''archived'', State_Archived), (''cancelled'', State_Cancelled),
       (''quarantined'', State_Quarantined), (''undecodable'', State_Undecodable)] str"

definition abs_state :: "inner \<Rightarrow> string \<Rightarrow> state" where
  "abs_state s i =
     (case jobs s i of
        None \<Rightarrow> State_Deleted
      | Some j \<Rightarrow> (case state_of_str (jstate j) of None \<Rightarrow> State_Deleted | Some st \<Rightarrow> st))"

definition live :: "string \<Rightarrow> bool" where
  "live str \<longleftrightarrow> (case state_of_str str of None \<Rightarrow> False | Some st \<Rightarrow> \<not> is_terminal st)"

definition row_ok :: "string \<Rightarrow> mem_job \<Rightarrow> bool" where
  "row_ok i j \<longleftrightarrow>
     env_id (env j) = i \<and> i \<noteq> [] \<and> state_of_str (jstate j) \<noteq> None \<and>
     0 \<le> retention_ms (env j) \<and>
     (jstate j \<noteq> ''running'' \<longrightarrow> lease_id j = [] \<and> lease_expires j = 0)"

text \<open>An entry of the lifecycle index names a live row that carries the key.\<close>

definition holds_key :: "bytes \<Rightarrow> mem_job \<Rightarrow> bool" where
  "holds_key k j \<longleftrightarrow>
     effective_unique_key (env j) = Some k \<and> unique_window_ms (env j) = 0 \<and> live (jstate j)"

definition index_ok :: "inner \<Rightarrow> bool" where
  "index_ok s \<longleftrightarrow> (\<forall>k i. unique s k = Some i \<longrightarrow> (\<exists>j. jobs s i = Some j \<and> holds_key k j))"

definition parked_ok :: "inner \<Rightarrow> mem_job \<Rightarrow> bool" where
  "parked_ok s j \<longleftrightarrow>
     (jstate j = ''quarantined'' \<and> fingerprint (env j) \<noteq> [] \<longrightarrow>
        blocked_fingerprint s (fingerprint (env j)))"

definition bucket_ok :: "rate_bucket \<Rightarrow> bool" where
  "bucket_ok b \<longleftrightarrow> rb_tokens b \<le> rb_burst b"

definition rows_ok :: "inner \<Rightarrow> bool" where
  "rows_ok s \<longleftrightarrow>
     finite (dom (jobs s)) \<and> (\<forall>i j. jobs s i = Some j \<longrightarrow> row_ok i j \<and> parked_ok s j)"

definition store_ok :: "inner \<Rightarrow> bool" where
  "store_ok s \<longleftrightarrow> rows_ok s \<and> index_ok s \<and> (\<forall>n b. rate s n = Some b \<longrightarrow> bucket_ok b)"

lemma state_of_str_simps [simp]:
  "state_of_str ''pending'' = Some State_Pending"
  "state_of_str ''scheduled'' = Some State_Scheduled"
  "state_of_str ''available'' = Some State_Available"
  "state_of_str ''running'' = Some State_Running"
  "state_of_str ''retryable'' = Some State_Retryable"
  "state_of_str ''completed'' = Some State_Completed"
  "state_of_str ''archived'' = Some State_Archived"
  "state_of_str ''cancelled'' = Some State_Cancelled"
  "state_of_str ''quarantined'' = Some State_Quarantined"
  "state_of_str ''undecodable'' = Some State_Undecodable"
  by (simp_all add: state_of_str_def)

lemma live_simps [simp]:
  "live ''pending''" "live ''scheduled''" "live ''available''" "live ''running''"
  "live ''retryable''" "\<not> live ''completed''" "\<not> live ''archived''" "\<not> live ''cancelled''"
  "\<not> live ''quarantined''" "\<not> live ''undecodable''"
  by (simp_all add: live_def is_terminal_def)

lemma state_of_str_running: "state_of_str str = Some State_Running \<longleftrightarrow> str = ''running''"
  by (auto simp: state_of_str_def split: if_splits)

lemma store_ok_default: "store_ok inner_default"
  by (simp add: store_ok_def inner_default_def rows_ok_def index_ok_def)

lemma store_ok_row: "store_ok s \<Longrightarrow> jobs s i = Some j \<Longrightarrow> row_ok i j"
  by (simp add: store_ok_def rows_ok_def)

lemma store_ok_parked: "store_ok s \<Longrightarrow> jobs s i = Some j \<Longrightarrow> parked_ok s j"
  by (simp add: store_ok_def rows_ok_def)

lemma store_ok_index:
  "store_ok s \<Longrightarrow> unique s k = Some i \<Longrightarrow> \<exists>j. jobs s i = Some j \<and> holds_key k j"
  by (simp add: store_ok_def index_ok_def)

lemma store_ok_bucket: "store_ok s \<Longrightarrow> rate s n = Some b \<Longrightarrow> bucket_ok b"
  by (simp add: store_ok_def)

text \<open>Writing one row keeps the invariant when the row is well formed and still carries the
  keys that are indexed for it; removing one does when no key is.\<close>

lemma store_ok_update:
  assumes "store_ok s" "row_ok i j'" "parked_ok s j'"
    and "\<And>k. unique s k = Some i \<Longrightarrow> holds_key k j'"
  shows "store_ok (s\<lparr>jobs := (jobs s)(i \<mapsto> j')\<rparr>)"
  using assms
  by (auto simp: store_ok_def rows_ok_def index_ok_def parked_ok_def blocked_fingerprint_def)

lemma store_ok_delete:
  assumes "store_ok s" "\<And>k. unique s k \<noteq> Some i"
  shows "store_ok (s\<lparr>jobs := (jobs s)(i := None)\<rparr>)"
proof -
  have "finite (dom (jobs s) - {i})" using assms(1) by (simp add: store_ok_def rows_ok_def)
  with assms show ?thesis
    by (auto simp: store_ok_def rows_ok_def index_ok_def parked_ok_def blocked_fingerprint_def)
qed

lemma release_unique_unique:
  "unique (release_unique i s) k = Some m \<Longrightarrow> unique s k = Some m"
  by (auto simp: release_unique_def split: option.splits if_splits)

lemma release_unique_none:
  assumes "store_ok s"
  shows "unique (release_unique i s) k \<noteq> Some i"
proof
  assume a: "unique (release_unique i s) k = Some i"
  with store_ok_index [OF assms release_unique_unique [OF a]] show False
    by (auto simp: release_unique_def holds_key_def split: if_splits)
qed

lemma release_unique_ok:
  assumes "store_ok s"
  shows "store_ok (release_unique i s)"
proof -
  have "index_ok (release_unique i s)"
    unfolding index_ok_def release_unique_frame
    using store_ok_index [OF assms] release_unique_unique by blast
  with assms show ?thesis
    by (simp add: store_ok_def rows_ok_def parked_ok_def blocked_fingerprint_def)
qed

text \<open>Releasing the key after writing the row is releasing it before, when the row keeps its
  key fields.\<close>

lemma release_unique_commute:
  assumes "jobs s i = Some j" "effective_unique_key (env j') = effective_unique_key (env j)"
    "unique_window_ms (env j') = unique_window_ms (env j)"
  shows "release_unique i (s\<lparr>jobs := (jobs s)(i \<mapsto> j')\<rparr>)
    = (release_unique i s)\<lparr>jobs := (jobs s)(i \<mapsto> j')\<rparr>"
  using assms by (simp add: release_unique_def split: option.splits)

lemma store_ok_release_update:
  assumes "store_ok s" "row_ok i j'" "parked_ok s j'"
  shows "store_ok ((release_unique i s)\<lparr>jobs := (jobs s)(i \<mapsto> j')\<rparr>)"
  using store_ok_update [OF release_unique_ok [OF assms(1)] assms(2), of i] assms(3)
    release_unique_none [OF assms(1)]
  by (simp add: parked_ok_def blocked_fingerprint_def)

lemma store_ok_release_delete:
  assumes "store_ok s"
  shows "store_ok ((release_unique i s)\<lparr>jobs := (jobs s)(i := None)\<rparr>)"
  using store_ok_delete [OF release_unique_ok [OF assms], of i i] release_unique_none [OF assms]
  by simp

section \<open>One live row for a key\<close>

text \<open>The converse of the index: every live row with a lifecycle key is the one indexed.\<close>

definition key_ok :: "inner \<Rightarrow> bool" where
  "key_ok s \<longleftrightarrow> (\<forall>i j k. jobs s i = Some j \<longrightarrow> holds_key k j \<longrightarrow> unique s k = Some i)"

definition same_key :: "mem_job \<Rightarrow> mem_job \<Rightarrow> bool" where
  "same_key j j' \<longleftrightarrow>
     effective_unique_key (env j') = effective_unique_key (env j) \<and>
     unique_window_ms (env j') = unique_window_ms (env j)"

lemma key_ok_default: "key_ok inner_default"
  by (simp add: key_ok_def inner_default_def)

lemma key_ok_holder: "key_ok s \<Longrightarrow> jobs s i = Some j \<Longrightarrow> holds_key k j \<Longrightarrow> unique s k = Some i"
  by (simp add: key_ok_def)

lemma store_ok_rewrite:
  assumes "store_ok s" "jobs s i = Some j" "same_key j j'" "live (jstate j')" "row_ok i j'"
  shows "store_ok (s\<lparr>jobs := (jobs s)(i \<mapsto> j')\<rparr>)"
proof (rule store_ok_update [OF assms(1,5)])
  show "parked_ok s j'" using assms(4) by (auto simp: parked_ok_def)
  show "holds_key k j'" if "unique s k = Some i" for k
    using store_ok_index [OF assms(1) that] assms(2-4) by (auto simp: holds_key_def same_key_def)
qed

lemma key_ok_rewrite:
  assumes "key_ok s" "jobs s i = Some j" "same_key j j'" "live (jstate j)"
  shows "key_ok (s\<lparr>jobs := (jobs s)(i \<mapsto> j')\<rparr>)"
  using assms by (auto simp: key_ok_def holds_key_def same_key_def)

lemma release_unique_other:
  assumes "unique s k = Some i'" "i' \<noteq> i"
  shows "unique (release_unique i s) k = Some i'"
  using assms by (auto simp: release_unique_def split: option.split)

lemma key_ok_retire:
  assumes "key_ok s" "\<not> live (jstate j')"
  shows "key_ok ((release_unique i s)\<lparr>jobs := (jobs s)(i \<mapsto> j')\<rparr>)"
  using assms by (auto simp: key_ok_def holds_key_def intro!: release_unique_other)

lemma key_ok_remove:
  assumes "key_ok s"
  shows "key_ok ((release_unique i s)\<lparr>jobs := (jobs s)(i := None)\<rparr>)"
  using assms by (auto simp: key_ok_def intro!: release_unique_other)

lemma key_ok_drop: "key_ok s \<Longrightarrow> key_ok (s\<lparr>jobs := (jobs s)(i := None)\<rparr>)"
  by (simp add: key_ok_def)

end
