(* ===== verification/MemEnqueue.thy ===== *)
theory MemEnqueue
  imports MemStore
begin

text \<open>
  \<open>MemStore::enqueue\<close> (src/crates/headgate-testkit/src/lib.rs): the id pass, the conflict pass
  with its masked replacements, and the insert pass; what each of them does, that the invariant
  is kept, and the contract of the operation: all or nothing, idempotent replay, one live job
  for a key, no quarantined content.
\<close>

unbundle bit_operations_syntax

section \<open>Enqueue\<close>

text \<open>The id pass over the whole batch: which envelopes replay a row, or the first conflict.\<close>

fun id_pass :: "(string \<rightharpoonup> mem_job) \<Rightarrow> envelope list \<Rightarrow> bool list result" where
  "id_pass m [] = Inr []"
| "id_pass m (e # es) =
     (case m (env_id e) of
        None \<Rightarrow> (case id_pass m es of Inl err \<Rightarrow> Inl err | Inr skips \<Rightarrow> Inr (False # skips))
      | Some j \<Rightarrow>
          if same_job_content e (kind (env j)) (fingerprint (env j)) (queue (env j))
          then (case id_pass m es of Inl err \<Rightarrow> Inl err | Inr skips \<Rightarrow> Inr (True # skips))
          else Inl (IdConflict (env_id e)))"

definition unique_holder :: "i64 \<Rightarrow> inner \<Rightarrow> envelope \<Rightarrow> bytes \<Rightarrow> string option" where
  "unique_holder now s e k =
     (if unique_window_ms e > 0
      then (case throttle s k of
              Some (i, expiry) \<Rightarrow> if expiry > now then Some i else None
            | None \<Rightarrow> None)
      else unique s k)"

definition replace_content :: "envelope \<Rightarrow> envelope \<Rightarrow> envelope" where
  "replace_content e r =
     r\<lparr>schema_version := (if schema_version e = 0 then 1 else schema_version e),
       payload := payload e, fingerprint := fingerprint e\<rparr>"

text \<open>One \<open>if\<close> of the replacement: the update and the \<open>replaced\<close> flag, where the condition
  holds.\<close>

definition apply_if :: "bool \<Rightarrow> (mem_job \<Rightarrow> mem_job) \<Rightarrow> mem_job \<times> bool \<Rightarrow> mem_job \<times> bool" where
  "apply_if b f jr = (if b then (f (fst jr), True) else jr)"

definition replace_debounced ::
  "i64 \<Rightarrow> envelope \<Rightarrow> mem_job \<times> bool \<Rightarrow> mem_job \<times> bool" where
  "replace_debounced now e =
     apply_if (unique_debounce_ms e > 0)
       (\<lambda>j. j\<lparr>env := (replace_content e (env j))\<lparr>tags := canonical_tags (tags e),
               scheduled_at_ms := wrap64 (now + unique_debounce_ms e)\<rparr>,
             jstate := ''scheduled''\<rparr>)"

definition replace_masked ::
  "i64 \<Rightarrow> envelope \<Rightarrow> mem_job \<times> bool \<Rightarrow> mem_job \<times> bool" where
  "replace_masked now e jr0 =
     (let mask = unique_replace e;
          jr1 = apply_if (mask AND UNIQUE_REPLACE_PAYLOAD \<noteq> 0)
                  (\<lambda>j. j\<lparr>env := replace_content e (env j)\<rparr>) jr0;
          jr2 = apply_if (mask AND UNIQUE_REPLACE_SCHEDULED_AT \<noteq> 0
                    \<and> jstate (fst jr1) = ''scheduled'')
                  (\<lambda>j. j\<lparr>env := (env j)\<lparr>scheduled_at_ms :=
                    (if scheduled_at_ms e = 0 then now else scheduled_at_ms e)\<rparr>\<rparr>) jr1;
          jr3 = apply_if (mask AND UNIQUE_REPLACE_PRIORITY \<noteq> 0)
                  (\<lambda>j. j\<lparr>env := (env j)\<lparr>priority := priority e\<rparr>\<rparr>) jr2
      in apply_if (mask AND UNIQUE_REPLACE_MAX_ATTEMPTS \<noteq> 0)
           (\<lambda>j. j\<lparr>env := (env j)\<lparr>max_attempts :=
             (if max_attempts e = 0 then 25 else max_attempts e)\<rparr>\<rparr>) jr3)"

definition replaceable :: "mem_job \<Rightarrow> bool" where
  "replaceable j \<longleftrightarrow> jstate j \<in> {''scheduled'', ''available'', ''retryable''}"

definition replace_holder :: "i64 \<Rightarrow> envelope \<Rightarrow> string \<Rightarrow> inner \<Rightarrow> bool \<times> inner" where
  "replace_holder now e i s =
     (if unique_replace e \<noteq> 0 \<or> unique_debounce_ms e > 0 then
        (case jobs s i of
           Some j \<Rightarrow>
             if replaceable j then
               (let (j', r) = replace_masked now e (replace_debounced now e (j, False))
                in (r, s\<lparr>jobs := (jobs s)(i \<mapsto> j')\<rparr>))
             else (False, s)
         | None \<Rightarrow> (False, s))
      else (False, s))"

text \<open>The validate pass: the first rejection, with the contents it leaves.\<close>

fun conflict_pass ::
  "i64 \<Rightarrow> inner \<Rightarrow> (envelope \<times> bool) list \<Rightarrow> (store_error \<times> inner) option" where
  "conflict_pass now s [] = None"
| "conflict_pass now s ((e, skip) # es) =
     (if skip then conflict_pass now s es
      else if fingerprint e \<noteq> [] \<and> quarantine s (fingerprint e) \<noteq> None then
        Some (Quarantined (fingerprint e), s)
      else case effective_unique_key e of
        None \<Rightarrow> conflict_pass now s es
      | Some k \<Rightarrow>
          (case unique_holder now s e k of
             None \<Rightarrow> conflict_pass now s es
           | Some i \<Rightarrow>
               (let (r, s') = replace_holder now e i s in Some (Duplicate i r, s'))))"

text \<open>The insert pass: defaults, the first state, the index entry, the row.\<close>

definition fill_defaults :: "i64 \<Rightarrow> envelope \<Rightarrow> envelope" where
  "fill_defaults now e =
     e\<lparr>queue := (if queue e = [] then ''default'' else queue e),
       max_attempts := (if max_attempts e = 0 then 25 else max_attempts e),
       schema_version := (if schema_version e = 0 then 1 else schema_version e),
       weight := effective_weight (weight e),
       tags := canonical_tags (tags e),
       scheduled_at_ms :=
         (if unique_debounce_ms e > 0 then wrap64 (now + unique_debounce_ms e)
          else if scheduled_at_ms e = 0 then now else scheduled_at_ms e)\<rparr>"

definition initial_state :: "i64 \<Rightarrow> envelope \<Rightarrow> string" where
  "initial_state now e =
     (if pending e then ''pending''
      else if scheduled_at_ms e > now then ''scheduled'' else ''available'')"

definition index_unique :: "i64 \<Rightarrow> envelope \<Rightarrow> inner \<Rightarrow> inner" where
  "index_unique now e s =
     (case effective_unique_key e of
        None \<Rightarrow> s
      | Some k \<Rightarrow>
          if unique_window_ms e > 0
          then s\<lparr>throttle := (throttle s)(k \<mapsto> (env_id e, wrap64 (now + unique_window_ms e)))\<rparr>
          else s\<lparr>unique := (unique s)(k \<mapsto> env_id e)\<rparr>)"

definition insert_one :: "i64 \<Rightarrow> inner \<Rightarrow> envelope \<times> bool \<Rightarrow> inner" where
  "insert_one now s = (\<lambda>(e, skip).
     if skip then s
     else
       let e' = fill_defaults now e; s' = index_unique now e' s
       in s'\<lparr>jobs := (jobs s')(env_id e' \<mapsto>
              mem_job_default\<lparr>jstate := initial_state now e', env := e'\<rparr>)\<rparr>)"

definition mem_enqueue :: "i64 \<Rightarrow> envelope list \<Rightarrow> inner \<Rightarrow> unit result \<times> inner" where
  "mem_enqueue now batch s =
     (case validate_enqueue batch of
        Inl err \<Rightarrow> (Inl err, s)
      | Inr _ \<Rightarrow>
          (case id_pass (jobs s) batch of
             Inl err \<Rightarrow> (Inl err, s)
           | Inr skips \<Rightarrow>
               (case conflict_pass now s (zip batch skips) of
                  Some (err, s') \<Rightarrow> (Inl err, s')
                | None \<Rightarrow> (Inr (), foldl (insert_one now) s (zip batch skips)))))"

definition enqueue_without_uniqueness ::
  "i64 \<Rightarrow> envelope list \<Rightarrow> inner \<Rightarrow> unit result \<times> inner" where
  "enqueue_without_uniqueness now batch s =
     mem_enqueue now
       (map (\<lambda>e. e\<lparr>unique_key := None, unique_window_ms := 0, unique_replace := 0,
                    unique_debounce_ms := 0\<rparr>) batch) s"

section \<open>What the passes of enqueue do\<close>

definition new_row :: "i64 \<Rightarrow> envelope \<Rightarrow> mem_job" where
  "new_row now e =
     mem_job_default\<lparr>jstate := initial_state now (fill_defaults now e), env := fill_defaults now e\<rparr>"

definition fresh :: "inner \<Rightarrow> envelope list \<Rightarrow> envelope list" where
  "fresh s batch = filter (\<lambda>e. jobs s (env_id e) = None) batch"

lemma id_pass_Inr:
  "id_pass m es = Inr skips \<Longrightarrow>
   skips = map (\<lambda>e. m (env_id e) \<noteq> None) es \<and>
   (\<forall>e \<in> set es. \<forall>j. m (env_id e) = Some j \<longrightarrow>
      same_job_content e (kind (env j)) (fingerprint (env j)) (queue (env j)))"
  by (induction es arbitrary: skips) (auto split: option.splits sum.splits if_splits)

lemma id_pass_replay:
  "(\<And>e. e \<in> set es \<Longrightarrow> \<exists>j. m (env_id e) = Some j \<and>
      same_job_content e (kind (env j)) (fingerprint (env j)) (queue (env j))) \<Longrightarrow>
   id_pass m es = Inr (map (\<lambda>_. True) es)"
proof (induction es)
  case (Cons e es)
  then have "id_pass m es = Inr (map (\<lambda>_. True) es)" by simp
  with Cons.prems [of e] show ?case by auto
qed simp

lemma id_pass_Inl:
  "id_pass m es = Inl err \<Longrightarrow>
   \<exists>e \<in> set es. \<exists>j. err = IdConflict (env_id e) \<and> m (env_id e) = Some j \<and>
      \<not> same_job_content e (kind (env j)) (fingerprint (env j)) (queue (env j))"
  by (induction es) (auto split: option.splits sum.splits if_splits)

lemma conflict_pass_None:
  "conflict_pass now s es = None \<longleftrightarrow>
   (\<forall>e. (e, False) \<in> set es \<longrightarrow> \<not> blocked_fingerprint s (fingerprint e) \<and>
      (\<forall>k. effective_unique_key e = Some k \<longrightarrow> unique_holder now s e k = None))"
proof (induction es)
  case (Cons p es)
  obtain e sk where p: "p = (e, sk)" by (cases p)
  show ?case
  proof (cases sk)
    case True
    with Cons p show ?thesis by simp
  next
    case False
    with Cons p show ?thesis
      by (cases "effective_unique_key e"; cases "unique_holder now s e (the (effective_unique_key e))")
        (auto simp: blocked_fingerprint_def split: prod.splits)
  qed
qed simp

definition rejects :: "i64 \<Rightarrow> inner \<Rightarrow> envelope \<Rightarrow> store_error \<Rightarrow> inner \<Rightarrow> bool" where
  "rejects now s e err s' \<longleftrightarrow>
     err = Quarantined (fingerprint e) \<and> blocked_fingerprint s (fingerprint e) \<and> s' = s \<or>
     (\<exists>k i r. effective_unique_key e = Some k \<and> unique_holder now s e k = Some i \<and>
        err = Duplicate i r \<and> replace_holder now e i s = (r, s'))"

lemma conflict_pass_Some:
  "conflict_pass now s es = Some (err, s') \<Longrightarrow> \<exists>e. (e, False) \<in> set es \<and> rejects now s e err s'"
proof (induction es)
  case (Cons p es)
  obtain e sk where p: "p = (e, sk)" by (cases p)
  show ?case
  proof (cases "conflict_pass now s (p # es) = conflict_pass now s es")
    case True
    with Cons.prems have "conflict_pass now s es = Some (err, s')" by simp
    with Cons.IH show ?thesis by fastforce
  next
    case False
    with Cons.prems have ne: "conflict_pass now s es \<noteq> Some (err, s')" by metis
    show ?thesis
    proof (cases "blocked_fingerprint s (fingerprint e)")
      case True
      with False Cons.prems p ne have "rejects now s e err s' \<and> \<not> sk"
        by (auto simp: rejects_def blocked_fingerprint_def split: if_splits)
      with p show ?thesis by auto
    next
      case unblocked: False
      then have q: "\<not> (fingerprint e \<noteq> [] \<and> quarantine s (fingerprint e) \<noteq> None)"
        by (simp add: blocked_fingerprint_def)
      from False q p obtain k i where k: "effective_unique_key e = Some k"
        "unique_holder now s e k = Some i" and sk: "\<not> sk"
        by (auto split: option.splits if_splits)
      with Cons.prems p q have "replace_holder now e i s = (replaced err, s')" "err = Duplicate i (replaced err)"
        by (auto split: prod.splits)
      with k have "rejects now s e err s'" unfolding rejects_def by blast
      with p sk show ?thesis by auto
    qed
  qed
qed simp

lemma zip_map_same: "zip es (map f es) = map (\<lambda>e. (e, f e)) es"
  by (induction es) auto

lemma index_unique_frame [simp]:
  "jobs (index_unique now e s) = jobs s" "quarantine (index_unique now e s) = quarantine s"
  "paused (index_unique now e s) = paused s" "rate (index_unique now e s) = rate s"
  "duties (index_unique now e s) = duties s" "rr (index_unique now e s) = rr s"
  by (auto simp: index_unique_def split: option.splits)

lemma fill_defaults_sel [simp]:
  "env_id (fill_defaults now e) = env_id e" "kind (fill_defaults now e) = kind e"
  "fingerprint (fill_defaults now e) = fingerprint e"
  "unique_key (fill_defaults now e) = unique_key e"
  "unique_window_ms (fill_defaults now e) = unique_window_ms e"
  "unique_exclude_kind (fill_defaults now e) = unique_exclude_kind e"
  "pending (fill_defaults now e) = pending e"
  by (simp_all add: fill_defaults_def)

lemma insert_one_eq:
  "insert_one now s (e, skip) =
     (if skip then s
      else (index_unique now (fill_defaults now e) s)\<lparr>jobs := (jobs s)(env_id e \<mapsto> new_row now e)\<rparr>)"
  by (simp add: insert_one_def Let_def new_row_def)

lemma foldl_insert_skip:
  "foldl (insert_one now) s (map (\<lambda>e. (e, P e)) es)
   = foldl (\<lambda>s e. insert_one now s (e, False)) s (filter (\<lambda>e. \<not> P e) es)"
  by (induction es arbitrary: s) (auto simp: insert_one_def)

lemma foldl_insert_frame:
  "quarantine (foldl (\<lambda>s e. insert_one now s (e, False)) s es) = quarantine s"
  "paused (foldl (\<lambda>s e. insert_one now s (e, False)) s es) = paused s"
  "rate (foldl (\<lambda>s e. insert_one now s (e, False)) s es) = rate s"
  "duties (foldl (\<lambda>s e. insert_one now s (e, False)) s es) = duties s"
  "rr (foldl (\<lambda>s e. insert_one now s (e, False)) s es) = rr s"
  by (induction es arbitrary: s) (simp_all add: insert_one_eq)

lemma foldl_insert_jobs:
  "distinct (map env_id es) \<Longrightarrow>
   jobs (foldl (\<lambda>s e. insert_one now s (e, False)) s es) i =
     (case find (\<lambda>e. env_id e = i) es of Some e \<Rightarrow> Some (new_row now e) | None \<Rightarrow> jobs s i)"
proof (induction es arbitrary: s)
  case (Cons e es)
  have "find (\<lambda>e'. env_id e' = i) es = None" if "env_id e = i"
    using that Cons.prems by (auto simp: find_None_iff image_iff)
  with Cons show ?case by (auto simp: insert_one_eq split: option.splits)
qed simp

text \<open>A successful enqueue, in one equation.\<close>

lemma mem_enqueue_Inr:
  assumes "mem_enqueue now batch s = (Inr (), s')"
  shows "validate_enqueue batch = Inr ()"
    and "\<And>e j. e \<in> set batch \<Longrightarrow> jobs s (env_id e) = Some j \<Longrightarrow>
           same_job_content e (kind (env j)) (fingerprint (env j)) (queue (env j))"
    and "\<And>e. e \<in> set (fresh s batch) \<Longrightarrow> \<not> blocked_fingerprint s (fingerprint e)"
    and "\<And>e k. e \<in> set (fresh s batch) \<Longrightarrow> effective_unique_key e = Some k \<Longrightarrow>
           unique_holder now s e k = None"
    and "s' = foldl (\<lambda>s e. insert_one now s (e, False)) s (fresh s batch)"
proof -
  from assms show "validate_enqueue batch = Inr ()"
    by (auto simp: mem_enqueue_def split: sum.splits)
  with assms obtain sk where sk: "id_pass (jobs s) batch = Inr sk"
    "conflict_pass now s (zip batch sk) = None" "s' = foldl (insert_one now) s (zip batch sk)"
    by (auto simp: mem_enqueue_def split: sum.splits option.splits)
  from id_pass_Inr [OF sk(1)] have z: "zip batch sk = map (\<lambda>e. (e, jobs s (env_id e) \<noteq> None)) batch"
    by (simp add: zip_map_same)
  from id_pass_Inr [OF sk(1)] show "e \<in> set batch \<Longrightarrow> jobs s (env_id e) = Some j \<Longrightarrow>
      same_job_content e (kind (env j)) (fingerprint (env j)) (queue (env j))" for e j
    by blast
  from sk(2) z show "e \<in> set (fresh s batch) \<Longrightarrow> \<not> blocked_fingerprint s (fingerprint e)" for e
    by (auto simp: conflict_pass_None fresh_def)
  from sk(2) z show "e \<in> set (fresh s batch) \<Longrightarrow> effective_unique_key e = Some k \<Longrightarrow>
      unique_holder now s e k = None" for e k
    by (auto simp: conflict_pass_None fresh_def)
  from sk(3) z show "s' = foldl (\<lambda>s e. insert_one now s (e, False)) s (fresh s batch)"
    by (simp add: foldl_insert_skip fresh_def)
qed

lemma mem_enqueue_Inl:
  assumes "mem_enqueue now batch s = (Inl err, s')"
  shows "s' = s \<or> (\<exists>e \<in> set (fresh s batch). rejects now s e err s')"
proof (cases "\<exists>sk. validate_enqueue batch = Inr () \<and> id_pass (jobs s) batch = Inr sk")
  case False
  with assms show ?thesis
    by (auto simp: mem_enqueue_def split: sum.splits option.splits)
next
  case True
  then obtain sk where sk: "validate_enqueue batch = Inr ()" "id_pass (jobs s) batch = Inr sk"
    by blast
  with assms have "conflict_pass now s (zip batch sk) = Some (err, s')"
    by (auto simp: mem_enqueue_def split: option.splits)
  from conflict_pass_Some [OF this] obtain e where
    e: "(e, False) \<in> set (zip batch sk)" "rejects now s e err s'" by blast
  from e(1) id_pass_Inr [OF sk(2)] have "e \<in> set (fresh s batch)"
    by (auto simp: zip_map_same fresh_def)
  with e(2) show ?thesis by blast
qed

section \<open>Replacements\<close>

text \<open>What a masked replacement leaves alone: identity, key, routing, counters and the lease.\<close>

definition same_job :: "mem_job \<Rightarrow> mem_job \<Rightarrow> bool" where
  "same_job j j' \<longleftrightarrow>
     env_id (env j') = env_id (env j) \<and> kind (env j') = kind (env j) \<and>
     queue (env j') = queue (env j) \<and> unique_key (env j') = unique_key (env j) \<and>
     unique_window_ms (env j') = unique_window_ms (env j) \<and>
     unique_exclude_kind (env j') = unique_exclude_kind (env j) \<and>
     retention_ms (env j') = retention_ms (env j) \<and>
     attempt (env j') = attempt (env j) \<and> crash_attempt (env j') = crash_attempt (env j) \<and>
     fence j' = fence j \<and> lease_id j' = lease_id j \<and> lease_expires j' = lease_expires j \<and>
     jcheckpoint j' = jcheckpoint j \<and> errs j' = errs j \<and>
     (jstate j' = jstate j \<or> jstate j' = ''scheduled'')"

lemma same_job_refl [simp]: "same_job j j"
  by (simp add: same_job_def)

lemma same_job_trans: "same_job i j \<Longrightarrow> same_job j k \<Longrightarrow> same_job i k"
  by (auto simp: same_job_def)

lemma effective_unique_key_cong:
  "kind e' = kind e \<Longrightarrow> unique_key e' = unique_key e \<Longrightarrow>
   unique_exclude_kind e' = unique_exclude_kind e \<Longrightarrow>
   effective_unique_key e' = effective_unique_key e"
  by (simp add: effective_unique_key_def split: option.split)

lemma same_job_key: "same_job j j' \<Longrightarrow> effective_unique_key (env j') = effective_unique_key (env j)"
  by (rule effective_unique_key_cong) (simp_all add: same_job_def)

lemma same_job_row_ok:
  "same_job j j' \<Longrightarrow> replaceable j \<Longrightarrow> row_ok i j \<Longrightarrow> row_ok i j'"
  by (auto simp: same_job_def row_ok_def replaceable_def)

lemma same_job_holds_key:
  "same_job j j' \<Longrightarrow> holds_key k j \<Longrightarrow> holds_key k j'"
  using same_job_key [of j j'] by (auto simp: holds_key_def) (auto simp: same_job_def)

lemma apply_if_same:
  assumes "\<And>j. same_job j (f j)"
  shows "same_job j (fst jr) \<Longrightarrow> same_job j (fst (apply_if b f jr))"
  using assms by (auto simp: apply_if_def intro: same_job_trans)

lemma apply_if_False:
  "\<not> snd (apply_if b f jr) \<longleftrightarrow> \<not> b \<and> \<not> snd jr"
  "\<not> b \<Longrightarrow> apply_if b f jr = jr"
  by (simp_all add: apply_if_def)

lemma replace_debounced_same: "same_job (fst jr) (fst (replace_debounced now e jr))"
  unfolding replace_debounced_def
  by (intro apply_if_same) (simp_all add: same_job_def replace_content_def)

lemma replace_masked_same: "same_job (fst jr) (fst (replace_masked now e jr))"
  unfolding replace_masked_def Let_def
  by (intro apply_if_same) (simp_all add: same_job_def replace_content_def)

lemma replace_masked_unchanged:
  "\<not> snd (replace_masked now e jr) \<Longrightarrow> replace_masked now e jr = jr \<and> \<not> snd jr"
  unfolding replace_masked_def Let_def by (auto simp: apply_if_def split: if_splits)

lemma replace_holder_cases:
  assumes "replace_holder now e i s = (r, s')"
  obtains "r = False" "s' = s"
  | j j' where "r" "jobs s i = Some j" "replaceable j" "same_job j j'"
      "s' = s\<lparr>jobs := (jobs s)(i \<mapsto> j')\<rparr>"
proof (cases "r")
  case False
  have "s' = s"
  proof (cases "(unique_replace e \<noteq> 0 \<or> unique_debounce_ms e > 0) \<and>
      (\<exists>j. jobs s i = Some j \<and> replaceable j)")
    case True
    then obtain j where j: "jobs s i = Some j" "replaceable j" by blast
    define jr where "jr = replace_debounced now e (j, False)"
    from assms True j have eq: "(r, s') = (snd (replace_masked now e jr),
        s\<lparr>jobs := (jobs s)(i \<mapsto> fst (replace_masked now e jr))\<rparr>)"
      by (auto simp: replace_holder_def jr_def split: prod.splits)
    with \<open>\<not> r\<close> have "\<not> snd (replace_masked now e jr)" by simp
    from replace_masked_unchanged [OF this] have "replace_masked now e jr = jr" "\<not> snd jr"
      by simp_all
    moreover from this have "jr = (j, False)"
      by (simp add: jr_def replace_debounced_def apply_if_False)
    ultimately show ?thesis using eq j(1) by (simp add: fun_upd_idem)
  next
    case False
    with assms show ?thesis
      by (auto simp: replace_holder_def split: option.splits if_splits)
  qed
  with False that(1) show ?thesis by simp
next
  case True
  with assms obtain j where j: "jobs s i = Some j" "replaceable j"
    and eq: "s' = s\<lparr>jobs := (jobs s)(i \<mapsto> fst (replace_masked now e (replace_debounced now e (j, False))))\<rparr>"
    by (auto simp: replace_holder_def split: option.splits if_splits prod.splits)
  have "same_job j (fst (replace_masked now e (replace_debounced now e (j, False))))"
    using replace_debounced_same [of "(j, False)" now e]
      replace_masked_same [of "replace_debounced now e (j, False)" now e]
    by (auto intro: same_job_trans)
  with True j eq that(2) show ?thesis by blast
qed

lemma replace_holder_ok:
  assumes "store_ok s" "replace_holder now e i s = (r, s')"
  shows "store_ok s'"
  using assms(2)
proof (cases rule: replace_holder_cases)
  case 1
  with assms(1) show ?thesis by simp
next
  case (2 j j')
  have row: "row_ok i j'" using 2 same_job_row_ok store_ok_row [OF assms(1)] by blast
  have "jstate j' \<noteq> ''quarantined''" using 2 by (auto simp: same_job_def replaceable_def)
  then have "parked_ok s j'" by (simp add: parked_ok_def)
  moreover have "holds_key k j'" if "unique s k = Some i" for k
    using store_ok_index [OF assms(1) that] 2 same_job_holds_key by auto
  ultimately show ?thesis using store_ok_update [OF assms(1) row] 2 by blast
qed

section \<open>Enqueue keeps the invariant\<close>

lemma new_row_sel [simp]:
  "env (new_row now e) = fill_defaults now e" "fence (new_row now e) = 0"
  "lease_id (new_row now e) = []" "lease_expires (new_row now e) = 0"
  "jstate (new_row now e) = initial_state now (fill_defaults now e)"
  by (simp_all add: new_row_def mem_job_default_def)

lemma initial_state_cases:
  "initial_state now e \<in> {''pending'', ''scheduled'', ''available''}"
  by (simp add: initial_state_def)

lemma fill_defaults_key [simp]:
  "effective_unique_key (fill_defaults now e) = effective_unique_key e"
  by (rule effective_unique_key_cong) simp_all

lemma fill_defaults_more [simp]:
  "retention_ms (fill_defaults now e) = retention_ms e"
  "queue (fill_defaults now e) = enqueue_queue e"
  by (simp_all add: fill_defaults_def enqueue_queue_def effective_queue_def DEFAULT_QUEUE_def)

lemma new_row_live: "live (jstate (new_row now e))" "jstate (new_row now e) \<noteq> ''quarantined''"
  "jstate (new_row now e) \<noteq> ''running''" "state_of_str (jstate (new_row now e)) \<noteq> None"
  using initial_state_cases [of now "fill_defaults now e"] by auto

definition insertable :: "envelope \<Rightarrow> bool" where
  "insertable e \<longleftrightarrow> env_id e \<noteq> [] \<and> 0 \<le> retention_ms e \<and> 0 \<le> unique_window_ms e"

lemma validated_insertable:
  assumes "validate_enqueue batch = Inr ()" "e \<in> set batch"
  shows "insertable e"
  using assms by (auto simp: validate_enqueue_Inr envelope_valid_def fields_valid_def insertable_def)

lemma new_row_ok: "insertable e \<Longrightarrow> row_ok (env_id e) (new_row now e)"
  using new_row_live [of now e] by (simp add: row_ok_def insertable_def)

lemma index_unique_cases:
  "unique (index_unique now (fill_defaults now e) s) =
     (case effective_unique_key e of
        None \<Rightarrow> unique s
      | Some k \<Rightarrow> if unique_window_ms e > 0 then unique s else (unique s)(k \<mapsto> env_id e))"
  by (simp add: index_unique_def split: option.split)

lemma insert_one_ok:
  assumes "store_ok s" "jobs s (env_id e) = None" "insertable e"
  shows "store_ok (insert_one now s (e, False))"
proof -
  define s' where "s' = insert_one now s (e, False)"
  have jobs: "jobs s' = (jobs s)(env_id e \<mapsto> new_row now e)"
    and uniq: "unique s' = unique (index_unique now (fill_defaults now e) s)"
    and rest: "quarantine s' = quarantine s" "rate s' = rate s"
    by (simp_all add: s'_def insert_one_eq)
  have rows: "rows_ok s'"
    using assms new_row_ok [OF assms(3), of now] new_row_live [of now e]
    by (auto simp: rows_ok_def store_ok_def jobs rest parked_ok_def blocked_fingerprint_def)
  have hold: "holds_key k (new_row now e)"
    if "effective_unique_key e = Some k" "\<not> unique_window_ms e > 0" for k
    using that assms(3) new_row_live(1) [of now e] by (simp add: holds_key_def insertable_def)
  have "\<exists>j. jobs s' i = Some j \<and> holds_key k j" if "unique s' k = Some i" for k i
  proof (cases "effective_unique_key e = Some k \<and> \<not> unique_window_ms e > 0")
    case True
    with that uniq have "i = env_id e" by (simp add: index_unique_cases)
    with hold True jobs show ?thesis by simp
  next
    case False
    with that uniq have "unique s k = Some i"
      by (auto simp: index_unique_cases split: option.splits if_splits)
    from store_ok_index [OF assms(1) this] assms(2) jobs show ?thesis by auto
  qed
  then have "index_ok s'" by (simp add: index_ok_def)
  with rows assms(1) rest show ?thesis by (simp add: store_ok_def s'_def [symmetric])
qed

lemma foldl_insert_ok:
  "store_ok s \<Longrightarrow> distinct (map env_id es) \<Longrightarrow>
   (\<And>e. e \<in> set es \<Longrightarrow> jobs s (env_id e) = None \<and> insertable e) \<Longrightarrow>
   store_ok (foldl (\<lambda>s e. insert_one now s (e, False)) s es)"
proof (induction es arbitrary: s)
  case (Cons e es)
  have "store_ok (insert_one now s (e, False))"
    using Cons.prems by (intro insert_one_ok) simp_all
  moreover have "jobs (insert_one now s (e, False)) (env_id e') = None \<and> insertable e'"
    if "e' \<in> set es" for e'
  proof -
    from Cons.prems(2) that have "env_id e' \<noteq> env_id e" by (auto simp: image_iff)
    with Cons.prems(3) that show ?thesis by (simp add: insert_one_eq)
  qed
  ultimately show ?case using Cons by simp
qed simp

lemma fresh_facts:
  assumes "validate_enqueue batch = Inr ()"
  shows "distinct (map env_id (fresh s batch))"
    "e \<in> set (fresh s batch) \<Longrightarrow> jobs s (env_id e) = None \<and> insertable e"
  using assms validated_insertable [OF assms]
  by (simp_all add: fresh_def distinct_map_filter validate_enqueue_Inr)

lemma mem_enqueue_ok:
  assumes "store_ok s"
  shows "store_ok (snd (mem_enqueue now batch s))"
proof (cases "fst (mem_enqueue now batch s)")
  case (Inl err)
  define s' where "s' = snd (mem_enqueue now batch s)"
  from Inl have "mem_enqueue now batch s = (Inl err, s')" by (simp add: s'_def prod_eq_iff)
  from mem_enqueue_Inl [OF this] assms replace_holder_ok [OF assms] show ?thesis
    by (auto simp: rejects_def s'_def)
next
  case (Inr u)
  define s' where "s' = snd (mem_enqueue now batch s)"
  from Inr have ok: "mem_enqueue now batch s = (Inr (), s')" by (simp add: s'_def prod_eq_iff)
  from mem_enqueue_Inr(5) [OF ok] fresh_facts [OF mem_enqueue_Inr(1) [OF ok], where s = s]
    foldl_insert_ok [OF assms, of "fresh s batch" now]
  show ?thesis by (simp add: s'_def)
qed

text \<open>The checks that come before the conflict pass never report a duplicate.\<close>

lemma reject_if_Inl: "reject_if c err k = Inl e \<longleftrightarrow> (if c then e = err else k = Inl e)"
  by (auto simp: reject_if_def)

lemma validate_fields_error: "validate_fields tot e \<noteq> Inl (Duplicate i r)"
  unfolding validate_fields_def by (simp add: reject_if_Inl split: sum.split option.split prod.split)

lemma validate_tags_error: "validate_tags seen tot ts \<noteq> Inl (Duplicate i r)"
  by (induction ts arbitrary: seen tot) auto

lemma validate_all_error: "validate_all seen tot es \<noteq> Inl (Duplicate i r)"
proof (induction es arbitrary: seen tot)
  case (Cons e es)
  have "validate_routing seen t e \<noteq> Inl (Duplicate i r)" for t
    by (simp add: validate_routing_def Let_def reject_if_Inl)
  then have "validate_one seen tot e \<noteq> Inl (Duplicate i r)"
    using validate_fields_error validate_tags_error by (auto simp: validate_one_def split: sum.splits)
  with Cons show ?case by (auto split: sum.splits)
qed simp

lemma mem_enqueue_duplicate:
  assumes "mem_enqueue now batch s = (Inl (Duplicate i r), s')"
  shows "\<exists>e \<in> set (fresh s batch). rejects now s e (Duplicate i r) s'"
proof -
  have "validate_enqueue batch \<noteq> Inl (Duplicate i r)"
    using validate_all_error by (auto simp: validate_enqueue_def reject_if_Inl split: sum.splits)
  moreover have "id_pass (jobs s) batch \<noteq> Inl (Duplicate i r)" using id_pass_Inl by fastforce
  ultimately obtain sk where sk: "id_pass (jobs s) batch = Inr sk" "conflict_pass now s (zip batch sk) = Some (Duplicate i r, s')"
    using assms by (auto simp: mem_enqueue_def split: sum.splits option.splits)
  from conflict_pass_Some [OF sk(2)] obtain e where
    e: "(e, False) \<in> set (zip batch sk)" "rejects now s e (Duplicate i r) s'" by blast
  from e(1) id_pass_Inr [OF sk(1)] have "e \<in> set (fresh s batch)" by (auto simp: zip_map_same fresh_def)
  with e(2) show ?thesis by blast
qed

section \<open>Properties of enqueue\<close>

text \<open>
  What a replacement writes, field by field. A debounce takes content, tags and a new time, and
  schedules the job; the bits of the mask take the content, the time (of a job that then is
  scheduled), the priority and the attempts. Everything else of the row stays.
\<close>

definition replacement :: "i64 \<Rightarrow> envelope \<Rightarrow> mem_job \<Rightarrow> mem_job" where
  "replacement now e j =
     (let deb = (unique_debounce_ms e > 0); bit = (\<lambda>m. unique_replace e AND m \<noteq> 0);
          content = (deb \<or> bit UNIQUE_REPLACE_PAYLOAD); r = env j
      in j\<lparr>jstate := (if deb then ''scheduled'' else jstate j),
           env := r\<lparr>
             schema_version := (if content then if schema_version e = 0 then 1 else schema_version e else schema_version r),
             payload := (if content then payload e else payload r),
             fingerprint := (if content then fingerprint e else fingerprint r),
             tags := (if deb then canonical_tags (tags e) else tags r),
             scheduled_at_ms :=
               (if bit UNIQUE_REPLACE_SCHEDULED_AT \<and> (deb \<or> jstate j = ''scheduled'')
                then if scheduled_at_ms e = 0 then now else scheduled_at_ms e
                else if deb then wrap64 (now + unique_debounce_ms e) else scheduled_at_ms r),
             priority := (if bit UNIQUE_REPLACE_PRIORITY then priority e else priority r),
             max_attempts :=
               (if bit UNIQUE_REPLACE_MAX_ATTEMPTS then if max_attempts e = 0 then 25 else max_attempts e
                else max_attempts r)\<rparr>\<rparr>)"

lemma replaced_row: "fst (replace_masked now e (replace_debounced now e (j, False))) = replacement now e j"
proof -
  define d p t q m where "d = (unique_debounce_ms e > 0)"
    and "p = (unique_replace e AND UNIQUE_REPLACE_PAYLOAD \<noteq> 0)"
    and "t = (unique_replace e AND UNIQUE_REPLACE_SCHEDULED_AT \<noteq> 0)"
    and "q = (unique_replace e AND UNIQUE_REPLACE_PRIORITY \<noteq> 0)"
    and "m = (unique_replace e AND UNIQUE_REPLACE_MAX_ATTEMPTS \<noteq> 0)"
  show ?thesis
    unfolding replacement_def replace_masked_def replace_debounced_def apply_if_def replace_content_def Let_def
      d_def [symmetric] p_def [symmetric] t_def [symmetric] q_def [symmetric] m_def [symmetric]
    by (cases d; cases p; cases t; cases q; cases m; cases "jstate j = ''scheduled''") simp_all
qed

lemma replace_holder_exact:
  assumes "replace_holder now e i s = (r, s')"
  shows "if r
    then (unique_replace e \<noteq> 0 \<or> unique_debounce_ms e > 0) \<and>
      (\<exists>j. jobs s i = Some j \<and> replaceable j \<and> s' = s\<lparr>jobs := (jobs s)(i \<mapsto> replacement now e j)\<rparr>)
    else s' = s"
  using assms
proof (cases rule: replace_holder_cases)
  case (2 j j')
  with assms have "unique_replace e \<noteq> 0 \<or> unique_debounce_ms e > 0" by (auto simp: replace_holder_def split: if_splits)
  moreover from this assms 2(2,3) have "s' = s\<lparr>jobs := (jobs s)(i \<mapsto> replacement now e j)\<rparr>"
    unfolding replaced_row [symmetric] by (auto simp: replace_holder_def split: prod.splits)
  ultimately show ?thesis using 2(1-3) by auto
qed simp

text \<open>C34. A rejected enqueue writes nothing, whatever the error and whatever the position of the
  offending job in the batch; the one exception is a duplicate that reports a replacement. Then a job
  of the batch that was not in the store asked for a replacement or a debounce, the key it carries
  is held by a job that waits (scheduled, available or retryable), the error names that holder, and
  its row alone is rewritten: exactly the fields that the debounce and the bits of the mask name take
  the values of the new job, and everything else of it stays, its identity, key, queue, counters, fence
  and lease with it.\<close>

theorem enqueue_error_atomic:
  assumes "mem_enqueue now batch s = (Inl err, s')"
  shows "((\<forall>i. err \<noteq> Duplicate i True) \<longrightarrow> s' = s) \<and>
    (\<forall>i. err = Duplicate i True \<longrightarrow>
      (\<exists>e \<in> set batch. \<exists>k j. jobs s (env_id e) = None \<and> effective_unique_key e = Some k \<and>
         unique_holder now s e k = Some i \<and> (unique_replace e \<noteq> 0 \<or> unique_debounce_ms e > 0) \<and>
         jobs s i = Some j \<and> jstate j \<in> {''scheduled'', ''available'', ''retryable''} \<and>
         s' = s\<lparr>jobs := (jobs s)(i \<mapsto> replacement now e j)\<rparr>))"
proof (cases "\<exists>e \<in> set (fresh s batch). rejects now s e err s'")
  case True
  then obtain e where e: "e \<in> set batch" "jobs s (env_id e) = None" "rejects now s e err s'" by (auto simp: fresh_def)
  show ?thesis
  proof (cases "err = Quarantined (fingerprint e)")
    case True
    with e(3) show ?thesis by (auto simp: rejects_def)
  next
    case False
    with e(3) obtain k i r where r: "effective_unique_key e = Some k" "unique_holder now s e k = Some i"
      "err = Duplicate i r" "replace_holder now e i s = (r, s')" by (auto simp: rejects_def)
    show ?thesis
    proof (cases r)
      case True
      with replace_holder_exact [OF r(4)] e(1,2) r(1-3) show ?thesis unfolding replaceable_def by auto
    next
      case False
      with replace_holder_exact [OF r(4)] r(3) show ?thesis by auto
    qed
  qed
next
  case False
  with mem_enqueue_Inl [OF assms] have "s' = s" by blast
  moreover have "err \<noteq> Duplicate i True" for i using assms False mem_enqueue_duplicate by blast
  ultimately show ?thesis by blast
qed

lemma mem_enqueue_rows:
  assumes "mem_enqueue now batch s = (Inr (), s')"
  shows "\<And>e. e \<in> set batch \<Longrightarrow> jobs s (env_id e) = None \<Longrightarrow>
      jobs s' (env_id e) = Some (new_row now e)"
    and "\<And>i. jobs s i \<noteq> None \<or> i \<notin> env_id ` set batch \<Longrightarrow> jobs s' i = jobs s i"
proof -
  note facts = mem_enqueue_Inr [OF assms]
  note fr = fresh_facts [OF facts(1), where s = s]
  have look: "jobs s' i = (case find (\<lambda>e. env_id e = i) (fresh s batch) of
      Some e \<Rightarrow> Some (new_row now e) | None \<Rightarrow> jobs s i)" for i
    using facts(5) foldl_insert_jobs [OF fr(1)] by simp
  show "jobs s' (env_id e) = Some (new_row now e)"
    if "e \<in> set batch" "jobs s (env_id e) = None" for e
  proof (cases "find (\<lambda>e'. env_id e' = env_id e) (fresh s batch)")
    case None
    with that show ?thesis by (auto simp: find_None_iff fresh_def)
  next
    case (Some e')
    then have "e' \<in> set (fresh s batch)" "env_id e' = env_id e"
      by (auto simp: find_Some_iff)
    with that fr(1) have "e' = e" by (auto simp: distinct_map inj_on_def fresh_def)
    with Some look show ?thesis by simp
  qed
  show "jobs s' i = jobs s i" if "jobs s i \<noteq> None \<or> i \<notin> env_id ` set batch" for i
  proof -
    from that have "find (\<lambda>e. env_id e = i) (fresh s batch) = None"
      by (auto simp: find_None_iff fresh_def)
    with look show ?thesis by simp
  qed
qed

text \<open>A successful enqueue inserts exactly the envelopes whose id the store did not have,
  with defaults filled in, no lease, fence zero, and the state its schedule asks for; every
  other row is untouched, each replayed id carries the same kind, fingerprint and queue as the
  row that owns it, and no inserted content is under quarantine.\<close>

theorem enqueue_success_rows:
  assumes "mem_enqueue now batch s = (Inr (), s')"
  shows "(\<forall>e \<in> set batch. jobs s (env_id e) = None \<longrightarrow>
            jobs s' (env_id e) = Some (new_row now e) \<and>
            \<not> blocked_fingerprint s (fingerprint e)) \<and>
    (\<forall>e \<in> set batch. \<forall>j. jobs s (env_id e) = Some j \<longrightarrow>
            kind (env j) = kind e \<and> fingerprint (env j) = fingerprint e \<and>
            queue (env j) = enqueue_queue e) \<and>
    (\<forall>i. jobs s i \<noteq> None \<or> i \<notin> env_id ` set batch \<longrightarrow> jobs s' i = jobs s i)"
  using mem_enqueue_Inr [OF assms] mem_enqueue_rows [OF assms]
  by (auto simp: fresh_def same_job_content_def)

lemma enqueue_replayed:
  assumes "mem_enqueue now batch s = (Inr (), s')" "e \<in> set batch"
  shows "\<exists>j. jobs s' (env_id e) = Some j \<and>
    same_job_content e (kind (env j)) (fingerprint (env j)) (queue (env j))"
proof (cases "jobs s (env_id e)")
  case None
  with mem_enqueue_rows(1) [OF assms(1)] assms(2) show ?thesis
    by (auto simp: same_job_content_def)
next
  case (Some j)
  with mem_enqueue_rows(2) [OF assms(1), of "env_id e"] mem_enqueue_Inr(2) [OF assms(1,2) Some]
  show ?thesis by auto
qed

lemma conflict_pass_skipped: "conflict_pass now s (zip es (map (\<lambda>_. True) es)) = None"
  by (auto simp: conflict_pass_None zip_map_same)

lemma foldl_insert_skipped: "foldl (insert_one now) s (zip es (map (\<lambda>_. True) es)) = s"
  by (induction es) (auto simp: insert_one_eq)

text \<open>C3. Enqueueing is idempotent: repeating a batch that succeeded succeeds again, at any later
  time and whatever keys it carries, and writes nothing.\<close>

theorem enqueue_idempotent:
  assumes "mem_enqueue now batch s = (Inr (), s')"
  shows "mem_enqueue now' batch s' = (Inr (), s')"
proof -
  have "id_pass (jobs s') batch = Inr (map (\<lambda>_. True) batch)"
    using enqueue_replayed [OF assms] by (intro id_pass_replay)
  with mem_enqueue_Inr(1) [OF assms] show ?thesis
    by (simp add: mem_enqueue_def conflict_pass_skipped foldl_insert_skipped)
qed

section \<open>Keys\<close>

definition lifecycle_keys :: "envelope list \<Rightarrow> bytes option list" where
  "lifecycle_keys batch =
     map effective_unique_key (filter (\<lambda>e. unique_key e \<noteq> None \<and> unique_window_ms e \<le> 0) batch)"

lemma effective_unique_key_None: "effective_unique_key e = None \<longleftrightarrow> unique_key e = None"
  by (simp add: effective_unique_key_def split: option.split)

lemma insert_one_key_ok:
  assumes "key_ok s" "jobs s (env_id e) = None"
    and "\<And>k. effective_unique_key e = Some k \<Longrightarrow> \<not> unique_window_ms e > 0 \<Longrightarrow> unique s k = None"
  shows "key_ok (insert_one now s (e, False))"
  unfolding key_ok_def
proof (intro allI impI)
  fix i j k
  let ?s = "insert_one now s (e, False)"
  assume j: "jobs ?s i = Some j" and k: "holds_key k j"
  show "unique ?s k = Some i"
  proof (cases "i = env_id e")
    case True
    with j k have "effective_unique_key e = Some k" "unique_window_ms e = 0"
      by (auto simp: insert_one_eq holds_key_def)
    with True show ?thesis by (simp add: insert_one_eq index_unique_cases)
  next
    case False
    with j have "jobs s i = Some j" by (simp add: insert_one_eq)
    with assms(1) k have "unique s k = Some i" by (blast intro: key_ok_holder)
    with assms(3) [of k] show ?thesis
      by (auto simp: insert_one_eq index_unique_cases split: option.split)
  qed
qed

lemma foldl_insert_key_ok:
  "key_ok s \<Longrightarrow> distinct (map env_id es) \<Longrightarrow> distinct (lifecycle_keys es) \<Longrightarrow>
   (\<And>e. e \<in> set es \<Longrightarrow> jobs s (env_id e) = None) \<Longrightarrow>
   (\<And>e k. e \<in> set es \<Longrightarrow> effective_unique_key e = Some k \<Longrightarrow> \<not> unique_window_ms e > 0 \<Longrightarrow>
      unique s k = None) \<Longrightarrow>
   key_ok (foldl (\<lambda>s e. insert_one now s (e, False)) s es)"
proof (induction es arbitrary: s)
  case (Cons e es)
  let ?s = "insert_one now s (e, False)"
  have "key_ok ?s" using Cons.prems by (intro insert_one_key_ok) auto
  moreover have "distinct (map env_id es)" using Cons.prems(2) by simp
  moreover have "distinct (lifecycle_keys es)"
    using Cons.prems(3) by (simp add: lifecycle_keys_def split: if_splits)
  moreover have "jobs ?s (env_id e') = None" if "e' \<in> set es" for e'
  proof -
    from Cons.prems(2) that have "env_id e' \<noteq> env_id e" by (auto simp: image_iff)
    with Cons.prems(4) that show ?thesis by (simp add: insert_one_eq)
  qed
  moreover have "unique ?s k = None"
    if e': "e' \<in> set es" and k: "effective_unique_key e' = Some k" "\<not> unique_window_ms e' > 0" for e' k
  proof -
    from k have "unique_key e' \<noteq> None" by (auto simp flip: effective_unique_key_None)
    with e' k have mem: "Some k \<in> set (lifecycle_keys es)" by (force simp: lifecycle_keys_def)
    have "\<not> (effective_unique_key e = Some k \<and> \<not> unique_window_ms e > 0)"
    proof
      assume a: "effective_unique_key e = Some k \<and> \<not> unique_window_ms e > 0"
      then have "unique_key e \<noteq> None" by (auto simp flip: effective_unique_key_None)
      with a have "lifecycle_keys (e # es) = Some k # lifecycle_keys es"
        by (simp add: lifecycle_keys_def)
      with Cons.prems(3) mem show False by simp
    qed
    with Cons.prems(5) [of e' k] e' k show ?thesis
      by (auto simp: insert_one_eq index_unique_cases split: option.split)
  qed
  ultimately show ?case using Cons.IH [of ?s] by simp
qed simp

lemma lifecycle_keys_filter: "distinct (lifecycle_keys es) \<Longrightarrow> distinct (lifecycle_keys (filter P es))"
  by (induction es) (auto simp: lifecycle_keys_def split: if_splits)

lemma replace_holder_key_ok:
  assumes "key_ok s" "replace_holder now e i s = (r, s')"
  shows "key_ok s'"
  using assms(2)
proof (cases rule: replace_holder_cases)
  case 1
  with assms(1) show ?thesis by simp
next
  case (2 j j')
  have "live (jstate j)" using 2(3) by (auto simp: replaceable_def)
  moreover have "same_key j j'"
    using 2(4) same_job_key [OF 2(4)] by (simp add: same_key_def) (simp add: same_job_def)
  ultimately show ?thesis using key_ok_rewrite [OF assms(1) 2(2)] 2(5) by simp
qed

lemma mem_enqueue_key_ok:
  assumes "key_ok s" "distinct (lifecycle_keys batch)"
  shows "key_ok (snd (mem_enqueue now batch s))"
proof (cases "fst (mem_enqueue now batch s)")
  case (Inl err)
  define s' where "s' = snd (mem_enqueue now batch s)"
  from Inl have "mem_enqueue now batch s = (Inl err, s')" by (simp add: s'_def prod_eq_iff)
  from mem_enqueue_Inl [OF this] assms(1) replace_holder_key_ok [OF assms(1)] show ?thesis
    by (auto simp: rejects_def s'_def)
next
  case (Inr u)
  define s' where "s' = snd (mem_enqueue now batch s)"
  from Inr have ok: "mem_enqueue now batch s = (Inr (), s')" by (simp add: s'_def prod_eq_iff)
  note fr = fresh_facts [OF mem_enqueue_Inr(1) [OF ok], where s = s]
  have "unique s k = None" if "e \<in> set (fresh s batch)" "effective_unique_key e = Some k"
    "\<not> unique_window_ms e > 0" for e k
    using mem_enqueue_Inr(4) [OF ok that(1,2)] that(3) by (simp add: unique_holder_def)
  moreover have "distinct (lifecycle_keys (fresh s batch))"
    unfolding fresh_def using assms(2) by (rule lifecycle_keys_filter)
  ultimately have "key_ok (foldl (\<lambda>s e. insert_one now s (e, False)) s (fresh s batch))"
    using fr by (intro foldl_insert_key_ok [OF assms(1)]) auto
  with mem_enqueue_Inr(5) [OF ok] show ?thesis by (simp add: s'_def)
qed

text \<open>While a lifecycle key is indexed, a valid new job that carries it is refused with the
  id of a live row that carries the key, and neither the key's entry nor any other row
  changes.\<close>

theorem enqueue_duplicate_refused:
  assumes "store_ok s" "validate_enqueue [e] = Inr ()" "jobs s (env_id e) = None"
    and "\<not> blocked_fingerprint s (fingerprint e)"
    and "effective_unique_key e = Some k" "unique_window_ms e = 0" "unique s k = Some i"
  shows "(\<exists>r. fst (mem_enqueue now [e] s) = Inl (Duplicate i r)) \<and>
    (\<exists>j. jobs s i = Some j \<and> effective_unique_key (env j) = Some k \<and> live (jstate j)) \<and>
    unique (snd (mem_enqueue now [e] s)) = unique s \<and>
    (\<forall>m. m \<noteq> i \<longrightarrow> jobs (snd (mem_enqueue now [e] s)) m = jobs s m)"
proof -
  obtain r s' where r: "replace_holder now e i s = (r, s')" by fastforce
  from assms r have "conflict_pass now s (zip [e] [False]) = Some (Duplicate i r, s')"
    by (simp add: blocked_fingerprint_def unique_holder_def)
  with assms(2,3) have en: "mem_enqueue now [e] s = (Inl (Duplicate i r), s')"
    by (simp add: mem_enqueue_def)
  have "unique s' = unique s \<and> (\<forall>m. m \<noteq> i \<longrightarrow> jobs s' m = jobs s m)"
    using r by (cases rule: replace_holder_cases) simp_all
  with en store_ok_index [OF assms(1,7)] show ?thesis by (auto simp: holds_key_def)
qed

section \<open>Witnesses\<close>

definition demo_env :: "string \<Rightarrow> bytes \<Rightarrow> envelope" where
  "demo_env i k = envelope_default\<lparr>env_id := i, kind := ''mail'', unique_key := Some k\<rparr>"

lemma demo_env_sel [simp]:
  "env_id (demo_env i k) = i" "kind (demo_env i k) = ''mail''"
  "unique_key (demo_env i k) = Some k" "fingerprint (demo_env i k) = []"
  "unique_window_ms (demo_env i k) = 0" "unique_replace (demo_env i k) = 0"
  "unique_debounce_ms (demo_env i k) = 0" "unique_exclude_kind (demo_env i k) = False"
  by (simp_all add: demo_env_def envelope_default_def)

lemma demo_env_valid:
  "i \<noteq> [] \<Longrightarrow> length i \<le> 255 \<Longrightarrow> length k \<le> 255 \<Longrightarrow> envelope_valid (demo_env i k)"
  by (simp add: demo_env_def envelope_default_def envelope_valid_def fields_valid_def
      routing_valid_def identifier_fields_def unique_key_len_def unique_key_missing_def
      header_bytes_def kind_ok_def word_char_def MAX_JOB_IDENTIFIER_LEN_def MAX_UNIQUE_KEY_BYTES_def)

lemma demo_env_total: "envelope_total (demo_env i k) = length i + length k + 4"
  by (simp add: demo_env_def envelope_default_def envelope_total_def envelope_bytes_def
      header_bytes_def unique_key_len_def)

lemma demo_batch_valid:
  "validate_enqueue [demo_env ''a'' ''k''] = Inr ()"
  "validate_enqueue [demo_env ''b'' ''k''] = Inr ()"
  "validate_enqueue [demo_env ''a'' ''k'', demo_env ''b'' ''k''] = Inr ()"
  by (simp_all add: validate_enqueue_Inr demo_env_valid demo_env_total MAX_ENQUEUE_BATCH_SIZE_def
      MAX_ENQUEUE_BYTES_def)

lemma demo_key: "effective_unique_key (demo_env i k) = effective_unique_key (demo_env '''' k)"
  by (rule effective_unique_key_cong) simp_all

definition demo_store :: inner where
  "demo_store = insert_one 5 inner_default (demo_env ''a'' ''k'', False)"

lemma demo_enqueue:
  "mem_enqueue 5 [demo_env ''a'' ''k''] inner_default = (Inr (), demo_store)"
  by (simp add: mem_enqueue_def demo_batch_valid demo_store_def inner_default_def
      unique_holder_def split: option.split)

lemma demo_store_ok: "store_ok demo_store"
  using mem_enqueue_ok [OF store_ok_default, of 5 "[demo_env ''a'' ''k'']"]
  by (simp add: demo_enqueue)

lemma demo_store_sel:
  "jobs demo_store = [''a'' \<mapsto> new_row 5 (demo_env ''a'' ''k'')]"
  "unique demo_store = [the (effective_unique_key (demo_env '''' ''k'')) \<mapsto> ''a'']"
  "quarantine demo_store = Map.empty"
proof -
  obtain k where "effective_unique_key (demo_env '''' ''k'') = Some k"
    by (simp add: effective_unique_key_def)
  then show "unique demo_store = [the (effective_unique_key (demo_env '''' ''k'')) \<mapsto> ''a'']"
    by (simp add: demo_store_def insert_one_eq index_unique_cases demo_key [of "''a''"]
        inner_default_def)
qed (simp_all add: demo_store_def insert_one_eq inner_default_def)

lemma demo_conflict:
  "mem_enqueue 6 [demo_env ''b'' ''k''] demo_store = (Inl (Duplicate ''a'' False), demo_store)"
proof -
  obtain k where k: "effective_unique_key (demo_env '''' ''k'') = Some k"
    by (simp add: effective_unique_key_def)
  show ?thesis
    by (simp add: mem_enqueue_def demo_batch_valid demo_store_sel demo_key [of "''b''"] k
        unique_holder_def replace_holder_def)
qed

definition demo_hurry :: envelope where
  "demo_hurry = (demo_env ''b'' ''k'')\<lparr>priority := 7, unique_replace := UNIQUE_REPLACE_PRIORITY\<rparr>"

lemma demo_hurried: "\<exists>s'. mem_enqueue 6 [demo_hurry] demo_store = (Inl (Duplicate ''a'' True), s')"
proof -
  obtain k where k: "effective_unique_key (demo_env '''' ''k'') = Some k"
    by (simp add: effective_unique_key_def)
  have "effective_unique_key demo_hurry = effective_unique_key (demo_env ''b'' ''k'')"
    by (rule effective_unique_key_cong) (simp_all add: demo_hurry_def)
  moreover have "validate_enqueue [demo_hurry] = Inr ()"
    by (simp add: validate_enqueue_Inr demo_hurry_def demo_env_def envelope_default_def envelope_valid_def fields_valid_def
        routing_valid_def identifier_fields_def unique_key_len_def unique_key_missing_def UNIQUE_REPLACE_PRIORITY_def
        UNIQUE_REPLACE_ALL_def UNIQUE_REPLACE_PAYLOAD_def UNIQUE_REPLACE_SCHEDULED_AT_def UNIQUE_REPLACE_MAX_ATTEMPTS_def
        header_bytes_def kind_ok_def word_char_def MAX_JOB_IDENTIFIER_LEN_def MAX_UNIQUE_KEY_BYTES_def
        envelope_total_def envelope_bytes_def MAX_ENQUEUE_BATCH_SIZE_def MAX_ENQUEUE_BYTES_def)
  moreover have "env_id demo_hurry = ''b''" "fingerprint demo_hurry = []" "unique_window_ms demo_hurry = 0"
    "unique_debounce_ms demo_hurry = 0" "unique_replace demo_hurry = 4"
    by (simp_all add: demo_hurry_def UNIQUE_REPLACE_PRIORITY_def)
  moreover have "replaceable (new_row 5 (demo_env ''a'' ''k''))"
    by (simp add: replaceable_def initial_state_def fill_defaults_def demo_env_def envelope_default_def)
  ultimately show ?thesis
    by (simp add: mem_enqueue_def demo_store_sel demo_key [of "''b''"] k unique_holder_def replace_holder_def
        replace_masked_def replace_debounced_def apply_if_def UNIQUE_REPLACE_PRIORITY_def UNIQUE_REPLACE_PAYLOAD_def
        UNIQUE_REPLACE_SCHEDULED_AT_def UNIQUE_REPLACE_MAX_ATTEMPTS_def Let_def)
qed

theorem enqueue_error_atomic_witness:
  "(\<exists>s'. mem_enqueue 6 [demo_env ''b'' ''k''] demo_store = (Inl (Duplicate ''a'' False), s') \<and> s' = demo_store) \<and>
   (\<exists>s' j. mem_enqueue 6 [demo_hurry] demo_store = (Inl (Duplicate ''a'' True), s') \<and>
      jobs s' ''a'' = Some j \<and> priority (env j) = 7 \<and> payload (env j) = payload (demo_env ''a'' ''k''))"
proof
  show "\<exists>s'. mem_enqueue 6 [demo_env ''b'' ''k''] demo_store = (Inl (Duplicate ''a'' False), s') \<and> s' = demo_store"
    using enqueue_error_atomic [OF demo_conflict] demo_conflict by blast
  obtain s' where e: "mem_enqueue 6 [demo_hurry] demo_store = (Inl (Duplicate ''a'' True), s')" using demo_hurried by blast
  from enqueue_error_atomic [OF e] have "s' = demo_store\<lparr>jobs := [''a'' \<mapsto> replacement 6 demo_hurry (new_row 5 (demo_env ''a'' ''k''))]\<rparr>"
    by (auto simp: demo_store_sel)
  moreover have "priority (env (replacement 6 demo_hurry (new_row 5 (demo_env ''a'' ''k'')))) = 7"
    "payload (env (replacement 6 demo_hurry (new_row 5 (demo_env ''a'' ''k'')))) = payload (demo_env ''a'' ''k'')"
    by (simp_all add: replacement_def Let_def demo_hurry_def UNIQUE_REPLACE_PRIORITY_def UNIQUE_REPLACE_PAYLOAD_def fill_defaults_def)
  ultimately show "\<exists>s' j. mem_enqueue 6 [demo_hurry] demo_store = (Inl (Duplicate ''a'' True), s') \<and>
      jobs s' ''a'' = Some j \<and> priority (env j) = 7 \<and> payload (env j) = payload (demo_env ''a'' ''k'')"
    using e by simp
qed

theorem enqueue_success_rows_witness:
  "jobs demo_store ''a'' = Some (new_row 5 (demo_env ''a'' ''k''))"
  using enqueue_success_rows [OF demo_enqueue] by (simp add: inner_default_def)

theorem enqueue_idempotent_witness:
  "mem_enqueue 9 [demo_env ''a'' ''k''] demo_store = (Inr (), demo_store)"
  by (rule enqueue_idempotent [OF demo_enqueue])

theorem enqueue_duplicate_refused_witness:
  "\<exists>r. fst (mem_enqueue 6 [demo_env ''b'' ''k''] demo_store) = Inl (Duplicate ''a'' r)"
proof -
  obtain k where k: "effective_unique_key (demo_env '''' ''k'') = Some k"
    by (simp add: effective_unique_key_def)
  then have kb: "effective_unique_key (demo_env ''b'' ''k'') = Some k"
    by (simp add: demo_key [of "''b''"])
  from enqueue_duplicate_refused [OF demo_store_ok demo_batch_valid(2) _ _ kb, where i = "''a''" and now = 6] k
  show ?thesis by (simp add: demo_store_sel blocked_fingerprint_def)
qed

text \<open>The conflict pass looks at the store only, so one batch can carry a key twice: both rows
  are written, and two live jobs then hold one lifecycle key.\<close>

theorem enqueue_batch_shares_key:
  "\<exists>s' k. mem_enqueue 5 [demo_env ''a'' ''k'', demo_env ''b'' ''k''] inner_default = (Inr (), s') \<and>
     (\<exists>j. jobs s' ''a'' = Some j \<and> holds_key k j) \<and> (\<exists>j. jobs s' ''b'' = Some j \<and> holds_key k j)"
proof -
  obtain k where k: "effective_unique_key (demo_env '''' ''k'') = Some k"
    by (simp add: effective_unique_key_def)
  then have hold: "holds_key k (new_row 5 (demo_env i ''k''))" for i
    using new_row_live(1) [of 5 "demo_env i ''k''"] demo_key [of i "''k''"]
    by (simp add: holds_key_def)
  define s' where "s' = foldl (insert_one 5) inner_default
    [(demo_env ''a'' ''k'', False), (demo_env ''b'' ''k'', False)]"
  have "mem_enqueue 5 [demo_env ''a'' ''k'', demo_env ''b'' ''k''] inner_default = (Inr (), s')"
    by (simp add: mem_enqueue_def demo_batch_valid s'_def inner_default_def
        unique_holder_def split: option.split)
  moreover have "jobs s' ''a'' = Some (new_row 5 (demo_env ''a'' ''k''))"
    "jobs s' ''b'' = Some (new_row 5 (demo_env ''b'' ''k''))"
    by (simp_all add: s'_def insert_one_eq)
  ultimately show ?thesis using hold by blast
qed

end
