(* ===== verification/MemAdmit.thy ===== *)
theory MemAdmit
  imports MemStore
begin

text \<open>
  \<open>MemStore::admit\<close> (src/crates/headgate-testkit/src/lib.rs): the gate, the partitions of a
  queue and their order, the rotating draw across partitions, and the charge to the rate
  buckets. \<open>ord\<close> is the iteration order of the job map.
\<close>

section \<open>The draw order within a partition\<close>

text \<open>The comparison of the source: priority descending, then the schedule, then the id.\<close>

datatype rank = Rank (rk_priority: i32) (rk_scheduled: i64) (rk_id: string)

instantiation rank :: linorder
begin

definition less_eq_rank :: "rank \<Rightarrow> rank \<Rightarrow> bool" where
  "less_eq_rank x y \<longleftrightarrow>
     rk_priority y < rk_priority x \<or>
     rk_priority x = rk_priority y \<and>
       (rk_scheduled x < rk_scheduled y \<or>
        rk_scheduled x = rk_scheduled y \<and> rk_id x \<le> rk_id y)"

definition less_rank :: "rank \<Rightarrow> rank \<Rightarrow> bool" where
  "less_rank x y \<longleftrightarrow> x \<le> y \<and> \<not> y \<le> (x :: rank)"

instance
  by standard (auto simp: less_eq_rank_def less_rank_def rank.expand)

end

definition rank_of :: "inner \<Rightarrow> string \<Rightarrow> rank" where
  "rank_of s i =
     (case jobs s i of
        None \<Rightarrow> Rank 0 0 i
      | Some j \<Rightarrow> Rank (priority (env j)) (scheduled_at_ms (env j)) i)"

definition part_of :: "inner \<Rightarrow> string \<Rightarrow> string" where
  "part_of s i = (case jobs s i of None \<Rightarrow> [] | Some j \<Rightarrow> partition_key (env j))"

section \<open>The gate\<close>

definition candidate :: "i64 \<Rightarrow> string \<Rightarrow> string \<Rightarrow> inner \<Rightarrow> string \<Rightarrow> bool" where
  "candidate now worker q s i =
     (case jobs s i of
        None \<Rightarrow> False
      | Some j \<Rightarrow>
          queue (env j) = q \<and> jstate j = ''available'' \<and> scheduled_at_ms (env j) \<le> now \<and>
          (sticky_worker (env j) = [] \<or> sticky_worker (env j) = worker))"

definition gained :: "i64 \<Rightarrow> rate_bucket \<Rightarrow> i64" where
  "gained now b = wrap64 (wrap64 (now - rb_refilled b) * rb_limit b) sdiv rb_window b"

definition refill :: "i64 \<Rightarrow> rate_bucket \<Rightarrow> rate_bucket" where
  "refill now b =
     (if rb_limit b > 0 \<and> rb_window b > 0 then
        if gained now b > 0
        then b\<lparr>rb_tokens := min (rb_burst b) (wrap64 (rb_tokens b + gained now b)),
               rb_refilled := now\<rparr>
        else b
      else b)"

definition job_cost :: "mem_job \<Rightarrow> i64" where
  "job_cost j = uint (effective_weight (weight (env j)))"

definition taken_of :: "(string \<rightharpoonup> i64) \<Rightarrow> string \<Rightarrow> i64" where
  "taken_of taken rc = (case taken rc of None \<Rightarrow> 0 | Some n \<Rightarrow> n)"

text \<open>The ids come from the job map, so the indexing \<open>inner.jobs[id]\<close> never panics; the row
  that is missing is refused.\<close>

definition admissible :: "i64 \<Rightarrow> (string \<rightharpoonup> i64) \<Rightarrow> string \<Rightarrow> inner \<Rightarrow> bool \<times> inner" where
  "admissible now taken i s =
     (case jobs s i of
        None \<Rightarrow> (False, s)
      | Some j \<Rightarrow>
          if blocked_fingerprint s (fingerprint (env j)) then (False, s)
          else if rate_class (env j) = [] then (True, s)
          else case rate s (rate_class (env j)) of
            None \<Rightarrow> (True, s)
          | Some b \<Rightarrow>
              let b' = refill now b
              in (wrap64 (taken_of taken (rate_class (env j)) + job_cost j) \<le> rb_tokens b',
                  s\<lparr>rate := (rate s)(rate_class (env j) \<mapsto> b')\<rparr>))"

section \<open>The draw\<close>

record admit_st =
  ad_inner :: inner
  ad_taken :: "string \<rightharpoonup> i64"
  ad_units :: "admission_unit list"

definition charged :: "inner \<Rightarrow> mem_job \<Rightarrow> bool" where
  "charged s j \<longleftrightarrow> rate_class (env j) \<noteq> [] \<and> rate s (rate_class (env j)) \<noteq> None"

definition claimed_row :: "i64 \<Rightarrow> admit_request \<Rightarrow> inner \<Rightarrow> mem_job \<Rightarrow> mem_job" where
  "claimed_row now req s j =
     j\<lparr>fence := fence j + 1, jstate := ''running'', lease_id := req_lease_id req,
       lease_expires := wrap64 (now + wrap64 (int (as_millis (req_lease req)))),
       rate_charge := (if charged s j then job_cost j else 0)\<rparr>"

definition claim_of :: "admit_request \<Rightarrow> mem_job \<Rightarrow> claim" where
  "claim_of req j' =
     \<lparr>cl_envelope = env j', cl_lease_id = req_lease_id req, cl_fence = fence j',
      cl_expires_at_ms = lease_expires j', cl_checkpoint = jcheckpoint j'\<rparr>"

definition claim_job :: "i64 \<Rightarrow> admit_request \<Rightarrow> string \<Rightarrow> admit_st \<Rightarrow> admit_st" where
  "claim_job now req i st =
     (let s = ad_inner st
      in case jobs s i of
           None \<Rightarrow> st
         | Some j \<Rightarrow>
             let rc = rate_class (env j); j' = claimed_row now req s j
             in st\<lparr>ad_inner := s\<lparr>jobs := (jobs s)(i \<mapsto> j')\<rparr>,
                   ad_taken := (if charged s j
                     then (ad_taken st)(rc \<mapsto> wrap64 (taken_of (ad_taken st) rc + job_cost j))
                     else ad_taken st),
                   ad_units := ad_units st @ [[claim_of req j']]\<rparr>)"

text \<open>The inner \<open>while\<close>: pop ids until one is admissible.\<close>

fun pick :: "i64 \<Rightarrow> (string \<rightharpoonup> i64) \<Rightarrow> string list \<Rightarrow> inner
    \<Rightarrow> string option \<times> string list \<times> inner" where
  "pick now taken [] s = (None, [], s)"
| "pick now taken (i # ids) s =
     (case admissible now taken i s of
        (True, s') \<Rightarrow> (Some i, ids, s')
      | (False, s') \<Rightarrow> pick now taken ids s')"

type_synonym draw = "(string \<Rightarrow> string list) \<times> admit_st \<times> bool"

abbreviation full :: "admit_request \<Rightarrow> admit_st \<Rightarrow> bool" where
  "full req st \<equiv> unat (req_capacity req) \<le> length (ad_units st)"

text \<open>One partition of a round; a full request skips the rest of the round.\<close>

definition visit :: "i64 \<Rightarrow> admit_request \<Rightarrow> draw \<Rightarrow> string \<Rightarrow> draw" where
  "visit now req d p =
     (case d of (by, st, progressed) \<Rightarrow>
        if full req st then d
        else
          case pick now (ad_taken st) (by p) (ad_inner st) of
            (None, ids, s') \<Rightarrow> (by(p := ids), st\<lparr>ad_inner := s'\<rparr>, progressed)
          | (Some i, ids, s') \<Rightarrow>
              (by(p := ids), claim_job now req i (st\<lparr>ad_inner := s'\<rparr>), True))"

definition draw_round ::
  "i64 \<Rightarrow> admit_request \<Rightarrow> string list \<Rightarrow> (string \<Rightarrow> string list) \<Rightarrow> admit_st \<Rightarrow> draw" where
  "draw_round now req ps by st = foldl (visit now req) (by, st, False) ps"

definition backlog :: "string list \<Rightarrow> (string \<Rightarrow> string list) \<Rightarrow> nat" where
  "backlog ps by = sum_list (map (\<lambda>p. length (by p)) ps)"

lemma pick_length:
  "pick now taken ids s = (r, ids', s') \<Longrightarrow> length ids' \<le> length ids \<and>
    (r \<noteq> None \<longrightarrow> length ids' < length ids)"
  by (induction now taken ids s rule: pick.induct) (force split: prod.splits bool.splits)+

lemma visit_length:
  assumes "visit now req (by, st, pr) p = (by', st', pr')"
  shows "length (by' q) \<le> length (by q) \<and>
    (pr' \<and> \<not> pr \<longrightarrow> length (by' p) < length (by p)) \<and> (pr \<longrightarrow> pr')"
  using assms pick_length [of now "ad_taken st" "by p" "ad_inner st"]
  by (auto simp: visit_def split: if_splits prod.splits option.splits)

lemma foldl_visit_length:
  "foldl (visit now req) (by, st, pr) ps = (by', st', pr') \<Longrightarrow>
   (\<forall>q. length (by' q) \<le> length (by q)) \<and>
   (pr' \<and> \<not> pr \<longrightarrow> (\<exists>p \<in> set ps. length (by' p) < length (by p)))"
proof (induction ps arbitrary: "by" st pr)
  case (Cons p ps)
  obtain by1 st1 pr1 where v: "visit now req (by, st, pr) p = (by1, st1, pr1)"
    by (metis prod_cases3)
  with Cons.prems have "foldl (visit now req) (by1, st1, pr1) ps = (by', st', pr')" by simp
  note IH = Cons.IH [OF this] and vl = visit_length [OF v]
  have le: "length (by' q) \<le> length (by q)" for q
    using IH vl [of q] by (meson le_trans)
  moreover have "\<exists>p \<in> set (p # ps). length (by' p) < length (by p)" if "pr'" "\<not> pr"
  proof (cases pr1)
    case True
    with vl that have "length (by1 p) < length (by p)" by blast
    with IH show ?thesis by (metis le_less_trans list.set_intros(1))
  next
    case False
    with IH that obtain p' where "p' \<in> set ps" "length (by' p') < length (by1 p')" by blast
    with vl [of p'] show ?thesis by (metis le_trans less_le_trans list.set_intros(2))
  qed
  ultimately show ?case by blast
qed simp

lemma backlog_mono:
  "(\<And>q. length (by' q) \<le> length (by q)) \<Longrightarrow> backlog ps by' \<le> backlog ps by"
  by (simp add: backlog_def sum_list_mono)

lemma backlog_decreases:
  assumes "\<And>q. length (by' q) \<le> length (by q)" "p \<in> set ps" "length (by' p) < length (by p)"
  shows "backlog ps by' < backlog ps by"
  using assms(2)
proof (induction ps)
  case (Cons q ps)
  then show ?case
  proof (cases "q = p")
    case True
    have "backlog ps by' \<le> backlog ps by" using assms(1) by (rule backlog_mono)
    with True assms(3) show ?thesis by (simp add: backlog_def)
  next
    case False
    with Cons assms(1) [of q] show ?thesis by (simp add: backlog_def)
  qed
qed simp

lemma draw_round_decreases:
  assumes "draw_round now req ps by st = (by', st', True)"
  shows "backlog ps by' < backlog ps by"
proof -
  from foldl_visit_length [OF assms [unfolded draw_round_def]]
  obtain p where "p \<in> set ps" "length (by' p) < length (by p)" by auto
  with foldl_visit_length [OF assms [unfolded draw_round_def]] show ?thesis
    by (intro backlog_decreases) auto
qed

text \<open>The rounds: each one that progressed took an id off some partition.\<close>

function admit_rounds ::
  "i64 \<Rightarrow> admit_request \<Rightarrow> string list \<Rightarrow> (string \<Rightarrow> string list) \<Rightarrow> admit_st \<Rightarrow> admit_st" where
  "admit_rounds now req ps by st =
     (case draw_round now req ps by st of
        (by', st', progressed) \<Rightarrow>
          if \<not> progressed \<or> full req st' then st' else admit_rounds now req ps by' st')"
  by pat_completeness auto
termination
  by (relation "measure (\<lambda>(now, req, ps, by, st). backlog ps by)")
    (auto dest!: sym [of "(_, _, True)"] draw_round_decreases)

definition rotated :: "nat \<Rightarrow> string list \<Rightarrow> string list" where
  "rotated start parts = map (\<lambda>i. parts ! ((start + i) mod length parts)) [0..<length parts]"

definition admit_queue ::
  "i64 \<Rightarrow> admit_request \<Rightarrow> string list \<Rightarrow> admit_st \<Rightarrow> string \<Rightarrow> admit_st" where
  "admit_queue now req ord st q =
     (let s = ad_inner st
      in if full req st \<or> paused s q = Some True then st
         else
           let cands = filter (candidate now (req_worker req) q s) ord;
               by = (\<lambda>p. sort_key (rank_of s) (filter (\<lambda>i. part_of s i = p) cands));
               parts = sort_dedup (map (part_of s) cands)
           in if parts = [] then st
              else
                let r = (case rr s q of None \<Rightarrow> 0 | Some r \<Rightarrow> r);
                    st1 = st\<lparr>ad_inner := s\<lparr>rr := (rr s)(q \<mapsto> (r + 1) mod 2 ^ 64)\<rparr>\<rparr>
                in admit_rounds now req (rotated (r mod length parts) parts) by st1)"

definition spend :: "(string \<rightharpoonup> i64) \<Rightarrow> inner \<Rightarrow> inner" where
  "spend taken s =
     s\<lparr>rate := (\<lambda>rc. map_option (\<lambda>b.
        case taken rc of None \<Rightarrow> b | Some n \<Rightarrow> b\<lparr>rb_tokens := wrap64 (rb_tokens b - n)\<rparr>)
        (rate s rc))\<rparr>"

definition mem_admit ::
  "i64 \<Rightarrow> string list \<Rightarrow> admit_request \<Rightarrow> inner \<Rightarrow> admission_unit list result \<times> inner" where
  "mem_admit now ord req s =
     (if req_lease req = 0 then (Inl (Invalid ''lease must be >= 1ms''), s)
      else
        let st = foldl (admit_queue now req ord)
                   \<lparr>ad_inner = s, ad_taken = Map.empty, ad_units = []\<rparr> (req_queues req)
        in (Inr (ad_units st), spend (ad_taken st) (ad_inner st)))"

declare admit_rounds.simps [simp del]

section \<open>The draw as a sequence of atomic actions\<close>

text \<open>
  The loops of \<open>admit\<close> do three things to the state: refill a bucket, advance the rotation, and
  claim a job that is a candidate and that the gate lets through. What holds along every
  sequence of these holds of the loops.
\<close>

definition gate_open :: "i64 \<Rightarrow> (string \<rightharpoonup> i64) \<Rightarrow> inner \<Rightarrow> mem_job \<Rightarrow> bool" where
  "gate_open now taken s j \<longleftrightarrow>
     \<not> blocked_fingerprint s (fingerprint (env j)) \<and>
     (\<forall>b. charged s j \<longrightarrow> rate s (rate_class (env j)) = Some b \<longrightarrow>
        refill now b = b \<and>
        wrap64 (taken_of taken (rate_class (env j)) + job_cost j) \<le> rb_tokens b)"

inductive admit_act :: "i64 \<Rightarrow> admit_request \<Rightarrow> admit_st \<Rightarrow> admit_st \<Rightarrow> bool"
  for now req where
  refills: "rate (ad_inner st) rc = Some b \<Longrightarrow>
    admit_act now req st
      (st\<lparr>ad_inner := (ad_inner st)\<lparr>rate := (rate (ad_inner st))(rc \<mapsto> refill now b)\<rparr>\<rparr>)"
| rotates: "admit_act now req st (st\<lparr>ad_inner := (ad_inner st)\<lparr>rr := m\<rparr>\<rparr>)"
| claims: "\<not> full req st \<Longrightarrow> q \<in> set (req_queues req) \<Longrightarrow> paused (ad_inner st) q \<noteq> Some True \<Longrightarrow>
    candidate now (req_worker req) q (ad_inner st) i \<Longrightarrow> jobs (ad_inner st) i = Some j \<Longrightarrow>
    gate_open now (ad_taken st) (ad_inner st) j \<Longrightarrow>
    admit_act now req st (claim_job now req i st)"

inductive_cases admit_actE: "admit_act now req st st'"

abbreviation admit_acts :: "i64 \<Rightarrow> admit_request \<Rightarrow> admit_st \<Rightarrow> admit_st \<Rightarrow> bool" where
  "admit_acts now req \<equiv> (admit_act now req)\<^sup>*\<^sup>*"

lemma gained_now: "gained now (b\<lparr>rb_tokens := t, rb_refilled := now\<rparr>) = 0"
  by (simp add: gained_def wrap64_def signed_divide_int_def)

lemma refill_idem [simp]: "refill now (refill now b) = refill now b"
  by (simp add: refill_def gained_now)

lemma admissible_frame:
  assumes "admissible now taken i s = (ok, s')"
  shows "jobs s' = jobs s" "unique s' = unique s" "throttle s' = throttle s"
    "quarantine s' = quarantine s" "paused s' = paused s" "duties s' = duties s" "rr s' = rr s"
  using assms by (auto simp: admissible_def Let_def split: option.splits if_splits)

lemma admissible_acts:
  assumes "admissible now (ad_taken st) i (ad_inner st) = (ok, s')"
  shows "admit_acts now req st (st\<lparr>ad_inner := s'\<rparr>)"
proof (cases "s' = ad_inner st")
  case True
  then show ?thesis by simp
next
  case False
  with assms obtain rc b where "rate (ad_inner st) rc = Some b"
    "s' = (ad_inner st)\<lparr>rate := (rate (ad_inner st))(rc \<mapsto> refill now b)\<rparr>"
    by (auto simp: admissible_def Let_def split: option.splits if_splits)
  with admit_act.refills [of st rc b now req] show ?thesis by auto
qed

lemma admissible_gate:
  assumes "admissible now taken i s = (True, s')"
  shows "\<exists>j. jobs s' i = Some j \<and> gate_open now taken s' j"
  using assms
  by (auto simp: admissible_def Let_def gate_open_def charged_def blocked_fingerprint_def
      split: option.splits if_splits)

lemma pick_acts:
  assumes "pick now (ad_taken st) ids (ad_inner st) = (r, ids', s')"
  shows "admit_acts now req st (st\<lparr>ad_inner := s'\<rparr>)"
  using assms
proof (induction ids arbitrary: st)
  case (Cons i ids)
  obtain ok s1 where ok: "admissible now (ad_taken st) i (ad_inner st) = (ok, s1)" by fastforce
  note one = admissible_acts [OF ok, of req]
  show ?case
  proof (cases ok)
    case True
    with Cons.prems ok one show ?thesis by simp
  next
    case False
    with Cons.prems ok have "pick now (ad_taken (st\<lparr>ad_inner := s1\<rparr>)) ids
        (ad_inner (st\<lparr>ad_inner := s1\<rparr>)) = (r, ids', s')" by simp
    from Cons.IH [OF this] one show ?thesis by simp
  qed
qed auto

lemma pick_frame:
  assumes "pick now taken ids s = (r, ids', s')"
  shows "jobs s' = jobs s" "unique s' = unique s" "throttle s' = throttle s"
    "quarantine s' = quarantine s" "paused s' = paused s" "duties s' = duties s" "rr s' = rr s"
  using assms
  by (induction now taken ids s rule: pick.induct)
    (auto dest: admissible_frame split: prod.splits bool.splits)

lemma pick_Some:
  "pick now taken ids s = (Some i, ids', s') \<Longrightarrow>
   (\<exists>pre. ids = pre @ i # ids') \<and> (\<exists>j. jobs s' i = Some j \<and> gate_open now taken s' j)"
proof (induction ids arbitrary: s)
  case (Cons m ids)
  obtain ok s1 where ok: "admissible now taken m s = (ok, s1)" by fastforce
  show ?case
  proof (cases ok)
    case True
    with Cons.prems ok admissible_gate [of now taken m s s1] show ?thesis by auto
  next
    case False
    with Cons.prems ok Cons.IH [of s1] obtain pre where "ids = pre @ i # ids'"
      "\<exists>j. jobs s' i = Some j \<and> gate_open now taken s' j" by auto
    then show ?thesis by (auto intro: exI [of _ "m # pre"])
  qed
qed simp

lemma pick_suffix:
  "pick now taken ids s = (r, ids', s') \<Longrightarrow> \<exists>pre. ids = pre @ ids'"
proof (induction ids arbitrary: s)
  case (Cons m ids)
  obtain ok s1 where ok: "admissible now taken m s = (ok, s1)" by fastforce
  show ?case
  proof (cases ok)
    case True
    with Cons.prems ok show ?thesis by (auto intro: exI [of _ "[m]"])
  next
    case False
    with Cons.prems ok Cons.IH [of s1] obtain pre where "ids = pre @ ids'" by auto
    then show ?thesis by (auto intro: exI [of _ "m # pre"])
  qed
qed simp

section \<open>The loops are sequences of actions\<close>

text \<open>What is queued for the draw: candidates only, each once and in its own partition.\<close>

definition by_ok :: "i64 \<Rightarrow> admit_request \<Rightarrow> string \<Rightarrow> inner \<Rightarrow> (string \<Rightarrow> string list) \<Rightarrow> bool" where
  "by_ok now req q s by \<longleftrightarrow>
     (\<forall>p. distinct (by p) \<and>
        (\<forall>i \<in> set (by p). candidate now (req_worker req) q s i \<and> part_of s i = p))"

lemma candidate_cong: "jobs s' i = jobs s i \<Longrightarrow> candidate now w q s' i = candidate now w q s i"
  by (simp add: candidate_def)

lemma part_of_cong: "jobs s' i = jobs s i \<Longrightarrow> part_of s' i = part_of s i"
  by (simp add: part_of_def)

lemma by_ok_cong: "jobs s' = jobs s \<Longrightarrow> by_ok now req q s' by = by_ok now req q s by"
  by (simp add: by_ok_def candidate_def part_of_def)

lemma by_ok_suffix: "by_ok now req q s by \<Longrightarrow> by p = pre @ ids \<Longrightarrow> by_ok now req q s (by(p := ids))"
  unfolding by_ok_def by (metis Un_iff distinct_append fun_upd_apply set_append)

lemma claim_job_eq:
  assumes "jobs (ad_inner st) i = Some j"
  shows "claim_job now req i st =
    st\<lparr>ad_inner := (ad_inner st)\<lparr>jobs := (jobs (ad_inner st))(i \<mapsto> claimed_row now req (ad_inner st) j)\<rparr>,
       ad_taken := (if charged (ad_inner st) j
         then (ad_taken st)(rate_class (env j) \<mapsto>
                wrap64 (taken_of (ad_taken st) (rate_class (env j)) + job_cost j))
         else ad_taken st),
       ad_units := ad_units st @ [[claim_of req (claimed_row now req (ad_inner st) j)]]\<rparr>"
  using assms by (simp add: claim_job_def Let_def)

lemma by_ok_claim:
  assumes "by_ok now req q (ad_inner st) by" "by p = pre @ i # ids" "jobs (ad_inner st) i = Some j"
  shows "by_ok now req q (ad_inner (claim_job now req i st)) (by(p := ids))"
  unfolding by_ok_def
proof (intro allI conjI ballI)
  let ?s = "ad_inner (claim_job now req i st)"
  have b: "by_ok now req q (ad_inner st) (by(p := ids))"
    using by_ok_suffix [OF assms(1), of p "pre @ [i]" ids] assms(2) by simp
  show "distinct ((by(p := ids)) p')" for p' using b by (simp add: by_ok_def)
  fix p' m
  assume m: "m \<in> set ((by(p := ids)) p')"
  have "m \<noteq> i"
  proof
    assume "m = i"
    moreover from assms(1,2) have "part_of (ad_inner st) i = p" "i \<notin> set ids"
      unfolding by_ok_def by (metis in_set_conv_decomp, metis distinct.simps(2) distinct_append)
    ultimately show False using m b unfolding by_ok_def by (metis fun_upd_same)
  qed
  then have "jobs ?s m = jobs (ad_inner st) m" using assms(3) by (simp add: claim_job_eq)
  with b m show "candidate now (req_worker req) q ?s m" "part_of ?s m = p'"
    unfolding by_ok_def by (metis candidate_cong, metis part_of_cong)
qed

lemma visit_acts:
  assumes "visit now req (by, st, pr) p = (by', st', pr')" "by_ok now req q (ad_inner st) by"
    "q \<in> set (req_queues req)" "paused (ad_inner st) q \<noteq> Some True"
  shows "admit_acts now req st st' \<and> by_ok now req q (ad_inner st') by' \<and>
    paused (ad_inner st') = paused (ad_inner st)"
proof (cases "full req st")
  case True
  with assms show ?thesis by (simp add: visit_def)
next
  case False
  obtain r ids s' where pk: "pick now (ad_taken st) (by p) (ad_inner st) = (r, ids, s')"
    by (metis prod_cases3)
  define st1 where "st1 = st\<lparr>ad_inner := s'\<rparr>"
  have acts: "admit_acts now req st st1" using pick_acts [OF pk] by (simp add: st1_def)
  have by1: "by_ok now req q (ad_inner st1) by"
    using assms(2) pick_frame(1) [OF pk] by (simp add: st1_def by_ok_cong [of s' "ad_inner st"])
  have p1: "paused (ad_inner st1) = paused (ad_inner st)"
    using pick_frame(5) [OF pk] by (simp add: st1_def)
  show ?thesis
  proof (cases r)
    case None
    with assms(1) False pk have eq: "by' = by(p := ids)" "st' = st1"
      by (simp_all add: visit_def st1_def)
    obtain pre where "by p = pre @ ids" using pick_suffix [OF pk] by blast
    with by_ok_suffix [OF by1] acts p1 eq show ?thesis by simp
  next
    case (Some i)
    with assms(1) False pk have eq: "by' = by(p := ids)" "st' = claim_job now req i st1"
      by (simp_all add: visit_def st1_def)
    obtain pre j where pre: "by p = pre @ i # ids" and j: "jobs s' i = Some j"
      "gate_open now (ad_taken st) s' j"
      using pick_Some [of now "ad_taken st" "by p" "ad_inner st" i ids s'] pk Some by auto
    have "i \<in> set (by p)" using pre by simp
    then have "candidate now (req_worker req) q (ad_inner st1) i"
      using by1 unfolding by_ok_def by blast
    then have "admit_act now req st1 st'"
      using False assms(3,4) p1 j eq by (auto simp: st1_def intro!: admit_act.claims)
    with acts have "admit_acts now req st st'" by simp
    moreover have "by_ok now req q (ad_inner st') by'"
      using by_ok_claim [OF by1 pre] j eq by (simp add: st1_def)
    moreover have "paused (ad_inner st') = paused (ad_inner st)"
      using j p1 eq by (simp add: claim_job_eq st1_def)
    ultimately show ?thesis by simp
  qed
qed

lemma foldl_visit_acts:
  "foldl (visit now req) (by, st, pr) ps = (by', st', pr') \<Longrightarrow> by_ok now req q (ad_inner st) by \<Longrightarrow>
   q \<in> set (req_queues req) \<Longrightarrow> paused (ad_inner st) q \<noteq> Some True \<Longrightarrow>
   admit_acts now req st st' \<and> by_ok now req q (ad_inner st') by' \<and>
   paused (ad_inner st') = paused (ad_inner st)"
proof (induction ps arbitrary: "by" st pr)
  case (Cons p ps)
  obtain by1 st1 pr1 where v: "visit now req (by, st, pr) p = (by1, st1, pr1)"
    by (metis prod_cases3)
  with Cons.prems(1) have f: "foldl (visit now req) (by1, st1, pr1) ps = (by', st', pr')" by simp
  from visit_acts [OF v Cons.prems(2-4)] Cons.IH [OF f _ Cons.prems(3)] Cons.prems(4)
  show ?case by fastforce
qed simp

lemma admit_rounds_acts:
  "by_ok now req q (ad_inner st) by \<Longrightarrow> q \<in> set (req_queues req) \<Longrightarrow>
   paused (ad_inner st) q \<noteq> Some True \<Longrightarrow>
   admit_acts now req st (admit_rounds now req ps by st)"
proof (induction now req ps "by" st rule: admit_rounds.induct)
  case (1 now req ps "by" st)
  obtain by' st' pr where d: "draw_round now req ps by st = (by', st', pr)"
    by (metis prod_cases3)
  note one = foldl_visit_acts [OF d [unfolded draw_round_def] "1.prems"]
  show ?case
  proof (cases "\<not> pr \<or> full req st'")
    case True
    with d one show ?thesis by (simp add: admit_rounds.simps [of now req ps "by" st])
  next
    case False
    have "admit_acts now req st' (admit_rounds now req ps by' st')"
      using "1.IH" [OF d [symmetric] refl False] one "1.prems" by simp
    with one have "admit_acts now req st (admit_rounds now req ps by' st')"
      by (blast intro: rtranclp_trans)
    with False d show ?thesis by (simp add: admit_rounds.simps [of now req ps "by" st])
  qed
qed

lemma admit_queue_acts:
  assumes "distinct ord" "q \<in> set (req_queues req)"
  shows "admit_acts now req st (admit_queue now req ord st q)"
proof -
  define s where "s = ad_inner st"
  define cands where "cands = filter (candidate now (req_worker req) q s) ord"
  define bp where "bp = (\<lambda>p. sort_key (rank_of s) (filter (\<lambda>i. part_of s i = p) cands))"
  define parts where "parts = sort_dedup (map (part_of s) cands)"
  define r where "r = (case rr s q of None \<Rightarrow> 0 | Some r \<Rightarrow> r)"
  define st1 where "st1 = st\<lparr>ad_inner := s\<lparr>rr := (rr s)(q \<mapsto> (r + 1) mod 2 ^ 64)\<rparr>\<rparr>"
  have eq: "admit_queue now req ord st q =
      (if full req st \<or> paused s q = Some True \<or> parts = [] then st
       else admit_rounds now req (rotated (r mod length parts) parts) bp st1)"
    by (simp add: admit_queue_def Let_def s_def cands_def bp_def parts_def r_def st1_def)
  have "by_ok now req q (ad_inner st1) bp"
    using assms(1) by (auto simp: by_ok_def bp_def cands_def st1_def candidate_def part_of_def)
  moreover have "admit_act now req st st1"
    using admit_act.rotates [of now req st] by (simp add: st1_def s_def)
  ultimately show ?thesis
    using admit_rounds_acts [of now req q st1 bp] assms(2) unfolding eq
    by (auto simp: st1_def intro: converse_rtranclp_into_rtranclp)
qed

lemma admit_queues_acts:
  assumes "distinct ord" "set qs \<subseteq> set (req_queues req)"
  shows "admit_acts now req st (foldl (admit_queue now req ord) st qs)"
  using assms(2)
proof (induction qs arbitrary: st)
  case (Cons q qs)
  have "admit_acts now req st (admit_queue now req ord st q)"
    using Cons.prems by (intro admit_queue_acts assms(1)) simp
  with Cons show ?case by (auto intro: rtranclp_trans)
qed simp

end
