(* ===== verification/MemGate.thy ===== *)
theory MemGate
  imports MemAdmit
begin

text \<open>
  What \<open>MemStore::admit\<close> guarantees: which jobs it may claim and what a claim writes, that the
  rate buckets are charged exactly and never overdrawn, that the iteration order of the job map
  does not matter, and that nothing admissible is left behind while there is capacity.
\<close>

section \<open>The jobs that are drawn\<close>

definition eligible :: "i64 \<Rightarrow> admit_request \<Rightarrow> inner \<Rightarrow> string \<Rightarrow> bool" where
  "eligible now req s i =
     (case jobs s i of
        None \<Rightarrow> False
      | Some j \<Rightarrow>
          queue (env j) \<in> set (req_queues req) \<and> paused s (queue (env j)) \<noteq> Some True \<and>
          jstate j = ''available'' \<and> scheduled_at_ms (env j) \<le> now \<and>
          (sticky_worker (env j) = [] \<or> sticky_worker (env j) = req_worker req) \<and>
          \<not> blocked_fingerprint s (fingerprint (env j)))"

definition claim_for :: "i64 \<Rightarrow> admit_request \<Rightarrow> inner \<Rightarrow> string \<Rightarrow> admission_unit" where
  "claim_for now req s i =
     (case jobs s i of None \<Rightarrow> [] | Some j \<Rightarrow> [claim_of req (claimed_row now req s j)])"

text \<open>The state after drawing the jobs \<open>is\<close> from \<open>s\<close>.\<close>

definition drawn :: "i64 \<Rightarrow> admit_request \<Rightarrow> inner \<Rightarrow> string list \<Rightarrow> admit_st \<Rightarrow> bool" where
  "drawn now req s is st \<longleftrightarrow>
     distinct is \<and> length is \<le> unat (req_capacity req) \<and> (\<forall>i \<in> set is. eligible now req s i) \<and>
     ad_units st = map (claim_for now req s) is \<and>
     jobs (ad_inner st) =
       (\<lambda>i. if i \<in> set is then map_option (claimed_row now req s) (jobs s i) else jobs s i) \<and>
     unique (ad_inner st) = unique s \<and> throttle (ad_inner st) = throttle s \<and>
     quarantine (ad_inner st) = quarantine s \<and> paused (ad_inner st) = paused s \<and>
     duties (ad_inner st) = duties s \<and>
     (\<forall>rc. rate (ad_inner st) rc = rate s rc \<or>
           rate (ad_inner st) rc = map_option (refill now) (rate s rc))"

lemma claimed_row_sel [simp]:
  "env (claimed_row now req s j) = env j" "fence (claimed_row now req s j) = fence j + 1"
  "jstate (claimed_row now req s j) = ''running''"
  "lease_id (claimed_row now req s j) = req_lease_id req"
  by (simp_all add: claimed_row_def)

lemma drawn_rate_None: "drawn now req s is st \<Longrightarrow> rate (ad_inner st) rc = None \<longleftrightarrow> rate s rc = None"
  unfolding drawn_def by (metis option.map_disc_iff)

lemma drawn_charged: "drawn now req s is st \<Longrightarrow> charged (ad_inner st) j = charged s j"
  by (simp add: charged_def drawn_rate_None)

lemma drawn_claimed_row:
  "drawn now req s is st \<Longrightarrow> claimed_row now req (ad_inner st) j = claimed_row now req s j"
  by (simp add: claimed_row_def drawn_charged)

lemma drawn_candidate:
  assumes "drawn now req s is st" "candidate now w q (ad_inner st) i"
  shows "i \<notin> set is" "jobs (ad_inner st) i = jobs s i"
proof -
  from assms(1) have jobs: "jobs (ad_inner st) i =
      (if i \<in> set is then map_option (claimed_row now req s) (jobs s i) else jobs s i)"
    unfolding drawn_def by metis
  with assms(2) show "i \<notin> set is"
    by (auto simp: candidate_def split: option.splits if_splits)
  with jobs show "jobs (ad_inner st) i = jobs s i" by simp
qed

lemma drawn_claim:
  assumes d: "drawn now req s is st" and nf: "\<not> full req st"
    and q: "q \<in> set (req_queues req)" "paused (ad_inner st) q \<noteq> Some True"
    and c: "candidate now (req_worker req) q (ad_inner st) i"
    and j: "jobs (ad_inner st) i = Some j" and g: "gate_open now (ad_taken st) (ad_inner st) j"
  shows "drawn now req s (is @ [i]) (claim_job now req i st)"
proof -
  note new = drawn_candidate [OF d c]
  from d have eqs: "distinct is" "length (ad_units st) = length is"
    "\<forall>i \<in> set is. eligible now req s i" "ad_units st = map (claim_for now req s) is"
    "jobs (ad_inner st) =
       (\<lambda>i. if i \<in> set is then map_option (claimed_row now req s) (jobs s i) else jobs s i)"
    "unique (ad_inner st) = unique s" "throttle (ad_inner st) = throttle s"
    "quarantine (ad_inner st) = quarantine s" "paused (ad_inner st) = paused s"
    "duties (ad_inner st) = duties s"
    "\<forall>rc. rate (ad_inner st) rc = rate s rc \<or> rate (ad_inner st) rc = map_option (refill now) (rate s rc)"
    unfolding drawn_def by simp_all
  have js: "jobs s i = Some j" using new(2) j by simp
  have "eligible now req s i"
    using c j js q g eqs(8,9)
    by (simp add: eligible_def candidate_def gate_open_def blocked_fingerprint_def)
  moreover have "claim_for now req s i = [claim_of req (claimed_row now req (ad_inner st) j)]"
    using js drawn_claimed_row [OF d] by (simp add: claim_for_def)
  ultimately show ?thesis
    unfolding drawn_def claim_job_eq [OF j]
    using eqs new(1) nf js drawn_claimed_row [OF d, of j] by auto
qed

lemma drawn_act:
  assumes "drawn now req s is st" "admit_act now req st st'"
  shows "\<exists>is'. drawn now req s is' st'"
  using assms(2)
proof (cases rule: admit_act.cases)
  case (refills rc b)
  then have "refill now b = refill now (the (rate s rc))" "rate s rc \<noteq> None"
    using assms(1) drawn_rate_None [OF assms(1), of rc] unfolding drawn_def
    by (metis (no_types, lifting) option.map_sel option.sel option.distinct(1) refill_idem)+
  with assms(1) refills have "drawn now req s is st'" unfolding drawn_def by auto
  then show ?thesis ..
next
  case (rotates m)
  with assms(1) have "drawn now req s is st'" by (simp add: drawn_def)
  then show ?thesis ..
next
  case (claims q i j)
  with drawn_claim [OF assms(1)] show ?thesis by blast
qed

lemma drawn_init: "drawn now req s [] \<lparr>ad_inner = s, ad_taken = Map.empty, ad_units = []\<rparr>"
  by (simp add: drawn_def)

lemma drawn_acts:
  "admit_acts now req \<lparr>ad_inner = s, ad_taken = Map.empty, ad_units = []\<rparr> st \<Longrightarrow>
   \<exists>is. drawn now req s is st"
  by (induction rule: rtranclp_induct) (auto intro: drawn_init drawn_act)

text \<open>The loops of one call.\<close>

definition admit_draw :: "i64 \<Rightarrow> string list \<Rightarrow> admit_request \<Rightarrow> inner \<Rightarrow> admit_st" where
  "admit_draw now ord req s =
     foldl (admit_queue now req ord) \<lparr>ad_inner = s, ad_taken = Map.empty, ad_units = []\<rparr>
       (req_queues req)"

lemma mem_admit_eq:
  "mem_admit now ord req s =
     (if req_lease req = 0 then (Inl (Invalid ''lease must be >= 1ms''), s)
      else (Inr (ad_units (admit_draw now ord req s)),
            spend (ad_taken (admit_draw now ord req s)) (ad_inner (admit_draw now ord req s))))"
  by (simp add: mem_admit_def admit_draw_def Let_def)

lemma admit_draw_acts:
  "distinct ord \<Longrightarrow> admit_acts now req \<lparr>ad_inner = s, ad_taken = Map.empty, ad_units = []\<rparr>
     (admit_draw now ord req s)"
  unfolding admit_draw_def by (rule admit_queues_acts) simp_all

lemma spend_frame [simp]:
  "jobs (spend t s) = jobs s" "unique (spend t s) = unique s" "throttle (spend t s) = throttle s"
  "quarantine (spend t s) = quarantine s" "paused (spend t s) = paused s"
  "duties (spend t s) = duties s" "rr (spend t s) = rr s"
  by (simp_all add: spend_def)

lemma mem_admit_drawn:
  assumes "mem_admit now ord req s = (Inr units, s')" "distinct ord"
  obtains "is" st where "admit_acts now req \<lparr>ad_inner = s, ad_taken = Map.empty, ad_units = []\<rparr> st"
    "drawn now req s is st" "units = ad_units st" "s' = spend (ad_taken st) (ad_inner st)"
proof -
  from assms(1) have "units = ad_units (admit_draw now ord req s)"
    "s' = spend (ad_taken (admit_draw now ord req s)) (ad_inner (admit_draw now ord req s))"
    by (simp_all add: mem_admit_eq split: if_splits)
  with that drawn_acts [OF admit_draw_acts [OF assms(2)]] admit_draw_acts [OF assms(2)]
  show ?thesis by blast
qed

section \<open>The rate budget\<close>

text \<open>What the claims of a call cost a rate class.\<close>

definition class_spend :: "string \<Rightarrow> admission_unit list \<Rightarrow> i64" where
  "class_spend rc us =
     sum_list (map (\<lambda>c. if rate_class (cl_envelope c) = rc
                        then uint (effective_weight (weight (cl_envelope c))) else 0) (concat us))"

text \<open>
  A bucket whose arithmetic stays within \<open>i64\<close> at the given time: it holds at most its burst, as
  every operation keeps it, the burst is at most 2 ^ 62, and the refilled sum is representable. The
  balance may be negative: an acknowledgement that reports more than was charged leaves a debt.
\<close>

definition bucket_fits :: "i64 \<Rightarrow> rate_bucket \<Rightarrow> bool" where
  "bucket_fits now b \<longleftrightarrow>
     in_i64 (rb_tokens b) \<and> rb_tokens b \<le> rb_burst b \<and> rb_burst b \<le> 2 ^ 62 \<and>
     in_i64 (rb_tokens b + gained now b)"

definition buckets_fit :: "i64 \<Rightarrow> inner \<Rightarrow> bool" where
  "buckets_fit now s \<longleftrightarrow> (\<forall>rc b. rate s rc = Some b \<longrightarrow> bucket_fits now b)"

lemma buckets_fitD: "buckets_fit now s \<Longrightarrow> rate s rc = Some b \<Longrightarrow> bucket_fits now b"
  by (simp add: buckets_fit_def)

definition acct :: "i64 \<Rightarrow> inner \<Rightarrow> admit_st \<Rightarrow> bool" where
  "acct now s st \<longleftrightarrow>
     (\<forall>rc. rc = [] \<or> rate s rc = None \<longrightarrow> ad_taken st rc = None) \<and>
     (\<forall>rc b. rc \<noteq> [] \<longrightarrow> rate s rc = Some b \<longrightarrow>
        taken_of (ad_taken st) rc = class_spend rc (ad_units st) \<and>
        (class_spend rc (ad_units st) = 0 \<or> class_spend rc (ad_units st) \<le> rb_tokens (refill now b)) \<and>
        (ad_taken st rc \<noteq> None \<longrightarrow> rate (ad_inner st) rc = Some (refill now b)))"

lemma refill_burst [simp]: "rb_burst (refill now b) = rb_burst b"
  by (simp add: refill_def)

lemma refill_fits:
  assumes "bucket_fits now b"
  shows "rb_tokens b \<le> rb_tokens (refill now b)" "rb_tokens (refill now b) \<le> rb_burst b"
  using assms by (auto simp: refill_def bucket_fits_def wrap64_id)

lemma class_spend_append:
  "class_spend rc (us @ [[c]]) = class_spend rc us +
     (if rate_class (cl_envelope c) = rc then uint (effective_weight (weight (cl_envelope c))) else 0)"
  by (simp add: class_spend_def)

lemma class_spend_nonneg: "0 \<le> class_spend rc us"
  unfolding class_spend_def by (rule sum_list_nonneg) auto

lemma job_cost_bounds: "0 < job_cost j" "job_cost j < 2 ^ 32"
  using uint_lt2p [of "effective_weight (weight (env j))"] by (simp_all add: job_cost_def)

lemma claim_of_env [simp]: "cl_envelope (claim_of req j) = env j"
  by (simp add: claim_of_def)

lemma acct_init: "acct now s \<lparr>ad_inner = s, ad_taken = Map.empty, ad_units = []\<rparr>"
  by (simp add: acct_def taken_of_def class_spend_def)

lemma acct_total:
  assumes "acct now s st" "buckets_fit now s" "rc \<noteq> []" "rate s rc = Some b"
  shows "wrap64 (taken_of (ad_taken st) rc + job_cost j) = class_spend rc (ad_units st) + job_cost j"
proof -
  from assms have t: "taken_of (ad_taken st) rc = class_spend rc (ad_units st)"
    "class_spend rc (ad_units st) = 0 \<or> class_spend rc (ad_units st) \<le> rb_tokens (refill now b)"
    by (auto simp: acct_def)
  moreover have "rb_tokens (refill now b) \<le> 2 ^ 62"
    using refill_fits(2) [OF buckets_fitD [OF assms(2,4)]] buckets_fitD [OF assms(2,4)] by (simp add: bucket_fits_def)
  ultimately have "class_spend rc (ad_units st) \<le> 2 ^ 62" by auto
  with t(1) class_spend_nonneg [of rc "ad_units st"] job_cost_bounds [of j] show ?thesis
    by (intro trans [OF wrap64_id]) (simp_all add: in_i64_def)
qed

lemma acct_claim:
  assumes d: "drawn now req s is st" and a: "acct now s st"
    and fits: "buckets_fit now s"
    and j: "jobs (ad_inner st) i = Some j" and g: "gate_open now (ad_taken st) (ad_inner st) j"
  shows "acct now s (claim_job now req i st)"
proof (cases "charged s j")
  case False
  then show ?thesis
    using a drawn_charged [OF d, of j] unfolding claim_job_eq [OF j]
    by (simp add: acct_def class_spend_append) (auto simp: charged_def)
next
  case True
  let ?rc = "rate_class (env j)" and ?st = "claim_job now req i st"
  from True obtain b0 where b0: "rate s ?rc = Some b0" "?rc \<noteq> []" by (auto simp: charged_def)
  obtain b where b: "rate (ad_inner st) ?rc = Some b"
    using drawn_rate_None [OF d, of ?rc] b0(1) by auto
  with g drawn_charged [OF d, of j] True have gb: "refill now b = b"
    "wrap64 (taken_of (ad_taken st) ?rc + job_cost j) \<le> rb_tokens b"
    by (auto simp: gate_open_def)
  have "b = b0 \<or> b = refill now b0" using d b b0 unfolding drawn_def by (metis option.inject option.simps(9))
  with gb(1) have bb: "b = refill now b0" by auto
  note nowrap = acct_total [OF a fits b0(2,1), of j]
  have taken: "ad_taken ?st = (ad_taken st)(?rc \<mapsto> class_spend ?rc (ad_units st) + job_cost j)"
    and units: "\<And>rc. class_spend rc (ad_units ?st) = class_spend rc (ad_units st)
      + (if ?rc = rc then job_cost j else 0)"
    and rate: "rate (ad_inner ?st) = rate (ad_inner st)"
    using True drawn_charged [OF d, of j] nowrap
    by (simp_all add: claim_job_eq [OF j] class_spend_append job_cost_def)
  show ?thesis
    unfolding acct_def taken units rate
    using a b0 b bb gb(2) nowrap by (auto simp: acct_def taken_of_def)
qed

lemma acct_act:
  assumes "drawn now req s is st" "acct now s st" "admit_act now req st st'"
    and "buckets_fit now s"
  shows "acct now s st'"
  using assms(3)
proof (cases rule: admit_act.cases)
  case (refills rc b)
  have "rate s rc = Some b0 \<Longrightarrow> refill now b = refill now b0" for b0
    using assms(1) refills unfolding drawn_def
    by (metis (no_types, lifting) option.inject option.simps(9) refill_idem)
  with assms(2) refills show ?thesis by (auto simp: acct_def)
next
  case (rotates m)
  with assms(2) show ?thesis by (simp add: acct_def)
next
  case (claims q i j)
  then show ?thesis using acct_claim [OF assms(1,2)] assms(4) by blast
qed

lemma acct_acts:
  assumes "admit_acts now req \<lparr>ad_inner = s, ad_taken = Map.empty, ad_units = []\<rparr> st"
    and "buckets_fit now s"
  shows "acct now s st"
  using assms(1)
proof (induction rule: rtranclp_induct)
  case base
  show ?case by (rule acct_init)
next
  case (step st st')
  with drawn_acts [OF step(1)] acct_act assms(2) show ?case by blast
qed

section \<open>Nothing admissible is left behind\<close>

definition refused :: "i64 \<Rightarrow> (string \<rightharpoonup> i64) \<Rightarrow> inner \<Rightarrow> string \<Rightarrow> bool" where
  "refused now taken s i \<longleftrightarrow>
     (\<forall>j. jobs s i = Some j \<longrightarrow>
        blocked_fingerprint s (fingerprint (env j)) \<or>
        (\<exists>b. rate_class (env j) \<noteq> [] \<and> rate s (rate_class (env j)) = Some b \<and>
           rb_tokens (refill now b) < wrap64 (taken_of taken (rate_class (env j)) + job_cost j)))"

lemma admissible_refused:
  "admissible now taken i s = (False, s') \<Longrightarrow> refused now taken s i"
  by (auto simp: admissible_def refused_def Let_def split: option.splits if_splits)

lemma refused_admissible:
  assumes "admissible now taken m s = (ok, s')"
  shows "refused now taken s' i = refused now taken s i"
proof (cases "s' = s")
  case False
  with assms obtain rc b where "rate s rc = Some b" "s' = s\<lparr>rate := (rate s)(rc \<mapsto> refill now b)\<rparr>"
    by (auto simp: admissible_def Let_def split: option.splits if_splits)
  then show ?thesis
    by (cases "jobs s i") (auto simp: refused_def blocked_fingerprint_def split: if_splits)
qed simp

lemma pick_split:
  "pick now taken ids s = (r, ids', s') \<Longrightarrow>
   \<exists>pre. ids = pre @ (case r of None \<Rightarrow> [] | Some i \<Rightarrow> [i]) @ ids' \<and>
     (\<forall>m \<in> set pre. refused now taken s m) \<and> (r = None \<longrightarrow> ids' = [])"
proof (induction ids arbitrary: s)
  case (Cons m ids)
  obtain ok s1 where ok: "admissible now taken m s = (ok, s1)" by fastforce
  show ?case
  proof (cases ok)
    case True
    with Cons.prems ok show ?thesis by (intro exI [of _ "[]"]) auto
  next
    case False
    with Cons.prems ok have "pick now taken ids s1 = (r, ids', s')" by simp
    from Cons.IH [OF this] obtain pre where
      "ids = pre @ (case r of None \<Rightarrow> [] | Some i \<Rightarrow> [i]) @ ids'"
      "\<forall>m \<in> set pre. refused now taken s1 m" "r = None \<longrightarrow> ids' = []" by blast
    with refused_admissible [OF ok] admissible_refused [of now taken m s s1] ok False
    show ?thesis by (intro exI [of _ "m # pre"]) auto
  qed
qed simp

text \<open>A job whose class cannot pay for it on top of what the call has drawn.\<close>

definition short :: "i64 \<Rightarrow> inner \<Rightarrow> admission_unit list \<Rightarrow> string \<Rightarrow> bool" where
  "short now s us i =
     (case jobs s i of
        None \<Rightarrow> False
      | Some j \<Rightarrow>
          rate_class (env j) \<noteq> [] \<and>
          (case rate s (rate_class (env j)) of
             None \<Rightarrow> False
           | Some b \<Rightarrow>
               rb_tokens (refill now b) < class_spend (rate_class (env j)) us + job_cost j))"

definition held_back :: "inner \<Rightarrow> string \<Rightarrow> bool" where
  "held_back s i \<longleftrightarrow> (\<exists>j. jobs s i = Some j \<and> blocked_fingerprint s (fingerprint (env j)))"

lemma refused_short:
  assumes d: "drawn now req s is st" and a: "acct now s st"
    and fits: "buckets_fit now s"
    and c: "candidate now w q (ad_inner st) i" and r: "refused now (ad_taken st) (ad_inner st) i"
  shows "held_back s i \<or> short now s (ad_units st) i"
proof -
  from c drawn_candidate(2) [OF d c] obtain j where j: "jobs (ad_inner st) i = Some j" "jobs s i = Some j"
    by (auto simp: candidate_def split: option.splits)
  have quar: "quarantine (ad_inner st) = quarantine s" using d by (simp add: drawn_def)
  show ?thesis
  proof (cases "blocked_fingerprint s (fingerprint (env j))")
    case True
    with j show ?thesis by (auto simp: held_back_def)
  next
    case False
    let ?rc = "rate_class (env j)"
    from r False j quar obtain b where rc: "?rc \<noteq> []" and b: "rate (ad_inner st) ?rc = Some b"
      and lt: "rb_tokens (refill now b) < wrap64 (taken_of (ad_taken st) ?rc + job_cost j)"
      by (auto simp: refused_def blocked_fingerprint_def)
    obtain b0 where b0: "rate s ?rc = Some b0" using drawn_rate_None [OF d, of ?rc] b by auto
    have "refill now b = refill now b0"
      using d b b0 unfolding drawn_def
      by (metis (no_types, lifting) option.inject option.simps(9) refill_idem)
    moreover note acct_total [OF a fits rc b0, of j]
    ultimately have "short now s (ad_units st) i" using lt j b0 rc by (simp add: short_def)
    then show ?thesis by simp
  qed
qed

lemma class_spend_mono: "class_spend rc us \<le> class_spend rc (us @ vs)"
  using class_spend_nonneg [of rc vs] by (simp add: class_spend_def)

lemma short_mono: "short now s us i \<Longrightarrow> short now s (us @ vs) i"
  using class_spend_mono [of _ us vs]
  by (auto simp: short_def split: option.splits intro: order.strict_trans2)

lemma act_mono:
  assumes "admit_act now req st st'"
  shows "(candidate now w q (ad_inner st') i \<longrightarrow> candidate now w q (ad_inner st) i) \<and>
    (\<exists>us. ad_units st' = ad_units st @ us)"
  using assms
proof (cases rule: admit_act.cases)
  case (claims q' m j)
  then show ?thesis by (auto simp: claim_job_eq candidate_def)
qed (simp_all add: candidate_def)

lemma acts_mono:
  "admit_acts now req st st' \<Longrightarrow>
   (candidate now w q (ad_inner st') i \<longrightarrow> candidate now w q (ad_inner st) i) \<and>
   (\<exists>us. ad_units st' = ad_units st @ us)"
proof (induction rule: rtranclp_induct)
  case (step st1 st2)
  from act_mono [OF step(2), of w q i] step(3) show ?case by auto
qed simp

abbreviation fresh_st :: "inner \<Rightarrow> admit_st" where
  "fresh_st s \<equiv> \<lparr>ad_inner = s, ad_taken = Map.empty, ad_units = []\<rparr>"

definition settled ::
  "i64 \<Rightarrow> admit_request \<Rightarrow> string \<Rightarrow> inner \<Rightarrow> string list \<Rightarrow> (string \<Rightarrow> string list) \<Rightarrow> admit_st \<Rightarrow> bool"
where
  "settled now req q s ps by st \<longleftrightarrow>
     (\<forall>i. candidate now (req_worker req) q (ad_inner st) i \<longrightarrow>
        held_back s i \<or> short now s (ad_units st) i \<or> (\<exists>p \<in> set ps. i \<in> set (by p)))"

lemma visit_mono:
  assumes v: "visit now req (by, st, pr) p = (by', st', pr')" "\<not> full req st"
    and pk: "pick now (ad_taken st) (by p) (ad_inner st) = (r, ids, s')"
  shows "candidate now w q (ad_inner st') i \<Longrightarrow> candidate now w q (ad_inner st) i"
    "\<exists>us. ad_units st' = ad_units st @ us"
    "r = Some m \<Longrightarrow> \<not> candidate now w q (ad_inner st') m"
proof -
  have "(candidate now w q (ad_inner st') i \<longrightarrow> candidate now w q (ad_inner st) i) \<and>
      (\<exists>us. ad_units st' = ad_units st @ us) \<and> (r = Some m \<longrightarrow> \<not> candidate now w q (ad_inner st') m)"
  proof (cases r)
    case None
    with v pk have "st' = st\<lparr>ad_inner := s'\<rparr>" by (simp add: visit_def)
    with None pick_frame(1) [OF pk] show ?thesis by (simp add: candidate_def)
  next
    case (Some n)
    with pick_Some [of now "ad_taken st" "by p" "ad_inner st" n ids s'] pk
    obtain j where j: "jobs s' n = Some j" by auto
    from Some v pk have "st' = claim_job now req n (st\<lparr>ad_inner := s'\<rparr>)" by (simp add: visit_def)
    with Some j pick_frame(1) [OF pk] show ?thesis by (simp add: claim_job_eq candidate_def)
  qed
  then show "candidate now w q (ad_inner st') i \<Longrightarrow> candidate now w q (ad_inner st) i"
    "\<exists>us. ad_units st' = ad_units st @ us"
    "r = Some m \<Longrightarrow> \<not> candidate now w q (ad_inner st') m" by blast+
qed

lemma visit_settled:
  assumes v: "visit now req (by, st, pr) p = (by', st', pr')"
    and r: "admit_acts now req (fresh_st s) st"
    and fits: "buckets_fit now s"
    and st: "settled now req q s ps by st"
  shows "settled now req q s ps by' st'"
proof (cases "full req st")
  case True
  with v st show ?thesis by (simp add: visit_def)
next
  case False
  obtain r' ids s' where pk: "pick now (ad_taken st) (by p) (ad_inner st) = (r', ids, s')"
    by (metis prod_cases3)
  obtain pre where pre: "by p = pre @ (case r' of None \<Rightarrow> [] | Some i \<Rightarrow> [i]) @ ids"
    and ref: "\<forall>m \<in> set pre. refused now (ad_taken st) (ad_inner st) m"
    using pick_split [OF pk] by blast
  have by': "by' = by(p := ids)" using v False pk by (auto simp: visit_def split: option.splits)
  obtain "is" where d: "drawn now req s is st" using drawn_acts [OF r] by blast
  have a: "acct now s st" using acct_acts [OF r fits] .
  note mono = visit_mono [OF v False pk]
  show ?thesis
    unfolding settled_def
  proof (intro allI impI)
    fix i
    assume c': "candidate now (req_worker req) q (ad_inner st') i"
    note c = mono(1) [OF c']
    from mono(2) obtain us where us: "ad_units st' = ad_units st @ us" by blast
    from st c consider "held_back s i" | "short now s (ad_units st) i"
      | p' where "p' \<in> set ps" "i \<in> set (by p')" unfolding settled_def by blast
    then show "held_back s i \<or> short now s (ad_units st') i \<or> (\<exists>p \<in> set ps. i \<in> set (by' p))"
    proof cases
      case 2
      with us short_mono show ?thesis by simp
    next
      case 3
      show ?thesis
      proof (cases "p' = p \<and> i \<in> set pre")
        case True
        with ref have "refused now (ad_taken st) (ad_inner st) i" by blast
        from refused_short [OF d a fits c this] us short_mono show ?thesis by auto
      next
        case False
        have "r' \<noteq> Some i" using mono(3) c' by blast
        with False 3(2) pre by' have "i \<in> set (by' p')"
          by (cases "p' = p") (auto split: option.splits)
        with 3(1) show ?thesis by blast
      qed
    qed simp
  qed
qed

lemma foldl_visit_settled:
  "foldl (visit now req) (by, st, pr) qs = (by', st', pr') \<Longrightarrow>
   admit_acts now req (fresh_st s) st \<Longrightarrow> by_ok now req q (ad_inner st) by \<Longrightarrow>
   q \<in> set (req_queues req) \<Longrightarrow> paused (ad_inner st) q \<noteq> Some True \<Longrightarrow>
   buckets_fit now s \<Longrightarrow>
   settled now req q s ps by st \<Longrightarrow> settled now req q s ps by' st'"
proof (induction qs arbitrary: "by" st pr)
  case (Cons p qs)
  obtain by1 st1 pr1 where v: "visit now req (by, st, pr) p = (by1, st1, pr1)"
    by (metis prod_cases3)
  with Cons.prems(1) have f: "foldl (visit now req) (by1, st1, pr1) qs = (by', st', pr')" by simp
  note va = visit_acts [OF v Cons.prems(3-5)]
  have acts: "admit_acts now req (fresh_st s) st1"
    using va Cons.prems(2) by (blast intro: rtranclp_trans)
  have "paused (ad_inner st1) q \<noteq> Some True" using va Cons.prems(5) by simp
  moreover have "settled now req q s ps by1 st1"
    using visit_settled [OF v Cons.prems(2) Cons.prems(6) Cons.prems(7)] .
  ultimately show ?case using Cons.IH [OF f acts _ Cons.prems(4)] va Cons.prems(6) by blast
qed simp

lemma visit_units: "visit now req (by, st, pr) p = (by', st', pr') \<Longrightarrow>
    length (ad_units st) \<le> length (ad_units st')"
  by (auto simp: visit_def claim_job_def Let_def split: if_splits prod.splits option.splits)

lemma foldl_visit_units:
  "foldl (visit now req) (by, st, pr) ps = (by', st', pr') \<Longrightarrow>
   length (ad_units st) \<le> length (ad_units st') \<and> (pr \<longrightarrow> pr')"
proof (induction ps arbitrary: "by" st pr)
  case (Cons p ps)
  obtain by1 st1 pr1 where v: "visit now req (by, st, pr) p = (by1, st1, pr1)"
    by (metis prod_cases3)
  with Cons.prems Cons.IH [of by1 st1 pr1] visit_units [OF v] visit_length [OF v]
  show ?case by force
qed simp

lemma foldl_visit_empty:
  "foldl (visit now req) (by, st, pr) ps = (by', st', False) \<Longrightarrow> \<not> full req st' \<Longrightarrow>
   \<forall>p \<in> set ps. by' p = []"
proof (induction ps arbitrary: "by" st pr)
  case (Cons p ps)
  obtain by1 st1 pr1 where v: "visit now req (by, st, pr) p = (by1, st1, pr1)"
    by (metis prod_cases3)
  with Cons.prems(1) have f: "foldl (visit now req) (by1, st1, pr1) ps = (by', st', False)" by simp
  from foldl_visit_units [OF f] visit_units [OF v] Cons.prems(2)
  have "\<not> pr1" "\<not> full req st" by auto
  then have "by1 p = []"
    using v pick_split [of now "ad_taken st" "by p" "ad_inner st"]
    by (auto simp: visit_def split: prod.splits option.splits)
  with foldl_visit_length [OF f] have "by' p = []" by (metis le_zero_eq length_0_conv)
  with Cons.IH [OF f Cons.prems(2)] show ?case by simp
qed simp

lemma admit_rounds_settled:
  "admit_acts now req (fresh_st s) st \<Longrightarrow> by_ok now req q (ad_inner st) by \<Longrightarrow>
   q \<in> set (req_queues req) \<Longrightarrow> paused (ad_inner st) q \<noteq> Some True \<Longrightarrow>
   buckets_fit now s \<Longrightarrow>
   settled now req q s ps by st \<Longrightarrow> \<not> full req (admit_rounds now req ps by st) \<Longrightarrow>
   settled now req q s [] by (admit_rounds now req ps by st)"
proof (induction now req ps "by" st rule: admit_rounds.induct)
  case (1 now req ps "by" st)
  obtain by' st' pr where d: "draw_round now req ps by st = (by', st', pr)"
    by (metis prod_cases3)
  note f = d [unfolded draw_round_def]
  note fa = foldl_visit_acts [OF f "1.prems"(2-4)]
  note fs = foldl_visit_settled [OF f "1.prems"(1-6)]
  show ?case
  proof (cases "\<not> pr \<or> full req st'")
    case True
    with d have eq: "admit_rounds now req ps by st = st'"
      by (simp add: admit_rounds.simps [of now req ps "by" st])
    with "1.prems"(7) True have "\<not> pr" "\<not> full req st'" by auto
    with f foldl_visit_empty [of now req "by" st False ps by' st']
    have "\<forall>p \<in> set ps. by' p = []" by simp
    with fs show ?thesis unfolding eq by (simp add: settled_def)
  next
    case False
    with d have eq: "admit_rounds now req ps by st = admit_rounds now req ps by' st'"
      by (simp add: admit_rounds.simps [of now req ps "by" st])
    have "admit_acts now req (fresh_st s) st'"
      using fa "1.prems"(1) by (blast intro: rtranclp_trans)
    moreover have "paused (ad_inner st') q \<noteq> Some True" using fa "1.prems"(4) by simp
    ultimately have "settled now req q s [] by' (admit_rounds now req ps by' st')"
      using "1.IH" [OF d [symmetric] refl False] fa fs "1.prems"(3,5,7) unfolding eq by blast
    then show ?thesis unfolding eq by (simp add: settled_def)
  qed
qed

lemma rotated_rotate: "rotated k parts = rotate k parts"
  by (rule nth_equalityI) (auto simp: rotated_def nth_rotate)

text \<open>No candidate of the queue is left that its class could pay for.\<close>

definition exhausted :: "i64 \<Rightarrow> admit_request \<Rightarrow> inner \<Rightarrow> string \<Rightarrow> admit_st \<Rightarrow> bool" where
  "exhausted now req s q st \<longleftrightarrow>
     (\<forall>i. candidate now (req_worker req) q (ad_inner st) i \<longrightarrow>
        held_back s i \<or> short now s (ad_units st) i)"

lemma exhausted_acts:
  assumes "admit_acts now req st st'" "exhausted now req s q st"
  shows "exhausted now req s q st'"
  unfolding exhausted_def
proof (intro allI impI)
  fix i
  assume "candidate now (req_worker req) q (ad_inner st') i"
  with acts_mono [OF assms(1), of "req_worker req" q i] assms(2) short_mono
  show "held_back s i \<or> short now s (ad_units st') i" unfolding exhausted_def by metis
qed

lemma admit_queue_exhausted:
  assumes r: "admit_acts now req (fresh_st s) st" and ord: "iter_order (jobs s) ord"
    and q: "q \<in> set (req_queues req)" "paused s q \<noteq> Some True"
    and fits: "buckets_fit now s"
    and nf: "\<not> full req (admit_queue now req ord st q)"
  shows "exhausted now req s q (admit_queue now req ord st q)"
proof -
  define s1 where "s1 = ad_inner st"
  define cands where "cands = filter (candidate now (req_worker req) q s1) ord"
  define bp where "bp = (\<lambda>p. sort_key (rank_of s1) (filter (\<lambda>i. part_of s1 i = p) cands))"
  define parts where "parts = sort_dedup (map (part_of s1) cands)"
  define k where "k = (case rr s1 q of None \<Rightarrow> 0 | Some r \<Rightarrow> r)"
  define st1 where "st1 = st\<lparr>ad_inner := s1\<lparr>rr := (rr s1)(q \<mapsto> (k + 1) mod 2 ^ 64)\<rparr>\<rparr>"
  obtain "is" where d: "drawn now req s is st" using drawn_acts [OF r] by blast
  have p1: "paused s1 q \<noteq> Some True" using d q(2) by (simp add: drawn_def s1_def)
  have eq: "admit_queue now req ord st q =
      (if full req st \<or> parts = [] then st
       else admit_rounds now req (rotated (k mod length parts) parts) bp st1)"
    using p1 by (simp add: admit_queue_def Let_def s1_def cands_def bp_def parts_def k_def st1_def)
  have cand: "i \<in> set cands" if "candidate now (req_worker req) q s1 i" for i
  proof -
    from that obtain j where "jobs s1 i = Some j" by (auto simp: candidate_def split: option.splits)
    with drawn_candidate(2) [OF d, of "req_worker req" q i] that
    have "jobs s i = Some j" by (simp add: s1_def)
    with that ord show ?thesis by (auto simp: cands_def iter_order_in_dom)
  qed
  show ?thesis
  proof (cases "parts = []")
    case True
    then have "cands = []" unfolding parts_def
      by (metis map_is_Nil_conv set_empty set_sort_dedup)
    with cand True nf show ?thesis unfolding eq by (auto simp: exhausted_def s1_def)
  next
    case False
    let ?ps = "rotated (k mod length parts) parts"
    from False nf have full: "\<not> full req st \<and> \<not> full req (admit_rounds now req ?ps bp st1)"
      unfolding eq by (simp split: if_splits)
    with False have eq': "admit_queue now req ord st q = admit_rounds now req ?ps bp st1"
      unfolding eq by simp
    have "admit_act now req st st1"
      using admit_act.rotates [of now req st] by (simp add: st1_def s1_def)
    with r have acts: "admit_acts now req (fresh_st s) st1" by simp
    have "by_ok now req q (ad_inner st1) bp"
      using ord by (auto simp: by_ok_def bp_def cands_def st1_def candidate_def part_of_def
          iter_order_def)
    moreover have "settled now req q s ?ps bp st1"
      unfolding settled_def
    proof (intro allI impI)
      fix i
      assume "candidate now (req_worker req) q (ad_inner st1) i"
      then have "candidate now (req_worker req) q s1 i" by (simp add: st1_def candidate_def)
      from cand [OF this] have "part_of s1 i \<in> set ?ps" "i \<in> set (bp (part_of s1 i))"
        by (auto simp: rotated_rotate parts_def bp_def)
      then show "held_back s i \<or> short now s (ad_units st1) i \<or> (\<exists>p \<in> set ?ps. i \<in> set (bp p))"
        by blast
    qed
    ultimately have "settled now req q s [] bp (admit_rounds now req ?ps bp st1)"
      using admit_rounds_settled [OF acts, of q bp ?ps] q(1) fits full p1 by (simp add: st1_def)
    then show ?thesis unfolding eq' by (simp add: settled_def exhausted_def)
  qed
qed

lemma admit_queues_exhausted:
  assumes ord: "iter_order (jobs s) ord"
    and fits: "buckets_fit now s"
  shows "admit_acts now req (fresh_st s) st \<Longrightarrow> set qs \<subseteq> set (req_queues req) \<Longrightarrow>
    \<not> full req (foldl (admit_queue now req ord) st qs) \<Longrightarrow> q \<in> set qs \<Longrightarrow> paused s q \<noteq> Some True \<Longrightarrow>
    exhausted now req s q (foldl (admit_queue now req ord) st qs)"
proof (induction qs arbitrary: st)
  case (Cons p qs)
  let ?st = "admit_queue now req ord st p"
  have dist: "distinct ord" using ord by (simp add: iter_order_def)
  have one: "admit_acts now req st ?st"
    using Cons.prems(2) by (intro admit_queue_acts dist) simp
  then have r: "admit_acts now req (fresh_st s) ?st" using Cons.prems(1) by (rule rtranclp_trans [rotated])
  have rest: "admit_acts now req ?st (foldl (admit_queue now req ord) ?st qs)"
    using Cons.prems(2) by (intro admit_queues_acts dist) simp
  have nf: "\<not> full req ?st"
  proof -
    obtain us where "ad_units (foldl (admit_queue now req ord) ?st qs) = ad_units ?st @ us"
      using acts_mono [OF rest] by blast
    with Cons.prems(3) show ?thesis by simp
  qed
  show ?case
  proof (cases "q = p")
    case True
    with Cons.prems nf have "exhausted now req s p ?st"
      by (intro admit_queue_exhausted [OF Cons.prems(1) ord _ _ fits]) auto
    with True exhausted_acts [OF rest] show ?thesis by simp
  next
    case False
    with Cons.prems have "q \<in> set qs" by simp
    with Cons.IH [OF r] Cons.prems show ?thesis by simp
  qed
qed simp

section \<open>The iteration order of the job map\<close>

lemma inj_rank_of: "inj (rank_of s)"
  by (rule injI) (auto simp: rank_of_def split: option.splits)

lemma admit_queue_order:
  assumes "distinct ord" "distinct ord'" "set ord = set ord'"
  shows "admit_queue now req ord st q = admit_queue now req ord' st q"
proof -
  define s where "s = ad_inner st"
  define c where "c = candidate now (req_worker req) q s"
  have "sort_key (rank_of s) (filter (\<lambda>i. part_of s i = p) (filter c ord))
      = sort_key (rank_of s) (filter (\<lambda>i. part_of s i = p) (filter c ord'))" for p
    using assms by (intro sort_key_unique) (auto intro: inj_on_subset [OF inj_rank_of])
  moreover have "sort_dedup (map (part_of s) (filter c ord)) = sort_dedup (map (part_of s) (filter c ord'))"
    using assms(3) by (intro sort_dedup_cong) simp
  ultimately show ?thesis unfolding admit_queue_def Let_def c_def s_def by simp
qed

section \<open>Properties of admission\<close>

text \<open>C1. Admission claims only jobs it may claim, each at most once and at most as many as asked
  for: every claimed job is available and due, in a requested queue that is not paused, free or
  pinned to this worker, and of no quarantined content. A claim moves its row to running under
  the request's lease with the fence raised by one, and returns exactly that row's envelope,
  fence and checkpoint; every other row, the unique and throttle indexes, the quarantine and the
  pause flags are untouched.\<close>

theorem admit_draws_eligible:
  assumes "mem_admit now ord req s = (Inr units, s')" "iter_order (jobs s) ord"
  shows "\<exists>is. distinct is \<and> length is \<le> unat (req_capacity req) \<and>
    (\<forall>i \<in> set is. eligible now req s i) \<and> units = map (claim_for now req s) is \<and>
    (\<forall>i. jobs s' i = (if i \<in> set is then map_option (claimed_row now req s) (jobs s i)
                      else jobs s i)) \<and>
    unique s' = unique s \<and> throttle s' = throttle s \<and> quarantine s' = quarantine s \<and>
    paused s' = paused s"
proof -
  from assms(2) have "distinct ord" by (simp add: iter_order_def)
  from assms(1) this obtain "is" st where "drawn now req s is st" "units = ad_units st"
    "s' = spend (ad_taken st) (ad_inner st)" by (rule mem_admit_drawn)
  then show ?thesis by (intro exI [of _ "is"]) (simp add: drawn_def)
qed

text \<open>C24. The rate budget is charged exactly and never overdrawn. A call leaves a bucket with its
  balance, refilled or as it was, less the weights of the jobs it claimed in that class. If it claimed
  any, the bucket was refilled and what remains is not negative; a class that stays in debt after its
  refill, as a late reconciliation can leave it, pays for nothing and keeps its balance. The balance is
  never above the burst. Buckets hold at most their burst, bursts are at most 2 ^ 62, and a refilled
  sum fits a signed 64-bit integer.\<close>

theorem admit_charges_budget:
  assumes "mem_admit now ord req s = (Inr units, s')" "iter_order (jobs s) ord"
    and "buckets_fit now s" "rc \<noteq> []" "rate s rc = Some b"
  shows "\<exists>b'. (b' = b \<or> b' = refill now b) \<and>
    rate s' rc = Some (b'\<lparr>rb_tokens := rb_tokens b' - class_spend rc units\<rparr>) \<and>
    (class_spend rc units \<noteq> 0 \<longrightarrow> b' = refill now b \<and> 0 \<le> rb_tokens b' - class_spend rc units) \<and>
    (rb_tokens (refill now b) < 0 \<longrightarrow> class_spend rc units = 0) \<and>
    0 \<le> class_spend rc units \<and> rb_tokens b \<le> rb_tokens b' \<and> rb_tokens b' \<le> rb_burst b"
proof -
  from assms(2) have "distinct ord" by (simp add: iter_order_def)
  from assms(1) this obtain "is" st where
    acts: "admit_acts now req (fresh_st s) st" and d: "drawn now req s is st"
    and out: "units = ad_units st" "s' = spend (ad_taken st) (ad_inner st)"
    by (rule mem_admit_drawn)
  have a: "acct now s st" using acts assms(3) by (rule acct_acts)
  note fits = buckets_fitD [OF assms(3,5)]
  from a assms(4,5) have t: "taken_of (ad_taken st) rc = class_spend rc units"
    "class_spend rc units = 0 \<or> class_spend rc units \<le> rb_tokens (refill now b)"
    "ad_taken st rc \<noteq> None \<longrightarrow> rate (ad_inner st) rc = Some (refill now b)"
    by (auto simp: acct_def out)
  from d assms(5) obtain b' where b': "rate (ad_inner st) rc = Some b'" "b' = b \<or> b' = refill now b"
    unfolding drawn_def by (metis option.simps(9))
  note spent = class_spend_nonneg [of rc units]
  have range: "rb_tokens b \<le> rb_tokens b'" "rb_tokens b' \<le> rb_burst b"
    using b'(2) fits refill_fits [OF fits] by (auto simp: bucket_fits_def)
  have debt: "class_spend rc units = 0" if "rb_tokens (refill now b) < 0" using t(2) spent that by linarith
  show ?thesis
  proof (cases "class_spend rc units = 0")
    case True
    have "rate s' rc = Some b'"
    proof (cases "ad_taken st rc")
      case None
      with b' out show ?thesis by (simp add: spend_def)
    next
      case (Some n)
      with t(1) True have n: "n = 0" by (simp add: taken_of_def)
      from range fits have "wrap64 (rb_tokens b') = rb_tokens b'"
        by (intro wrap64_id) (simp add: in_i64_def bucket_fits_def)
      with Some n b' out show ?thesis by (simp add: spend_def)
    qed
    with True b'(2) range show ?thesis by (intro exI [of _ b']) simp
  next
    case False
    with t(1) obtain n where n: "ad_taken st rc = Some n" "n = class_spend rc units"
      by (cases "ad_taken st rc") (auto simp: taken_of_def)
    with t(3) b'(1) have b1: "b' = refill now b" by simp
    with False t(2) have le: "class_spend rc units \<le> rb_tokens b'" by simp
    with spent range(2) fits n(2) have "wrap64 (rb_tokens b' - n) = rb_tokens b' - n"
      by (intro wrap64_id) (simp add: in_i64_def bucket_fits_def)
    with n b' out have "rate s' rc = Some (b'\<lparr>rb_tokens := rb_tokens b' - class_spend rc units\<rparr>)"
      by (simp add: spend_def)
    with b1 le spent range b'(2) debt show ?thesis by (intro exI [of _ b']) simp
  qed
qed

text \<open>Admission does not depend on the iteration order of the job map.\<close>

theorem admit_order_independent:
  assumes "iter_order (jobs s) ord" "iter_order (jobs s) ord'"
  shows "mem_admit now ord req s = mem_admit now ord' req s"
proof -
  from assms have "admit_queue now req ord = admit_queue now req ord'"
    by (intro ext admit_queue_order) (simp_all add: iter_order_def)
  then show ?thesis by (simp add: mem_admit_def)
qed

text \<open>C25. Admission is work conserving: when a call returns fewer units than it was asked for,
  every job it could have claimed and did not is one whose rate class cannot pay for it, from its
  refilled balance, on top of what the call has claimed; a class in debt can pay for nothing.
  Buckets hold at most their burst, bursts are at most 2 ^ 62, and a refilled sum fits a signed
  64-bit integer.\<close>

theorem admit_work_conserving:
  assumes "mem_admit now ord req s = (Inr units, s')" "iter_order (jobs s) ord"
    and "buckets_fit now s" "length units < unat (req_capacity req)"
    and "eligible now req s i" "jobs s' i = jobs s i"
  shows "short now s units i"
proof -
  define st where "st = admit_draw now ord req s"
  from assms(1) have out: "units = ad_units st" "s' = spend (ad_taken st) (ad_inner st)"
    by (simp_all add: mem_admit_eq st_def split: if_splits)
  from assms(5) obtain j where j: "jobs s i = Some j" "queue (env j) \<in> set (req_queues req)"
    "paused s (queue (env j)) \<noteq> Some True" "\<not> held_back s i"
    "candidate now (req_worker req) (queue (env j)) s i"
    by (auto simp: eligible_def candidate_def held_back_def split: option.splits)
  have "exhausted now req s (queue (env j)) st"
    unfolding st_def admit_draw_def
    by (rule admit_queues_exhausted [OF assms(2,3)])
      (use j assms(4) out in \<open>auto simp: st_def admit_draw_def\<close>)
  moreover have "candidate now (req_worker req) (queue (env j)) (ad_inner st) i"
    using assms(6) out j(5) candidate_cong [of "ad_inner st" i s] by simp
  ultimately show ?thesis using j(4) out by (auto simp: exhausted_def)
qed

section \<open>Witnesses\<close>

text \<open>Two due jobs of one rate class that has one token.\<close>

definition gate_row :: "string \<Rightarrow> mem_job" where
  "gate_row i =
     mem_job_default\<lparr>jstate := ''available'',
       env := envelope_default\<lparr>env_id := i, kind := ''mail'', queue := ''q'', rate_class := ''api'',
                weight := 1\<rparr>\<rparr>"

definition gate_store :: inner where
  "gate_store =
     inner_default\<lparr>jobs := [''a'' \<mapsto> gate_row ''a'', ''b'' \<mapsto> gate_row ''b''],
       rate := [''api'' \<mapsto> \<lparr>rb_tokens = 1, rb_burst = 1, rb_limit = 0, rb_window = 1000,
                            rb_refilled = 0\<rparr>]\<rparr>"

definition gate_req :: admit_request where
  "gate_req = \<lparr>req_worker = ''w'', req_lease_id = ''L'', req_queues = [''q''], req_capacity = 5,
     req_lease = 30000000000, req_quantum = 1\<rparr>"

lemma gate_row_sel [simp]:
  "env_id (env (gate_row i)) = i" "queue (env (gate_row i)) = ''q''"
  "jstate (gate_row i) = ''available''" "scheduled_at_ms (env (gate_row i)) = 0"
  "sticky_worker (env (gate_row i)) = []" "fingerprint (env (gate_row i)) = []"
  "rate_class (env (gate_row i)) = ''api''" "weight (env (gate_row i)) = 1"
  "partition_key (env (gate_row i)) = []" "fence (gate_row i) = 0" "priority (env (gate_row i)) = 0"
  by (simp_all add: gate_row_def envelope_default_def mem_job_default_def)

lemma gate_store_sel:
  "jobs gate_store = [''a'' \<mapsto> gate_row ''a'', ''b'' \<mapsto> gate_row ''b'']"
  "quarantine gate_store = Map.empty" "paused gate_store = Map.empty" "rr gate_store = Map.empty"
  "rate gate_store = [''api'' \<mapsto> \<lparr>rb_tokens = 1, rb_burst = 1, rb_limit = 0, rb_window = 1000,
                                  rb_refilled = 0\<rparr>]"
  by (simp_all add: gate_store_def inner_default_def)

lemma gate_order: "iter_order (jobs gate_store) [''b'', ''a'']" "iter_order (jobs gate_store) [''a'', ''b'']"
  by (auto simp: iter_order_def gate_store_sel)

lemma gate_fits: "buckets_fit 5 gate_store"
  by (auto simp: buckets_fit_def bucket_fits_def gate_store_sel gained_def in_i64_def wrap64_def
      signed_divide_int_def)

lemma gate_eligible: "eligible 5 gate_req gate_store i \<longleftrightarrow> i \<in> {''a'', ''b''}"
  by (auto simp: eligible_def gate_store_sel gate_req_def blocked_fingerprint_def split: if_splits)

lemma gate_rank: "rank_of gate_store ''a'' \<le> rank_of gate_store ''b''"
proof -
  have "''a'' \<le> ''b''" by code_simp
  then show ?thesis by (simp add: rank_of_def gate_store_sel less_eq_rank_def)
qed

lemmas gate_eval =
  visit_def admissible_def gate_store_sel blocked_fingerprint_def refill_def taken_of_def
  job_cost_def effective_weight_def wrap64_id in_i64_def claim_job_def Let_def claimed_row_def
  charged_def claim_of_def

lemma gate_queue:
  "map (map (\<lambda>c. env_id (cl_envelope c))) (ad_units (admit_draw 5 [''a'', ''b''] gate_req gate_store))
   = [[''a'']]"
  by (simp add: admit_draw_def gate_req_def admit_queue_def Let_def gate_store_sel candidate_def
      part_of_def sort_dedup_def sort_key_def rotated_def gate_rank)
    (simp add: admit_rounds.simps draw_round_def gate_eval gate_rank)

definition gate_out :: inner where
  "gate_out = snd (mem_admit 5 [''a'', ''b''] gate_req gate_store)"

lemma gate_admit:
  "mem_admit 5 [''a'', ''b''] gate_req gate_store = (Inr [claim_for 5 gate_req gate_store ''a''], gate_out)"
  "jobs gate_out ''b'' = jobs gate_store ''b''"
proof -
  obtain units where u: "mem_admit 5 [''a'', ''b''] gate_req gate_store = (Inr units, gate_out)"
    "units = ad_units (admit_draw 5 [''a'', ''b''] gate_req gate_store)"
    by (simp add: gate_out_def mem_admit_eq gate_req_def)
  have "distinct [''a'', ''b'']" by simp
  from u(1) this obtain "is" st where d: "drawn 5 gate_req gate_store is st"
    and out: "units = ad_units st" "gate_out = spend (ad_taken st) (ad_inner st)"
    by (rule mem_admit_drawn)
  from d out(1) have units: "units = map (claim_for 5 gate_req gate_store) is"
    and el: "\<forall>i \<in> set is. i \<in> {''a'', ''b''}"
    by (simp_all add: drawn_def gate_eligible)
  from d have "jobs (ad_inner st) = (\<lambda>i. if i \<in> set is
      then map_option (claimed_row 5 gate_req gate_store) (jobs gate_store i) else jobs gate_store i)"
    unfolding drawn_def by (elim conjE)
  with out(2) have jobs: "jobs gate_out i = (if i \<in> set is
      then map_option (claimed_row 5 gate_req gate_store) (jobs gate_store i) else jobs gate_store i)" for i
    by (metis spend_frame(1))
  from units gate_queue u(2) obtain i where i: "is = [i]"
    "map (\<lambda>c. env_id (cl_envelope c)) (claim_for 5 gate_req gate_store i) = [''a'']"
    by (auto simp: map_eq_Cons_conv)
  have "map (\<lambda>c. env_id (cl_envelope c)) (claim_for 5 gate_req gate_store ''b'') = [''b'']"
    by (simp add: claim_for_def gate_store_sel)
  with i(2) have "i \<noteq> ''b''" by auto
  with el i(1) have "i = ''a''" by simp
  with i units u jobs show
    "mem_admit 5 [''a'', ''b''] gate_req gate_store = (Inr [claim_for 5 gate_req gate_store ''a''], gate_out)"
    "jobs gate_out ''b'' = jobs gate_store ''b''" by simp_all
qed

theorem admit_draws_eligible_witness:
  "\<exists>units. mem_admit 5 [''a'', ''b''] gate_req gate_store = (Inr units, gate_out) \<and>
     (\<exists>is. length is \<le> 5 \<and> (\<forall>i \<in> set is. eligible 5 gate_req gate_store i) \<and>
       units = map (claim_for 5 gate_req gate_store) is)"
  using admit_draws_eligible [OF gate_admit(1) gate_order(2)] gate_admit(1)
  by (auto simp: gate_req_def)

theorem admit_charges_budget_witness:
  "\<exists>b. rate gate_out ''api'' = Some b \<and> rb_tokens b = 0"
proof -
  have "class_spend ''api'' [claim_for 5 gate_req gate_store ''a''] = 1"
    by (simp add: class_spend_def claim_for_def gate_store_sel effective_weight_def)
  with admit_charges_budget [OF gate_admit(1) gate_order(2) gate_fits, of "''api''"] show ?thesis
    by (auto simp: gate_store_sel refill_def)
qed

theorem admit_order_independent_witness:
  "mem_admit 5 [''a'', ''b''] gate_req gate_store = mem_admit 5 [''b'', ''a''] gate_req gate_store"
  by (rule admit_order_independent [OF gate_order(2,1)])

theorem admit_work_conserving_witness:
  "eligible 5 gate_req gate_store ''b'' \<and> jobs gate_out ''b'' = jobs gate_store ''b'' \<and>
   short 5 gate_store [claim_for 5 gate_req gate_store ''a''] ''b''"
proof -
  have el: "eligible 5 gate_req gate_store ''b''" by (simp add: gate_eligible)
  have cap: "length [claim_for 5 gate_req gate_store ''a''] < unat (req_capacity gate_req)"
    by (simp add: gate_req_def)
  from admit_work_conserving [OF gate_admit(1) gate_order(2) gate_fits cap el gate_admit(2)]
    el gate_admit(2)
  show ?thesis by blast
qed

end
