(* ===== verification/MemAck.thy ===== *)
theory MemAck
  imports MemStore
begin

text \<open>
  The operations of the in-memory store that a lease holder calls
  (src/crates/headgate-testkit/src/lib.rs): \<open>ack\<close> with its cost reconciliation, the success that
  carries a result, \<open>renew\<close>, \<open>checkpoint\<close>, mid-run output and progress; the fence that guards
  all of them, and that an acknowledgement is one step of the transition table.
\<close>

section \<open>Acknowledgement\<close>

text \<open>The reconciliation of a charge with the actual cost: a refill that never counts time
  backwards, then the difference, both capped at the burst.\<close>

definition settle :: "i64 \<Rightarrow> i64 \<Rightarrow> u32 \<Rightarrow> rate_bucket \<Rightarrow> rate_bucket" where
  "settle now charge actual b =
     (let gain = (if rb_limit b > 0 \<and> rb_window b > 0
                  then wrap64 (max (wrap64 (now - rb_refilled b)) 0 * rb_limit b) sdiv rb_window b
                  else 0);
          avail = min (rb_burst b) (wrap64 (rb_tokens b + gain))
      in b\<lparr>rb_tokens := min (rb_burst b) (wrap64 (wrap64 (avail + charge) - uint actual)),
           rb_refilled := now\<rparr>)"

definition reconcile :: "i64 \<Rightarrow> string \<Rightarrow> u32 option \<Rightarrow> inner \<Rightarrow> inner" where
  "reconcile now i actual_weight s =
     (case (actual_weight, jobs s i) of
        (Some actual, Some j) \<Rightarrow>
          let s1 = (if rate_charge j > 0 then
                      (case rate s (rate_class (env j)) of
                         None \<Rightarrow> s
                       | Some b \<Rightarrow>
                           s\<lparr>rate := (rate s)(rate_class (env j) \<mapsto> settle now (rate_charge j) actual b)\<rparr>)
                    else s)
          in s1\<lparr>jobs := (jobs s1)(i \<mapsto> j\<lparr>rate_charge := 0\<rparr>)\<rparr>
      | _ \<Rightarrow> s)"

definition opt_list :: "'a option \<Rightarrow> 'a list" where
  "opt_list x = (case x of None \<Rightarrow> [] | Some a \<Rightarrow> [a])"

definition logline :: "string list \<Rightarrow> string option" where
  "logline logs = (if logs = [] then None else Some (''logs: '' @ join_with '' | '' logs))"

definition tagged :: "string \<Rightarrow> string \<Rightarrow> string" where
  "tagged tag e = tag @ e"

definition push_errs :: "string list \<Rightarrow> mem_job \<Rightarrow> mem_job" where
  "push_errs es j = j\<lparr>errs := errs j @ es\<rparr>"

definition finish :: "i64 \<Rightarrow> string \<Rightarrow> mem_job \<Rightarrow> mem_job" where
  "finish now st j = (drop_lease j)\<lparr>jstate := st, finalized_at := now\<rparr>"

definition put_row :: "string \<Rightarrow> mem_job \<Rightarrow> inner \<Rightarrow> inner" where
  "put_row i j s = s\<lparr>jobs := (jobs s)(i \<mapsto> j)\<rparr>"

definition del_row :: "string \<Rightarrow> inner \<Rightarrow> inner" where
  "del_row i s = s\<lparr>jobs := (jobs s)(i := None)\<rparr>"

text \<open>\<open>Outcome::Retry\<close>: the attempt is counted and recorded, then backoff or the archive.\<close>

definition retry_row :: "mem_job \<Rightarrow> string option \<Rightarrow> string option \<Rightarrow> mem_job" where
  "retry_row j err log =
     (let n = attempt (env j) + 1
      in push_errs ([''retry (attempt '' @ show_nat (unat n) @ ''): ''
                       @ (case err of None \<Rightarrow> [] | Some e \<Rightarrow> e)] @ opt_list log)
           (drop_lease (j\<lparr>env := (env j)\<lparr>attempt := n\<rparr>\<rparr>)))"

definition retry_delay :: "mem_config \<Rightarrow> i64 option \<Rightarrow> u32 \<Rightarrow> i64" where
  "retry_delay cfg delay_ms n =
     (case delay_ms of
        Some d \<Rightarrow> if d > 0 then d
                  else default_backoff (uint n) (retry_base_ms cfg) (retry_cap_ms cfg)
      | None \<Rightarrow> default_backoff (uint n) (retry_base_ms cfg) (retry_cap_ms cfg))"

definition ack_retry ::
  "mem_config \<Rightarrow> i64 \<Rightarrow> string \<Rightarrow> mem_job \<Rightarrow> string option \<Rightarrow> i64 option \<Rightarrow> string option
    \<Rightarrow> inner \<Rightarrow> inner" where
  "ack_retry cfg now i j err delay_ms log s =
     (let j1 = retry_row j err log
      in if attempt (env j1) < max_attempts (env j1)
         then put_row i (j1\<lparr>jstate := ''retryable'',
                env := (env j1)\<lparr>scheduled_at_ms :=
                         wrap64 (now + retry_delay cfg delay_ms (attempt (env j1)))\<rparr>\<rparr>) s
         else release_unique i
                (put_row i (j1\<lparr>jstate := ''archived'', finalized_at := now\<rparr>) s))"

text \<open>The \<open>match\<close> on the outcome; the row is there because the lease was checked.\<close>

definition ack_outcome ::
  "mem_config \<Rightarrow> i64 \<Rightarrow> string \<Rightarrow> outcome \<Rightarrow> string option \<Rightarrow> i64 option \<Rightarrow> string list
    \<Rightarrow> mem_job \<Rightarrow> inner \<Rightarrow> unit result \<times> inner" where
  "ack_outcome cfg now i out err delay_ms logs j s =
     (case out of
        Outcome_Success \<Rightarrow>
          (Inr (),
           if retention_ms (env j) = 0 then del_row i (release_unique i s)
           else put_row i (push_errs (map (tagged ''success '') (opt_list (logline logs)))
                  (finish now ''completed'' j)) (release_unique i s))
      | Outcome_Retry \<Rightarrow> (Inr (), ack_retry cfg now i j err delay_ms (logline logs) s)
      | Outcome_Skip \<Rightarrow>
          (Inr (), release_unique i (put_row i
             (push_errs (map (tagged ''archived: '') (opt_list err) @ opt_list (logline logs))
               (finish now ''archived'' j)) s))
      | Outcome_Undecodable \<Rightarrow>
          (Inr (), release_unique i (put_row i
             (push_errs (map (tagged ''undecodable: '') (opt_list err) @ opt_list (logline logs))
               (finish now ''undecodable'' j)) s))
      | Outcome_Revoke \<Rightarrow> (Inr (), del_row i (release_unique i s))
      | Outcome_Snooze \<Rightarrow>
          (let delay = (case delay_ms of None \<Rightarrow> 0 | Some d \<Rightarrow> d)
           in if delay \<le> 0 then (Inl (Invalid ''snooze requires delay_ms > 0''), s)
              else (Inr (), put_row i ((drop_lease j)\<lparr>jstate := ''scheduled'',
                      env := (env j)\<lparr>scheduled_at_ms := wrap64 (now + delay)\<rparr>\<rparr>) s))
      | Outcome_RateLimited \<Rightarrow>
          (Inr (), put_row i ((drop_lease j)\<lparr>jstate := ''available'',
             env := (env j)\<lparr>scheduled_at_ms := min (scheduled_at_ms (env j)) now\<rparr>\<rparr>) s)
      | Outcome_LeaseLost \<Rightarrow>
          (Inl (Invalid ''lease_lost is applied by the reclaimer, not acked''), s))"

definition mem_ack ::
  "mem_config \<Rightarrow> i64 \<Rightarrow> outcome \<Rightarrow> string option \<Rightarrow> i64 option \<Rightarrow> string list \<Rightarrow> u32 option
    \<Rightarrow> lease_ref \<Rightarrow> inner \<Rightarrow> unit result \<times> inner" where
  "mem_ack cfg now out err delay_ms logs actual_weight lease s =
     (case identity s lease of
        Inl e \<Rightarrow> (Inl e, s)
      | Inr _ \<Rightarrow>
          let i = lr_job_id lease; s1 = reconcile now i actual_weight s
          in case jobs s1 i of
               None \<Rightarrow> (Inr (), s1)
             | Some j \<Rightarrow> ack_outcome cfg now i out err delay_ms logs j s1)"

section \<open>The other fenced writes\<close>

definition ack_success_with_result ::
  "i64 \<Rightarrow> string list \<Rightarrow> u32 option \<Rightarrow> job_result \<Rightarrow> lease_ref \<Rightarrow> inner \<Rightarrow> unit result \<times> inner" where
  "ack_success_with_result now logs actual_weight result lease s =
     (case validate_opaque_value ''result'' result of
        Inl e \<Rightarrow> (Inl e, s)
      | Inr _ \<Rightarrow>
          (case identity s lease of
             Inl e \<Rightarrow> (Inl e, s)
           | Inr _ \<Rightarrow>
               let i = lr_job_id lease; s1 = release_unique i (reconcile now i actual_weight s)
               in case jobs s1 i of
                    None \<Rightarrow> (Inr (), s1)
                  | Some j \<Rightarrow>
                      (Inr (),
                       if retention_ms (env j) = 0 then del_row i s1
                       else put_row i (push_errs
                              (if logs = [] then [] else [''success logs: '' @ join_with '' | '' logs])
                              ((finish now ''completed'' j)\<lparr>jresult := Some result\<rparr>)) s1)))"

definition with_row ::
  "(mem_job \<Rightarrow> mem_job) \<Rightarrow> 'r \<Rightarrow> lease_ref \<Rightarrow> inner \<Rightarrow> 'r result \<times> inner" where
  "with_row f r lease s =
     (case identity s lease of
        Inl e \<Rightarrow> (Inl e, s)
      | Inr _ \<Rightarrow>
          (Inr r, s\<lparr>jobs := (jobs s)(lr_job_id lease := map_option f (jobs s (lr_job_id lease)))\<rparr>))"

definition mem_checkpoint :: "checkpoint \<Rightarrow> lease_ref \<Rightarrow> inner \<Rightarrow> unit result \<times> inner" where
  "mem_checkpoint cp = with_row (\<lambda>j. j\<lparr>jcheckpoint := cp\<rparr>) ()"

definition write_job_output ::
  "i64 \<Rightarrow> job_result \<Rightarrow> lease_ref \<Rightarrow> inner \<Rightarrow> job_output result \<times> inner" where
  "write_job_output now output lease s =
     (case validate_opaque_value ''output'' output of
        Inl e \<Rightarrow> (Inl e, s)
      | Inr _ \<Rightarrow>
          let persisted = \<lparr>out_schema_version = res_schema_version output,
                 out_bytes = res_bytes output, out_fence = lr_fence lease, out_updated_at_ms = now\<rparr>
          in with_row (\<lambda>j. j\<lparr>joutput := Some persisted\<rparr>) persisted lease s)"

definition write_job_progress ::
  "i64 \<Rightarrow> progress_update \<Rightarrow> lease_ref \<Rightarrow> inner \<Rightarrow> job_progress result \<times> inner" where
  "write_job_progress now update lease s =
     (case validate_progress update of
        Inl e \<Rightarrow> (Inl e, s)
      | Inr _ \<Rightarrow>
          let persisted = \<lparr>jp_current = pu_current update, jp_total = pu_total update,
                 jp_message = pu_message update, jp_fence = lr_fence lease,
                 jp_updated_at_ms = now\<rparr>
          in with_row (\<lambda>j. j\<lparr>jprogress := Some persisted\<rparr>) persisted lease s)"

definition get_job_result :: "string \<Rightarrow> inner \<Rightarrow> job_result option" where
  "get_job_result i s = Option.bind (jobs s i) jresult"

definition get_job_output :: "string \<Rightarrow> inner \<Rightarrow> job_output option" where
  "get_job_output i s = Option.bind (jobs s i) joutput"

definition get_job_progress :: "string \<Rightarrow> inner \<Rightarrow> job_progress option" where
  "get_job_progress i s = Option.bind (jobs s i) jprogress"

text \<open>\<open>renew\<close>: the loop over the leases, with the ids of the ones that were lost.\<close>

definition renew_one :: "i64 \<Rightarrow> duration \<Rightarrow> string list \<times> inner \<Rightarrow> lease_ref \<Rightarrow> string list \<times> inner" where
  "renew_one now lease acc l =
     (case acc of (lost, s) \<Rightarrow>
        (case jobs s (lr_job_id l) of
           Some j \<Rightarrow>
             if holds_lease l j
             then (lost, put_row (lr_job_id l)
                     (j\<lparr>lease_expires := wrap64 (now + wrap64 (int (as_millis lease)))\<rparr>) s)
             else (lost @ [lr_job_id l], s)
         | None \<Rightarrow> (lost @ [lr_job_id l], s)))"

definition mem_renew ::
  "i64 \<Rightarrow> lease_ref list \<Rightarrow> duration \<Rightarrow> inner \<Rightarrow> string list result \<times> inner" where
  "mem_renew now leases lease s =
     (if lease = 0 then (Inl (Invalid ''lease must be >= 1ms''), s)
      else case foldl (renew_one now lease) ([], s) leases of (lost, s') \<Rightarrow> (Inr lost, s'))"

section \<open>The contract of a fenced write\<close>

text \<open>
  What every operation of a lease holder promises: without the lease it fails and writes
  nothing, with it only the leased row may change, and the invariants of the store are kept.
\<close>

locale fenced_write =
  fixes op :: "lease_ref \<Rightarrow> inner \<Rightarrow> 'r result \<times> inner"
  assumes stale: "identity s l \<noteq> Inr () \<Longrightarrow> snd (op l s) = s \<and> (\<exists>e. fst (op l s) = Inl e)"
    and local_row: "i \<noteq> lr_job_id l \<Longrightarrow> jobs (snd (op l s)) i = jobs s i"
    and keeps: "store_ok s \<Longrightarrow> store_ok (snd (op l s))"
    and keeps_key: "key_ok s \<Longrightarrow> key_ok (snd (op l s))"
begin

lemma only_holder_writes:
  assumes "jobs (snd (op l s)) i \<noteq> jobs s i"
  shows "i = lr_job_id l \<and> (\<exists>j. jobs s i = Some j \<and> holds_lease l j)"
proof -
  have i: "i = lr_job_id l" using local_row assms by blast
  have "identity s l = Inr ()" using stale [of s l] assms by metis
  with i show ?thesis by (simp add: identity_Inr)
qed

lemma stale_run:
  "(\<And>l. l \<in> set ls \<Longrightarrow> identity s l \<noteq> Inr ()) \<Longrightarrow> foldl (\<lambda>s l. snd (op l s)) s ls = s"
  by (induction ls) (simp_all add: stale)

lemma run_keeps: "store_ok s \<Longrightarrow> store_ok (foldl (\<lambda>s l. snd (op l s)) s ls)"
  by (induction ls arbitrary: s) (simp_all add: keeps)

end

section \<open>What the parts of an acknowledgement do\<close>

lemma put_row_sel [simp]:
  "jobs (put_row i j s) = (jobs s)(i \<mapsto> j)" "unique (put_row i j s) = unique s"
  "throttle (put_row i j s) = throttle s" "quarantine (put_row i j s) = quarantine s"
  "paused (put_row i j s) = paused s" "rate (put_row i j s) = rate s"
  "duties (put_row i j s) = duties s" "rr (put_row i j s) = rr s"
  by (simp_all add: put_row_def)

lemma del_row_sel [simp]:
  "jobs (del_row i s) = (jobs s)(i := None)" "unique (del_row i s) = unique s"
  "quarantine (del_row i s) = quarantine s" "rate (del_row i s) = rate s"
  by (simp_all add: del_row_def)

lemma row_writer_sel [simp]:
  "env (push_errs es j) = env j" "jstate (push_errs es j) = jstate j"
  "fence (push_errs es j) = fence j" "lease_id (push_errs es j) = lease_id j"
  "lease_expires (push_errs es j) = lease_expires j"
  "env (finish now st j) = env j" "jstate (finish now st j) = st"
  "fence (finish now st j) = fence j" "lease_id (finish now st j) = []"
  "lease_expires (finish now st j) = 0"
  "env (drop_lease j) = env j" "jstate (drop_lease j) = jstate j" "fence (drop_lease j) = fence j"
  "lease_id (drop_lease j) = []" "lease_expires (drop_lease j) = 0"
  by (simp_all add: push_errs_def finish_def drop_lease_def)

lemma retry_row_sel [simp]:
  "env (retry_row j err log) = (env j)\<lparr>attempt := attempt (env j) + 1\<rparr>"
  "fence (retry_row j err log) = fence j" "lease_id (retry_row j err log) = []"
  "lease_expires (retry_row j err log) = 0"
  by (simp_all add: retry_row_def Let_def)

lemma key_attempt [simp]:
  "effective_unique_key (e\<lparr>attempt := n\<rparr>) = effective_unique_key e"
  "effective_unique_key (e\<lparr>scheduled_at_ms := t\<rparr>) = effective_unique_key e"
  "effective_unique_key (e\<lparr>crash_attempt := n\<rparr>) = effective_unique_key e"
  by (simp_all add: effective_unique_key_def split: option.split)

lemma settle_bucket_ok: "bucket_ok (settle now c a b)"
  by (simp add: settle_def Let_def bucket_ok_def)

lemma reconcile_frame [simp]:
  "unique (reconcile now i a s) = unique s" "throttle (reconcile now i a s) = throttle s"
  "quarantine (reconcile now i a s) = quarantine s" "paused (reconcile now i a s) = paused s"
  "duties (reconcile now i a s) = duties s" "rr (reconcile now i a s) = rr s"
  by (auto simp: reconcile_def Let_def split: option.split)

lemma reconcile_jobs:
  "jobs (reconcile now i a s) =
     (if a = None then jobs s else (jobs s)(i := map_option (rate_charge_update (\<lambda>_. 0)) (jobs s i)))"
  by (auto simp: reconcile_def Let_def split: option.split)

lemma reconcile_rate:
  "rate (reconcile now i a s) n = Some b \<Longrightarrow> rate s n = Some b \<or> bucket_ok b"
  by (auto simp: reconcile_def Let_def settle_bucket_ok split: option.splits if_splits)

lemma store_ok_transfer:
  assumes "store_ok s" "unique s' = unique s" "quarantine s' = quarantine s"
    and "\<And>i. jobs s' i = None \<longleftrightarrow> jobs s i = None"
    and "\<And>i j j'. jobs s i = Some j \<Longrightarrow> jobs s' i = Some j' \<Longrightarrow>
       env j' = env j \<and> jstate j' = jstate j \<and>
       (jstate j \<noteq> ''running'' \<longrightarrow> lease_id j' = lease_id j \<and> lease_expires j' = lease_expires j)"
    and "\<And>n b. rate s' n = Some b \<Longrightarrow> bucket_ok b"
  shows "store_ok s'"
proof -
  have old: "\<exists>j. jobs s i = Some j \<and> env j' = env j \<and> jstate j' = jstate j \<and> row_ok i j' \<and> parked_ok s' j'"
    if "jobs s' i = Some j'" for i j'
  proof -
    from that assms(4) [of i] obtain j where j: "jobs s i = Some j" by fastforce
    note eqs = assms(5) [OF j that]
    from store_ok_row [OF assms(1) j] store_ok_parked [OF assms(1) j] eqs assms(3) j show ?thesis
      by (auto simp: row_ok_def parked_ok_def blocked_fingerprint_def)
  qed
  have "dom (jobs s') = dom (jobs s)" using assms(4) by (auto simp: dom_def)
  with assms(1) old have "rows_ok s'" unfolding store_ok_def rows_ok_def by metis
  moreover have "index_ok s'"
    unfolding index_ok_def
  proof (intro allI impI)
    fix k i
    assume "unique s' k = Some i"
    with assms(2) store_ok_index [OF assms(1)] obtain j where
      j: "jobs s i = Some j" "holds_key k j" by auto
    with assms(4) [of i] obtain j' where "jobs s' i = Some j'" by fastforce
    with assms(5) [OF j(1) this] j(2) show "\<exists>j. jobs s' i = Some j \<and> holds_key k j"
      by (auto simp: holds_key_def)
  qed
  ultimately show ?thesis using assms(6) by (simp add: store_ok_def)
qed

lemma key_ok_transfer:
  assumes "key_ok s" "unique s' = unique s"
    and "\<And>i j'. jobs s' i = Some j' \<Longrightarrow> \<exists>j. jobs s i = Some j \<and> env j' = env j \<and> jstate j' = jstate j"
  shows "key_ok s'"
  unfolding key_ok_def
proof (intro allI impI)
  fix i j' k
  assume "jobs s' i = Some j'" "holds_key k j'"
  moreover from assms(3) [OF this(1)] obtain j where
    "jobs s i = Some j" "env j' = env j" "jstate j' = jstate j" by blast
  ultimately show "unique s' k = Some i"
    using key_ok_holder [OF assms(1), of i j k] assms(2) by (simp add: holds_key_def)
qed

lemma reconcile_row:
  "jobs (reconcile now i a s) m = Some j' \<Longrightarrow>
   \<exists>j. jobs s m = Some j \<and> env j' = env j \<and> jstate j' = jstate j \<and> fence j' = fence j \<and>
     lease_id j' = lease_id j \<and> lease_expires j' = lease_expires j"
  by (auto simp: reconcile_jobs split: if_splits)

lemma reconcile_ok:
  assumes "store_ok s"
  shows "store_ok (reconcile now i a s)"
proof (rule store_ok_transfer [OF assms])
  show "rate (reconcile now i a s) n = Some b \<Longrightarrow> bucket_ok b" for n b
    using reconcile_rate store_ok_bucket [OF assms] by blast
qed (auto simp: reconcile_jobs split: if_splits)

lemma reconcile_key_ok: "key_ok s \<Longrightarrow> key_ok (reconcile now i a s)"
  by (erule key_ok_transfer) (auto dest: reconcile_row)

text \<open>The three ways an operation rewrites a leased row: keep it live, retire it, remove it.\<close>

lemma put_live:
  assumes "jobs s i = Some j" "same_key j j'" "live (jstate j)" "live (jstate j')"
  shows "store_ok s \<Longrightarrow> row_ok i j' \<Longrightarrow> store_ok (put_row i j' s)"
    and "key_ok s \<Longrightarrow> key_ok (put_row i j' s)"
  unfolding put_row_def using assms by (blast intro: store_ok_rewrite key_ok_rewrite)+

lemma put_released:
  assumes "\<not> live (jstate j')"
  shows "store_ok s \<Longrightarrow> row_ok i j' \<Longrightarrow> parked_ok s j' \<Longrightarrow> store_ok (put_row i j' (release_unique i s))"
    and "key_ok s \<Longrightarrow> key_ok (put_row i j' (release_unique i s))"
  unfolding put_row_def release_unique_frame
  using assms by (blast intro: store_ok_release_update key_ok_retire)+

lemma release_put:
  "jobs s i = Some j \<Longrightarrow> same_key j j' \<Longrightarrow>
   release_unique i (put_row i j' s) = put_row i j' (release_unique i s)"
  unfolding put_row_def same_key_def release_unique_frame by (blast intro: release_unique_commute)

lemma del_released:
  "store_ok s \<Longrightarrow> store_ok (del_row i (release_unique i s))"
  "key_ok s \<Longrightarrow> key_ok (del_row i (release_unique i s))"
  unfolding del_row_def release_unique_frame
  by (blast intro: store_ok_release_delete key_ok_remove)+

text \<open>The row an acknowledgement writes, or none where it removes the row.\<close>

definition acked_row ::
  "mem_config \<Rightarrow> i64 \<Rightarrow> outcome \<Rightarrow> string option \<Rightarrow> i64 option \<Rightarrow> string list \<Rightarrow> mem_job \<Rightarrow> mem_job option"
where
  "acked_row cfg now out err delay_ms logs j =
     (case out of
        Outcome_Success \<Rightarrow>
          if retention_ms (env j) = 0 then None
          else Some (push_errs (map (tagged ''success '') (opt_list (logline logs)))
                 (finish now ''completed'' j))
      | Outcome_Retry \<Rightarrow>
          let j1 = retry_row j err (logline logs)
          in Some (if attempt (env j1) < max_attempts (env j1)
                   then j1\<lparr>jstate := ''retryable'',
                          env := (env j1)\<lparr>scheduled_at_ms :=
                            wrap64 (now + retry_delay cfg delay_ms (attempt (env j1)))\<rparr>\<rparr>
                   else j1\<lparr>jstate := ''archived'', finalized_at := now\<rparr>)
      | Outcome_Skip \<Rightarrow>
          Some (push_errs (map (tagged ''archived: '') (opt_list err) @ opt_list (logline logs))
            (finish now ''archived'' j))
      | Outcome_Undecodable \<Rightarrow>
          Some (push_errs (map (tagged ''undecodable: '') (opt_list err) @ opt_list (logline logs))
            (finish now ''undecodable'' j))
      | Outcome_Revoke \<Rightarrow> None
      | Outcome_Snooze \<Rightarrow>
          Some ((drop_lease j)\<lparr>jstate := ''scheduled'',
            env := (env j)\<lparr>scheduled_at_ms :=
              wrap64 (now + (case delay_ms of None \<Rightarrow> 0 | Some d \<Rightarrow> d))\<rparr>\<rparr>)
      | Outcome_RateLimited \<Rightarrow>
          Some ((drop_lease j)\<lparr>jstate := ''available'',
            env := (env j)\<lparr>scheduled_at_ms := min (scheduled_at_ms (env j)) now\<rparr>\<rparr>)
      | Outcome_LeaseLost \<Rightarrow> Some j)"

lemma acked_row_props:
  assumes "acked_row cfg now out err delay_ms logs j = Some j'" "out \<noteq> Outcome_LeaseLost"
  shows "same_key j j'" "fence j' = fence j" "lease_id j' = []" "lease_expires j' = 0"
    "env_id (env j') = env_id (env j)" "retention_ms (env j') = retention_ms (env j)"
    "crash_attempt (env j') = crash_attempt (env j)"
    "attempt (env j') = (if out = Outcome_Retry then attempt (env j) + 1 else attempt (env j))"
    "jstate j' \<in> {''completed'', ''retryable'', ''archived'', ''undecodable'', ''scheduled'', ''available''}"
  using assms
  by (auto simp: acked_row_def same_key_def Let_def split: outcome.splits if_splits)

lemma acked_row_ok:
  assumes "acked_row cfg now out err delay_ms logs j = Some j'" "out \<noteq> Outcome_LeaseLost" "row_ok i j"
  shows "row_ok i j'" "parked_ok s j'"
  using acked_row_props [OF assms(1,2)] assms(3) by (auto simp: row_ok_def parked_ok_def)

lemma ack_outcome_Inr:
  assumes "ack_outcome cfg now i out err delay_ms logs j s = (Inr (), s')" "jobs s i = Some j"
  shows "out \<noteq> Outcome_LeaseLost"
    and "s' = (case acked_row cfg now out err delay_ms logs j of
        None \<Rightarrow> del_row i (release_unique i s)
      | Some j' \<Rightarrow> if live (jstate j') then put_row i j' s else put_row i j' (release_unique i s))"
proof -
  from assms(1) show ne: "out \<noteq> Outcome_LeaseLost" by (auto simp: ack_outcome_def)
  from assms(1) show "s' = (case acked_row cfg now out err delay_ms logs j of
        None \<Rightarrow> del_row i (release_unique i s)
      | Some j' \<Rightarrow> if live (jstate j') then put_row i j' s else put_row i j' (release_unique i s))"
    by (auto simp: ack_outcome_def acked_row_def ack_retry_def Let_def same_key_def
        release_put [OF assms(2)] split: outcome.splits if_splits)
qed

lemma ack_outcome_Inl:
  "ack_outcome cfg now i out err delay_ms logs j s = (Inl e, s') \<Longrightarrow> s' = s"
  by (auto simp: ack_outcome_def Let_def split: outcome.splits if_splits)

lemma ack_outcome_invs:
  assumes j: "jobs s i = Some j" "jstate j = ''running''"
  shows "store_ok s \<Longrightarrow> store_ok (snd (ack_outcome cfg now i out err delay_ms logs j s))"
    and "key_ok s \<Longrightarrow> key_ok (snd (ack_outcome cfg now i out err delay_ms logs j s))"
proof -
  obtain r s' where a: "ack_outcome cfg now i out err delay_ms logs j s = (r, s')" by fastforce
  have "(store_ok s \<longrightarrow> store_ok s') \<and> (key_ok s \<longrightarrow> key_ok s')"
  proof (cases r)
    case (Inl e)
    with a show ?thesis using ack_outcome_Inl by blast
  next
    case (Inr u)
    with a have a': "ack_outcome cfg now i out err delay_ms logs j s = (Inr (), s')" by simp
    note out = ack_outcome_Inr [OF a' j(1)]
    show ?thesis
    proof (cases "acked_row cfg now out err delay_ms logs j")
      case None
      with out(2) show ?thesis by (simp add: del_released)
    next
      case (Some j')
      note props = acked_row_props [OF Some out(1)] and ok = acked_row_ok [OF Some out(1)]
      show ?thesis
      proof (cases "live (jstate j')")
        case True
        with out(2) Some ok props(1) j show ?thesis
          using put_live [OF j(1), of j'] store_ok_row [of s i j] by simp
      next
        case False
        with out(2) Some have "s' = put_row i j' (release_unique i s)" by simp
        then show ?thesis using put_released [OF False] ok store_ok_row [of s i j] j(1) by blast
      qed
    qed
  qed
  with a show "store_ok s \<Longrightarrow> store_ok (snd (ack_outcome cfg now i out err delay_ms logs j s))"
    "key_ok s \<Longrightarrow> key_ok (snd (ack_outcome cfg now i out err delay_ms logs j s))" by simp_all
qed

section \<open>The operations satisfy the contract\<close>

lemma identity_Inl: "identity s l \<noteq> Inr () \<Longrightarrow> identity s l = Inl (LeaseRejected (lr_job_id l))"
  by (auto simp: identity_def split: option.splits if_splits)

lemma reconcile_same:
  "jobs s i = Some j \<Longrightarrow>
   \<exists>j1. jobs (reconcile now i a s) i = Some j1 \<and> env j1 = env j \<and> jstate j1 = jstate j \<and>
     fence j1 = fence j"
  by (cases a) (simp_all add: reconcile_jobs)

lemma mem_ack_held:
  assumes "identity s lease = Inr ()"
  obtains j j1 where "jobs s (lr_job_id lease) = Some j" "holds_lease lease j"
    "jobs (reconcile now (lr_job_id lease) actual s) (lr_job_id lease) = Some j1"
    "env j1 = env j" "jstate j1 = ''running''" "fence j1 = fence j"
    "mem_ack cfg now out err delay_ms logs actual lease s =
       ack_outcome cfg now (lr_job_id lease) out err delay_ms logs j1
         (reconcile now (lr_job_id lease) actual s)"
proof -
  let ?i = "lr_job_id lease" and ?s = "reconcile now (lr_job_id lease) actual s"
  from assms obtain j where j: "jobs s ?i = Some j" "holds_lease lease j" by (auto simp: identity_Inr)
  with reconcile_same [OF j(1), of now actual] obtain j1 where j1: "jobs ?s ?i = Some j1"
    "env j1 = env j" "jstate j1 = ''running''" "fence j1 = fence j" by (auto simp: holds_lease_def)
  with that j assms show ?thesis by (simp add: mem_ack_def Let_def)
qed

lemma mem_ack_stale:
  "identity s lease \<noteq> Inr () \<Longrightarrow>
   mem_ack cfg now out err delay_ms logs actual lease s = (Inl (LeaseRejected (lr_job_id lease)), s)"
  by (simp add: mem_ack_def identity_Inl)

lemma mem_ack_local:
  assumes "i \<noteq> lr_job_id lease"
  shows "jobs (snd (mem_ack cfg now out err delay_ms logs actual lease s)) i = jobs s i"
proof (cases "identity s lease = Inr ()")
  case False
  then show ?thesis by (simp add: mem_ack_stale)
next
  case True
  from True show ?thesis
  proof (rule mem_ack_held [where cfg = cfg and now = now and out = out and err = err and
        delay_ms = delay_ms and logs = logs and actual = actual])
    fix j j1
    let ?s = "reconcile now (lr_job_id lease) actual s"
    assume j1: "jobs ?s (lr_job_id lease) = Some j1"
      and eq: "mem_ack cfg now out err delay_ms logs actual lease s =
        ack_outcome cfg now (lr_job_id lease) out err delay_ms logs j1 ?s"
    obtain r s' where a: "ack_outcome cfg now (lr_job_id lease) out err delay_ms logs j1 ?s = (r, s')"
      by fastforce
    have "jobs ?s i = jobs s i" using assms by (simp add: reconcile_jobs)
    moreover have "jobs s' i = jobs ?s i"
      using a ack_outcome_Inl [of cfg now _ out err delay_ms logs j1 ?s]
        ack_outcome_Inr(2) [of cfg now "lr_job_id lease" out err delay_ms logs j1 ?s s'] j1 assms
      by (cases r) (auto split: option.splits)
    ultimately show ?thesis using eq a by simp
  qed
qed

lemma mem_ack_invs:
  "store_ok s \<Longrightarrow> store_ok (snd (mem_ack cfg now out err delay_ms logs actual lease s))"
  "key_ok s \<Longrightarrow> key_ok (snd (mem_ack cfg now out err delay_ms logs actual lease s))"
proof -
  let ?s = "reconcile now (lr_job_id lease) actual s"
  have "(store_ok s \<longrightarrow> store_ok (snd (mem_ack cfg now out err delay_ms logs actual lease s))) \<and>
      (key_ok s \<longrightarrow> key_ok (snd (mem_ack cfg now out err delay_ms logs actual lease s)))"
  proof (cases "identity s lease = Inr ()")
    case False
    then show ?thesis by (simp add: mem_ack_stale)
  next
    case True
    then show ?thesis
      by (rule mem_ack_held [where cfg = cfg and now = now and out = out and err = err and
            delay_ms = delay_ms and logs = logs and actual = actual])
        (simp add: ack_outcome_invs reconcile_ok reconcile_key_ok)
  qed
  then show "store_ok s \<Longrightarrow> store_ok (snd (mem_ack cfg now out err delay_ms logs actual lease s))"
    "key_ok s \<Longrightarrow> key_ok (snd (mem_ack cfg now out err delay_ms logs actual lease s))" by blast+
qed

interpretation ack: fenced_write "mem_ack cfg now out err delay_ms logs actual"
  by unfold_locales (simp_all add: mem_ack_stale mem_ack_local mem_ack_invs)

text \<open>The success that carries a result is the plain success with the result in the row.\<close>

definition result_row :: "i64 \<Rightarrow> string list \<Rightarrow> job_result \<Rightarrow> mem_job \<Rightarrow> mem_job" where
  "result_row now logs result j =
     push_errs (if logs = [] then [] else [''success logs: '' @ join_with '' | '' logs])
       ((finish now ''completed'' j)\<lparr>jresult := Some result\<rparr>)"

lemma result_row_props:
  "env (result_row now logs r j) = env j" "jstate (result_row now logs r j) = ''completed''"
  "fence (result_row now logs r j) = fence j" "lease_id (result_row now logs r j) = []"
  "lease_expires (result_row now logs r j) = 0" "jresult (result_row now logs r j) = Some r"
  by (simp_all add: result_row_def push_errs_def finish_def drop_lease_def)

lemma result_ack_cases:
  obtains e where "ack_success_with_result now logs actual r lease s = (Inl e, s)"
  | j j1 where "identity s lease = Inr ()" "validate_opaque_value ''result'' r = Inr ()"
    "jobs s (lr_job_id lease) = Some j"
    "jobs (reconcile now (lr_job_id lease) actual s) (lr_job_id lease) = Some j1" "env j1 = env j"
    "ack_success_with_result now logs actual r lease s =
      (Inr (), let s1 = release_unique (lr_job_id lease) (reconcile now (lr_job_id lease) actual s)
               in if retention_ms (env j) = 0 then del_row (lr_job_id lease) s1
                  else put_row (lr_job_id lease) (result_row now logs r j1) s1)"
proof (cases "identity s lease = Inr () \<and> validate_opaque_value ''result'' r = Inr ()")
  case False
  then have "\<exists>e. ack_success_with_result now logs actual r lease s = (Inl e, s)"
    by (auto simp: ack_success_with_result_def identity_Inl split: sum.splits)
  with that(1) show ?thesis by blast
next
  case True
  then obtain j where j: "jobs s (lr_job_id lease) = Some j" by (auto simp: identity_Inr)
  then obtain j1 where j1: "jobs (reconcile now (lr_job_id lease) actual s) (lr_job_id lease) = Some j1"
    "env j1 = env j" using reconcile_same by blast
  with True j show ?thesis
    by (intro that(2) [of j j1]) (simp_all add: ack_success_with_result_def Let_def result_row_def)
qed

lemma result_row_ok: "row_ok i j1 \<Longrightarrow> row_ok i (result_row now logs r j1)"
  by (simp add: row_ok_def result_row_props)

lemma result_ack_invs:
  "store_ok s \<Longrightarrow> store_ok (snd (ack_success_with_result now logs actual r lease s))"
  "key_ok s \<Longrightarrow> key_ok (snd (ack_success_with_result now logs actual r lease s))"
proof -
  let ?i = "lr_job_id lease" and ?s = "reconcile now (lr_job_id lease) actual s"
  have "(store_ok s \<longrightarrow> store_ok (snd (ack_success_with_result now logs actual r lease s))) \<and>
      (key_ok s \<longrightarrow> key_ok (snd (ack_success_with_result now logs actual r lease s)))"
  proof (cases rule: result_ack_cases [of now logs actual r lease s])
    case (2 j j1)
    have nl: "\<not> live (jstate (result_row now logs r j1))" by (simp add: result_row_props)
    have "parked_ok ?s (result_row now logs r j1)" by (simp add: parked_ok_def result_row_props)
    then show ?thesis
      using 2 put_released [OF nl, of ?s ?i] del_released [of ?s ?i] result_row_ok
        store_ok_row [OF _ 2(4)] reconcile_ok [of s] reconcile_key_ok [of s]
      by (simp add: Let_def)
  qed simp
  then show "store_ok s \<Longrightarrow> store_ok (snd (ack_success_with_result now logs actual r lease s))"
    "key_ok s \<Longrightarrow> key_ok (snd (ack_success_with_result now logs actual r lease s))" by blast+
qed

lemma result_ack_local:
  "i \<noteq> lr_job_id lease \<Longrightarrow> jobs (snd (ack_success_with_result now logs actual r lease s)) i = jobs s i"
  by (cases rule: result_ack_cases [of now logs actual r lease s])
    (simp_all add: Let_def reconcile_jobs)

lemma result_ack_stale:
  "identity s lease \<noteq> Inr () \<Longrightarrow> snd (ack_success_with_result now logs actual r lease s) = s \<and>
   (\<exists>e. fst (ack_success_with_result now logs actual r lease s) = Inl e)"
  by (cases rule: result_ack_cases [of now logs actual r lease s]) auto

interpretation result_ack: fenced_write "ack_success_with_result now logs actual r"
  by unfold_locales (simp_all add: result_ack_stale result_ack_local result_ack_invs)

lemma with_row_invs:
  assumes "\<And>j. env (f j) = env j \<and> jstate (f j) = jstate j \<and> lease_id (f j) = lease_id j \<and>
      lease_expires (f j) = lease_expires j"
  shows "store_ok s \<Longrightarrow> store_ok (snd (with_row f r lease s))"
    and "key_ok s \<Longrightarrow> key_ok (snd (with_row f r lease s))"
proof -
  let ?s = "snd (with_row f r lease s)"
  have jobs: "jobs ?s i = jobs s i \<or> jobs ?s i = map_option f (jobs s i)" for i
    by (auto simp: with_row_def split: sum.split)
  have rest: "unique ?s = unique s" "quarantine ?s = quarantine s" "rate ?s = rate s"
    by (simp_all add: with_row_def split: sum.split)
  show "store_ok ?s" if "store_ok s"
  proof (rule store_ok_transfer [OF that rest(1,2)])
    show "jobs ?s i = None \<longleftrightarrow> jobs s i = None" for i using jobs [of i] by auto
    show "env j' = env j \<and> jstate j' = jstate j \<and>
       (jstate j \<noteq> ''running'' \<longrightarrow> lease_id j' = lease_id j \<and> lease_expires j' = lease_expires j)"
      if "jobs s i = Some j" "jobs ?s i = Some j'" for i j j'
      using jobs [of i] that assms [of j] by auto
    show "rate ?s n = Some b \<Longrightarrow> bucket_ok b" for n b
      using store_ok_bucket [OF that] rest(3) by simp
  qed
  show "key_ok ?s" if "key_ok s"
  proof (rule key_ok_transfer [OF that rest(1)])
    show "\<exists>j. jobs s i = Some j \<and> env j' = env j \<and> jstate j' = jstate j"
      if "jobs ?s i = Some j'" for i j'
      using jobs [of i] that assms by (cases "jobs s i") auto
  qed
qed

lemma with_row_local: "i \<noteq> lr_job_id lease \<Longrightarrow> jobs (snd (with_row f r lease s)) i = jobs s i"
  by (simp add: with_row_def split: sum.split)

lemma with_row_stale: "identity s lease \<noteq> Inr () \<Longrightarrow>
    with_row f r lease s = (Inl (LeaseRejected (lr_job_id lease)), s)"
  by (simp add: with_row_def identity_Inl)

interpretation checkpoint_write: fenced_write "mem_checkpoint cp"
  by unfold_locales
    (simp_all add: mem_checkpoint_def with_row_local with_row_stale with_row_invs)

interpretation output_write: fenced_write "write_job_output now output"
  by unfold_locales
    (auto simp: write_job_output_def with_row_local with_row_stale Let_def intro: with_row_invs
      split: sum.split)

interpretation progress_write: fenced_write "write_job_progress now update"
  by unfold_locales
    (auto simp: write_job_progress_def with_row_local with_row_stale Let_def intro: with_row_invs
      split: sum.split)

section \<open>Properties\<close>

lemma stale_results:
  assumes "identity s lease \<noteq> Inr ()"
  shows "ack_success_with_result now logs actual res lease s =
      (Inl (case validate_opaque_value ''result'' res of Inl e \<Rightarrow> e | Inr _ \<Rightarrow> LeaseRejected (lr_job_id lease)), s)"
    "mem_checkpoint cp lease s = (Inl (LeaseRejected (lr_job_id lease)), s)"
    "write_job_output now res lease s =
      (Inl (case validate_opaque_value ''output'' res of Inl e \<Rightarrow> e | Inr _ \<Rightarrow> LeaseRejected (lr_job_id lease)), s)"
    "write_job_progress now update lease s =
      (Inl (case validate_progress update of Inl e \<Rightarrow> e | Inr _ \<Rightarrow> LeaseRejected (lr_job_id lease)), s)"
  using assms
  by (simp_all add: ack_success_with_result_def mem_checkpoint_def write_job_output_def write_job_progress_def
      identity_Inl with_row_stale Let_def split: sum.split)

text \<open>C4. Only the holder of a lease writes: an acknowledgement, a success with a result, a
  checkpoint, an output or a progress write changes a row only when that row is the one the
  lease names, it is running, and it still carries the lease's id and fence. Without that the store
  is as it was and the call fails: an acknowledgement and a checkpoint with the rejection of that
  lease, a result, an output and a progress write with the error of their validation if the value is
  invalid, which is tested first, and with the rejection of the lease otherwise.\<close>

theorem only_lease_holder_writes:
  "(\<forall>i. jobs (snd (mem_ack cfg now out err delay_ms logs actual lease s)) i \<noteq> jobs s i \<or>
        jobs (snd (ack_success_with_result now logs actual res lease s)) i \<noteq> jobs s i \<or>
        jobs (snd (mem_checkpoint cp lease s)) i \<noteq> jobs s i \<or>
        jobs (snd (write_job_output now res lease s)) i \<noteq> jobs s i \<or>
        jobs (snd (write_job_progress now update lease s)) i \<noteq> jobs s i \<longrightarrow>
      i = lr_job_id lease \<and>
      (\<exists>j. jobs s i = Some j \<and> jstate j = ''running'' \<and> lease_id j = lr_lease_id lease \<and> fence j = lr_fence lease)) \<and>
   ((\<nexists>j. jobs s (lr_job_id lease) = Some j \<and> jstate j = ''running'' \<and>
        lease_id j = lr_lease_id lease \<and> fence j = lr_fence lease) \<longrightarrow>
      mem_ack cfg now out err delay_ms logs actual lease s = (Inl (LeaseRejected (lr_job_id lease)), s) \<and>
      mem_checkpoint cp lease s = (Inl (LeaseRejected (lr_job_id lease)), s) \<and>
      ack_success_with_result now logs actual res lease s =
        (Inl (case validate_opaque_value ''result'' res of Inl e \<Rightarrow> e | Inr _ \<Rightarrow> LeaseRejected (lr_job_id lease)), s) \<and>
      write_job_output now res lease s =
        (Inl (case validate_opaque_value ''output'' res of Inl e \<Rightarrow> e | Inr _ \<Rightarrow> LeaseRejected (lr_job_id lease)), s) \<and>
      write_job_progress now update lease s =
        (Inl (case validate_progress update of Inl e \<Rightarrow> e | Inr _ \<Rightarrow> LeaseRejected (lr_job_id lease)), s))"
proof (intro conjI allI impI; (elim disjE)?)
  assume "\<nexists>j. jobs s (lr_job_id lease) = Some j \<and> jstate j = ''running'' \<and>
    lease_id j = lr_lease_id lease \<and> fence j = lr_fence lease"
  then have "identity s lease \<noteq> Inr ()" by (auto simp: identity_Inr holds_lease_def)
  note st = stale_results [OF this] mem_ack_stale [OF this]
  show "mem_ack cfg now out err delay_ms logs actual lease s = (Inl (LeaseRejected (lr_job_id lease)), s)"
    "mem_checkpoint cp lease s = (Inl (LeaseRejected (lr_job_id lease)), s)"
    "ack_success_with_result now logs actual res lease s =
       (Inl (case validate_opaque_value ''result'' res of Inl e \<Rightarrow> e | Inr _ \<Rightarrow> LeaseRejected (lr_job_id lease)), s)"
    "write_job_output now res lease s =
       (Inl (case validate_opaque_value ''output'' res of Inl e \<Rightarrow> e | Inr _ \<Rightarrow> LeaseRejected (lr_job_id lease)), s)"
    "write_job_progress now update lease s =
       (Inl (case validate_progress update of Inl e \<Rightarrow> e | Inr _ \<Rightarrow> LeaseRejected (lr_job_id lease)), s)"
    by (rule st(5), rule st(2), rule st(1), rule st(3), rule st(4))
qed (auto simp: holds_lease_def dest!: ack.only_holder_writes result_ack.only_holder_writes
      checkpoint_write.only_holder_writes output_write.only_holder_writes progress_write.only_holder_writes)

definition ctx_of :: "mem_config \<Rightarrow> mem_job \<Rightarrow> transition_ctx" where
  "ctx_of cfg j =
     \<lparr>ctx_attempt = attempt (env j), ctx_max_attempts = max_attempts (env j),
      ctx_crash_attempt = crash_attempt (env j), ctx_crash_limit = crash_limit cfg,
      ctx_retention_ms = retention_ms (env j)\<rparr>"

lemma acked_row_transition:
  assumes "row_ok i j" "out \<noteq> Outcome_LeaseLost"
  shows "(case acked_row cfg now out err delay_ms logs j of
      None \<Rightarrow> State_Deleted | Some j' \<Rightarrow> the (state_of_str (jstate j')))
    = transition State_Running out (ctx_of cfg j)"
  using assms
  by (cases out) (auto simp: acked_row_def transition_def ctx_of_def Let_def row_ok_def)

lemma mem_ack_Inr:
  assumes "mem_ack cfg now out err delay_ms logs actual lease s = (Inr (), s')"
  obtains j j1 where "jobs s (lr_job_id lease) = Some j" "holds_lease lease j" "env j1 = env j"
    "jstate j1 = ''running''" "fence j1 = fence j" "out \<noteq> Outcome_LeaseLost"
    "jobs s' (lr_job_id lease) = acked_row cfg now out err delay_ms logs j1"
    "jobs (reconcile now (lr_job_id lease) actual s) (lr_job_id lease) = Some j1"
proof -
  from assms have "identity s lease = Inr ()" using mem_ack_stale by fastforce
  then show ?thesis
  proof (rule mem_ack_held [where cfg = cfg and now = now and out = out and err = err and
        delay_ms = delay_ms and logs = logs and actual = actual])
    fix j j1
    let ?i = "lr_job_id lease" and ?s = "reconcile now (lr_job_id lease) actual s"
    assume j: "jobs s ?i = Some j" "holds_lease lease j" and j1: "jobs ?s ?i = Some j1"
      "env j1 = env j" "jstate j1 = ''running''" "fence j1 = fence j"
      and eq: "mem_ack cfg now out err delay_ms logs actual lease s =
        ack_outcome cfg now ?i out err delay_ms logs j1 ?s"
    from assms eq have a: "ack_outcome cfg now ?i out err delay_ms logs j1 ?s = (Inr (), s')" by simp
    have "jobs s' ?i = acked_row cfg now out err delay_ms logs j1"
      using ack_outcome_Inr(2) [OF a j1(1)] by (auto split: option.splits)
    with that j j1 ack_outcome_Inr(1) [OF a j1(1)] show ?thesis by blast
  qed
qed

text \<open>C2. An acknowledgement is one step of the transition table: the job was running under that
  lease, afterwards it is in the state the table gives for the outcome (a missing row is the
  state deleted), no other row changed, a retry and only a retry counts an attempt, the crash
  counter is left alone, the fence is kept and the lease is gone.\<close>

theorem ack_refines_transition:
  assumes "store_ok s" "mem_ack cfg now out err delay_ms logs actual lease s = (Inr (), s')"
  shows "\<exists>j. jobs s (lr_job_id lease) = Some j \<and> holds_lease lease j \<and>
    abs_state s' (lr_job_id lease) = transition (abs_state s (lr_job_id lease)) out (ctx_of cfg j) \<and>
    (\<forall>m. m \<noteq> lr_job_id lease \<longrightarrow> jobs s' m = jobs s m) \<and>
    (\<forall>j'. jobs s' (lr_job_id lease) = Some j' \<longrightarrow>
       attempt (env j') = (if out = Outcome_Retry then attempt (env j) + 1 else attempt (env j)) \<and>
       crash_attempt (env j') = crash_attempt (env j) \<and> fence j' = fence j \<and>
       lease_id j' = [] \<and> lease_expires j' = 0)"
  using assms(2)
proof (rule mem_ack_Inr)
  let ?i = "lr_job_id lease"
  fix j j1
  assume j: "jobs s ?i = Some j" "holds_lease lease j" "env j1 = env j" "jstate j1 = ''running''"
    "fence j1 = fence j" and out: "out \<noteq> Outcome_LeaseLost"
    and s': "jobs s' ?i = acked_row cfg now out err delay_ms logs j1"
    and rec: "jobs (reconcile now ?i actual s) ?i = Some j1"
  have ok: "row_ok ?i j1" using store_ok_row [OF reconcile_ok [OF assms(1)] rec] .
  have "abs_state s ?i = State_Running" using j by (simp add: abs_state_def holds_lease_def)
  moreover have "abs_state s' ?i = transition State_Running out (ctx_of cfg j1)"
    unfolding acked_row_transition [OF ok out, symmetric, of cfg now err delay_ms logs]
    using s' acked_row_props(9) [of cfg now out err delay_ms logs j1] out
    by (auto simp: abs_state_def split: option.splits)
  moreover have "ctx_of cfg j1 = ctx_of cfg j" using j by (simp add: ctx_of_def)
  moreover have "jobs s' m = jobs s m" if "m \<noteq> ?i" for m
    using mem_ack_local [OF that, of cfg now out err delay_ms logs actual s] assms(2) by simp
  moreover have "attempt (env j') = (if out = Outcome_Retry then attempt (env j) + 1 else attempt (env j)) \<and>
      crash_attempt (env j') = crash_attempt (env j) \<and> fence j' = fence j \<and>
      lease_id j' = [] \<and> lease_expires j' = 0" if "jobs s' ?i = Some j'" for j'
  proof -
    from that s' have "acked_row cfg now out err delay_ms logs j1 = Some j'" by simp
    from acked_row_props [OF this out] j show ?thesis by simp
  qed
  ultimately show ?thesis using j(1,2) by (intro exI [of _ j]) simp
qed

text \<open>C5. An attempt is acknowledged at most once: after an accepted acknowledgement, any further
  acknowledgement under the same lease is rejected and writes nothing, whatever its outcome and
  time.\<close>

theorem ack_at_most_once:
  assumes "mem_ack cfg now out err delay_ms logs actual lease s = (Inr (), s')"
  shows "mem_ack cfg' now' out' err' delay_ms' logs' actual' lease s'
    = (Inl (LeaseRejected (lr_job_id lease)), s')"
  using assms
proof (rule mem_ack_Inr)
  fix j j1
  assume "out \<noteq> Outcome_LeaseLost"
    "jobs s' (lr_job_id lease) = acked_row cfg now out err delay_ms logs j1"
  then have "identity s' lease \<noteq> Inr ()"
    using acked_row_props(9) [of cfg now out err delay_ms logs j1]
    by (auto simp: identity_Inr holds_lease_def)
  then show ?thesis by (rule mem_ack_stale)
qed

definition renewed :: "i64 \<Rightarrow> duration \<Rightarrow> lease_ref list \<Rightarrow> string \<Rightarrow> mem_job \<Rightarrow> mem_job" where
  "renewed now d ls i j =
     (if \<exists>l \<in> set ls. lr_job_id l = i \<and> holds_lease l j
      then j\<lparr>lease_expires := wrap64 (now + wrap64 (int (as_millis d)))\<rparr> else j)"

lemma holds_lease_expires [simp]: "holds_lease l (j\<lparr>lease_expires := t\<rparr>) = holds_lease l j"
  by (simp add: holds_lease_def)

lemma renewed_holds [simp]: "holds_lease l (renewed now d ls i j) = holds_lease l j"
  by (simp add: renewed_def)

lemma renew_one_eq:
  "renew_one now d (lost, s) l =
     (lost @ (if identity s l = Inr () then [] else [lr_job_id l]),
      s\<lparr>jobs := (\<lambda>i. map_option (renewed now d [l] i) (jobs s i))\<rparr>)"
proof (cases "identity s l = Inr ()")
  case True
  then obtain j where "jobs s (lr_job_id l) = Some j" "holds_lease l j" by (auto simp: identity_Inr)
  have "((jobs s)(lr_job_id l \<mapsto> j\<lparr>lease_expires := wrap64 (now + wrap64 (int (as_millis d)))\<rparr>)) i
      = map_option (renewed now d [l] i) (jobs s i)" for i
    using \<open>jobs s (lr_job_id l) = Some j\<close> \<open>holds_lease l j\<close>
    by (cases "jobs s i") (auto simp: renewed_def)
  then have "(jobs s)(lr_job_id l \<mapsto> j\<lparr>lease_expires := wrap64 (now + wrap64 (int (as_millis d)))\<rparr>)
      = (\<lambda>i. map_option (renewed now d [l] i) (jobs s i))" by (rule ext)
  with True \<open>jobs s (lr_job_id l) = Some j\<close> \<open>holds_lease l j\<close> show ?thesis
    by (simp add: renew_one_def put_row_def)
next
  case False
  then have no: "jobs s (lr_job_id l) = Some j \<Longrightarrow> \<not> holds_lease l j" for j
    by (auto simp: identity_Inr)
  have "map_option (renewed now d [l] i) (jobs s i) = jobs s i" for i
    using no by (cases "jobs s i") (auto simp: renewed_def)
  then have "(\<lambda>i. map_option (renewed now d [l] i) (jobs s i)) = jobs s" by simp
  with False no show ?thesis by (auto simp: renew_one_def split: option.split)
qed

lemma foldl_renew:
  "foldl (renew_one now d) (lost, s) ls =
     (lost @ map lr_job_id (filter (\<lambda>l. identity s l \<noteq> Inr ()) ls),
      s\<lparr>jobs := (\<lambda>i. map_option (renewed now d ls i) (jobs s i))\<rparr>)"
proof (induction ls arbitrary: lost s)
  case Nil
  then show ?case by (simp add: renewed_def option.map_ident)
next
  case (Cons l ls)
  let ?s = "s\<lparr>jobs := (\<lambda>i. map_option (renewed now d [l] i) (jobs s i))\<rparr>"
  have id: "identity ?s m = identity s m" for m
    by (simp add: identity_def split: option.split)
  have "renewed now d ls i (renewed now d [l] i j) = renewed now d (l # ls) i j" for i j
    by (auto simp: renewed_def)
  then have "(\<lambda>i. map_option (renewed now d ls i) (jobs ?s i))
      = (\<lambda>i. map_option (renewed now d (l # ls) i) (jobs s i))"
    by (simp add: option.map_comp comp_def)
  then show ?case by (simp add: renew_one_eq Cons id)
qed

text \<open>A renewal reports exactly the leases that were lost, in the order they were asked for,
  and extends exactly the rows whose lease is still held; nothing else changes. A zero duration
  is refused.\<close>

theorem renew_exact:
  "mem_renew now ls d s =
     (if d = 0 then (Inl (Invalid ''lease must be >= 1ms''), s)
      else (Inr (map lr_job_id (filter (\<lambda>l. identity s l \<noteq> Inr ()) ls)),
            s\<lparr>jobs := (\<lambda>i. map_option (renewed now d ls i) (jobs s i))\<rparr>))"
  by (simp add: mem_renew_def foldl_renew)

lemma mem_renew_invs:
  "store_ok s \<Longrightarrow> store_ok (snd (mem_renew now ls d s))"
  "key_ok s \<Longrightarrow> key_ok (snd (mem_renew now ls d s))"
proof -
  let ?s = "s\<lparr>jobs := (\<lambda>i. map_option (renewed now d ls i) (jobs s i))\<rparr>"
  have sel: "env (renewed now d ls i j) = env j" "jstate (renewed now d ls i j) = jstate j"
    "lease_id (renewed now d ls i j) = lease_id j"
    "jstate j \<noteq> ''running'' \<Longrightarrow> lease_expires (renewed now d ls i j) = lease_expires j" for i j
    by (auto simp: renewed_def holds_lease_def)
  have "store_ok ?s" if "store_ok s"
    by (rule store_ok_transfer [OF that])
      (use sel store_ok_bucket [OF that] in auto)
  moreover have "key_ok ?s" if "key_ok s"
    by (rule key_ok_transfer [OF that]) (use sel in auto)
  moreover have "snd (mem_renew now ls d s) = s \<or> snd (mem_renew now ls d s) = ?s"
    by (simp add: mem_renew_def foldl_renew)
  ultimately show "store_ok s \<Longrightarrow> store_ok (snd (mem_renew now ls d s))"
    "key_ok s \<Longrightarrow> key_ok (snd (mem_renew now ls d s))" by auto
qed

section \<open>Witnesses\<close>

definition run_row :: mem_job where
  "run_row = mem_job_default\<lparr>jstate := ''running'', fence := 1, lease_id := ''L'', lease_expires := 50,
     rate_charge := 2,
     env := envelope_default\<lparr>env_id := ''a'', kind := ''mail'', max_attempts := 3, rate_class := ''api''\<rparr>\<rparr>"

definition run_store :: inner where
  "run_store = inner_default\<lparr>jobs := [''a'' \<mapsto> run_row],
     rate := [''api'' \<mapsto> \<lparr>rb_tokens = 0, rb_burst = 5, rb_limit = 0, rb_window = 0, rb_refilled = 0\<rparr>]\<rparr>"

definition run_lease :: lease_ref where
  "run_lease = \<lparr>lr_job_id = ''a'', lr_lease_id = ''L'', lr_fence = 1\<rparr>"

lemma run_store_sel:
  "jobs run_store = [''a'' \<mapsto> run_row]" "unique run_store = Map.empty"
  "lr_job_id run_lease = ''a''" "holds_lease run_lease run_row" "env_id (env run_row) = ''a''"
  "jstate run_row = ''running''" "retention_ms (env run_row) = 0" "attempt (env run_row) = 0"
  "max_attempts (env run_row) = 3"
  by (simp_all add: run_store_def run_lease_def run_row_def inner_default_def mem_job_default_def
      envelope_default_def holds_lease_def)

lemma run_store_ok: "store_ok run_store"
  by (auto simp: store_ok_def rows_ok_def index_ok_def row_ok_def parked_ok_def run_store_sel)
    (auto simp: run_store_def bucket_ok_def split: if_splits)

definition run_retry :: "unit result \<times> inner" where
  "run_retry = mem_ack mem_config_new 9 Outcome_Retry (Some ''boom'') None [] None run_lease run_store"

lemma run_retry_ok: "mem_ack mem_config_new 9 Outcome_Retry (Some ''boom'') None [] None run_lease run_store
    = (Inr (), snd run_retry)"
proof -
  have "fst run_retry = Inr ()"
    by (simp add: run_retry_def mem_ack_def identity_def run_store_sel reconcile_def ack_outcome_def)
  then show ?thesis by (simp add: run_retry_def prod_eq_iff)
qed

theorem only_lease_holder_writes_witness:
  "mem_ack mem_config_new 9 Outcome_Success None None [] None (run_lease\<lparr>lr_fence := 0\<rparr>) run_store
     = (Inl (LeaseRejected ''a''), run_store) \<and>
   mem_checkpoint checkpoint_default (run_lease\<lparr>lr_fence := 0\<rparr>) run_store = (Inl (LeaseRejected ''a''), run_store)"
proof -
  let ?l = "run_lease\<lparr>lr_fence := 0\<rparr>"
  have "\<nexists>j. jobs run_store (lr_job_id ?l) = Some j \<and> jstate j = ''running'' \<and>
      lease_id j = lr_lease_id ?l \<and> fence j = lr_fence ?l"
    by (simp add: run_store_def run_lease_def run_row_def)
  note w = only_lease_holder_writes [THEN conjunct2, THEN mp, OF this]
  have "lr_job_id ?l = ''a''" by (simp add: run_lease_def)
  then show ?thesis using w [THEN conjunct1] w [THEN conjunct2, THEN conjunct1] by simp
qed

theorem ack_refines_transition_witness:
  "abs_state (snd run_retry) ''a'' = State_Retryable"
proof -
  from ack_refines_transition [OF run_store_ok run_retry_ok]
  show ?thesis
    by (simp add: run_store_sel abs_state_def transition_def ctx_of_def)
qed

theorem ack_at_most_once_witness:
  "mem_ack mem_config_new 10 Outcome_Success None None [] None run_lease (snd run_retry)
   = (Inl (LeaseRejected ''a''), snd run_retry)"
  using ack_at_most_once [OF run_retry_ok] by (simp add: run_store_sel)

section \<open>Two divergences\<close>

text \<open>A snooze without a delay is rejected after the reconciliation has been written: the
  rejected call has refunded the bucket and cleared the charge.\<close>

theorem rejected_ack_reconciles:
  "\<exists>e s' j b. mem_ack mem_config_new 9 Outcome_Snooze None None [] (Some 0) run_lease run_store = (Inl e, s') \<and>
     jobs s' ''a'' = Some j \<and> rate_charge run_row = 2 \<and> rate_charge j = 0 \<and>
     rate s' ''api'' = Some b \<and> rb_tokens b = 2"
proof -
  let ?s = "reconcile 9 ''a'' (Some 0) run_store"
  have row: "rate_charge run_row = 2" "rate_class (env run_row) = ''api''"
    by (simp_all add: run_row_def)
  have bucket: "rate run_store ''api'' = Some \<lparr>rb_tokens = 0, rb_burst = 5, rb_limit = 0, rb_window = 0,
      rb_refilled = 0\<rparr>" by (simp add: run_store_def)
  have jobs: "jobs ?s ''a'' = Some (run_row\<lparr>rate_charge := 0\<rparr>)"
    by (simp add: reconcile_jobs run_store_sel)
  have rate: "\<exists>b. rate ?s ''api'' = Some b \<and> rb_tokens b = 2"
    by (simp add: reconcile_def Let_def run_store_sel row bucket settle_def wrap64_id in_i64_def)
  have "mem_ack mem_config_new 9 Outcome_Snooze None None [] (Some 0) run_lease run_store
      = (Inl (Invalid ''snooze requires delay_ms > 0''), ?s)"
    by (simp add: mem_ack_def identity_def run_store_sel Let_def jobs ack_outcome_def)
  with jobs rate row(1) show ?thesis by auto
qed

text \<open>The duration test is for zero, not for a millisecond: half a millisecond is accepted and
  the renewed lease expires at once, where \<open>duration_millis\<close> refuses it.\<close>

theorem sub_millisecond_renewal:
  "\<exists>s' j. mem_renew 9 [run_lease] 500000 run_store = (Inr [], s') \<and>
     jobs s' ''a'' = Some j \<and> lease_expires j = 9 \<and> duration_millis 500000 = None"
proof -
  have "identity run_store run_lease = Inr ()" by (auto simp: identity_Inr run_store_sel)
  then show ?thesis
    by (simp add: mem_renew_def renew_one_eq run_store_sel renewed_def as_millis_def wrap64_id
        in_i64_def duration_millis_def i64_of_nat_def)
qed

end
