(* ===== verification/MemSweep.thy ===== *)
theory MemSweep
  imports MemAck
begin

text \<open>
  The sweeps of the in-memory store (src/crates/headgate-testkit/src/lib.rs): \<open>reclaim_expired\<close>,
  \<open>promote_due\<close>, \<open>evict_retained\<close>, and the duty leases under which they run. \<open>ord\<close> is the
  iteration order of the job map.
\<close>

section \<open>Reclaiming expired leases\<close>

text \<open>\<open>find\<close> in \<open>crashes_by_step\<close>: bump the first entry of the step, or append one.\<close>

fun bump_step :: "string \<Rightarrow> (string \<times> u32) list \<Rightarrow> (string \<times> u32) list" where
  "bump_step st [] = [(st, 1)]"
| "bump_step st ((k, n) # cs) = (if k = st then (k, n + 1) # cs else (k, n) # bump_step st cs)"

definition expired :: "i64 \<Rightarrow> mem_job \<Rightarrow> bool" where
  "expired now j \<longleftrightarrow> jstate j = ''running'' \<and> lease_expires j \<le> now"

text \<open>The row of a job whose lease expired.\<close>

definition crashed_row :: "mem_config \<Rightarrow> i64 \<Rightarrow> mem_job \<Rightarrow> mem_job" where
  "crashed_row cfg now j =
     (let ca = crash_attempt (env j) + 1;
          j1 = push_errs [''lease_lost (crash '' @ show_nat (unat ca) @ '')'']
                 (drop_lease (j\<lparr>env := (env j)\<lparr>crash_attempt := ca\<rparr>\<rparr>));
          j2 = (case in_progress_step (jcheckpoint j1) of
                  None \<Rightarrow> j1
                | Some st \<Rightarrow>
                    j1\<lparr>jcheckpoint := (jcheckpoint j1)\<lparr>crashes_by_step :=
                         bump_step st (crashes_by_step (jcheckpoint j1))\<rparr>\<rparr>)
      in if crash_limit cfg \<le> ca
         then j2\<lparr>jstate := ''quarantined'', finalized_at := now\<rparr>
         else j2\<lparr>jstate := ''retryable'', env := (env j2)\<lparr>scheduled_at_ms :=
                wrap64 (now + default_backoff (uint ca) (retry_base_ms cfg) (retry_cap_ms cfg))\<rparr>\<rparr>)"

definition reclaim_one :: "mem_config \<Rightarrow> i64 \<Rightarrow> string \<Rightarrow> mem_job \<Rightarrow> inner \<Rightarrow> reclaimed \<times> inner" where
  "reclaim_one cfg now i j s =
     (let j' = crashed_row cfg now j; fp = fingerprint (env j');
          quarantined = (crash_limit cfg \<le> crash_attempt (env j'));
          s1 = put_row i j' s;
          s2 = (if quarantined then
                  let s' = release_unique i s1
                  in if fp \<noteq> [] then s'\<lparr>quarantine := (quarantine s')(fp \<mapsto> True)\<rparr> else s'
                else s1)
      in (\<lparr>rc_job_id = i, rc_fingerprint = fp, rc_crash_attempt = crash_attempt (env j'),
           rc_quarantined = quarantined\<rparr>, s2))"

definition reclaim_step ::
  "mem_config \<Rightarrow> i64 \<Rightarrow> i64 \<Rightarrow> reclaimed list \<times> inner \<Rightarrow> string \<Rightarrow> reclaimed list \<times> inner" where
  "reclaim_step cfg now limit acc i =
     (case acc of (out, s) \<Rightarrow>
        if int (length out) \<ge> limit then acc
        else case jobs s i of
               None \<Rightarrow> acc
             | Some j \<Rightarrow>
                 if \<not> expired now j then acc
                 else case reclaim_one cfg now i j s of (r, s') \<Rightarrow> (out @ [r], s'))"

definition reclaim_expired ::
  "mem_config \<Rightarrow> i64 \<Rightarrow> string list \<Rightarrow> i64 \<Rightarrow> inner \<Rightarrow> reclaimed list result \<times> inner" where
  "reclaim_expired cfg now ord limit s =
     (case foldl (reclaim_step cfg now limit) ([], s) (sort ord) of (out, s') \<Rightarrow> (Inr out, s'))"

section \<open>Promotion and eviction\<close>

definition due :: "i64 \<Rightarrow> mem_job \<Rightarrow> bool" where
  "due now j \<longleftrightarrow>
     (jstate j = ''scheduled'' \<or> jstate j = ''retryable'') \<and> scheduled_at_ms (env j) \<le> now"

definition promote_step :: "i64 \<Rightarrow> i64 \<Rightarrow> nat \<times> inner \<Rightarrow> string \<Rightarrow> nat \<times> inner" where
  "promote_step now limit acc i =
     (case acc of (n, s) \<Rightarrow>
        if int n \<ge> limit then acc
        else case jobs s i of
               None \<Rightarrow> acc
             | Some j \<Rightarrow>
                 if due now j then (n + 1, put_row i (j\<lparr>jstate := ''available''\<rparr>) s) else acc)"

definition promote_due :: "i64 \<Rightarrow> string list \<Rightarrow> i64 \<Rightarrow> inner \<Rightarrow> nat result \<times> inner" where
  "promote_due now ord limit s =
     (case foldl (promote_step now limit) (0, s) ord of (n, s') \<Rightarrow> (Inr n, s'))"

definition lapsed :: "i64 \<Rightarrow> mem_job \<Rightarrow> bool" where
  "lapsed now j \<longleftrightarrow>
     jstate j \<in> {''completed'', ''archived'', ''cancelled'', ''undecodable''} \<and>
     retention_ms (env j) > 0 \<and> wrap64 (finalized_at j + retention_ms (env j)) \<le> now"

definition evict_retained :: "i64 \<Rightarrow> string list \<Rightarrow> i64 \<Rightarrow> inner \<Rightarrow> nat result \<times> inner" where
  "evict_retained now ord limit s =
     (let gone = take (nat (max limit 0))
                   (filter (\<lambda>i. case jobs s i of None \<Rightarrow> False | Some j \<Rightarrow> lapsed now j) ord)
      in (Inr (length gone), foldl (\<lambda>s i. del_row i s) s gone))"

section \<open>Duties\<close>

definition claim_duty ::
  "i64 \<Rightarrow> string \<Rightarrow> string \<Rightarrow> duration \<Rightarrow> inner \<Rightarrow> bool result \<times> inner" where
  "claim_duty now name holder lease s =
     (if lease = 0 then (Inl (Invalid ''duty lease must be >= 1ms''), s)
      else if (case duties s name of Some (h, expires) \<Rightarrow> expires > now \<and> h \<noteq> holder | None \<Rightarrow> False)
      then (Inr False, s)
      else (Inr True, s\<lparr>duties := (duties s)(name \<mapsto>
              (holder, wrap64 (now + wrap64 (int (as_millis lease)))))\<rparr>))"

definition release_duty :: "string \<Rightarrow> string \<Rightarrow> inner \<Rightarrow> unit result \<times> inner" where
  "release_duty name holder s =
     (Inr (), if (case duties s name of Some (h, _) \<Rightarrow> h = holder | None \<Rightarrow> False)
              then s\<lparr>duties := (duties s)(name := None)\<rparr> else s)"

section \<open>What a reclaim writes\<close>

lemma crashed_row_sel [simp]:
  "fence (crashed_row cfg now j) = fence j" "lease_id (crashed_row cfg now j) = []"
  "lease_expires (crashed_row cfg now j) = 0"
  "crash_attempt (env (crashed_row cfg now j)) = crash_attempt (env j) + 1"
  "attempt (env (crashed_row cfg now j)) = attempt (env j)"
  "fingerprint (env (crashed_row cfg now j)) = fingerprint (env j)"
  "env_id (env (crashed_row cfg now j)) = env_id (env j)"
  "retention_ms (env (crashed_row cfg now j)) = retention_ms (env j)"
  "unique_window_ms (env (crashed_row cfg now j)) = unique_window_ms (env j)"
  "effective_unique_key (env (crashed_row cfg now j)) = effective_unique_key (env j)"
  "jstate (crashed_row cfg now j) =
     (if crash_limit cfg \<le> crash_attempt (env j) + 1 then ''quarantined'' else ''retryable'')"
  by (simp_all add: crashed_row_def Let_def push_errs_def drop_lease_def split: option.split)

lemma crashed_row_key: "same_key j (crashed_row cfg now j)"
  by (simp add: same_key_def)

lemma crashed_row_ok: "row_ok i j \<Longrightarrow> row_ok i (crashed_row cfg now j)"
  by (simp add: row_ok_def)

lemma store_ok_quarantine: "store_ok s \<Longrightarrow> store_ok (s\<lparr>quarantine := (quarantine s)(fp \<mapsto> True)\<rparr>)"
  by (auto simp: store_ok_def rows_ok_def index_ok_def parked_ok_def blocked_fingerprint_def)

lemma key_ok_quarantine: "key_ok s \<Longrightarrow> key_ok (s\<lparr>quarantine := q\<rparr>)"
  by (simp add: key_ok_def)

lemma reclaim_one_eq:
  assumes "jobs s i = Some j"
  shows "snd (reclaim_one cfg now i j s) =
    (if crash_limit cfg \<le> crash_attempt (env j) + 1
     then put_row i (crashed_row cfg now j) (release_unique i
            (if fingerprint (env j) = [] then s
             else s\<lparr>quarantine := (quarantine s)(fingerprint (env j) \<mapsto> True)\<rparr>))
     else put_row i (crashed_row cfg now j) s)"
proof -
  have "release_unique i (s\<lparr>quarantine := q\<rparr>) = (release_unique i s)\<lparr>quarantine := q\<rparr>" for q
    by (simp add: release_unique_def split: option.split)
  then show ?thesis
    by (simp add: reclaim_one_def Let_def release_put [OF assms crashed_row_key])
qed

lemma reclaim_one_invs:
  assumes "jobs s i = Some j" "expired now j"
  shows "store_ok s \<Longrightarrow> store_ok (snd (reclaim_one cfg now i j s))"
    and "key_ok s \<Longrightarrow> key_ok (snd (reclaim_one cfg now i j s))"
proof -
  have live: "live (jstate j)" using assms(2) by (simp add: expired_def)
  define q where "q = (if fingerprint (env j) = [] then s
    else s\<lparr>quarantine := (quarantine s)(fingerprint (env j) \<mapsto> True)\<rparr>)"
  have q: "store_ok s \<Longrightarrow> store_ok q" "key_ok s \<Longrightarrow> key_ok q"
    "fingerprint (env j) \<noteq> [] \<Longrightarrow> blocked_fingerprint q (fingerprint (env j))"
    by (simp_all add: q_def store_ok_quarantine key_ok_quarantine blocked_fingerprint_def)
  have park: "parked_ok q (crashed_row cfg now j)"
    using q(3) by (auto simp: parked_ok_def)
  show "store_ok (snd (reclaim_one cfg now i j s))" if "store_ok s"
    unfolding reclaim_one_eq [OF assms(1)] q_def [symmetric]
    using put_live(1) [OF assms(1) crashed_row_key live] put_released(1) [of "crashed_row cfg now j" q i]
      crashed_row_ok [OF store_ok_row [OF that assms(1)]] q(1) park that by simp
  show "key_ok (snd (reclaim_one cfg now i j s))" if "key_ok s"
    unfolding reclaim_one_eq [OF assms(1)] q_def [symmetric]
    using put_live(2) [OF assms(1) crashed_row_key live] put_released(2) [of "crashed_row cfg now j" q i]
      q(2) that by simp
qed

section \<open>The contract of a bounded sweep\<close>

text \<open>
  A sweep visits rows in some order and rewrites the ones it is after until it has rewritten
  \<open>limit\<close> of them. \<open>hit\<close> says which rows it is after, \<open>new_row\<close> what it makes of them, \<open>tally\<close>
  how the result grows and \<open>count\<close> how many it has.
\<close>

locale bounded_sweep =
  fixes hit :: "mem_job \<Rightarrow> bool" and new_row :: "mem_job \<Rightarrow> mem_job"
    and step :: "'a \<times> inner \<Rightarrow> string \<Rightarrow> 'a \<times> inner"
    and tally :: "'a \<Rightarrow> string \<Rightarrow> mem_job \<Rightarrow> 'a" and count :: "'a \<Rightarrow> nat" and limit :: i64
  assumes step_full: "limit \<le> int (count a) \<Longrightarrow> step (a, s) i = (a, s)"
    and step_miss: "(\<And>j. jobs s i = Some j \<Longrightarrow> \<not> hit j) \<Longrightarrow> step (a, s) i = (a, s)"
    and step_hit: "int (count a) < limit \<Longrightarrow> jobs s i = Some j \<Longrightarrow> hit j \<Longrightarrow>
      fst (step (a, s) i) = tally a i j \<and> jobs (snd (step (a, s) i)) = (jobs s)(i \<mapsto> new_row j)"
    and count_tally: "count (tally a i j) = Suc (count a)"
    and step_ok: "store_ok s \<Longrightarrow> store_ok (snd (step (a, s) i))"
    and step_key_ok: "key_ok s \<Longrightarrow> key_ok (snd (step (a, s) i))"
begin

abbreviation hits :: "inner \<Rightarrow> string list \<Rightarrow> string list" where
  "hits s is \<equiv> filter (\<lambda>i. \<exists>j. jobs s i = Some j \<and> hit j) is"

lemma sweep_rows:
  "distinct is \<Longrightarrow>
   fst (foldl step (a, s) is) =
     foldl (\<lambda>a i. tally a i (the (jobs s i))) a (take (nat (limit - int (count a))) (hits s is)) \<and>
   (\<forall>i. jobs (snd (foldl step (a, s) is)) i =
     (if i \<in> set (take (nat (limit - int (count a))) (hits s is))
      then map_option new_row (jobs s i) else jobs s i))"
proof (induction "is" arbitrary: a s)
  case (Cons m "is")
  show ?case
  proof (cases "int (count a) < limit \<and> (\<exists>j. jobs s m = Some j \<and> hit j)")
    case False
    then have st: "step (a, s) m = (a, s)" using step_full [of a s m] step_miss [of s m a] by force
    have "take (nat (limit - int (count a))) (hits s (m # is))
        = take (nat (limit - int (count a))) (hits s is)" using False by auto
    with st Cons show ?thesis by simp
  next
    case True
    then obtain j where j: "jobs s m = Some j" "hit j" and lt: "int (count a) < limit" by blast
    obtain a1 s1 where st: "step (a, s) m = (a1, s1)" by fastforce
    from step_hit [OF lt j] st have a1: "a1 = tally a m j" and s1: "jobs s1 = (jobs s)(m \<mapsto> new_row j)"
      by simp_all
    have m: "m \<notin> set is" "distinct is" using Cons.prems by simp_all
    then have same: "jobs s1 x = jobs s x" if "x \<in> set is" for x using s1 that by auto
    then have hits: "hits s1 is = hits s is" by (intro filter_cong) auto
    let ?t = "take (nat (limit - int (count a1))) (hits s is)"
    have t: "take (nat (limit - int (count a))) (hits s (m # is)) = m # ?t"
    proof -
      have "nat (limit - int (count a)) = Suc (nat (limit - int (count a1)))"
        using lt a1 count_tally by simp
      with j show ?thesis by simp
    qed
    have sub: "set ?t \<subseteq> set is" by (meson filter_is_subset set_take_subset subset_trans)
    have "foldl (\<lambda>a i. tally a i (the (jobs s1 i))) a1 ?t = foldl (\<lambda>a i. tally a i (the (jobs s i))) a1 ?t"
      using sub same by (intro foldl_cong) auto
    with Cons.IH [OF m(2), of a1 s1] st hits a1 j have "fst (foldl step (a, s) (m # is)) =
        foldl (\<lambda>a i. tally a i (the (jobs s i))) a (m # ?t)" by simp
    moreover have "jobs (snd (foldl step (a, s) (m # is))) i =
        (if i \<in> set (m # ?t) then map_option new_row (jobs s i) else jobs s i)" for i
      using Cons.IH [OF m(2), of a1 s1] st hits s1 j m(1) sub by auto
    ultimately show ?thesis unfolding t by blast
  qed
qed simp

lemma sweep_invs:
  "store_ok s \<Longrightarrow> store_ok (snd (foldl step (a, s) is))"
  "key_ok s \<Longrightarrow> key_ok (snd (foldl step (a, s) is))"
proof -
  have "(store_ok s \<longrightarrow> store_ok (snd (foldl step (a, s) is))) \<and>
      (key_ok s \<longrightarrow> key_ok (snd (foldl step (a, s) is)))"
  proof (induction "is" arbitrary: a s)
    case (Cons m "is")
    obtain a1 s1 where "step (a, s) m = (a1, s1)" by fastforce
    with Cons [of s1 a1] step_ok [of s a m] step_key_ok [of s a m] show ?case by auto
  qed simp
  then show "store_ok s \<Longrightarrow> store_ok (snd (foldl step (a, s) is))"
    "key_ok s \<Longrightarrow> key_ok (snd (foldl step (a, s) is))" by blast+
qed

text \<open>The sweep is complete: when it stops short of its limit nothing it is after is left.\<close>

lemma sweep_complete:
  assumes "distinct is" "length (hits s is) < nat (limit - int (count a))" "i \<in> set is"
    "jobs s i = Some j" "hit j"
  shows "jobs (snd (foldl step (a, s) is)) i = Some (new_row j)"
  using sweep_rows [OF assms(1), of a s] assms(2-5) by simp

end

lemma release_jobs_put: "jobs (put_row i j (release_unique i s)) = (jobs s)(i \<mapsto> j)"
  by simp

definition reclaim_entry :: "mem_config \<Rightarrow> string \<Rightarrow> mem_job \<Rightarrow> reclaimed" where
  "reclaim_entry cfg i j =
     \<lparr>rc_job_id = i, rc_fingerprint = fingerprint (env j), rc_crash_attempt = crash_attempt (env j) + 1,
      rc_quarantined = (crash_limit cfg \<le> crash_attempt (env j) + 1)\<rparr>"

lemma reclaim_one_fst: "fst (reclaim_one cfg now i j s) = reclaim_entry cfg i j"
  by (simp add: reclaim_one_def Let_def reclaim_entry_def)

lemma reclaim_one_jobs:
  "jobs s i = Some j \<Longrightarrow> jobs (snd (reclaim_one cfg now i j s)) = (jobs s)(i \<mapsto> crashed_row cfg now j)"
  by (simp add: reclaim_one_eq)

interpretation reclaim: bounded_sweep "expired now" "crashed_row cfg now" "reclaim_step cfg now limit"
  "\<lambda>out i j. out @ [reclaim_entry cfg i j]" length limit
proof unfold_locales
  fix s a i
  show "limit \<le> int (length a) \<Longrightarrow> reclaim_step cfg now limit (a, s) i = (a, s)"
    by (simp add: reclaim_step_def)
  show "(\<And>j. jobs s i = Some j \<Longrightarrow> \<not> expired now j) \<Longrightarrow> reclaim_step cfg now limit (a, s) i = (a, s)"
    by (simp add: reclaim_step_def split: option.split)
  show "int (length a) < limit \<Longrightarrow> jobs s i = Some j \<Longrightarrow> expired now j \<Longrightarrow>
      fst (reclaim_step cfg now limit (a, s) i) = a @ [reclaim_entry cfg i j] \<and>
      jobs (snd (reclaim_step cfg now limit (a, s) i)) = (jobs s)(i \<mapsto> crashed_row cfg now j)" for j
    using reclaim_one_fst [of cfg now i j s] reclaim_one_jobs [of s i j cfg now]
    by (cases "reclaim_one cfg now i j s") (simp add: reclaim_step_def)
  have step: "snd (reclaim_step cfg now limit (a, s) i) = s \<or>
      (\<exists>j. jobs s i = Some j \<and> expired now j \<and>
         snd (reclaim_step cfg now limit (a, s) i) = snd (reclaim_one cfg now i j s))"
    by (auto simp: reclaim_step_def split: option.split prod.split)
  then show "store_ok s \<Longrightarrow> store_ok (snd (reclaim_step cfg now limit (a, s) i))"
    "key_ok s \<Longrightarrow> key_ok (snd (reclaim_step cfg now limit (a, s) i))"
    using reclaim_one_invs by metis+
qed simp

interpretation promote: bounded_sweep "due now" "jstate_update (\<lambda>_. ''available'')"
  "promote_step now limit" "\<lambda>n i j. Suc n" "\<lambda>n. n" limit
proof unfold_locales
  fix s a i
  have "store_ok (put_row i (j\<lparr>jstate := ''available''\<rparr>) s)" if "store_ok s" "jobs s i = Some j" "due now j" for j
    using that store_ok_row [OF that(1,2)]
    by (intro put_live(1) [OF that(2)]) (auto simp: same_key_def due_def row_ok_def)
  then show "store_ok s \<Longrightarrow> store_ok (snd (promote_step now limit (a, s) i))"
    by (simp add: promote_step_def split: option.split)
  have "key_ok (put_row i (j\<lparr>jstate := ''available''\<rparr>) s)" if "key_ok s" "jobs s i = Some j" "due now j" for j
    using that by (intro put_live(2) [OF that(2)]) (auto simp: same_key_def due_def)
  then show "key_ok s \<Longrightarrow> key_ok (snd (promote_step now limit (a, s) i))"
    by (simp add: promote_step_def split: option.split)
qed (auto simp: promote_step_def split: option.split)

section \<open>Properties of the sweeps\<close>

lemma foldl_snoc: "foldl (\<lambda>a i. a @ [f i]) out is = out @ map f is"
  by (induction "is" arbitrary: out) simp_all

lemma foldl_Suc: "foldl (\<lambda>n i. Suc n) n is = n + length is"
  by (induction "is" arbitrary: n) simp_all

definition expired_ids :: "i64 \<Rightarrow> string list \<Rightarrow> inner \<Rightarrow> string list" where
  "expired_ids now ord s =
     filter (\<lambda>i. case jobs s i of None \<Rightarrow> False | Some j \<Rightarrow> expired now j) (sort ord)"

definition due_ids :: "i64 \<Rightarrow> string list \<Rightarrow> inner \<Rightarrow> string list" where
  "due_ids now ord s =
     filter (\<lambda>i. case jobs s i of None \<Rightarrow> False | Some j \<Rightarrow> due now j) ord"

lemma option_case_ex:
  "(\<exists>j. x = Some j \<and> P j) \<longleftrightarrow> (case x of None \<Rightarrow> False | Some j \<Rightarrow> P j)"
  by (simp split: option.split)

lemma reclaim_expired_eq:
  assumes "distinct ord"
  shows "fst (reclaim_expired cfg now ord limit s) =
      Inr (map (\<lambda>i. reclaim_entry cfg i (the (jobs s i))) (take (nat limit) (expired_ids now ord s)))"
    and "jobs (snd (reclaim_expired cfg now ord limit s)) i =
      (if i \<in> set (take (nat limit) (expired_ids now ord s))
       then map_option (crashed_row cfg now) (jobs s i) else jobs s i)"
proof -
  have d: "distinct (sort ord)" using assms by simp
  note rows = reclaim.sweep_rows [OF d, of cfg now limit "[]" s, unfolded option_case_ex]
  show "fst (reclaim_expired cfg now ord limit s) =
      Inr (map (\<lambda>i. reclaim_entry cfg i (the (jobs s i))) (take (nat limit) (expired_ids now ord s)))"
    using rows by (simp add: reclaim_expired_def foldl_snoc expired_ids_def case_prod_beta)
  show "jobs (snd (reclaim_expired cfg now ord limit s)) i =
      (if i \<in> set (take (nat limit) (expired_ids now ord s))
       then map_option (crashed_row cfg now) (jobs s i) else jobs s i)"
    using rows by (simp add: reclaim_expired_def expired_ids_def case_prod_beta)
qed

lemma reclaim_expired_invs:
  "store_ok s \<Longrightarrow> store_ok (snd (reclaim_expired cfg now ord limit s))"
  "key_ok s \<Longrightarrow> key_ok (snd (reclaim_expired cfg now ord limit s))"
  using reclaim.sweep_invs [of s cfg now limit "[]" "sort ord"]
  by (simp_all add: reclaim_expired_def case_prod_beta)

text \<open>The reclaimer applies the lease-lost row of the transition table and nothing else: it
  visits the running jobs whose lease has expired in id order, at most \<open>limit\<close> of them, reports
  each, counts a crash and no attempt, takes the lease away and keeps the fence, and moves the
  job to retryable or, at the crash limit, to quarantined; every other row is untouched. When
  it reports fewer than its limit, no expired lease is left.\<close>

theorem reclaim_refines_lease_lost:
  assumes "iter_order (jobs s) ord" "reclaim_expired cfg now ord limit s = (Inr out, s')"
  shows "out = map (\<lambda>i. reclaim_entry cfg i (the (jobs s i))) (take (nat limit) (expired_ids now ord s)) \<and>
    (\<forall>i j. jobs s i = Some j \<longrightarrow>
       (if i \<in> rc_job_id ` set out
        then expired now j \<and> jobs s' i = Some (crashed_row cfg now j) \<and>
             abs_state s' i = transition (abs_state s i) Outcome_LeaseLost (ctx_of cfg j)
        else jobs s' i = Some j)) \<and>
    (int (length out) < limit \<longrightarrow> (\<forall>i j. jobs s' i = Some j \<longrightarrow> \<not> expired now j))"
proof -
  have d: "distinct ord" using assms(1) by (simp add: iter_order_def)
  let ?t = "take (nat limit) (expired_ids now ord s)"
  from reclaim_expired_eq(1) [OF d, of cfg now limit s] assms(2)
  have out: "out = map (\<lambda>i. reclaim_entry cfg i (the (jobs s i))) ?t" by simp
  have jobs: "jobs s' i = (if i \<in> set ?t then map_option (crashed_row cfg now) (jobs s i) else jobs s i)" for i
    using reclaim_expired_eq(2) [OF d, of cfg now limit s i] assms(2) by simp
  have ids: "rc_job_id ` set out = set ?t"
    unfolding out by (simp add: image_image reclaim_entry_def)
  have mem: "i \<in> set (expired_ids now ord s) \<longleftrightarrow> (\<exists>j. jobs s i = Some j \<and> expired now j)" for i
    using assms(1) by (auto simp: expired_ids_def iter_order_in_dom split: option.splits)
  have ex: "expired now j" if "i \<in> set ?t" "jobs s i = Some j" for i j
    using mem [of i] in_set_takeD [OF that(1)] that(2) by auto
  have tr: "abs_state s' i = transition (abs_state s i) Outcome_LeaseLost (ctx_of cfg j)"
    if "i \<in> set ?t" "jobs s i = Some j" for i j
    using ex [OF that] that jobs [of i]
    by (simp add: abs_state_def expired_def transition_def ctx_of_def not_le [symmetric])
  have done': "\<not> expired now j" if "int (length out) < limit" "jobs s' i = Some j" for i j
  proof -
    from that(1) have "?t = expired_ids now ord s" unfolding out by simp
    with that(2) jobs [of i] mem [of i] show ?thesis by (auto simp: expired_def split: if_splits)
  qed
  show ?thesis using out jobs ex tr done' unfolding ids by auto
qed

lemma promote_due_eq:
  assumes "distinct ord"
  shows "fst (promote_due now ord limit s) = Inr (length (take (nat limit) (due_ids now ord s)))"
    and "jobs (snd (promote_due now ord limit s)) i =
      (if i \<in> set (take (nat limit) (due_ids now ord s))
       then map_option (jstate_update (\<lambda>_. ''available'')) (jobs s i) else jobs s i)"
proof -
  note rows = promote.sweep_rows [OF assms, of now limit 0 s, unfolded option_case_ex]
  show "fst (promote_due now ord limit s) = Inr (length (take (nat limit) (due_ids now ord s)))"
    using rows by (simp add: promote_due_def foldl_Suc due_ids_def case_prod_beta)
  show "jobs (snd (promote_due now ord limit s)) i =
      (if i \<in> set (take (nat limit) (due_ids now ord s))
       then map_option (jstate_update (\<lambda>_. ''available'')) (jobs s i) else jobs s i)"
    using rows by (simp add: promote_due_def due_ids_def case_prod_beta)
qed

lemma promote_due_invs:
  "store_ok s \<Longrightarrow> store_ok (snd (promote_due now ord limit s))"
  "key_ok s \<Longrightarrow> key_ok (snd (promote_due now ord limit s))"
  using promote.sweep_invs [of s now limit 0 ord]
  by (simp_all add: promote_due_def case_prod_beta)

text \<open>Promotion is the schedule-due and backoff-due rows of the lifecycle table: it moves at
  most \<open>limit\<close> due scheduled or retryable jobs to available, each by its event, changes nothing
  else of them and no other row, and returns how many; when it returns fewer than its limit, no
  due job is left waiting.\<close>

theorem promote_refines_due:
  assumes "iter_order (jobs s) ord" "promote_due now ord limit s = (Inr n, s')"
  shows "int n \<le> max limit 0 \<and>
    (\<forall>i j. jobs s i = Some j \<longrightarrow>
       jobs s' i = Some j \<or>
       due now j \<and> jobs s' i = Some (j\<lparr>jstate := ''available''\<rparr>) \<and>
       (lifecycle_transition (abs_state s i) ScheduleDue = Some (abs_state s' i) \<or>
        lifecycle_transition (abs_state s i) BackoffDue = Some (abs_state s' i))) \<and>
    n = card {i. jobs s' i \<noteq> jobs s i} \<and>
    (int n < limit \<longrightarrow> (\<forall>i j. jobs s' i = Some j \<longrightarrow> \<not> due now j))"
proof -
  have d: "distinct ord" using assms(1) by (simp add: iter_order_def)
  let ?t = "take (nat limit) (due_ids now ord s)"
  have n: "n = length ?t" using promote_due_eq(1) [OF d, of now limit s] assms(2) by simp
  have jobs: "jobs s' i = (if i \<in> set ?t
      then map_option (jstate_update (\<lambda>_. ''available'')) (jobs s i) else jobs s i)" for i
    using promote_due_eq(2) [OF d, of now limit s i] assms(2) by simp
  have mem: "i \<in> set (due_ids now ord s) \<longleftrightarrow> (\<exists>j. jobs s i = Some j \<and> due now j)" for i
    using assms(1) by (auto simp: due_ids_def iter_order_in_dom split: option.splits)
  have due: "\<exists>j. jobs s i = Some j \<and> due now j" if "i \<in> set ?t" for i
    using mem [of i] in_set_takeD [OF that] by auto
  have "{i. jobs s' i \<noteq> jobs s i} = set ?t"
  proof (intro set_eqI)
    fix i
    have "jstate_update (\<lambda>_. ''available'') j \<noteq> j" if "due now j" for j
    proof
      assume "jstate_update (\<lambda>_. ''available'') j = j"
      from arg_cong [OF this, of jstate] that show False by (auto simp: due_def)
    qed
    with due [of i] jobs [of i] show "i \<in> {i. jobs s' i \<noteq> jobs s i} \<longleftrightarrow> i \<in> set ?t" by auto
  qed
  moreover have "distinct ?t" using d by (simp add: due_ids_def)
  ultimately have card: "n = card {i. jobs s' i \<noteq> jobs s i}" using n distinct_card by metis
  have done': "\<not> due now j" if "int n < limit" "jobs s' i = Some j" for i j
  proof -
    from that(1) n have "?t = due_ids now ord s" by simp
    with that(2) jobs [of i] mem [of i] show ?thesis by (auto simp: due_def split: if_splits)
  qed
  show ?thesis
  proof (intro conjI allI impI)
    show "int n \<le> max limit 0" using n by simp
    fix i j
    assume j: "jobs s i = Some j"
    show "jobs s' i = Some j \<or> due now j \<and> jobs s' i = Some (j\<lparr>jstate := ''available''\<rparr>) \<and>
       (lifecycle_transition (abs_state s i) ScheduleDue = Some (abs_state s' i) \<or>
        lifecycle_transition (abs_state s i) BackoffDue = Some (abs_state s' i))"
      using j jobs [of i] due [of i]
      by (cases "i \<in> set ?t") (auto simp: due_def abs_state_def lifecycle_transition_def)
  qed (use card done' in auto)
qed

definition lapsed_ids :: "i64 \<Rightarrow> string list \<Rightarrow> inner \<Rightarrow> string list" where
  "lapsed_ids now ord s =
     filter (\<lambda>i. case jobs s i of None \<Rightarrow> False | Some j \<Rightarrow> lapsed now j) ord"

lemma expired_ids_row: "i \<in> set (take n (expired_ids now ord s)) \<Longrightarrow> \<exists>j. jobs s i = Some j \<and> expired now j"
  by (auto simp: expired_ids_def split: option.splits dest!: in_set_takeD)

lemma due_ids_row: "i \<in> set (take n (due_ids now ord s)) \<Longrightarrow> \<exists>j. jobs s i = Some j \<and> due now j"
  by (auto simp: due_ids_def split: option.splits dest!: in_set_takeD)

lemma lapsed_ids_row: "i \<in> set (take n (lapsed_ids now ord s)) \<Longrightarrow> \<exists>j. jobs s i = Some j \<and> lapsed now j"
  by (auto simp: lapsed_ids_def split: option.splits dest!: in_set_takeD)

lemma distinct_ids:
  assumes "distinct ord"
  shows "distinct (expired_ids now ord s)" "distinct (due_ids now ord s)" "distinct (lapsed_ids now ord s)"
  using assms by (simp_all add: expired_ids_def due_ids_def lapsed_ids_def)

lemma foldl_del_jobs:
  "jobs (foldl (\<lambda>s i. del_row i s) s is) = (\<lambda>i. if i \<in> set is then None else jobs s i)"
  by (induction "is" arbitrary: s) (auto simp: fun_eq_iff)

lemma foldl_del_frame:
  "unique (foldl (\<lambda>s i. del_row i s) s is) = unique s"
  by (induction "is" arbitrary: s) simp_all

lemma evict_retained_eq:
  "evict_retained now ord limit s =
     (Inr (length (take (nat (max limit 0)) (lapsed_ids now ord s))),
      foldl (\<lambda>s i. del_row i s) s (take (nat (max limit 0)) (lapsed_ids now ord s)))"
  by (simp add: evict_retained_def lapsed_ids_def Let_def)

lemma lapsed_not_live: "lapsed now j \<Longrightarrow> \<not> live (jstate j)"
  by (auto simp: lapsed_def)

lemma evict_invs:
  assumes "\<And>i. i \<in> set is \<Longrightarrow> \<exists>j. jobs s i = Some j \<and> \<not> live (jstate j)" "distinct is"
  shows "store_ok s \<Longrightarrow> store_ok (foldl (\<lambda>s i. del_row i s) s is)"
    and "key_ok s \<Longrightarrow> key_ok (foldl (\<lambda>s i. del_row i s) s is)"
proof -
  have "(store_ok s \<longrightarrow> store_ok (foldl (\<lambda>s i. del_row i s) s is)) \<and>
      (key_ok s \<longrightarrow> key_ok (foldl (\<lambda>s i. del_row i s) s is))"
    using assms
  proof (induction "is" arbitrary: s)
    case (Cons i "is")
    then obtain j where j: "jobs s i = Some j" "\<not> live (jstate j)" by force
    have one: "store_ok s \<Longrightarrow> store_ok (del_row i s)"
    proof -
      assume ok: "store_ok s"
      have "unique s k \<noteq> Some i" for k
        using store_ok_index [OF ok, of k i] j by (auto simp: holds_key_def)
      with store_ok_delete [OF ok] show ?thesis by (simp add: del_row_def)
    qed
    moreover have "key_ok s \<Longrightarrow> key_ok (del_row i s)" by (simp add: del_row_def key_ok_drop)
    moreover have "\<exists>j. jobs (del_row i s) m = Some j \<and> \<not> live (jstate j)" if "m \<in> set is" for m
      using Cons.prems that by auto
    ultimately show ?case using Cons by simp
  qed simp
  then show "store_ok s \<Longrightarrow> store_ok (foldl (\<lambda>s i. del_row i s) s is)"
    "key_ok s \<Longrightarrow> key_ok (foldl (\<lambda>s i. del_row i s) s is)" by blast+
qed

lemma evict_retained_invs:
  assumes "distinct ord"
  shows "store_ok s \<Longrightarrow> store_ok (snd (evict_retained now ord limit s))"
    and "key_ok s \<Longrightarrow> key_ok (snd (evict_retained now ord limit s))"
proof -
  let ?t = "take (nat (max limit 0)) (lapsed_ids now ord s)"
  have "distinct ?t" using assms by (simp add: lapsed_ids_def)
  moreover have "\<exists>j. jobs s i = Some j \<and> \<not> live (jstate j)" if "i \<in> set ?t" for i
    using in_set_takeD [OF that] lapsed_not_live
    by (auto simp: lapsed_ids_def split: option.splits)
  ultimately show "store_ok s \<Longrightarrow> store_ok (snd (evict_retained now ord limit s))"
    "key_ok s \<Longrightarrow> key_ok (snd (evict_retained now ord limit s))"
    unfolding evict_retained_eq by (simp_all add: evict_invs)
qed

text \<open>Eviction removes only finished jobs whose retention has lapsed, at most \<open>limit\<close> of them,
  returns how many, and writes nothing else; live jobs, quarantined jobs and jobs without a
  retention stay; when it removes fewer than its limit, nothing lapsed is left.\<close>

theorem evict_only_lapsed:
  assumes "iter_order (jobs s) ord" "evict_retained now ord limit s = (Inr n, s')"
  shows "int n \<le> max limit 0 \<and> n = card (dom (jobs s) - dom (jobs s')) \<and>
    (\<forall>i. jobs s' i = jobs s i \<or>
       jobs s' i = None \<and> (\<exists>j. jobs s i = Some j \<and> lapsed now j \<and> jstate j \<noteq> ''quarantined'' \<and>
         \<not> live (jstate j))) \<and>
    (int n < limit \<longrightarrow> (\<forall>i j. jobs s' i = Some j \<longrightarrow> \<not> lapsed now j))"
proof -
  let ?t = "take (nat (max limit 0)) (lapsed_ids now ord s)"
  from assms(2) have n: "n = length ?t" and s': "s' = foldl (\<lambda>s i. del_row i s) s ?t"
    by (simp_all add: evict_retained_eq)
  have jobs: "jobs s' i = (if i \<in> set ?t then None else jobs s i)" for i
    unfolding s' foldl_del_jobs by simp
  have mem: "i \<in> set (lapsed_ids now ord s) \<longleftrightarrow> (\<exists>j. jobs s i = Some j \<and> lapsed now j)" for i
    using assms(1) by (auto simp: lapsed_ids_def iter_order_in_dom split: option.splits)
  have lap: "\<exists>j. jobs s i = Some j \<and> lapsed now j" if "i \<in> set ?t" for i
    using mem [of i] in_set_takeD [OF that] by auto
  have "dom (jobs s) - dom (jobs s') = set ?t"
    using lap jobs by (fastforce simp: dom_def split: if_splits)
  moreover have "distinct ?t" using assms(1) by (simp add: lapsed_ids_def iter_order_def)
  ultimately have "n = card (dom (jobs s) - dom (jobs s'))" using n distinct_card by metis
  moreover have "jobs s' i = jobs s i \<or> jobs s' i = None \<and>
      (\<exists>j. jobs s i = Some j \<and> lapsed now j \<and> jstate j \<noteq> ''quarantined'' \<and> \<not> live (jstate j))" for i
    using jobs [of i] lap [of i] by (cases "i \<in> set ?t") (auto simp: lapsed_def)
  moreover have "\<not> lapsed now j" if "int n < limit" "jobs s' i = Some j" for i j
  proof -
    from that(1) n have "?t = lapsed_ids now ord s" by simp
    with that(2) jobs [of i] mem [of i] show ?thesis by (auto split: if_splits)
  qed
  ultimately show ?thesis using n by auto
qed

section \<open>Witnesses\<close>

definition sweep_store :: inner where
  "sweep_store = inner_default\<lparr>jobs :=
     [''a'' \<mapsto> run_row, ''b'' \<mapsto> run_row\<lparr>jstate := ''scheduled''\<rparr>,
      ''c'' \<mapsto> run_row\<lparr>jstate := ''archived'', env := (env run_row)\<lparr>retention_ms := 5\<rparr>\<rparr>]\<rparr>"

lemma sweep_store_jobs:
  "jobs sweep_store =
     [''a'' \<mapsto> run_row, ''b'' \<mapsto> run_row\<lparr>jstate := ''scheduled''\<rparr>,
      ''c'' \<mapsto> run_row\<lparr>jstate := ''archived'', env := (env run_row)\<lparr>retention_ms := 5\<rparr>\<rparr>]"
  by (simp add: sweep_store_def)

lemma sweep_order: "iter_order (jobs sweep_store) [''a'', ''b'', ''c'']"
  by (auto simp: iter_order_def sweep_store_jobs)

lemma run_row_times: "lease_expires run_row = 50" "scheduled_at_ms (env run_row) = 0" "finalized_at run_row = 0"
  "crash_attempt (env run_row) = 0"
  by (simp_all add: run_row_def mem_job_default_def envelope_default_def)

lemma sweep_ids:
  "expired_ids 60 [''a'', ''b'', ''c''] sweep_store = [''a'']"
  "due_ids 60 [''a'', ''b'', ''c''] sweep_store = [''b'']"
  "lapsed_ids 60 [''a'', ''b'', ''c''] sweep_store = [''c'']"
proof -
  have le: "''a'' \<le> ''b''" "''b'' \<le> ''c''" "''a'' \<le> ''c''" by code_simp+
  then have "sort [''a'', ''b'', ''c''] = [''a'', ''b'', ''c'']" by simp
  then show "expired_ids 60 [''a'', ''b'', ''c''] sweep_store = [''a'']"
    by (simp add: expired_ids_def sweep_store_jobs expired_def run_store_sel run_row_times)
  show "due_ids 60 [''a'', ''b'', ''c''] sweep_store = [''b'']"
    "lapsed_ids 60 [''a'', ''b'', ''c''] sweep_store = [''c'']"
    by (simp_all add: due_ids_def lapsed_ids_def sweep_store_jobs due_def lapsed_def run_store_sel
        run_row_times wrap64_id in_i64_def)
qed

theorem reclaim_refines_lease_lost_witness:
  "\<exists>out s'. reclaim_expired mem_config_new 60 [''a'', ''b'', ''c''] 9 sweep_store = (Inr out, s') \<and>
     map rc_job_id out = [''a''] \<and> abs_state s' ''a'' = State_Retryable"
proof -
  define s' where "s' = snd (reclaim_expired mem_config_new 60 [''a'', ''b'', ''c''] 9 sweep_store)"
  define out where "out = [reclaim_entry mem_config_new ''a'' run_row]"
  have "reclaim_expired mem_config_new 60 [''a'', ''b'', ''c''] 9 sweep_store = (Inr out, s')"
    using reclaim_expired_eq(1) [of "[''a'', ''b'', ''c'']" mem_config_new 60 9 sweep_store]
    by (simp add: prod_eq_iff s'_def out_def sweep_ids sweep_store_jobs)
  note eq = this and law = reclaim_refines_lease_lost [OF sweep_order this]
  have "rc_job_id ` set out = {''a''}" by (simp add: out_def reclaim_entry_def)
  with law have "abs_state s' ''a'' =
      transition (abs_state sweep_store ''a'') Outcome_LeaseLost (ctx_of mem_config_new run_row)"
    by (simp add: sweep_store_jobs)
  moreover have "abs_state sweep_store ''a'' = State_Running"
    by (simp add: abs_state_def sweep_store_jobs run_store_sel)
  ultimately have "abs_state s' ''a'' = State_Retryable"
    by (simp add: transition_def ctx_of_def run_row_times mem_config_new_def)
  with eq show ?thesis by (auto simp: out_def reclaim_entry_def)
qed

theorem promote_refines_due_witness:
  "\<exists>s'. promote_due 60 [''a'', ''b'', ''c''] 9 sweep_store = (Inr 1, s') \<and>
     (\<forall>i j. jobs s' i = Some j \<longrightarrow> \<not> due 60 j)"
proof -
  define s' where "s' = snd (promote_due 60 [''a'', ''b'', ''c''] 9 sweep_store)"
  have "promote_due 60 [''a'', ''b'', ''c''] 9 sweep_store = (Inr 1, s')"
    using promote_due_eq(1) [of "[''a'', ''b'', ''c'']" 60 9 sweep_store]
    by (simp add: prod_eq_iff s'_def sweep_ids)
  with promote_refines_due [OF sweep_order this] show ?thesis by simp
qed

theorem evict_only_lapsed_witness:
  "\<exists>s'. evict_retained 60 [''a'', ''b'', ''c''] 9 sweep_store = (Inr 1, s') \<and>
     (\<forall>i j. jobs s' i = Some j \<longrightarrow> \<not> lapsed 60 j)"
proof -
  define s' where "s' = snd (evict_retained 60 [''a'', ''b'', ''c''] 9 sweep_store)"
  have "evict_retained 60 [''a'', ''b'', ''c''] 9 sweep_store = (Inr 1, s')"
    by (simp add: evict_retained_eq s'_def sweep_ids)
  with evict_only_lapsed [OF sweep_order this] show ?thesis by simp
qed

section \<open>A divergence\<close>

text \<open>The retention has no upper bound, so the sum of the eviction test can wrap: a job kept for
  the longest retention is evicted as soon as it finishes.\<close>

theorem longest_retention_evicted:
  "\<exists>j. retention_ms (env j) = 2 ^ 63 - 1 \<and> finalized_at j = 1 \<and> jstate j = ''completed'' \<and> lapsed 1 j"
proof -
  have "wrap64 (2 ^ 63) = - (2 ^ 63)" unfolding wrap64_def by code_simp
  then have "lapsed 1 (run_row\<lparr>jstate := ''completed'', finalized_at := 1,
      env := (env run_row)\<lparr>retention_ms := 2 ^ 63 - 1\<rparr>\<rparr>)"
    by (simp add: lapsed_def)
  then show ?thesis by (intro exI conjI) (auto intro: exI)
qed

end
