(* ===== verification/MemSteps.thy ===== *)
theory MemSteps
  imports MemEnqueue MemGate MemSweep
begin

text \<open>
  The in-memory store as one machine: every operation of src/crates/headgate-testkit/src/lib.rs as
  a step on the contents, in any order, by any number of callers. The operations hold the mutex
  for their whole body, so an interleaving of callers is a sequence of operations. Every step
  changes each row by one of a few moves; what the moves keep holds of every reachable store.
\<close>

section \<open>Operations and runs\<close>

datatype mem_op =
    Op_Enqueue "envelope list"
  | Op_EnqueuePlain "envelope list"
  | Op_Admit "string list" admit_request
  | Op_Ack outcome "string option" "i64 option" "string list" "u32 option" lease_ref
  | Op_AckResult "string list" "u32 option" job_result lease_ref
  | Op_Renew "lease_ref list" duration
  | Op_Checkpoint checkpoint lease_ref
  | Op_Output job_result lease_ref
  | Op_Progress progress_update lease_ref
  | Op_Reclaim "string list" i64
  | Op_Promote "string list" i64
  | Op_Evict "string list" i64
  | Op_ClaimDuty string string duration
  | Op_ReleaseDuty string string
  | Op_Pause string bool
  | Op_RateLimit string i64 i64 i64

fun exec :: "mem_config \<Rightarrow> i64 \<Rightarrow> mem_op \<Rightarrow> inner \<Rightarrow> inner" where
  "exec cfg now (Op_Enqueue batch) s = snd (mem_enqueue now batch s)"
| "exec cfg now (Op_EnqueuePlain batch) s = snd (enqueue_without_uniqueness now batch s)"
| "exec cfg now (Op_Admit ord req) s = snd (mem_admit now ord req s)"
| "exec cfg now (Op_Ack out err delay_ms logs actual l) s =
     snd (mem_ack cfg now out err delay_ms logs actual l s)"
| "exec cfg now (Op_AckResult logs actual r l) s =
     snd (ack_success_with_result now logs actual r l s)"
| "exec cfg now (Op_Renew ls d) s = snd (mem_renew now ls d s)"
| "exec cfg now (Op_Checkpoint cp l) s = snd (mem_checkpoint cp l s)"
| "exec cfg now (Op_Output r l) s = snd (write_job_output now r l s)"
| "exec cfg now (Op_Progress u l) s = snd (write_job_progress now u l s)"
| "exec cfg now (Op_Reclaim ord limit) s = snd (reclaim_expired cfg now ord limit s)"
| "exec cfg now (Op_Promote ord limit) s = snd (promote_due now ord limit s)"
| "exec cfg now (Op_Evict ord limit) s = snd (evict_retained now ord limit s)"
| "exec cfg now (Op_ClaimDuty name h d) s = snd (claim_duty now name h d s)"
| "exec cfg now (Op_ReleaseDuty name h) s = snd (release_duty name h s)"
| "exec cfg now (Op_Pause q p) s = set_queue_paused q p s"
| "exec cfg now (Op_RateLimit name limit window burst) s =
     set_rate_limit now name limit window burst s"

text \<open>An operation that iterates over the job map does so in an order of its keys; a burst stays
  clear of the end of the integer range.\<close>

fun op_fits :: "inner \<Rightarrow> mem_op \<Rightarrow> bool" where
  "op_fits s (Op_Admit ord _) = iter_order (jobs s) ord"
| "op_fits s (Op_Reclaim ord _) = iter_order (jobs s) ord"
| "op_fits s (Op_Promote ord _) = iter_order (jobs s) ord"
| "op_fits s (Op_Evict ord _) = iter_order (jobs s) ord"
| "op_fits s (Op_RateLimit _ _ _ burst) = (burst \<le> 2 ^ 62)"
| "op_fits s _ = True"

inductive steps :: "mem_config \<Rightarrow> inner \<Rightarrow> (i64 \<times> mem_op) list \<Rightarrow> inner \<Rightarrow> bool" for cfg where
  idle: "steps cfg s [] s"
| step: "op_fits s op \<Longrightarrow> steps cfg (exec cfg now op s) ops s' \<Longrightarrow>
    steps cfg s ((now, op) # ops) s'"

inductive_simps steps_Nil [simp]: "steps cfg s [] s'"
inductive_simps steps_Cons [simp]: "steps cfg s ((now, op) # ops) s'"

lemma steps_induct_inv:
  assumes "steps cfg s ops s'" "P s"
    and "\<And>s now op. P s \<Longrightarrow> op_fits s op \<Longrightarrow> (now, op) \<in> set ops \<Longrightarrow> P (exec cfg now op s)"
  shows "P s'"
  using assms
proof (induction rule: steps.induct)
  case (step s op now ops s')
  have "P (exec cfg now op s)" using step.prems step.hyps(1) by simp
  then show ?case using step.IH step.prems(2) by simp
qed simp

section \<open>What one step does to a row\<close>

text \<open>\<open>D\<close> says of a row whether the step may draw it.\<close>

inductive row_move :: "bool \<Rightarrow> (mem_job \<Rightarrow> bool) \<Rightarrow> mem_job option \<Rightarrow> mem_job option \<Rightarrow> bool"
  for C D where
  stays: "row_move C D r r"
| created: "C \<Longrightarrow> jstate j \<in> {''pending'', ''scheduled'', ''available''} \<Longrightarrow> fence j = 0 \<Longrightarrow>
    row_move C D None (Some j)"
| replaced: "replaceable j \<Longrightarrow> same_job j j' \<Longrightarrow> row_move C D (Some j) (Some j')"
| drawn: "D j \<Longrightarrow> jstate j = ''available'' \<Longrightarrow> jstate j' = ''running'' \<Longrightarrow> fence j' = fence j + 1 \<Longrightarrow>
    row_move C D (Some j) (Some j')"
| written: "jstate j = ''running'' \<Longrightarrow> jstate j' = ''running'' \<Longrightarrow> fence j' = fence j \<Longrightarrow>
    lease_id j' = lease_id j \<Longrightarrow> row_move C D (Some j) (Some j')"
| released: "jstate j = ''running'' \<Longrightarrow> jstate j' \<noteq> ''running'' \<Longrightarrow> fence j' = fence j \<Longrightarrow>
    state_of_str (jstate j') = Some (transition State_Running out ctx) \<Longrightarrow>
    row_move C D (Some j) (Some j')"
| finished: "jstate j = ''running'' \<Longrightarrow> transition State_Running out ctx = State_Deleted \<Longrightarrow>
    row_move C D (Some j) None"
| promoted: "jstate j \<in> {''scheduled'', ''retryable''} \<Longrightarrow> jstate j' = ''available'' \<Longrightarrow>
    fence j' = fence j \<Longrightarrow> row_move C D (Some j) (Some j')"
| evicted: "\<not> live (jstate j) \<Longrightarrow> jstate j \<noteq> ''quarantined'' \<Longrightarrow> row_move C D (Some j) None"

inductive_cases row_moveE: "row_move C D r r'"

text \<open>What a row may move to depends only on its state, fence and lease.\<close>

lemma row_move_start:
  assumes "row_move C D (Some j1) r" "jstate j1 = ''running''" "jstate j = ''running''"
    "fence j1 = fence j" "lease_id j1 = lease_id j"
  shows "row_move C D (Some j) r"
  using assms
  by (auto elim!: row_moveE simp: replaceable_def intro: row_move.intros)

lemma enqueue_move: "row_move (i \<in> env_id ` set batch) D (jobs s i) (jobs (snd (mem_enqueue now batch s)) i)"
proof -
  obtain r s' where e: "mem_enqueue now batch s = (r, s')" by fastforce
  have "row_move (i \<in> env_id ` set batch) D (jobs s i) (jobs s' i)"
  proof (cases r)
    case (Inl err)
    with e mem_enqueue_Inl consider "s' = s" | e' where "rejects now s e' err s'" by blast
    then show ?thesis
    proof cases
      case 2
      then consider "s' = s" | m b where "replace_holder now e' m s = (b, s')"
        by (auto simp: rejects_def)
      then show ?thesis
      proof cases
        case (2 m b)
        then show ?thesis
          by (cases rule: replace_holder_cases) (auto intro: row_move.intros)
      qed (simp add: row_move.stays)
    qed (simp add: row_move.stays)
  next
    case (Inr u)
    with e have ok: "mem_enqueue now batch s = (Inr (), s')" by simp
    show ?thesis
    proof (cases "jobs s i = None \<and> i \<in> env_id ` set batch")
      case True
      then obtain e' where e': "e' \<in> set batch" "i = env_id e'" by auto
      with True mem_enqueue_rows(1) [OF ok e'(1)] have "jobs s' i = Some (new_row now e')" by simp
      with True initial_state_cases [of now "fill_defaults now e'"] show ?thesis
        by (simp add: row_move.created)
    qed (use mem_enqueue_rows(2) [OF ok, of i] in \<open>auto intro: row_move.stays\<close>)
  qed
  with e show ?thesis by simp
qed

lemma admit_move:
  assumes "distinct ord"
  shows "row_move C (\<lambda>j. \<not> blocked_fingerprint s (fingerprint (env j)))
    (jobs s i) (jobs (snd (mem_admit now ord req s)) i)" (is "row_move C ?D _ _")
proof -
  obtain r s' where a: "mem_admit now ord req s = (r, s')" by fastforce
  have "row_move C ?D (jobs s i) (jobs s' i)"
  proof (cases r)
    case (Inl e)
    with a have "s' = s" by (simp add: mem_admit_eq split: if_splits)
    then show ?thesis by (simp add: row_move.stays)
  next
    case (Inr units)
    from mem_admit_drawn [OF a [unfolded Inr] assms] obtain "is" st where d: "drawn now req s is st"
      and s': "s' = spend (ad_taken st) (ad_inner st)" by metis
    from d s' have jobs: "jobs s' i =
        (if i \<in> set is then map_option (claimed_row now req s) (jobs s i) else jobs s i)"
      unfolding drawn_def by simp
    show ?thesis
    proof (cases "i \<in> set is")
      case True
      with d obtain j where "jobs s i = Some j" "jstate j = ''available''"
        "\<not> blocked_fingerprint s (fingerprint (env j))"
        unfolding drawn_def by (auto simp: eligible_def split: option.splits)
      with True jobs show ?thesis by (simp add: row_move.drawn)
    qed (simp add: jobs row_move.stays)
  qed
  with a show ?thesis by simp
qed

lemma acked_move:
  assumes "acked_row cfg now out err delay_ms logs j = r" "out \<noteq> Outcome_LeaseLost"
    "jstate j = ''running''" "0 \<le> retention_ms (env j)"
  shows "row_move C D (Some j) r"
proof (cases r)
  case None
  have "transition State_Running out (ctx_of cfg j) = State_Deleted"
    using assms None
    by (auto simp: acked_row_def transition_def ctx_of_def Let_def split: outcome.splits if_splits)
  with None assms(3) show ?thesis by (simp add: row_move.finished)
next
  case (Some j')
  note props = acked_row_props [OF assms(1) [unfolded Some] assms(2)]
  have "state_of_str (jstate j') = Some (transition State_Running out (ctx_of cfg j))"
    using assms Some
    by (auto simp: acked_row_def transition_def ctx_of_def Let_def split: outcome.splits if_splits)
  with Some assms(3) props show ?thesis by (auto intro: row_move.released)
qed

lemma ack_move:
  assumes "store_ok s"
  shows "row_move C D (jobs s i) (jobs (snd (mem_ack cfg now out err delay_ms logs actual l s)) i)"
proof (cases "identity s l = Inr () \<and> i = lr_job_id l")
  case False
  then show ?thesis
    using mem_ack_local [of i l cfg now out err delay_ms logs actual s] mem_ack_stale [of s l]
    by (auto simp: row_move.stays)
next
  case True
  then have i: "i = lr_job_id l" and "identity s l = Inr ()" by simp_all
  from this(2) show ?thesis
  proof (rule mem_ack_held [where cfg = cfg and now = now and out = out and err = err and
        delay_ms = delay_ms and logs = logs and actual = actual])
    fix j j1
    let ?s = "reconcile now (lr_job_id l) actual s"
    assume j: "jobs s (lr_job_id l) = Some j" "holds_lease l j"
      and j1: "jobs ?s (lr_job_id l) = Some j1" "env j1 = env j" "jstate j1 = ''running''"
        "fence j1 = fence j"
      and eq: "mem_ack cfg now out err delay_ms logs actual l s =
        ack_outcome cfg now (lr_job_id l) out err delay_ms logs j1 ?s"
    obtain r s' where a: "ack_outcome cfg now (lr_job_id l) out err delay_ms logs j1 ?s = (r, s')"
      by fastforce
    have ret: "0 \<le> retention_ms (env j1)"
      using store_ok_row [OF assms j(1)] j1(2) by (simp add: row_ok_def)
    have run: "jstate j = ''running''" using j(2) by (simp add: holds_lease_def)
    have lease: "lease_id j1 = lease_id j" using j(1) j1(1) by (cases actual) (auto simp: reconcile_jobs)
    have "row_move C D (Some j) (jobs s' i)"
    proof (cases r)
      case (Inl e)
      with a ack_outcome_Inl have "s' = ?s" by blast
      with i j1 run lease show ?thesis by (simp add: row_move.written)
    next
      case (Inr u)
      with a have a': "ack_outcome cfg now (lr_job_id l) out err delay_ms logs j1 ?s = (Inr (), s')"
        by simp
      note out = ack_outcome_Inr [OF a' j1(1)]
      from out(2) i have "jobs s' i = acked_row cfg now out err delay_ms logs j1"
        by (simp split: option.split)
      with acked_move [OF refl out(1) j1(3) ret] have "row_move C D (Some j1) (jobs s' i)" by simp
      then show ?thesis by (rule row_move_start) (use run j1 lease in simp_all)
    qed
    with i j(1) eq a show ?thesis by simp
  qed
qed

lemma result_ack_move:
  assumes "store_ok s"
  shows "row_move C D (jobs s i) (jobs (snd (ack_success_with_result now logs actual r l s)) i)"
proof (cases rule: result_ack_cases [of now logs actual r l s])
  case 1
  then show ?thesis by (simp add: row_move.stays)
next
  case (2 j j1)
  then have run: "jstate j = ''running''" by (auto simp: identity_Inr holds_lease_def)
  have fence: "fence j1 = fence j"
    using 2(3,4) by (cases actual) (auto simp: reconcile_jobs)
  have ret: "0 \<le> retention_ms (env j)"
    using store_ok_row [OF assms 2(3)] by (simp add: row_ok_def)
  let ?ctx = "ctx_of mem_config_new j"
  have tr: "transition State_Running Outcome_Success ?ctx =
      (if retention_ms (env j) = 0 then State_Deleted else State_Completed)"
    using ret by (simp add: transition_def ctx_of_def)
  show ?thesis
  proof (cases "i = lr_job_id l")
    case True
    have "row_move C D (Some j) (if retention_ms (env j) = 0 then None else Some (result_row now logs r j1))"
      using run fence tr
      by (auto simp: result_row_props intro: row_move.finished row_move.released
          [where out = Outcome_Success and ctx = ?ctx])
    with True 2 show ?thesis by (simp add: Let_def split: if_splits)
  next
    case False
    with result_ack_local show ?thesis by (simp add: row_move.stays)
  qed
qed

lemma with_row_move:
  assumes "\<And>j. jstate (f j) = jstate j \<and> fence (f j) = fence j \<and> lease_id (f j) = lease_id j"
  shows "row_move C D (jobs s i) (jobs (snd (with_row f r l s)) i)"
proof (cases "identity s l = Inr () \<and> i = lr_job_id l")
  case False
  then show ?thesis using with_row_local [of i l f r s] with_row_stale [of s l f r]
    by (auto simp: row_move.stays)
next
  case True
  then obtain j where "jobs s i = Some j" "jstate j = ''running''"
    by (auto simp: identity_Inr holds_lease_def)
  with True assms [of j] show ?thesis by (simp add: with_row_def row_move.written)
qed

lemma renew_move: "row_move C D (jobs s i) (jobs (snd (mem_renew now ls d s)) i)"
proof (cases "d = 0 \<or> jobs s i = None")
  case True
  then show ?thesis by (auto simp: mem_renew_def foldl_renew row_move.stays)
next
  case False
  then obtain j where j: "jobs s i = Some j" by blast
  have "row_move C D (Some j) (Some (renewed now d ls i j))"
    by (cases "renewed now d ls i j = j")
      (auto simp: renewed_def holds_lease_def row_move.stays intro: row_move.written split: if_splits)
  with False j show ?thesis by (simp add: mem_renew_def foldl_renew)
qed

lemma reclaim_move:
  assumes "distinct ord"
  shows "row_move C D (jobs s i) (jobs (snd (reclaim_expired cfg now ord limit s)) i)"
proof (cases "i \<in> set (take (nat limit) (expired_ids now ord s))")
  case True
  from in_set_takeD [OF True] obtain j where j: "jobs s i = Some j" "expired now j"
    by (auto simp: expired_ids_def split: option.splits)
  have "state_of_str (jstate (crashed_row cfg now j)) =
      Some (transition State_Running Outcome_LeaseLost (ctx_of cfg j))"
    by (simp add: transition_def ctx_of_def not_le [symmetric])
  with j have "row_move C D (Some j) (Some (crashed_row cfg now j))"
    by (intro row_move.released) (auto simp: expired_def)
  with True j reclaim_expired_eq(2) [OF assms] show ?thesis by simp
qed (simp add: reclaim_expired_eq(2) [OF assms] row_move.stays)

lemma promote_move:
  assumes "distinct ord"
  shows "row_move C D (jobs s i) (jobs (snd (promote_due now ord limit s)) i)"
proof (cases "i \<in> set (take (nat limit) (due_ids now ord s))")
  case True
  from in_set_takeD [OF True] obtain j where j: "jobs s i = Some j" "due now j"
    by (auto simp: due_ids_def split: option.splits)
  then have "row_move C D (Some j) (Some (j\<lparr>jstate := ''available''\<rparr>))"
    by (intro row_move.promoted) (auto simp: due_def)
  with True j promote_due_eq(2) [OF assms] show ?thesis by simp
qed (simp add: promote_due_eq(2) [OF assms] row_move.stays)

lemma evict_move: "row_move C D (jobs s i) (jobs (snd (evict_retained now ord limit s)) i)"
proof (cases "i \<in> set (take (nat (max limit 0)) (lapsed_ids now ord s))")
  case True
  from in_set_takeD [OF True] obtain j where j: "jobs s i = Some j" "lapsed now j"
    by (auto simp: lapsed_ids_def split: option.splits)
  then have "row_move C D (Some j) None"
    using lapsed_not_live by (intro row_move.evicted) (auto simp: lapsed_def)
  with True j show ?thesis by (simp add: evict_retained_eq foldl_del_jobs)
qed (simp add: evict_retained_eq foldl_del_jobs row_move.stays)

definition may_draw :: "mem_op \<Rightarrow> inner \<Rightarrow> mem_job \<Rightarrow> bool" where
  "may_draw op s j \<longleftrightarrow>
     (case op of Op_Admit _ _ \<Rightarrow> \<not> blocked_fingerprint s (fingerprint (env j)) | _ \<Rightarrow> False)"

fun enqueued_ids :: "mem_op \<Rightarrow> string set" where
  "enqueued_ids (Op_Enqueue batch) = env_id ` set batch"
| "enqueued_ids (Op_EnqueuePlain batch) = env_id ` set batch"
| "enqueued_ids _ = {}"

lemma exec_move:
  assumes "store_ok s" "op_fits s op"
  shows "row_move (i \<in> enqueued_ids op) (may_draw op s) (jobs s i) (jobs (exec cfg now op s) i)"
proof (cases op)
  case (Op_Admit ord req)
  then have "may_draw op s = (\<lambda>j. \<not> blocked_fingerprint s (fingerprint (env j)))"
    by (simp add: may_draw_def fun_eq_iff)
  with Op_Admit assms(2) admit_move [of ord _ s i now req] show ?thesis by (simp add: iter_order_def)
next
  case (Op_ClaimDuty name h d)
  then show ?thesis by (simp add: claim_duty_def row_move.stays)
next
  case (Op_EnqueuePlain batch)
  let ?plain = "\<lambda>e. e\<lparr>unique_key := None, unique_window_ms := 0, unique_replace := 0, unique_debounce_ms := 0\<rparr>"
  have "env_id ` set (map ?plain batch) = env_id ` set batch" by (simp add: image_image)
  with Op_EnqueuePlain enqueue_move [of i "map ?plain batch"] show ?thesis
    by (simp add: enqueue_without_uniqueness_def)
qed (use assms in \<open>auto simp: iter_order_def
    mem_checkpoint_def write_job_output_def write_job_progress_def release_duty_def
    set_queue_paused_def set_rate_limit_def Let_def split: sum.split
    intro: enqueue_move ack_move result_ack_move with_row_move renew_move reclaim_move
      promote_move evict_move row_move.stays\<close>)

section \<open>What every step keeps\<close>

lemma foldl_insert_rest:
  "rate (foldl (\<lambda>s e. insert_one now s (e, False)) s es) = rate s \<and>
   quarantine (foldl (\<lambda>s e. insert_one now s (e, False)) s es) = quarantine s"
  by (induction es arbitrary: s) (simp_all add: insert_one_eq)

lemma enqueue_rest:
  "rate (snd (mem_enqueue now batch s)) = rate s \<and>
   quarantine (snd (mem_enqueue now batch s)) = quarantine s"
proof -
  obtain r s' where e: "mem_enqueue now batch s = (r, s')" by fastforce
  have rep: "rate s1 = rate s \<and> quarantine s1 = quarantine s"
    if "replace_holder now e' i s = (b, s1)" for e' i b s1
    using that by (cases rule: replace_holder_cases) simp_all
  have "rate s' = rate s \<and> quarantine s' = quarantine s"
  proof (cases r)
    case (Inl err)
    with e mem_enqueue_Inl show ?thesis using rep unfolding rejects_def by metis
  next
    case (Inr u)
    with e mem_enqueue_Inr(5) [of now batch s s'] foldl_insert_rest show ?thesis by simp
  qed
  with e show ?thesis by simp
qed

lemma foldl_reclaim_rest:
  "rate (snd (foldl (reclaim_step cfg now limit) (out, s) is)) = rate s \<and>
   (quarantine s fp \<noteq> None \<longrightarrow> quarantine (snd (foldl (reclaim_step cfg now limit) (out, s) is)) fp \<noteq> None)"
proof (induction "is" arbitrary: out s)
  case (Cons i "is")
  obtain out1 s1 where st: "reclaim_step cfg now limit (out, s) i = (out1, s1)" by fastforce
  then have "rate s1 = rate s \<and> (quarantine s fp \<noteq> None \<longrightarrow> quarantine s1 fp \<noteq> None)"
    by (auto simp: reclaim_step_def reclaim_one_def Let_def split: option.splits if_splits prod.splits)
  with st Cons [of out1 s1] show ?case by simp
qed simp

lemma foldl_promote_rest:
  "rate (snd (foldl (promote_step now limit) (n, s) is)) = rate s \<and>
   quarantine (snd (foldl (promote_step now limit) (n, s) is)) = quarantine s"
proof (induction "is" arbitrary: n s)
  case (Cons i "is")
  obtain n1 s1 where st: "promote_step now limit (n, s) i = (n1, s1)" by fastforce
  then have "rate s1 = rate s \<and> quarantine s1 = quarantine s"
    by (auto simp: promote_step_def split: option.splits if_splits)
  with st Cons [of n1 s1] show ?case by simp
qed simp

lemma foldl_del_rest:
  "rate (foldl (\<lambda>s i. del_row i s) s is) = rate s \<and>
   quarantine (foldl (\<lambda>s i. del_row i s) s is) = quarantine s"
  by (induction "is" arbitrary: s) simp_all

lemma with_row_rest:
  "rate (snd (with_row f r l s)) = rate s \<and> quarantine (snd (with_row f r l s)) = quarantine s"
  by (simp add: with_row_def split: sum.split)

lemma renew_rest:
  "rate (snd (mem_renew now ls d s)) = rate s \<and> quarantine (snd (mem_renew now ls d s)) = quarantine s"
  by (simp add: mem_renew_def foldl_renew)

definition bursts_ok :: "inner \<Rightarrow> bool" where
  "bursts_ok s \<longleftrightarrow> (\<forall>rc b. rate s rc = Some b \<longrightarrow> rb_burst b \<le> 2 ^ 62)"

lemma bursts_okD: "bursts_ok s \<Longrightarrow> rate s rc = Some b \<Longrightarrow> rb_burst b \<le> 2 ^ 62"
  by (simp add: bursts_ok_def)

lemma reconcile_bursts: "bursts_ok s \<Longrightarrow> bursts_ok (reconcile now i a s)"
  by (auto simp: bursts_ok_def reconcile_def settle_def Let_def split: option.splits if_splits)

lemma ack_outcome_rest:
  "jobs s i = Some j \<Longrightarrow> rate (snd (ack_outcome cfg now i out err delay_ms logs j s)) = rate s \<and>
   quarantine (snd (ack_outcome cfg now i out err delay_ms logs j s)) = quarantine s"
  using ack_outcome_Inl [of cfg now i out err delay_ms logs j s]
    ack_outcome_Inr(2) [of cfg now i out err delay_ms logs j s]
  by (cases "ack_outcome cfg now i out err delay_ms logs j s"; cases "fst (ack_outcome cfg now i out err delay_ms logs j s)")
    (auto split: option.splits if_splits)

lemma ack_rest:
  "bursts_ok s \<Longrightarrow> bursts_ok (snd (mem_ack cfg now out err delay_ms logs actual l s))"
  "quarantine (snd (mem_ack cfg now out err delay_ms logs actual l s)) = quarantine s"
proof -
  let ?s = "reconcile now (lr_job_id l) actual s"
  have "mem_ack cfg now out err delay_ms logs actual l s = (Inl (LeaseRejected (lr_job_id l)), s) \<or>
      rate (snd (mem_ack cfg now out err delay_ms logs actual l s)) = rate ?s \<and>
      quarantine (snd (mem_ack cfg now out err delay_ms logs actual l s)) = quarantine s"
  proof (cases "identity s l = Inr ()")
    case False
    then show ?thesis by (simp add: mem_ack_stale)
  next
    case True
    then show ?thesis
      by (rule mem_ack_held [where cfg = cfg and now = now and out = out and err = err and
            delay_ms = delay_ms and logs = logs and actual = actual])
        (simp add: ack_outcome_rest)
  qed
  then show "bursts_ok s \<Longrightarrow> bursts_ok (snd (mem_ack cfg now out err delay_ms logs actual l s))"
    "quarantine (snd (mem_ack cfg now out err delay_ms logs actual l s)) = quarantine s"
    using reconcile_bursts [of s now "lr_job_id l" actual] by (auto simp: bursts_ok_def)
qed

lemma result_ack_rest:
  "bursts_ok s \<Longrightarrow> bursts_ok (snd (ack_success_with_result now logs actual r l s))"
  "quarantine (snd (ack_success_with_result now logs actual r l s)) = quarantine s"
  using reconcile_bursts [of s now "lr_job_id l" actual]
  by (cases rule: result_ack_cases [of now logs actual r l s]; simp add: Let_def bursts_ok_def)+

section \<open>Admission keeps the invariants\<close>

text \<open>What a call has taken of a class is within the refilled tokens, so spending it keeps the
  bucket within its burst.\<close>

definition tally_ok :: "i64 \<Rightarrow> admit_st \<Rightarrow> bool" where
  "tally_ok now st \<longleftrightarrow>
     (\<forall>rc b. rate (ad_inner st) rc = Some b \<longrightarrow> bucket_ok b \<and> rb_burst b \<le> 2 ^ 62) \<and>
     (\<forall>rc n. ad_taken st rc = Some n \<longrightarrow>
        0 \<le> n \<and> (\<exists>b. rate (ad_inner st) rc = Some b \<and> refill now b = b \<and> n \<le> rb_tokens b))"

lemma refill_ok: "bucket_ok b \<Longrightarrow> bucket_ok (refill now b)"
  by (auto simp: refill_def bucket_ok_def)

lemma tally_taken:
  assumes "tally_ok now st"
  shows "0 \<le> taken_of (ad_taken st) rc \<and> taken_of (ad_taken st) rc \<le> 2 ^ 62"
proof (cases "ad_taken st rc")
  case None
  then show ?thesis by (simp add: taken_of_def)
next
  case (Some n)
  with assms obtain b where "0 \<le> n" "rate (ad_inner st) rc = Some b" "n \<le> rb_tokens b"
    unfolding tally_ok_def by blast
  moreover from this(2) assms have "rb_tokens b \<le> rb_burst b" "rb_burst b \<le> 2 ^ 62"
    unfolding tally_ok_def bucket_ok_def by blast+
  ultimately show ?thesis using Some by (simp add: taken_of_def)
qed

lemma tally_act:
  assumes "admit_act now req st st'" "tally_ok now st"
  shows "tally_ok now st'"
  using assms(1)
proof (cases rule: admit_act.cases)
  case (refills rc b)
  with assms(2) have "bucket_ok (refill now b)" "rb_burst b \<le> 2 ^ 62"
    by (auto simp: tally_ok_def intro: refill_ok)
  with assms(2) refills show ?thesis by (fastforce simp: tally_ok_def)
next
  case (rotates m)
  with assms(2) show ?thesis by (simp add: tally_ok_def)
next
  case (claims q i j)
  show ?thesis
  proof (cases "charged (ad_inner st) j")
    case False
    with claims assms(2) show ?thesis by (simp add: claim_job_eq tally_ok_def)
  next
    case True
    let ?rc = "rate_class (env j)"
    let ?n = "taken_of (ad_taken st) ?rc + job_cost j"
    from True obtain b where b: "rate (ad_inner st) ?rc = Some b" by (auto simp: charged_def)
    have "in_i64 ?n" "0 \<le> ?n"
      using tally_taken [OF assms(2), of ?rc] job_cost_bounds [of j] by (simp_all add: in_i64_def)
    then have n: "wrap64 ?n = ?n" by (simp add: wrap64_id)
    from claims(7) True b n have "refill now b = b" "?n \<le> rb_tokens b"
      by (auto simp: gate_open_def)
    with claims assms(2) True b n \<open>0 \<le> ?n\<close> show ?thesis
      unfolding tally_ok_def claims(1) claim_job_eq [OF claims(6)] by simp
  qed
qed

lemma tally_acts: "admit_acts now req st st' \<Longrightarrow> tally_ok now st \<Longrightarrow> tally_ok now st'"
  by (induction rule: rtranclp_induct) (auto intro: tally_act)

lemma spend_ok:
  assumes "tally_ok now st" "rate (spend (ad_taken st) (ad_inner st)) rc = Some b'"
  shows "bucket_ok b' \<and> rb_burst b' \<le> 2 ^ 62"
proof -
  from assms(2) obtain b where b: "rate (ad_inner st) rc = Some b"
    and b': "b' = (case ad_taken st rc of None \<Rightarrow> b | Some n \<Rightarrow> b\<lparr>rb_tokens := wrap64 (rb_tokens b - n)\<rparr>)"
    by (auto simp: spend_def)
  have ok: "rb_tokens b \<le> rb_burst b" "rb_burst b \<le> 2 ^ 62"
    using assms(1) b by (auto simp: tally_ok_def bucket_ok_def)
  show ?thesis
  proof (cases "ad_taken st rc")
    case None
    with ok b' show ?thesis by (simp add: bucket_ok_def)
  next
    case (Some n)
    with assms(1) b have "0 \<le> n" "n \<le> rb_tokens b" unfolding tally_ok_def by fastforce+
    then have "wrap64 (rb_tokens b - n) = rb_tokens b - n" using ok by (simp add: wrap64_id in_i64_def)
    with ok b' Some \<open>0 \<le> n\<close> show ?thesis by (simp add: bucket_ok_def)
  qed
qed

lemma admit_rest:
  assumes "distinct ord" "store_ok s" "bursts_ok s"
  shows "store_ok (snd (mem_admit now ord req s))" "bursts_ok (snd (mem_admit now ord req s))"
    "quarantine (snd (mem_admit now ord req s)) = quarantine s"
    "key_ok s \<Longrightarrow> key_ok (snd (mem_admit now ord req s))"
proof -
  obtain r s' where a: "mem_admit now ord req s = (r, s')" by fastforce
  have "store_ok s' \<and> bursts_ok s' \<and> quarantine s' = quarantine s \<and> (key_ok s \<longrightarrow> key_ok s')"
  proof (cases r)
    case (Inl e)
    with a assms show ?thesis by (simp add: mem_admit_eq split: if_splits)
  next
    case (Inr units)
    from mem_admit_drawn [OF a [unfolded Inr] assms(1)] obtain "is" st where
      acts: "admit_acts now req \<lparr>ad_inner = s, ad_taken = Map.empty, ad_units = []\<rparr> st"
      and d: "drawn now req s is st" and s': "s' = spend (ad_taken st) (ad_inner st)" by metis
    have "tally_ok now \<lparr>ad_inner = s, ad_taken = Map.empty, ad_units = []\<rparr>"
      using assms by (auto simp: tally_ok_def store_ok_bucket bursts_ok_def)
    from spend_ok [OF tally_acts [OF acts this]] s'
    have rate: "rate s' rc = Some b \<Longrightarrow> bucket_ok b \<and> rb_burst b \<le> 2 ^ 62" for rc b by blast
    from d s' have rest: "unique s' = unique s" "quarantine s' = quarantine s" by (simp_all add: drawn_def)
    from d s' have jobs: "jobs s' i =
        (if i \<in> set is then map_option (claimed_row now req s) (jobs s i) else jobs s i)" for i
      unfolding drawn_def by simp
    have avail: "jstate j = ''available''" if "i \<in> set is" "jobs s i = Some j" for i j
      using d that by (auto simp: drawn_def eligible_def split: option.splits)
    have row: "\<exists>j. jobs s i = Some j \<and> (\<forall>k. holds_key k j' = holds_key k j) \<and>
        (row_ok i j \<longrightarrow> row_ok i j') \<and> (parked_ok s j \<longrightarrow> parked_ok s' j')" if "jobs s' i = Some j'" for i j'
      using that jobs [of i] avail [of i] rest(2)
      by (auto simp: holds_key_def row_ok_def parked_ok_def blocked_fingerprint_def split: if_splits)
    have "dom (jobs s') = dom (jobs s)" using jobs by (auto simp: dom_def split: if_splits)
    with row assms(2) have "rows_ok s'" unfolding store_ok_def rows_ok_def by metis
    moreover have "index_ok s'"
      unfolding index_ok_def rest
    proof (intro allI impI)
      fix k i
      assume "unique s k = Some i"
      with store_ok_index [OF assms(2)] obtain j where j: "jobs s i = Some j" "holds_key k j" by blast
      then show "\<exists>j. jobs s' i = Some j \<and> holds_key k j"
        using jobs [of i] avail [of i j] by (auto simp: holds_key_def)
    qed
    moreover have "key_ok s'" if "key_ok s"
      using row key_ok_holder [OF that] unfolding key_ok_def rest by metis
    ultimately show ?thesis using rate rest by (auto simp: store_ok_def bursts_ok_def)
  qed
  with a show "store_ok (snd (mem_admit now ord req s))" "bursts_ok (snd (mem_admit now ord req s))"
    "quarantine (snd (mem_admit now ord req s)) = quarantine s"
    "key_ok s \<Longrightarrow> key_ok (snd (mem_admit now ord req s))" by simp_all
qed

section \<open>Properties of runs\<close>

definition machine_ok :: "inner \<Rightarrow> bool" where
  "machine_ok s \<longleftrightarrow> store_ok s \<and> bursts_ok s"

lemma fits_distinct: "iter_order (jobs s) ord \<Longrightarrow> distinct ord"
  by (simp add: iter_order_def)

lemma duty_rest:
  "rate (snd (claim_duty now name h d s)) = rate s"
  "quarantine (snd (claim_duty now name h d s)) = quarantine s"
  "rate (snd (release_duty name h s)) = rate s"
  "quarantine (snd (release_duty name h s)) = quarantine s"
  by (simp_all add: claim_duty_def release_duty_def)

lemma plain_write_rest:
  "rate (snd (write_job_output now r l s)) = rate s"
  "quarantine (snd (write_job_output now r l s)) = quarantine s"
  "rate (snd (write_job_progress now u l s)) = rate s"
  "quarantine (snd (write_job_progress now u l s)) = quarantine s"
  "rate (snd (mem_checkpoint cp l s)) = rate s"
  "quarantine (snd (mem_checkpoint cp l s)) = quarantine s"
  by (simp_all add: write_job_output_def write_job_progress_def mem_checkpoint_def with_row_rest Let_def
      split: sum.split)

lemma sweep_rest:
  "rate (snd (reclaim_expired cfg now ord limit s)) = rate s"
  "quarantine s fp \<noteq> None \<Longrightarrow> quarantine (snd (reclaim_expired cfg now ord limit s)) fp \<noteq> None"
  "rate (snd (promote_due now ord limit s)) = rate s"
  "quarantine (snd (promote_due now ord limit s)) = quarantine s"
  "rate (snd (evict_retained now ord limit s)) = rate s"
  "quarantine (snd (evict_retained now ord limit s)) = quarantine s"
  using foldl_reclaim_rest [of cfg now limit "[]" s "sort ord"] foldl_promote_rest [of now limit 0 s ord]
    foldl_del_rest
  by (simp_all add: reclaim_expired_def promote_due_def case_prod_beta evict_retained_eq)

lemmas exec_rest = enqueue_rest duty_rest plain_write_rest sweep_rest renew_rest

lemma exec_bursts:
  assumes "machine_ok s" "op_fits s op"
  shows "bursts_ok (exec cfg now op s)"
proof -
  from assms(1) have ok: "store_ok s" "bursts_ok s" by (simp_all add: machine_ok_def)
  show ?thesis
  proof (cases op)
    case (Op_Admit ord req)
    with assms(2) ok show ?thesis by (simp add: admit_rest fits_distinct)
  next
    case (Op_RateLimit name limit window burst)
    with assms(2) ok(2) show ?thesis by (simp add: bursts_ok_def set_rate_limit_def)
  next
    case (Op_Ack out err delay_ms logs actual l)
    with ok(2) show ?thesis by (simp add: ack_rest)
  next
    case (Op_AckResult logs actual r l)
    with ok(2) show ?thesis by (simp add: result_ack_rest)
  qed (use ok(2) in \<open>simp_all add: bursts_ok_def enqueue_without_uniqueness_def exec_rest
      set_queue_paused_def\<close>)
qed

lemma exec_quarantine:
  assumes "machine_ok s" "op_fits s op" "quarantine s fp \<noteq> None"
  shows "quarantine (exec cfg now op s) fp \<noteq> None"
proof (cases op)
  case (Op_Admit ord req)
  with assms show ?thesis by (simp add: admit_rest fits_distinct machine_ok_def)
qed (use assms(3) in \<open>simp_all add: ack_rest result_ack_rest enqueue_without_uniqueness_def exec_rest
      set_queue_paused_def set_rate_limit_def\<close>)

lemma other_invs:
  "store_ok s \<Longrightarrow> store_ok (set_queue_paused q p s)" "key_ok s \<Longrightarrow> key_ok (set_queue_paused q p s)"
  "store_ok s \<Longrightarrow> store_ok (set_rate_limit now n l w b s)" "key_ok s \<Longrightarrow> key_ok (set_rate_limit now n l w b s)"
  "store_ok s \<Longrightarrow> store_ok (snd (claim_duty now name h d s))"
  "key_ok s \<Longrightarrow> key_ok (snd (claim_duty now name h d s))"
  "store_ok s \<Longrightarrow> store_ok (snd (release_duty name h s))"
  "key_ok s \<Longrightarrow> key_ok (snd (release_duty name h s))"
  by (auto simp: set_queue_paused_def set_rate_limit_def claim_duty_def release_duty_def store_ok_def
      rows_ok_def index_ok_def key_ok_def parked_ok_def blocked_fingerprint_def bucket_ok_def)

lemmas exec_invs = ack.keeps ack.keeps_key result_ack.keeps result_ack.keeps_key
  checkpoint_write.keeps checkpoint_write.keeps_key output_write.keeps output_write.keeps_key
  progress_write.keeps progress_write.keeps_key mem_renew_invs reclaim_expired_invs promote_due_invs
  evict_retained_invs other_invs fits_distinct

lemma exec_machine_ok:
  assumes "machine_ok s" "op_fits s op"
  shows "machine_ok (exec cfg now op s)"
proof -
  from assms(1) have ok: "store_ok s" "bursts_ok s" by (simp_all add: machine_ok_def)
  have "store_ok (exec cfg now op s)"
    using assms(2) ok
    by (cases op) (simp_all add: mem_enqueue_ok enqueue_without_uniqueness_def admit_rest exec_invs)
  with exec_bursts [OF assms] show ?thesis by (simp add: machine_ok_def)
qed

lemma steps_machine_ok: "steps cfg s ops s' \<Longrightarrow> machine_ok s \<Longrightarrow> machine_ok s'"
  by (erule steps_induct_inv) (auto intro: exec_machine_ok)

lemma machine_ok_default: "machine_ok inner_default"
  using store_ok_default by (simp add: machine_ok_def bursts_ok_def) (simp add: inner_default_def)

text \<open>The batches of a run that repeat no lifecycle key.\<close>

fun op_keyed :: "mem_op \<Rightarrow> bool" where
  "op_keyed (Op_Enqueue batch) = distinct (lifecycle_keys batch)"
| "op_keyed _ = True"

lemma plain_keys:
  "lifecycle_keys (map (\<lambda>e. e\<lparr>unique_key := None, unique_window_ms := 0, unique_replace := 0,
     unique_debounce_ms := 0\<rparr>) batch) = []"
  by (simp add: lifecycle_keys_def)

lemma exec_key_ok:
  assumes "machine_ok s" "key_ok s" "op_fits s op" "op_keyed op"
  shows "key_ok (exec cfg now op s)"
  using assms
  by (cases op) (simp_all add: mem_enqueue_key_ok enqueue_without_uniqueness_def plain_keys admit_rest
      exec_invs machine_ok_def)

lemma steps_key_ok:
  assumes "steps cfg s ops s'" "machine_ok s" "key_ok s" "\<forall>(now, op) \<in> set ops. op_keyed op"
  shows "key_ok s'"
proof -
  have "machine_ok s' \<and> key_ok s'"
    using assms(1)
  proof (rule steps_induct_inv)
    fix s now op
    assume "machine_ok s \<and> key_ok s" "op_fits s op" "(now, op) \<in> set ops"
    with assms(4) show "machine_ok (exec cfg now op s) \<and> key_ok (exec cfg now op s)"
      by (auto intro: exec_machine_ok exec_key_ok)
  qed (use assms in simp)
  then show ?thesis ..
qed

lemma state_of_str_only:
  "state_of_str str = Some State_Quarantined \<Longrightarrow> str = ''quarantined''"
  "state_of_str str \<noteq> Some State_Deleted"
  by (auto simp: state_of_str_def split: if_splits)

text \<open>C19. Whatever sequence of operations has run on an empty store, in whatever order its callers
  interleave, every row is stored under its own id in a state of the lifecycle and carries a
  lease only while it runs; the unique index names only live rows that carry the key; the
  fingerprint of a quarantined row is blocked; and no bucket holds more than its burst.\<close>

theorem reachable_store_ok:
  assumes "steps cfg inner_default ops s"
  shows "(\<forall>i j. jobs s i = Some j \<longrightarrow>
      env_id (env j) = i \<and> abs_state s i \<noteq> State_Deleted \<and>
      (lease_id j \<noteq> [] \<or> lease_expires j \<noteq> 0 \<longrightarrow> abs_state s i = State_Running) \<and>
      (abs_state s i = State_Quarantined \<and> fingerprint (env j) \<noteq> [] \<longrightarrow>
         quarantine s (fingerprint (env j)) \<noteq> None)) \<and>
    (\<forall>k i. unique s k = Some i \<longrightarrow>
      (\<exists>j. jobs s i = Some j \<and> effective_unique_key (env j) = Some k \<and> \<not> is_terminal (abs_state s i))) \<and>
    (\<forall>rc b. rate s rc = Some b \<longrightarrow> rb_tokens b \<le> rb_burst b)"
proof -
  have ok: "store_ok s"
    using steps_machine_ok [OF assms machine_ok_default] by (simp add: machine_ok_def)
  have "env_id (env j) = i \<and> abs_state s i \<noteq> State_Deleted \<and>
      (lease_id j \<noteq> [] \<or> lease_expires j \<noteq> 0 \<longrightarrow> abs_state s i = State_Running) \<and>
      (abs_state s i = State_Quarantined \<and> fingerprint (env j) \<noteq> [] \<longrightarrow>
         quarantine s (fingerprint (env j)) \<noteq> None)" if "jobs s i = Some j" for i j
    using store_ok_row [OF ok that] store_ok_parked [OF ok that] that
      state_of_str_only [of "jstate j"] state_of_str_running [of "jstate j"]
    by (auto simp: row_ok_def parked_ok_def blocked_fingerprint_def abs_state_def)
  moreover have "\<exists>j. jobs s i = Some j \<and> effective_unique_key (env j) = Some k \<and>
      \<not> is_terminal (abs_state s i)" if "unique s k = Some i" for k i
    using store_ok_index [OF ok that]
    by (auto simp: holds_key_def live_def abs_state_def split: option.splits)
  moreover have "rb_tokens b \<le> rb_burst b" if "rate s rc = Some b" for rc b
    using store_ok_bucket [OF ok that] by (simp add: bucket_ok_def)
  ultimately show ?thesis by blast
qed

text \<open>C20. At most one live job holds a unique key: along every sequence of operations whose batches
  repeat no lifecycle key, two live rows with the same effective key and no window are the same
  row.\<close>

theorem one_live_job_per_key:
  assumes "steps cfg inner_default ops s" "\<forall>(now, op) \<in> set ops. op_keyed op"
    and "jobs s i = Some j" "jobs s m = Some j'" "live (jstate j)" "live (jstate j')"
    and "effective_unique_key (env j) = Some k" "effective_unique_key (env j') = Some k"
    and "unique_window_ms (env j) = 0" "unique_window_ms (env j') = 0"
  shows "i = m"
proof -
  have "key_ok s" using steps_key_ok [OF assms(1) machine_ok_default key_ok_default assms(2)] .
  then have "unique s k = Some i" "unique s k = Some m"
    using assms(3-) by (auto intro: key_ok_holder simp: holds_key_def)
  then show ?thesis by simp
qed

section \<open>A lost lease stays lost\<close>

fun survives :: "mem_config \<Rightarrow> string \<Rightarrow> inner \<Rightarrow> (i64 \<times> mem_op) list \<Rightarrow> bool" where
  "survives cfg i s [] = (jobs s i \<noteq> None)"
| "survives cfg i s ((now, op) # ops) = (jobs s i \<noteq> None \<and> survives cfg i (exec cfg now op s) ops)"

definition dead :: "lease_ref \<Rightarrow> nat \<Rightarrow> mem_job \<Rightarrow> bool" where
  "dead l n j \<longleftrightarrow> fence j = lr_fence l \<and> \<not> holds_lease l j \<or>
     (\<exists>k. 0 < k \<and> k \<le> n \<and> fence j = lr_fence l + of_nat k)"

lemma dead_step:
  assumes "row_move C D (Some j) (Some j')" "dead l n j"
  shows "dead l (Suc n) j'"
proof -
  have keep: "dead l (Suc n) j'" if "fence j' = fence j" "\<not> holds_lease l j \<Longrightarrow> \<not> holds_lease l j'"
    using assms(2) that unfolding dead_def by (metis le_SucI)
  have bump: "dead l (Suc n) j'" if f: "fence j' = fence j + 1"
  proof -
    from assms(2) have "\<exists>k \<le> n. fence j = lr_fence l + of_nat k"
      unfolding dead_def by (elim disjE) (force, blast)
    then obtain k where "k \<le> n" "fence j = lr_fence l + of_nat k" by blast
    with f have "0 < Suc k" "Suc k \<le> Suc n" "fence j' = lr_fence l + of_nat (Suc k)"
      by (simp_all add: ac_simps)
    then show ?thesis unfolding dead_def by blast
  qed
  from assms(1) show ?thesis
  proof (cases rule: row_move.cases)
    case stays
    then show ?thesis using keep by simp
  next
    case replaced
    then show ?thesis
      by (intro keep) (auto simp: same_job_def holds_lease_def replaceable_def)
  qed (auto simp: holds_lease_def intro: keep bump)
qed

lemma dead_not_held:
  assumes "dead l n j" "n < 2 ^ 64"
  shows "\<not> holds_lease l j"
proof
  assume h: "holds_lease l j"
  with assms(1) obtain k where k: "0 < k" "k \<le> n" "lr_fence l = lr_fence l + of_nat k"
    unfolding dead_def holds_lease_def by metis
  then have "(of_nat k :: u64) = 0" by simp
  then have "unat (of_nat k :: u64) = 0" by simp
  moreover have "unat (of_nat k :: u64) = k"
    using k(2) assms(2) by (simp add: unat_of_nat)
  ultimately show False using k(1) by simp
qed

lemma dead_run:
  assumes "steps cfg s ops s'" "machine_ok s" "survives cfg i s ops" "jobs s i = Some j" "dead l n j"
  shows "\<exists>j'. jobs s' i = Some j' \<and> dead l (n + length ops) j'"
  using assms
proof (induction arbitrary: n j rule: steps.induct)
  case (step s op now ops s')
  let ?s = "exec cfg now op s"
  from step.prems(2) have sv: "survives cfg i ?s ops" by simp
  then obtain j1 where j1: "jobs ?s i = Some j1" by (cases ops) auto
  have "row_move (i \<in> enqueued_ids op) (may_draw op s) (Some j) (Some j1)"
    using exec_move [OF _ step.hyps(1), of i cfg now] step.prems(1,3) j1 by (simp add: machine_ok_def)
  then have "dead l (Suc n) j1" using step.prems(4) by (rule dead_step)
  from step.IH [OF exec_machine_ok [OF step.prems(1) step.hyps(1)] sv j1 this] show ?case by simp
qed auto

text \<open>C21. A lease that was lost never comes back: once a row has kept the fence of a lease but is no
  longer held by it, no later sequence of operations, over which the row exists and which is
  shorter than the range of the fence, makes the store accept that lease again.\<close>

theorem lost_lease_stays_lost:
  assumes "steps cfg inner_default ops s" "jobs s (lr_job_id l) = Some j" "fence j = lr_fence l"
    and "identity s l \<noteq> Inr ()" "steps cfg s ops' s'" "survives cfg (lr_job_id l) s ops'"
    and "length ops' < 2 ^ 64"
  shows "identity s' l \<noteq> Inr ()"
proof -
  have "\<not> holds_lease l j" using assms(2,4) by (auto simp: identity_Inr)
  with assms(3) have "dead l 0 j" by (simp add: dead_def)
  from dead_run [OF assms(5) steps_machine_ok [OF assms(1) machine_ok_default] assms(6,2) this]
  obtain j' where "jobs s' (lr_job_id l) = Some j'" "dead l (length ops') j'" by auto
  with dead_not_held [OF this(2) assms(7)] show ?thesis by (auto simp: identity_Inr)
qed

section \<open>The lifecycle and the quarantine\<close>

text \<open>C22. Every operation moves every job along the lifecycle: the job keeps its state, or an
  acknowledgement, a lost lease or an event of the tables takes it to the next one, or it is
  created in a waiting state, or a waiting job is rescheduled by a debounced replacement, or a
  finished, unquarantined job is evicted.\<close>

theorem operations_follow_lifecycle:
  fixes i :: string and now :: i64
  assumes "steps cfg inner_default ops s" "op_fits s op"
  defines "x \<equiv> abs_state s i" and "y \<equiv> abs_state (exec cfg now op s) i"
  shows "y = x \<or> auto_step x y \<or>
    x = State_Deleted \<and> y \<in> {State_Pending, State_Scheduled, State_Available} \<or>
    x \<in> {State_Available, State_Retryable} \<and> y = State_Scheduled \<or>
    is_terminal x \<and> x \<noteq> State_Quarantined \<and> y = State_Deleted"
proof -
  have ok: "store_ok s"
    using steps_machine_ok [OF assms(1) machine_ok_default] by (simp add: machine_ok_def)
  from exec_move [OF ok assms(2)]
  have "row_move (i \<in> enqueued_ids op) (may_draw op s) (jobs s i) (jobs (exec cfg now op s) i)" .
  then show ?thesis
  proof (cases rule: row_move.cases)
    case (released j j' out ctx)
    then have "y = transition x out ctx" by (simp add: x_def y_def abs_state_def)
    then show ?thesis by (metis auto_step.acked)
  next
    case (finished j out ctx)
    then have "y = transition x out ctx" by (simp add: x_def y_def abs_state_def)
    then show ?thesis by (metis auto_step.acked)
  next
    case (drawn j j')
    then have "lifecycle_transition x Admitted = Some y"
      by (simp add: x_def y_def abs_state_def lifecycle_transition_def)
    then show ?thesis by (auto intro: auto_step.event simp: operator_event_def)
  next
    case (promoted j j')
    then have "lifecycle_transition x ScheduleDue = Some y \<or> lifecycle_transition x BackoffDue = Some y"
      by (auto simp: x_def y_def abs_state_def lifecycle_transition_def)
    then show ?thesis by (auto intro: auto_step.event simp: operator_event_def)
  next
    case (replaced j j')
    then have "jstate j' = jstate j \<or> jstate j' = ''scheduled''" by (simp add: same_job_def)
    with replaced have "y = x \<or> y = State_Scheduled" by (auto simp: x_def y_def abs_state_def)
    moreover have "x \<in> {State_Scheduled, State_Available, State_Retryable}"
      using replaced by (auto simp: x_def abs_state_def replaceable_def)
    ultimately show ?thesis by blast
  next
    case (evicted j)
    then show ?thesis using store_ok_row [OF ok, of i j] state_of_str_only(1) [of "jstate j"]
      by (auto simp: x_def y_def abs_state_def live_def row_ok_def split: option.splits)
  qed (auto simp: x_def y_def abs_state_def)
qed

text \<open>C23. Quarantine contains a poison job for good: once a fingerprint is blocked it stays blocked
  along every later sequence of operations, and no operation ever starts a job that carries it.\<close>

theorem quarantine_contains:
  assumes "steps cfg inner_default ops s" "quarantine s fp \<noteq> None" "fp \<noteq> []"
    and "steps cfg s ops' s'" "op_fits s' op"
    and "jobs s' i = Some j" "fingerprint (env j) = fp" "jstate j \<noteq> ''running''"
  shows "quarantine s' fp \<noteq> None \<and>
    (\<forall>j'. jobs (exec cfg now op s') i = Some j' \<longrightarrow> jstate j' \<noteq> ''running'')"
proof -
  have "machine_ok s' \<and> quarantine s' fp \<noteq> None"
    using assms(4)
  proof (rule steps_induct_inv)
    show "machine_ok s \<and> quarantine s fp \<noteq> None"
      using steps_machine_ok [OF assms(1) machine_ok_default] assms(2) by simp
  qed (auto intro: exec_machine_ok dest: exec_quarantine)
  then have ok: "machine_ok s'" and q: "quarantine s' fp \<noteq> None" by simp_all
  then have no: "\<not> may_draw op s' j"
    using assms(3,7) by (auto simp: may_draw_def blocked_fingerprint_def split: mem_op.split)
  from ok have "row_move (i \<in> enqueued_ids op) (may_draw op s') (Some j) (jobs (exec cfg now op s') i)"
    using exec_move [OF _ assms(5), of i cfg now] assms(6) by (simp add: machine_ok_def)
  then have "\<forall>j'. jobs (exec cfg now op s') i = Some j' \<longrightarrow> jstate j' \<noteq> ''running''"
    using no assms(8)
    by (cases rule: row_move.cases) (auto simp: same_job_def replaceable_def)
  with q show ?thesis by simp
qed

section \<open>Duties\<close>

text \<open>Only claims and releases touch the duties.\<close>

lemma enqueue_duties: "duties (snd (mem_enqueue now batch s)) = duties s"
proof -
  obtain r s' where e: "mem_enqueue now batch s = (r, s')" by fastforce
  have ins: "duties (foldl (\<lambda>s e. insert_one now s (e, False)) s es) = duties s" for es s
    by (induction es arbitrary: s) (simp_all add: insert_one_eq index_unique_def split: option.split)
  have rep: "duties s1 = duties s" if "replace_holder now e' i s = (b, s1)" for e' i b s1
    using that by (cases rule: replace_holder_cases) simp_all
  have "duties s' = duties s"
  proof (cases r)
    case (Inl err)
    with e mem_enqueue_Inl show ?thesis using rep unfolding rejects_def by metis
  next
    case (Inr u)
    with e mem_enqueue_Inr(5) [of now batch s s'] ins show ?thesis by simp
  qed
  with e show ?thesis by simp
qed

lemma admit_duties:
  assumes "distinct ord"
  shows "duties (snd (mem_admit now ord req s)) = duties s"
proof -
  obtain r s' where a: "mem_admit now ord req s = (r, s')" by fastforce
  have act: "duties (ad_inner st') = duties (ad_inner st)" if "admit_act now req st st'" for st st'
    using that by cases (simp_all add: claim_job_eq)
  have acts: "duties (ad_inner st') = duties (ad_inner st)" if "admit_acts now req st st'" for st st'
    using that by (induction rule: rtranclp_induct) (auto dest: act)
  have "duties s' = duties s"
  proof (cases r)
    case (Inl e)
    with a show ?thesis by (simp add: mem_admit_eq split: if_splits)
  next
    case (Inr units)
    from mem_admit_drawn [OF a [unfolded Inr] assms] obtain "is" st where
      "admit_acts now req \<lparr>ad_inner = s, ad_taken = Map.empty, ad_units = []\<rparr> st" "s' = spend (ad_taken st) (ad_inner st)"
      by metis
    from acts [OF this(1)] this(2) show ?thesis by (simp add: spend_def)
  qed
  with a show ?thesis by simp
qed

lemma row_duties: "duties (put_row i j s) = duties s" "duties (del_row i s) = duties s"
  by (simp_all add: put_row_def del_row_def)

lemma reconcile_duties: "duties (reconcile now i a s) = duties s"
  by (auto simp: reconcile_def settle_def Let_def split: option.splits)

lemma ack_duties: "duties (snd (mem_ack cfg now out err delay_ms logs actual l s)) = duties s"
proof (cases "identity s l = Inr ()")
  case True
  then show ?thesis
  proof (rule mem_ack_held [where cfg = cfg and now = now and out = out and err = err and
        delay_ms = delay_ms and logs = logs and actual = actual])
    fix j j1
    let ?s = "reconcile now (lr_job_id l) actual s"
    assume j1: "jobs ?s (lr_job_id l) = Some j1"
      and eq: "mem_ack cfg now out err delay_ms logs actual l s = ack_outcome cfg now (lr_job_id l) out err delay_ms logs j1 ?s"
    obtain r s' where a: "ack_outcome cfg now (lr_job_id l) out err delay_ms logs j1 ?s = (r, s')" by fastforce
    have "duties s' = duties ?s"
    proof (cases r)
      case (Inl e)
      with a ack_outcome_Inl have "s' = ?s" by blast
      then show ?thesis by simp
    next
      case (Inr u)
      with a have "ack_outcome cfg now (lr_job_id l) out err delay_ms logs j1 ?s = (Inr (), s')" by simp
      from ack_outcome_Inr(2) [OF this j1] show ?thesis by (simp add: row_duties split: option.split)
    qed
    with eq a show ?thesis by (simp add: reconcile_duties)
  qed
qed (simp add: mem_ack_stale)

lemma result_ack_duties: "duties (snd (ack_success_with_result now logs actual r l s)) = duties s"
  by (cases rule: result_ack_cases [of now logs actual r l s]) (simp_all add: Let_def row_duties reconcile_duties)

lemma with_row_duties: "duties (snd (with_row f r l s)) = duties s"
  by (simp add: with_row_def split: sum.split)

lemma sweep_duties:
  "duties (snd (reclaim_expired cfg now ord limit s)) = duties s"
  "duties (snd (promote_due now ord limit s)) = duties s"
  "duties (snd (evict_retained now ord limit s)) = duties s"
proof -
  have r: "duties (snd (foldl (reclaim_step cfg now limit) (out, s) is)) = duties s" for out "is"
  proof (induction "is" arbitrary: out s)
    case (Cons i "is")
    obtain out1 s1 where st: "reclaim_step cfg now limit (out, s) i = (out1, s1)" by fastforce
    then have "duties s1 = duties s"
      by (auto simp: reclaim_step_def reclaim_one_def Let_def split: option.splits if_splits prod.splits)
    with st Cons [of out1 s1] show ?case by simp
  qed simp
  have p: "duties (snd (foldl (promote_step now limit) (n, s) is)) = duties s" for n "is"
  proof (induction "is" arbitrary: n s)
    case (Cons i "is")
    obtain n1 s1 where st: "promote_step now limit (n, s) i = (n1, s1)" by fastforce
    then have "duties s1 = duties s" by (auto simp: promote_step_def split: option.splits if_splits)
    with st Cons [of n1 s1] show ?case by simp
  qed simp
  have "duties (foldl (\<lambda>s i. del_row i s) s is) = duties s" for s "is"
    by (induction "is" arbitrary: s) (simp_all add: row_duties)
  with r p show "duties (snd (reclaim_expired cfg now ord limit s)) = duties s"
    "duties (snd (promote_due now ord limit s)) = duties s"
    "duties (snd (evict_retained now ord limit s)) = duties s"
    by (simp_all add: reclaim_expired_def promote_due_def case_prod_beta evict_retained_eq)
qed

text \<open>The operations by which a holder gives up or renews its own duty.\<close>

fun own_duty :: "string \<Rightarrow> string \<Rightarrow> mem_op \<Rightarrow> bool" where
  "own_duty name holder (Op_ClaimDuty n h _) = (n = name \<and> h = holder)"
| "own_duty name holder (Op_ReleaseDuty n h) = (n = name \<and> h = holder)"
| "own_duty name holder _ = False"

lemma exec_duty:
  assumes "duties s name = Some (holder, ends)" "now < ends" "op_fits s op" "\<not> own_duty name holder op"
  shows "duties (exec cfg now op s) name = Some (holder, ends)"
proof (cases op)
  case (Op_ClaimDuty n h d)
  with assms show ?thesis by (auto simp: claim_duty_def split: option.split)
next
  case (Op_ReleaseDuty n h)
  with assms show ?thesis by (auto simp: release_duty_def split: option.split)
next
  case (Op_Admit ord req)
  with assms show ?thesis by (simp add: admit_duties fits_distinct)
qed (use assms(1) in \<open>simp_all add: enqueue_duties enqueue_without_uniqueness_def ack_duties result_ack_duties with_row_duties
    mem_checkpoint_def write_job_output_def write_job_progress_def sweep_duties mem_renew_def foldl_renew
    set_queue_paused_def set_rate_limit_def Let_def split: sum.split\<close>)

text \<open>C33. A duty has one holder at a time. Once a claim has been granted, then for as long as the
  granted lease has not run out and the holder itself neither releases the duty nor claims it again,
  whatever sequence of operations of the store runs in between, a claim by anyone else changes nothing
  and is answered with false, or with an error if the lease it asks for is zero; a claim by the holder
  is granted anew, with the new lease.\<close>

theorem duty_exclusive:
  assumes "claim_duty now name holder lease s = (Inr True, s1)" "steps cfg s1 ops s2"
    and "\<forall>(t, op) \<in> set ops. t < wrap64 (now + wrap64 (int (as_millis lease))) \<and> \<not> own_duty name holder op"
    and "now' < wrap64 (now + wrap64 (int (as_millis lease)))"
  shows "claim_duty now' name other lease' s2 =
    (if lease' = 0 then (Inl (Invalid ''duty lease must be >= 1ms''), s2)
     else if other \<noteq> holder then (Inr False, s2)
     else (Inr True, s2\<lparr>duties := (duties s2)(name \<mapsto>
             (holder, wrap64 (now' + wrap64 (int (as_millis lease')))))\<rparr>))"
proof -
  let ?ends = "wrap64 (now + wrap64 (int (as_millis lease)))"
  have "duties s1 name = Some (holder, ?ends)"
    using assms(1) by (auto simp: claim_duty_def split: if_splits)
  with assms(2) have "duties s2 name = Some (holder, ?ends)"
  proof (rule steps_induct_inv [where P = "\<lambda>s. duties s name = Some (holder, ?ends)"])
    fix s t op
    assume "duties s name = Some (holder, ?ends)" "op_fits s op" "(t, op) \<in> set ops"
    then show "duties (exec cfg t op s) name = Some (holder, ?ends)"
      using assms(3) by (intro exec_duty) auto
  qed
  with assms(4) show ?thesis by (simp add: claim_duty_def)
qed

section \<open>Witnesses\<close>

text \<open>A run: a poison job is enqueued and drawn, its worker is lost while a second job with the
  same fingerprint waits, and the reclaimer quarantines the fingerprint.\<close>

definition poison_env :: "string \<Rightarrow> envelope" where
  "poison_env i = envelope_default\<lparr>env_id := i, kind := ''mail'', fingerprint := ''f''\<rparr>"

definition poison_req :: admit_request where
  "poison_req = \<lparr>req_worker = ''w'', req_lease_id = ''L'', req_queues = [''default''],
     req_capacity = 5, req_lease = 30000000000, req_quantum = 1\<rparr>"

definition poison_cfg :: mem_config where
  "poison_cfg = mem_config_new\<lparr>crash_limit := 1\<rparr>"

lemma poison_env_sel [simp]:
  "env_id (poison_env i) = i" "kind (poison_env i) = ''mail''" "unique_key (poison_env i) = None"
  "fingerprint (poison_env i) = ''f''" "effective_unique_key (poison_env i) = None"
  by (simp_all add: poison_env_def envelope_default_def effective_unique_key_def)

lemma poison_valid: "i \<noteq> [] \<Longrightarrow> length i \<le> 255 \<Longrightarrow> validate_enqueue [poison_env i] = Inr ()"
  by (simp add: validate_enqueue_Inr poison_env_def envelope_default_def envelope_valid_def
      fields_valid_def routing_valid_def identifier_fields_def unique_key_len_def unique_key_missing_def
      header_bytes_def kind_ok_def word_char_def MAX_JOB_IDENTIFIER_LEN_def MAX_UNIQUE_KEY_BYTES_def
      envelope_total_def envelope_bytes_def MAX_ENQUEUE_BATCH_SIZE_def MAX_ENQUEUE_BYTES_def)

lemma poison_enqueue:
  assumes "i \<noteq> []" "length i \<le> 255" "jobs s i = None" "quarantine s = Map.empty"
  shows "exec cfg now (Op_Enqueue [poison_env i]) s = s\<lparr>jobs := (jobs s)(i \<mapsto> new_row now (poison_env i))\<rparr>"
  using assms
  by (simp add: mem_enqueue_def poison_valid insert_one_eq index_unique_def)

definition poison_row :: "string \<Rightarrow> mem_job" where
  "poison_row i = new_row 5 (poison_env i)"

lemma poison_row_sel:
  "queue (env (poison_row i)) = ''default''" "jstate (poison_row i) = ''available''"
  "scheduled_at_ms (env (poison_row i)) = 5" "sticky_worker (env (poison_row i)) = []"
  "rate_class (env (poison_row i)) = []" "fingerprint (env (poison_row i)) = ''f''"
  "crash_attempt (env (poison_row i)) = 0" "fence (poison_row i) = 0"
  by (simp_all add: poison_row_def new_row_def fill_defaults_def poison_env_def envelope_default_def
      initial_state_def effective_queue_def DEFAULT_QUEUE_def mem_job_default_def)

definition poison1 :: inner where
  "poison1 = inner_default\<lparr>jobs := [''a'' \<mapsto> poison_row ''a'']\<rparr>"

definition poison_run :: mem_job where
  "poison_run = claimed_row 6 poison_req poison1 (poison_row ''a'')"

definition poison2 :: inner where
  "poison2 = poison1\<lparr>jobs := [''a'' \<mapsto> poison_run], rr := [''default'' \<mapsto> 1]\<rparr>"

lemma poison_admit: "exec cfg 6 (Op_Admit [''a''] poison_req) poison1 = poison2"
proof -
  have "sort_key (rank_of poison1) [''a''] = [''a'']" by (simp add: sort_key_def)
  then show ?thesis
    by (simp add: mem_admit_def poison_req_def admit_queue_def Let_def candidate_def poison1_def
        inner_default_def poison_row_sel part_of_def sort_dedup_def rotated_def poison2_def poison_run_def
        admit_rounds.simps draw_round_def visit_def admissible_def blocked_fingerprint_def claim_job_def
        charged_def spend_def claim_of_def claimed_row_def)
qed

definition poison3 :: inner where
  "poison3 = poison2\<lparr>jobs := [''a'' \<mapsto> poison_run, ''b'' \<mapsto> poison_row ''b'']\<rparr>"

definition poison4 :: inner where
  "poison4 = exec poison_cfg 40000 (Op_Reclaim [''a'', ''b''] 9) poison3"

lemma poison_run_sel:
  "jstate poison_run = ''running''" "lease_expires poison_run = 30006" "fence poison_run = 1"
  "env poison_run = env (poison_row ''a'')" "crash_attempt (env poison_run) = 0"
  by (simp_all add: poison_run_def claimed_row_def poison_req_def as_millis_def wrap64_id in_i64_def
      poison_row_sel)

lemma poison_jobs:
  "jobs poison1 = [''a'' \<mapsto> poison_row ''a'']"
  "jobs poison2 = [''a'' \<mapsto> poison_run]"
  "jobs poison3 = [''a'' \<mapsto> poison_run, ''b'' \<mapsto> poison_row ''b'']"
  "quarantine poison2 = Map.empty" "quarantine poison3 = Map.empty" "unique poison3 = Map.empty"
  by (simp_all add: poison1_def poison2_def poison3_def inner_default_def)

lemma poison_reclaim:
  "jobs poison4 = [''a'' \<mapsto> crashed_row poison_cfg 40000 poison_run, ''b'' \<mapsto> poison_row ''b'']"
  "quarantine poison4 = [''f'' \<mapsto> True]"
proof -
  have "''a'' \<le> ''b''" by code_simp
  then have "sort [''a'', ''b''] = [''a'', ''b'']" by simp
  then show "jobs poison4 = [''a'' \<mapsto> crashed_row poison_cfg 40000 poison_run, ''b'' \<mapsto> poison_row ''b'']"
    "quarantine poison4 = [''f'' \<mapsto> True]"
    by (simp_all add: poison4_def reclaim_expired_def reclaim_step_def poison_jobs expired_def
        poison_run_sel reclaim_one_def Let_def poison_cfg_def poison_row_sel fun_upd_twist)
qed

lemma poison_steps:
  "steps poison_cfg inner_default [(5, Op_Enqueue [poison_env ''a'']), (6, Op_Admit [''a''] poison_req)] poison2"
  "steps poison_cfg poison2 [(5, Op_Enqueue [poison_env ''b'']), (40000, Op_Reclaim [''a'', ''b''] 9)] poison4"
proof -
  have e: "exec poison_cfg 5 (Op_Enqueue [poison_env ''a'']) inner_default = poison1"
    "exec poison_cfg 5 (Op_Enqueue [poison_env ''b'']) poison2 = poison3"
    by (subst poison_enqueue; simp add: poison_row_def poison1_def poison2_def poison3_def inner_default_def)+
  have o: "iter_order (jobs poison1) [''a'']" "iter_order (jobs poison3) [''a'', ''b'']"
    by (auto simp: iter_order_def poison_jobs)
  show "steps poison_cfg inner_default
      [(5, Op_Enqueue [poison_env ''a'']), (6, Op_Admit [''a''] poison_req)] poison2"
    unfolding steps_Cons e(1) poison_admit using o(1) by simp
  show "steps poison_cfg poison2
      [(5, Op_Enqueue [poison_env ''b'']), (40000, Op_Reclaim [''a'', ''b''] 9)] poison4"
    unfolding steps_Cons e(2) poison4_def [symmetric] using o(2) by simp
qed

lemma poison_all:
  "steps poison_cfg inner_default
     [(5, Op_Enqueue [poison_env ''a'']), (6, Op_Admit [''a''] poison_req),
      (5, Op_Enqueue [poison_env ''b'']), (40000, Op_Reclaim [''a'', ''b''] 9)] poison4"
  using poison_steps unfolding steps_Cons by simp

theorem reachable_store_ok_witness:
  "jobs poison2 ''a'' = Some poison_run \<and> env_id (env poison_run) = ''a'' \<and>
   abs_state poison2 ''a'' = State_Running"
proof -
  have "jobs poison2 ''a'' = Some poison_run" "lease_expires poison_run \<noteq> 0"
    by (simp_all add: poison_jobs poison_run_sel)
  with reachable_store_ok [OF poison_steps(1)] show ?thesis by blast
qed

theorem one_live_job_per_key_witness:
  "{i. \<exists>j. jobs demo_store i = Some j \<and>
      holds_key (the (effective_unique_key (demo_env [] ''k''))) j} = {''a''}"
proof -
  let ?ops = "[(5, Op_Enqueue [demo_env ''a'' ''k''])]" and ?j = "new_row 5 (demo_env ''a'' ''k'')"
  obtain k where k: "effective_unique_key (demo_env [] ''k'') = Some k"
    by (simp add: effective_unique_key_def)
  have run: "steps mem_config_new inner_default ?ops demo_store" by (simp add: demo_enqueue)
  have keyed: "\<forall>(now, op) \<in> set ?ops. op_keyed op" by (simp add: lifecycle_keys_def)
  have a: "jobs demo_store ''a'' = Some ?j" "live (jstate ?j)" "effective_unique_key (env ?j) = Some k"
    using k new_row_live(1) [of 5 "demo_env ''a'' ''k''"]
    by (simp_all add: demo_store_sel demo_key [of "''a''"])
  have w: "unique_window_ms (env ?j) = 0" by (simp add: fill_defaults_def)
  have hold: "holds_key k ?j" unfolding holds_key_def using a(2,3) w by blast
  have "i = ''a''" if "jobs demo_store i = Some j" "holds_key k j" for i j
    using one_live_job_per_key [OF run keyed that(1) a(1)] hold that(2) unfolding holds_key_def by blast
  with a(1) hold show ?thesis unfolding k option.sel by blast
qed

theorem lost_lease_stays_lost_witness:
  "identity (exec poison_cfg 40001 (Op_Pause ''default'' True) poison4)
     \<lparr>lr_job_id = ''a'', lr_lease_id = ''L'', lr_fence = 1\<rparr> \<noteq> Inr ()"
proof (rule lost_lease_stays_lost [OF poison_all])
  let ?l = "\<lparr>lr_job_id = ''a'', lr_lease_id = ''L'', lr_fence = 1\<rparr>"
  let ?j = "crashed_row poison_cfg 40000 poison_run"
  show "jobs poison4 (lr_job_id ?l) = Some ?j" "fence ?j = lr_fence ?l"
    by (simp_all add: poison_reclaim poison_run_sel)
  show "identity poison4 ?l \<noteq> Inr ()"
    by (simp add: identity_def poison_reclaim holds_lease_def)
  show "steps poison_cfg poison4 [(40001, Op_Pause ''default'' True)]
      (exec poison_cfg 40001 (Op_Pause ''default'' True) poison4)" by simp
  show "survives poison_cfg (lr_job_id ?l) poison4 [(40001, Op_Pause ''default'' True)]"
    by (simp add: poison_reclaim set_queue_paused_def)
qed simp

theorem operations_follow_lifecycle_witness:
  "abs_state (exec mem_config_new 5 (Op_Enqueue [demo_env ''a'' ''k'']) inner_default) ''a''
     \<in> {State_Pending, State_Scheduled, State_Available}"
proof -
  let ?y = "abs_state (exec mem_config_new 5 (Op_Enqueue [demo_env ''a'' ''k'']) inner_default) ''a''"
  have x: "abs_state inner_default ''a'' = State_Deleted" by (simp add: abs_state_def inner_default_def)
  have "\<not> is_terminal ?y"
    using new_row_live(1) [of 5 "demo_env ''a'' ''k''"]
    by (auto simp: demo_enqueue demo_store_sel abs_state_def live_def split: option.splits)
  then have y: "?y \<noteq> State_Deleted" by (auto simp: is_terminal_def)
  then have "\<not> auto_step State_Deleted ?y"
    using auto_step_terminal [of State_Deleted ?y] by (auto simp: is_terminal_def)
  with operations_follow_lifecycle [where ops = "[]" and s = inner_default and cfg = mem_config_new and
      op = "Op_Enqueue [demo_env ''a'' ''k'']" and i = "''a''" and now = 5] x y
  show ?thesis by auto
qed

theorem quarantine_contains_witness:
  "quarantine poison4 ''f'' \<noteq> None \<and>
   \<not> (\<exists>j. jobs (exec poison_cfg 40001 (Op_Admit [''a'', ''b''] poison_req) poison4) ''b'' = Some j \<and>
        jstate j = ''running'')"
proof -
  have fits: "op_fits poison4 (Op_Admit [''a'', ''b''] poison_req)"
    by (auto simp: iter_order_def poison_reclaim)
  have "jobs poison4 ''b'' = Some (poison_row ''b'')" "fingerprint (env (poison_row ''b'')) = ''f''"
    "jstate (poison_row ''b'') \<noteq> ''running''" by (simp_all add: poison_reclaim poison_row_sel)
  from quarantine_contains [OF poison_all _ _ steps.idle fits this] show ?thesis
    by (auto simp: poison_reclaim)
qed

theorem duty_exclusive_witness:
  "\<exists>s1 s2. claim_duty 5 ''reclaim'' ''w1'' 10000000 inner_default = (Inr True, s1) \<and>
     steps mem_config_new s1 [(6, Op_ReleaseDuty ''reclaim'' ''w2''), (7, Op_ClaimDuty ''promote'' ''w2'' 1000000),
       (8, Op_Pause ''default'' True)] s2 \<and> s2 \<noteq> s1 \<and>
     claim_duty 14 ''reclaim'' ''w2'' 10000000 s2 = (Inr False, s2)"
proof -
  let ?ops = "[(6, Op_ReleaseDuty ''reclaim'' ''w2''), (7, Op_ClaimDuty ''promote'' ''w2'' 1000000), (8, Op_Pause ''default'' True)]"
  define s1 where "s1 = snd (claim_duty 5 ''reclaim'' ''w1'' 10000000 inner_default)"
  have c: "claim_duty 5 ''reclaim'' ''w1'' 10000000 inner_default = (Inr True, s1)"
    by (simp add: claim_duty_def s1_def inner_default_def)
  obtain s2 where s2: "steps mem_config_new s1 ?ops s2" by simp
  have ends: "wrap64 (5 + wrap64 (int (as_millis 10000000))) = 15"
    by (simp add: as_millis_def wrap64_id in_i64_def)
  have "duties s1 ''promote'' = None" by (simp add: s1_def claim_duty_def inner_default_def)
  moreover from s2 have "duties s2 ''promote'' \<noteq> None"
    by (auto simp: claim_duty_def release_duty_def set_queue_paused_def s1_def inner_default_def)
  ultimately have "s2 \<noteq> s1" by auto
  with c s2 duty_exclusive [OF c s2, of 14 "''w2''" 10000000] ends show ?thesis by auto
qed

end
