(* ===== verification/Circuit.thy ===== *)
theory Circuit
  imports Envelope
begin

text \<open>
  The producer-side availability circuit of src/crates/headgate/src/circuit_breaker.rs: a machine
  behind a mutex that callers ask for a permit and report to, and that they may leave without
  reporting when the enqueue is cancelled. The clock reading is an argument of the operations.
  Runs interleave any number of permit holders.
\<close>

section \<open>Configuration and states\<close>

datatype circuit_state = CS_Closed | CS_Open | CS_HalfOpen

record circuit_breaker_config =
  failure_threshold :: u32
  recovery_timeout :: duration
  half_open_max_calls :: u32

definition circuit_config_default :: circuit_breaker_config where
  "circuit_config_default =
     \<lparr>failure_threshold = 5, recovery_timeout = 60 * 1000000000, half_open_max_calls = 3\<rparr>"

record circuit_rejected =
  rj_state :: circuit_state
  rj_retry_after_ms :: u64

definition circuit_rejected_fmt :: "circuit_rejected \<Rightarrow> string" where
  "circuit_rejected_fmt r =
     (case rj_state r of
        CS_Open \<Rightarrow> ''enqueue circuit is open; retry after '' @ show_nat (unat (rj_retry_after_ms r)) @ ''ms''
      | CS_HalfOpen \<Rightarrow> ''enqueue circuit half-open probe limit reached''
      | CS_Closed \<Rightarrow> ''enqueue circuit rejected a closed-state call'')"

record circuit_snapshot =
  sn_state :: circuit_state
  sn_consecutive_failures :: u32
  sn_half_open_successes :: u32
  sn_half_open_in_flight :: u32
  sn_retry_after_ms :: u64

datatype mode = Mode_Closed u32 | Mode_Open u64 | Mode_HalfOpen u32 u32

record machine =
  generation :: u64
  mode :: mode

record breaker =
  br_failure_threshold :: u32
  br_recovery_timeout_ms :: u64
  br_half_open_max_calls :: u32

record permit =
  pm_generation :: u64
  pm_state :: circuit_state

section \<open>Operations\<close>

text \<open>\<open>SystemClock::now_ms\<close>: the elapsed time, saturated to \<open>u64\<close>.\<close>

definition now_ms :: "duration \<Rightarrow> u64" where
  "now_ms elapsed = (if as_millis elapsed < 2 ^ 64 then of_nat (as_millis elapsed) else - 1)"

definition breaker_new :: "circuit_breaker_config \<Rightarrow> string + breaker \<times> machine" where
  "breaker_new c =
     reject_if (failure_threshold c = 0) ''circuit failure_threshold must be >= 1''
    (reject_if (half_open_max_calls c = 0) ''circuit half_open_max_calls must be >= 1''
    (reject_if (as_millis (recovery_timeout c) \<ge> 2 ^ 64)
       ''circuit recovery_timeout exceeds u64 milliseconds''
    (reject_if (as_millis (recovery_timeout c) = 0) ''circuit recovery_timeout must be at least 1ms''
    (Inr (\<lparr>br_failure_threshold = failure_threshold c,
           br_recovery_timeout_ms = of_nat (as_millis (recovery_timeout c)),
           br_half_open_max_calls = half_open_max_calls c\<rparr>,
          \<lparr>generation = 0, mode = Mode_Closed 0\<rparr>)))))"

definition advance_open :: "breaker \<Rightarrow> u64 \<Rightarrow> machine \<Rightarrow> machine" where
  "advance_open b now m =
     (case mode m of
        Mode_Open opened_at \<Rightarrow>
          if saturating_sub now opened_at \<ge> br_recovery_timeout_ms b
          then m\<lparr>generation := generation m + 1, mode := Mode_HalfOpen 0 0\<rparr>
          else m
      | _ \<Rightarrow> m)"

definition retry_after_ms :: "breaker \<Rightarrow> u64 \<Rightarrow> u64 \<Rightarrow> u64" where
  "retry_after_ms b opened_at now =
     saturating_sub (br_recovery_timeout_ms b) (saturating_sub now opened_at)"

definition snapshot :: "breaker \<Rightarrow> u64 \<Rightarrow> machine \<Rightarrow> circuit_snapshot \<times> machine" where
  "snapshot b now m =
     (let m' = advance_open b now m
      in (case mode m' of
            Mode_Closed f \<Rightarrow>
              \<lparr>sn_state = CS_Closed, sn_consecutive_failures = f, sn_half_open_successes = 0,
               sn_half_open_in_flight = 0, sn_retry_after_ms = 0\<rparr>
          | Mode_Open opened_at \<Rightarrow>
              \<lparr>sn_state = CS_Open, sn_consecutive_failures = 0, sn_half_open_successes = 0,
               sn_half_open_in_flight = 0, sn_retry_after_ms = retry_after_ms b opened_at now\<rparr>
          | Mode_HalfOpen ok fl \<Rightarrow>
              \<lparr>sn_state = CS_HalfOpen, sn_consecutive_failures = 0, sn_half_open_successes = ok,
               sn_half_open_in_flight = fl, sn_retry_after_ms = 0\<rparr>, m'))"

definition acquire :: "breaker \<Rightarrow> u64 \<Rightarrow> machine \<Rightarrow> (circuit_rejected + permit) \<times> machine" where
  "acquire b now m =
     (let m' = advance_open b now m
      in case mode m' of
           Mode_Closed _ \<Rightarrow> (Inr \<lparr>pm_generation = generation m', pm_state = CS_Closed\<rparr>, m')
         | Mode_Open opened_at \<Rightarrow>
             (Inl \<lparr>rj_state = CS_Open, rj_retry_after_ms = retry_after_ms b opened_at now\<rparr>, m')
         | Mode_HalfOpen ok fl \<Rightarrow>
             if saturating_add ok fl \<ge> br_half_open_max_calls b
             then (Inl \<lparr>rj_state = CS_HalfOpen, rj_retry_after_ms = 0\<rparr>, m')
             else (Inr \<lparr>pm_generation = generation m', pm_state = CS_HalfOpen\<rparr>,
                   m'\<lparr>mode := Mode_HalfOpen ok (fl + 1)\<rparr>))"

definition finish_permit :: "breaker \<Rightarrow> u64 \<Rightarrow> permit \<Rightarrow> bool \<Rightarrow> machine \<Rightarrow> machine" where
  "finish_permit b now p unavailable m =
     (if generation m \<noteq> pm_generation p then m
      else case (mode m, pm_state p, unavailable) of
        (Mode_Closed f, CS_Closed, False) \<Rightarrow> m\<lparr>mode := Mode_Closed 0\<rparr>
      | (Mode_Closed f, CS_Closed, True) \<Rightarrow>
          let f' = saturating_add f 1
          in if f' \<ge> br_failure_threshold b
             then m\<lparr>generation := generation m + 1, mode := Mode_Open now\<rparr>
             else m\<lparr>mode := Mode_Closed f'\<rparr>
      | (Mode_HalfOpen ok fl, CS_HalfOpen, False) \<Rightarrow>
          let fl' = saturating_sub fl 1; ok' = saturating_add ok 1
          in if ok' \<ge> br_half_open_max_calls b
             then m\<lparr>generation := generation m + 1, mode := Mode_Closed 0\<rparr>
             else m\<lparr>mode := Mode_HalfOpen ok' fl'\<rparr>
      | (Mode_HalfOpen ok fl, CS_HalfOpen, True) \<Rightarrow>
          m\<lparr>generation := generation m + 1, mode := Mode_Open now\<rparr>
      | _ \<Rightarrow> m)"

text \<open>\<open>CircuitPermit::drop\<close> of a permit that was not finished.\<close>

definition exclude :: "permit \<Rightarrow> machine \<Rightarrow> machine" where
  "exclude p m =
     (if pm_state p \<noteq> CS_HalfOpen \<or> generation m \<noteq> pm_generation p then m
      else case mode m of
             Mode_HalfOpen ok fl \<Rightarrow> m\<lparr>mode := Mode_HalfOpen ok (saturating_sub fl 1)\<rparr>
           | _ \<Rightarrow> m)"

section \<open>Runs\<close>

text \<open>The machine with the permits that are out. A report or a drop consumes a permit.\<close>

datatype circuit_event = Ev_Acquire u64 | Ev_Finish nat u64 bool | Ev_Drop nat | Ev_Look u64

fun circuit_exec :: "breaker \<Rightarrow> circuit_event \<Rightarrow> machine \<times> permit list \<Rightarrow> machine \<times> permit list" where
  "circuit_exec b (Ev_Acquire now) (m, ps) =
     (case acquire b now m of (Inl _, m') \<Rightarrow> (m', ps) | (Inr p, m') \<Rightarrow> (m', p # ps))"
| "circuit_exec b (Ev_Finish i now unavailable) (m, ps) =
     (if i < length ps
      then (finish_permit b now (ps ! i) unavailable m, take i ps @ drop (Suc i) ps) else (m, ps))"
| "circuit_exec b (Ev_Drop i) (m, ps) =
     (if i < length ps then (exclude (ps ! i) m, take i ps @ drop (Suc i) ps) else (m, ps))"
| "circuit_exec b (Ev_Look now) (m, ps) = (snd (snapshot b now m), ps)"

definition circuit_run :: "breaker \<Rightarrow> machine \<Rightarrow> circuit_event list \<Rightarrow> machine \<times> permit list" where
  "circuit_run b m evs = foldl (\<lambda>s e. circuit_exec b e s) (m, []) evs"

text \<open>The probes of the current phase that are out.\<close>

definition probes_out :: "machine \<times> permit list \<Rightarrow> nat" where
  "probes_out s =
     length (filter (\<lambda>p. pm_state p = CS_HalfOpen \<and> pm_generation p = generation (fst s)) (snd s))"

section \<open>The invariant\<close>

text \<open>
  \<open>n\<close> counts the phases so far; every permit out was given in one of them, and the generations
  are those counts modulo the word. The count of probes in flight is exact.
\<close>

definition phase_ok :: "breaker \<Rightarrow> nat \<Rightarrow> machine \<times> permit list \<Rightarrow> bool" where
  "phase_ok b n s \<longleftrightarrow>
     generation (fst s) = of_nat n \<and>
     (\<forall>p \<in> set (snd s). \<exists>k \<le> n. pm_generation p = of_nat k) \<and>
     (case mode (fst s) of
        Mode_Closed f \<Rightarrow> unat f < unat (br_failure_threshold b) \<and> probes_out s = 0
      | Mode_Open _ \<Rightarrow> probes_out s = 0
      | Mode_HalfOpen ok fl \<Rightarrow>
          unat fl = probes_out s \<and> unat ok < unat (br_half_open_max_calls b) \<and>
          unat ok + unat fl \<le> unat (br_half_open_max_calls b))"

definition breaker_ok :: "breaker \<Rightarrow> bool" where
  "breaker_ok b \<longleftrightarrow> 0 < br_failure_threshold b \<and> 0 < br_half_open_max_calls b \<and>
     0 < br_recovery_timeout_ms b"

lemma breaker_new_ok: "breaker_new c = Inr (b, m) \<Longrightarrow> breaker_ok b \<and> m = \<lparr>generation = 0, mode = Mode_Closed 0\<rparr>"
proof -
  assume a: "breaker_new c = Inr (b, m)"
  then have t: "as_millis (recovery_timeout c) < 2 ^ 64" "0 < as_millis (recovery_timeout c)"
    by (simp_all add: breaker_new_def)
  then have "unat (of_nat (as_millis (recovery_timeout c)) :: u64) = as_millis (recovery_timeout c)"
    by (simp add: unat_of_nat)
  with t(2) have "(0 :: u64) < of_nat (as_millis (recovery_timeout c))"
    by (simp add: word_less_nat_alt)
  with a show ?thesis by (auto simp: breaker_new_def breaker_ok_def word_neq_0_conv)
qed

lemma length_filter_remove:
  assumes "i < length ps"
  shows "length (filter P ps) =
    length (filter P (take i ps @ drop (Suc i) ps)) + (if P (ps ! i) then 1 else 0)"
  using arg_cong [OF id_take_nth_drop [OF assms], of "\<lambda>xs. length (filter P xs)"] by simp

lemma set_remove: "set (take i ps @ drop (Suc i) ps) \<subseteq> set ps"
  using set_take_subset [of i ps] set_drop_subset [of "Suc i" ps] by auto

lemma phase_probes_new:
  assumes "phase_ok b n (m, ps)" "Suc n < 2 ^ 64" "set ps' \<subseteq> set ps" "generation m' = generation m + 1"
  shows "probes_out (m', ps') = 0" "generation m' = of_nat (Suc n)"
    "\<forall>p \<in> set ps'. \<exists>k \<le> Suc n. pm_generation p = of_nat k"
proof -
  from assms(1,4) show g: "generation m' = of_nat (Suc n)" by (simp add: phase_ok_def)
  have old: "\<exists>k \<le> n. pm_generation p = of_nat k" if "p \<in> set ps'" for p
    using assms(1,3) that by (auto simp: phase_ok_def)
  have "pm_generation p \<noteq> of_nat (Suc n)" if "p \<in> set ps'" for p
  proof
    assume eq: "pm_generation p = of_nat (Suc n)"
    from old [OF that] obtain k where k: "k \<le> n" "pm_generation p = of_nat k" by blast
    have "unat (of_nat k :: u64) = k" "unat (of_nat (Suc n) :: u64) = Suc n"
      using k(1) assms(2) by (simp_all add: unat_of_nat del: of_nat_Suc)
    with eq k show False by simp
  qed
  with g show "probes_out (m', ps') = 0" by (auto simp: probes_out_def filter_empty_conv)
  show "\<forall>p \<in> set ps'. \<exists>k \<le> Suc n. pm_generation p = of_nat k" using old le_SucI by blast
qed

lemma probes_out_Cons:
  "probes_out (m, p # ps) =
     (if pm_state p = CS_HalfOpen \<and> pm_generation p = generation m then 1 else 0) + probes_out (m, ps)"
  by (simp add: probes_out_def)

lemma probes_out_cong: "generation m' = generation m \<Longrightarrow> probes_out (m', ps) = probes_out (m, ps)"
  by (simp add: probes_out_def)

text \<open>A state within the same phase, or at the start of the next one.\<close>

lemma phase_okI:
  assumes "phase_ok b n (m, ps)" "Suc n < 2 ^ 64" "set ps' \<subseteq> set ps" "generation m' = generation m + 1"
    and "mode m' = Mode_Closed 0 \<and> 0 < br_failure_threshold b \<or> (\<exists>t. mode m' = Mode_Open t) \<or>
         mode m' = Mode_HalfOpen 0 0 \<and> 0 < br_half_open_max_calls b"
  shows "phase_ok b (Suc n) (m', ps')"
  using phase_probes_new [OF assms(1-4)] assms(5)
  by (auto simp: phase_ok_def word_less_nat_alt)

lemma advance_open_ok:
  assumes "phase_ok b n (m, ps)" "Suc n < 2 ^ 64" "breaker_ok b"
  shows "\<exists>k \<le> Suc n. phase_ok b k (advance_open b now m, ps)"
proof (cases "\<exists>t. mode m = Mode_Open t \<and> br_recovery_timeout_ms b \<le> saturating_sub now t")
  case True
  then obtain t where t: "mode m = Mode_Open t" "br_recovery_timeout_ms b \<le> saturating_sub now t" by blast
  then have eq: "advance_open b now m = m\<lparr>generation := generation m + 1, mode := Mode_HalfOpen 0 0\<rparr>"
    by (simp add: advance_open_def)
  have "phase_ok b (Suc n) (advance_open b now m, ps)"
    unfolding eq by (rule phase_okI [OF assms(1,2)]) (use assms(3) in \<open>simp_all add: breaker_ok_def\<close>)
  with t show ?thesis by auto
next
  case False
  then have "advance_open b now m = m" by (auto simp: advance_open_def split: mode.splits)
  with assms(1) show ?thesis by (auto intro: le_SucI)
qed

lemma acquire_ok:
  assumes "phase_ok b n (m, ps)" "Suc n < 2 ^ 64" "breaker_ok b"
  shows "\<exists>k \<le> Suc n. phase_ok b k (circuit_exec b (Ev_Acquire now) (m, ps))"
proof -
  define m1 where "m1 = advance_open b now m"
  from advance_open_ok [OF assms] obtain k where k: "k \<le> Suc n" "phase_ok b k (m1, ps)"
    by (auto simp: m1_def)
  then have g: "generation m1 = of_nat k" by (simp add: phase_ok_def)
  have "phase_ok b k (circuit_exec b (Ev_Acquire now) (m, ps))"
  proof (cases "mode m1")
    case (Mode_Closed f)
    with k(2) g show ?thesis
      by (auto simp: acquire_def m1_def [symmetric] Let_def phase_ok_def probes_out_Cons)
  next
    case (Mode_Open t)
    with k(2) show ?thesis by (simp add: acquire_def m1_def [symmetric] Let_def)
  next
    case (Mode_HalfOpen ok fl)
    show ?thesis
    proof (cases "br_half_open_max_calls b \<le> saturating_add ok fl")
      case True
      with Mode_HalfOpen k(2) show ?thesis by (simp add: acquire_def m1_def [symmetric] Let_def)
    next
      case False
      then have lt: "unat ok + unat fl < unat (br_half_open_max_calls b)"
        using unsigned_less [where ?'a = nat, of "br_half_open_max_calls b"]
        by (auto simp: word_le_nat_alt unat_saturating_add not_le)
      then have "unat (fl + 1) = Suc (unat fl)"
        using unsigned_less [where ?'a = nat, of "br_half_open_max_calls b"] by (simp add: unat_word_ariths)
      with Mode_HalfOpen False k(2) g lt show ?thesis
        by (auto simp: acquire_def m1_def [symmetric] Let_def phase_ok_def probes_out_Cons
            probes_out_cong [of "m1\<lparr>mode := _\<rparr>" m1])
    qed
  qed
  with k(1) show ?thesis by blast
qed

lemma phase_remove:
  assumes "phase_ok b n (m, ps)" "i < length ps"
  defines "ps' \<equiv> take i ps @ drop (Suc i) ps"
  shows "\<forall>p \<in> set ps'. \<exists>k \<le> n. pm_generation p = of_nat k"
    and "probes_out (m, ps) = probes_out (m, ps') +
      (if pm_state (ps ! i) = CS_HalfOpen \<and> pm_generation (ps ! i) = generation m then 1 else 0)"
proof -
  show "\<forall>p \<in> set ps'. \<exists>k \<le> n. pm_generation p = of_nat k"
    using assms(1) set_remove [of i ps] unfolding ps'_def phase_ok_def by (metis snd_conv subsetD)
  show "probes_out (m, ps) = probes_out (m, ps') +
      (if pm_state (ps ! i) = CS_HalfOpen \<and> pm_generation (ps ! i) = generation m then 1 else 0)"
    using length_filter_remove [OF assms(2)] by (simp add: probes_out_def ps'_def)
qed

lemma drop_ok:
  assumes "phase_ok b n (m, ps)"
  shows "phase_ok b n (circuit_exec b (Ev_Drop i) (m, ps))"
proof (cases "i < length ps")
  case True
  let ?ps = "take i ps @ drop (Suc i) ps"
  note r = phase_remove [OF assms True]
  have "generation (exclude (ps ! i) m) = generation m"
    by (simp add: exclude_def split: mode.split)
  with r assms True show ?thesis
    by (cases "mode m")
      (auto simp: phase_ok_def exclude_def unat_saturating_sub probes_out_cong [of "m\<lparr>mode := _\<rparr>" m])
qed (use assms in simp)

lemma unat_bump: "unat (saturating_add f 1) = min (Suc (unat f)) (2 ^ 32 - 1)" for f :: u32
  by (simp add: unat_saturating_add)

lemma bump_below: "\<not> t \<le> saturating_add f 1 \<Longrightarrow> unat (saturating_add f 1) = Suc (unat f) \<and> Suc (unat f) < unat t"
  for f t :: u32
  using unsigned_less [where ?'a = nat, of t] by (auto simp: word_le_nat_alt unat_bump)

lemma finish_ok:
  assumes "phase_ok b n (m, ps)" "Suc n < 2 ^ 64" "breaker_ok b"
  shows "\<exists>k \<le> Suc n. phase_ok b k (circuit_exec b (Ev_Finish i now unavailable) (m, ps))"
proof (cases "i < length ps")
  case False
  with assms(1) show ?thesis by (auto intro: le_SucI)
next
  case True
  define p where "p = ps ! i"
  let ?ps = "take i ps @ drop (Suc i) ps"
  have ex: "circuit_exec b (Ev_Finish i now unavailable) (m, ps) = (finish_permit b now p unavailable m, ?ps)"
    using True by (simp add: p_def)
  note r = phase_remove [OF assms(1) True, folded p_def]
  have new: "phase_ok b (Suc n) (m\<lparr>generation := generation m + 1, mode := x\<rparr>, ?ps)"
    if "x = Mode_Closed 0 \<or> x = Mode_Open now" for x
    by (rule phase_okI [OF assms(1,2) set_remove]) (use that assms(3) in \<open>auto simp: breaker_ok_def\<close>)
  have same: "phase_ok b n (m, ?ps)"
    if "\<not> (pm_state p = CS_HalfOpen \<and> pm_generation p = generation m) \<or> (\<forall>ok fl. mode m \<noteq> Mode_HalfOpen ok fl)"
    using assms(1) r that by (cases "mode m") (auto simp: phase_ok_def split: if_splits)
  have "phase_ok b n (finish_permit b now p unavailable m, ?ps) \<or>
      phase_ok b (Suc n) (finish_permit b now p unavailable m, ?ps)"
  proof (cases "generation m = pm_generation p")
    case False
    then show ?thesis using same by (auto simp: finish_permit_def)
  next
    case g: True
    show ?thesis
    proof (cases "mode m")
      case (Mode_Closed f)
      have "phase_ok b n (m\<lparr>mode := Mode_Closed x\<rparr>, ?ps)" if "unat x < unat (br_failure_threshold b)" for x
        using same that Mode_Closed by (simp add: phase_ok_def probes_out_cong [of "m\<lparr>mode := _\<rparr>" m])
      then show ?thesis
        using same new Mode_Closed g bump_below [of "br_failure_threshold b" f] assms(3)
        by (cases "pm_state p"; cases unavailable)
          (auto simp: finish_permit_def Let_def breaker_ok_def word_less_nat_alt)
    next
      case (Mode_Open t)
      then show ?thesis using same by (simp add: finish_permit_def)
    next
      case (Mode_HalfOpen ok fl)
      show ?thesis
      proof (cases "pm_state p = CS_HalfOpen \<and> \<not> unavailable \<and> \<not> br_half_open_max_calls b \<le> saturating_add ok 1")
        case False
        then show ?thesis
          using same new Mode_HalfOpen g
          by (cases "pm_state p"; cases unavailable) (auto simp: finish_permit_def Let_def)
      next
        case True
        have "phase_ok b n (m\<lparr>mode := Mode_HalfOpen (saturating_add ok 1) (saturating_sub fl 1)\<rparr>, ?ps)"
          using assms(1) r True Mode_HalfOpen g bump_below [of "br_half_open_max_calls b" ok]
          by (simp add: phase_ok_def unat_saturating_sub probes_out_cong [of "m\<lparr>mode := _\<rparr>" m])
        with True Mode_HalfOpen g show ?thesis by (simp add: finish_permit_def Let_def)
      qed
    qed
  qed
  with ex show ?thesis by (metis le_SucI le_refl)
qed

lemma look_ok:
  assumes "phase_ok b n (m, ps)" "Suc n < 2 ^ 64" "breaker_ok b"
  shows "\<exists>k \<le> Suc n. phase_ok b k (circuit_exec b (Ev_Look now) (m, ps))"
  using advance_open_ok [OF assms, of now] by (simp add: snapshot_def Let_def)

lemma circuit_exec_ok:
  assumes "phase_ok b n s" "Suc n < 2 ^ 64" "breaker_ok b"
  shows "\<exists>k \<le> Suc n. phase_ok b k (circuit_exec b e s)"
proof -
  obtain m ps where "s = (m, ps)" by (cases s)
  with assms show ?thesis
    using acquire_ok [of b n m ps] finish_ok [of b n m ps] drop_ok [of b n m ps] look_ok [of b n m ps]
    by (cases e) (auto simp del: circuit_exec.simps intro: le_SucI)
qed

lemma circuit_run_ok:
  assumes "phase_ok b n s" "n + length evs < 2 ^ 64" "breaker_ok b"
  shows "\<exists>k \<le> n + length evs. phase_ok b k (foldl (\<lambda>s e. circuit_exec b e s) s evs)"
  using assms
proof (induction evs arbitrary: n s)
  case (Cons e evs)
  then have "Suc n < 2 ^ 64" by simp
  from circuit_exec_ok [OF Cons.prems(1) this Cons.prems(3), of e] obtain k where
    k: "k \<le> Suc n" "phase_ok b k (circuit_exec b e s)" by blast
  with Cons.prems(2) have "k + length evs < 2 ^ 64" by simp
  from Cons.IH [OF k(2) this Cons.prems(3)] obtain j where "j \<le> k + length evs"
    "phase_ok b j (foldl (\<lambda>s e. circuit_exec b e s) s (e # evs))" by auto
  with k(1) show ?case by (intro exI [of _ j]) simp
qed auto

section \<open>Properties\<close>

text \<open>C36. However the holders of permits interleave, report late, or drop their permits, a circuit
  that is half open never has more probes out than it may, and it counts them exactly: a dropped
  or stale permit neither leaks a slot nor frees one twice. A closed circuit is always below its
  failure threshold. The bound on the length of the run keeps the generation from wrapping.\<close>

theorem circuit_probes_bounded:
  assumes "breaker_new c = Inr (b, m0)" "length evs < 2 ^ 64" "circuit_run b m0 evs = (m, ps)"
  shows "case mode m of
      Mode_Closed f \<Rightarrow> f < failure_threshold c \<and> probes_out (m, ps) = 0
    | Mode_Open _ \<Rightarrow> probes_out (m, ps) = 0
    | Mode_HalfOpen ok fl \<Rightarrow>
        unat fl = probes_out (m, ps) \<and> unat ok + probes_out (m, ps) \<le> unat (half_open_max_calls c)"
proof -
  from breaker_new_ok [OF assms(1)] have b: "breaker_ok b" and m0: "m0 = \<lparr>generation = 0, mode = Mode_Closed 0\<rparr>"
    by simp_all
  from assms(1) have c: "br_failure_threshold b = failure_threshold c"
    "br_half_open_max_calls b = half_open_max_calls c" by (auto simp: breaker_new_def)
  have "phase_ok b 0 (m0, [])"
    using b m0 by (simp add: phase_ok_def probes_out_def breaker_ok_def word_less_nat_alt)
  from circuit_run_ok [OF this _ b, of evs] assms(2,3) obtain k where "phase_ok b k (m, ps)"
    by (auto simp: circuit_run_def)
  with c show ?thesis by (auto simp: phase_ok_def word_less_nat_alt split: mode.split)
qed

text \<open>One probe that succeeds.\<close>

definition probe_ok :: "breaker \<Rightarrow> machine \<Rightarrow> u64 \<Rightarrow> machine" where
  "probe_ok b m now =
     (case acquire b now m of (Inl _, m') \<Rightarrow> m' | (Inr p, m') \<Rightarrow> finish_permit b now p False m')"

lemma probe_ok_half_open:
  assumes "mode m = Mode_HalfOpen ok 0" "ok < br_half_open_max_calls b"
  shows "mode (probe_ok b m now) =
    (if br_half_open_max_calls b \<le> saturating_add ok 1 then Mode_Closed 0
     else Mode_HalfOpen (saturating_add ok 1) 0)"
proof -
  have "saturating_add ok 0 = ok" by (rule word_unat_eq_iff [THEN iffD2])
      (use unsigned_less [where ?'a = nat, of ok] in \<open>simp add: unat_saturating_add\<close>)
  with assms show ?thesis
    by (simp add: probe_ok_def acquire_def advance_open_def Let_def finish_permit_def saturating_sub_def
        not_le [symmetric])
qed

lemma probes_close:
  "mode m = Mode_HalfOpen ok 0 \<Longrightarrow> unat ok + length nows = unat (br_half_open_max_calls b) \<Longrightarrow>
   nows \<noteq> [] \<Longrightarrow> mode (foldl (probe_ok b) m nows) = Mode_Closed 0"
proof (induction nows arbitrary: m ok)
  case (Cons now nows)
  have lt: "ok < br_half_open_max_calls b" using Cons.prems by (simp add: word_less_nat_alt)
  note step = probe_ok_half_open [OF Cons.prems(1) lt, of now]
  show ?case
  proof (cases "br_half_open_max_calls b \<le> saturating_add ok 1")
    case True
    then have "unat (br_half_open_max_calls b) \<le> Suc (unat ok)"
      by (simp add: word_le_nat_alt unat_bump)
    with Cons.prems(2) have "nows = []" by (cases nows) simp_all
    with True step show ?thesis by simp
  next
    case False
    from bump_below [OF False] Cons.prems(2) have "nows \<noteq> []" by auto
    moreover from bump_below [OF False] Cons.prems(2)
    have "unat (saturating_add ok 1) + length nows = unat (br_half_open_max_calls b)" by simp
    ultimately show ?thesis using Cons.IH step False by simp
  qed
qed simp

text \<open>An open circuit refuses every call until its recovery time has passed, telling exactly how
  long is left, and then always recovers: as many successful probes as the configuration asks
  for, one after the other, close it with no failure counted.\<close>

theorem circuit_open_recovers:
  assumes "breaker_ok b" "mode m = Mode_Open t"
  shows "(\<forall>now. t \<le> now \<and> unat now < unat t + unat (br_recovery_timeout_ms b) \<longrightarrow>
      (\<exists>left. acquire b now m = (Inl \<lparr>rj_state = CS_Open, rj_retry_after_ms = left\<rparr>, m) \<and>
        unat now + unat left = unat t + unat (br_recovery_timeout_ms b))) \<and>
    (\<forall>now nows. unat t + unat (br_recovery_timeout_ms b) \<le> unat now \<and>
      Suc (length nows) = unat (br_half_open_max_calls b) \<longrightarrow>
      mode (foldl (probe_ok b) m (now # nows)) = Mode_Closed 0)"
proof (intro conjI allI impI)
  fix now
  assume a: "t \<le> now \<and> unat now < unat t + unat (br_recovery_timeout_ms b)"
  then have le: "unat t \<le> unat now" by (simp add: word_le_nat_alt)
  have "advance_open b now m = m"
    using assms(2) a by (auto simp: advance_open_def word_le_nat_alt unat_saturating_sub)
  then have "acquire b now m =
      (Inl \<lparr>rj_state = CS_Open, rj_retry_after_ms = retry_after_ms b t now\<rparr>, m)"
    using assms(2) by (simp add: acquire_def Let_def)
  moreover have "unat now + unat (retry_after_ms b t now) = unat t + unat (br_recovery_timeout_ms b)"
    using a le by (simp add: retry_after_ms_def unat_saturating_sub)
  ultimately show "\<exists>left. acquire b now m = (Inl \<lparr>rj_state = CS_Open, rj_retry_after_ms = left\<rparr>, m) \<and>
      unat now + unat left = unat t + unat (br_recovery_timeout_ms b)" by blast
next
  fix now :: u64 and nows :: "u64 list"
  assume a: "unat t + unat (br_recovery_timeout_ms b) \<le> unat now \<and>
    Suc (length nows) = unat (br_half_open_max_calls b)"
  let ?m = "m\<lparr>generation := generation m + 1, mode := Mode_HalfOpen 0 0\<rparr>"
  have adv: "advance_open b now m = ?m" "advance_open b now ?m = ?m"
    using assms(2) a by (auto simp: advance_open_def word_le_nat_alt unat_saturating_sub)
  then have "probe_ok b m now = probe_ok b ?m now" by (simp add: probe_ok_def acquire_def)
  moreover have "mode (foldl (probe_ok b) ?m (now # nows)) = Mode_Closed 0"
    using a by (intro probes_close [where ok = 0]) simp_all
  ultimately show "mode (foldl (probe_ok b) m (now # nows)) = Mode_Closed 0" by simp
qed

section \<open>Witnesses\<close>

definition probe_config :: circuit_breaker_config where
  "probe_config = \<lparr>failure_threshold = 1, recovery_timeout = 1000000, half_open_max_calls = 1\<rparr>"

definition probe_breaker :: breaker where
  "probe_breaker = \<lparr>br_failure_threshold = 1, br_recovery_timeout_ms = 1, br_half_open_max_calls = 1\<rparr>"

lemma probe_breaker_new:
  "breaker_new probe_config = Inr (probe_breaker, \<lparr>generation = 0, mode = Mode_Closed 0\<rparr>)"
  by (simp add: breaker_new_def probe_config_def probe_breaker_def as_millis_def)

theorem circuit_probes_bounded_witness:
  "\<exists>m ps. circuit_run probe_breaker \<lparr>generation = 0, mode = Mode_Closed 0\<rparr>
       [Ev_Acquire 0, Ev_Finish 0 3 True, Ev_Acquire 10, Ev_Acquire 11] = (m, ps) \<and>
     mode m = Mode_HalfOpen 0 1 \<and> probes_out (m, ps) = 1"
proof -
  let ?m = "\<lparr>generation = 2, mode = Mode_HalfOpen 0 1\<rparr>"
  let ?ps = "[\<lparr>pm_generation = 2, pm_state = CS_HalfOpen\<rparr>]"
  have run: "circuit_run probe_breaker \<lparr>generation = 0, mode = Mode_Closed 0\<rparr>
      [Ev_Acquire 0, Ev_Finish 0 3 True, Ev_Acquire 10, Ev_Acquire 11] = (?m, ?ps)"
    by (simp add: circuit_run_def acquire_def advance_open_def finish_permit_def Let_def probe_breaker_def
        saturating_add_def saturating_sub_def)
  from circuit_probes_bounded [OF probe_breaker_new _ run] have "probes_out (?m, ?ps) = 1" by simp
  with run show ?thesis by (intro exI conjI) simp_all
qed

theorem circuit_open_recovers_witness:
  "mode (probe_ok probe_breaker \<lparr>generation = 1, mode = Mode_Open 3\<rparr> 10) = Mode_Closed 0"
proof -
  have "breaker_ok probe_breaker" "mode \<lparr>generation = 1, mode = Mode_Open 3\<rparr> = Mode_Open 3"
    by (simp_all add: breaker_ok_def probe_breaker_def)
  from circuit_open_recovers [OF this, THEN conjunct2, rule_format, of 10 "[]"] show ?thesis
    by (simp add: probe_breaker_def)
qed

end
