(* ===== verification/Text.thy ===== *)
theory Text
  imports Prelude
begin

text \<open>
  The parts of Rust's \<open>str\<close> that the schedule and plugin parsers use and that look at white space
  or at a first delimiter. Strings are bytes, so a white space character is one to three of them:
  the lead bytes of UTF-8 are never continuation bytes, and scanning bytes finds exactly the
  characters.
\<close>

text \<open>The length of the white space character at the front, zero when there is none.\<close>

definition white_len :: "string \<Rightarrow> nat" where
  "white_len s =
     (case map of_char s :: nat list of
        a # r \<Rightarrow>
          if a \<in> {9, 10, 11, 12, 13, 32} then 1
          else (case r of
            b # q \<Rightarrow>
              if a = 194 \<and> b \<in> {133, 160} then 2
              else (case q of
                c # _ \<Rightarrow>
                  if a = 225 \<and> b = 154 \<and> c = 128 \<or>
                     a = 226 \<and> b = 128 \<and> (128 \<le> c \<and> c \<le> 138 \<or> c \<in> {168, 169, 175}) \<or>
                     a = 226 \<and> b = 129 \<and> c = 159 \<or>
                     a = 227 \<and> b = 128 \<and> c = 128 then 3 else 0
              | [] \<Rightarrow> 0)
          | [] \<Rightarrow> 0)
      | [] \<Rightarrow> 0)"

text \<open>\<open>trim_start\<close>, and \<open>trim().is_empty()\<close>.\<close>

fun trim_start :: "string \<Rightarrow> string" where
  "trim_start [] = []"
| "trim_start (c # cs) =
     (if white_len (c # cs) = 0 then c # cs else trim_start (drop (white_len (c # cs) - 1) cs))"

definition all_white_space :: "string \<Rightarrow> bool" where
  "all_white_space s \<longleftrightarrow> trim_start s = []"

text \<open>\<open>find(char::is_whitespace)\<close>: the text before the first white space and the text from it.\<close>

fun split_at_white :: "string \<Rightarrow> string \<times> string" where
  "split_at_white [] = ([], [])"
| "split_at_white (c # cs) =
     (if white_len (c # cs) = 0
      then (case split_at_white cs of (a, b) \<Rightarrow> (c # a, b)) else ([], c # cs))"

text \<open>\<open>split_whitespace\<close>; the accumulator is the word so far, reversed.\<close>

fun words_from :: "string \<Rightarrow> string \<Rightarrow> string list" where
  "words_from acc [] = (if acc = [] then [] else [rev acc])"
| "words_from acc (c # cs) =
     (if white_len (c # cs) = 0 then words_from (c # acc) cs
      else (if acc = [] then [] else [rev acc]) @ words_from [] (drop (white_len (c # cs) - 1) cs))"

definition split_whitespace :: "string \<Rightarrow> string list" where
  "split_whitespace s = words_from [] s"

text \<open>\<open>split_once\<close>.\<close>

fun split_once :: "char \<Rightarrow> string \<Rightarrow> (string \<times> string) option" where
  "split_once d [] = None"
| "split_once d (c # cs) =
     (if c = d then Some ([], cs) else map_option (\<lambda>(a, b). (c # a, b)) (split_once d cs))"

lemma split_once_Some:
  "split_once d s = Some (a, b) \<Longrightarrow> s = a @ d # b \<and> d \<notin> set a"
  by (induction s arbitrary: a) (auto split: if_splits)

lemma split_once_append: "d \<notin> set a \<Longrightarrow> split_once d (a @ d # b) = Some (a, b)"
  by (induction a) auto

lemma split_once_None: "split_once d s = None \<longleftrightarrow> d \<notin> set s"
  by (induction s) auto

end
