(* ===== verification/Client.thy ===== *)
theory Client
  imports Circuit Boundary Trace Text
begin

text \<open>
  The producer stack of src/crates/headgate/src: \<open>client.rs\<close> (authorization, the terminal that
  asks the circuit, calls the store and tells the hooks, and the client bound to a running job),
  \<open>enqueue_middleware.rs\<close> (the chain), \<open>insert_hook.rs\<close> and \<open>plugin.rs\<close>. The store is a
  parameter: a function from the batch and the store's state to the result and the new state.
  A middleware is what it does with the rest of the chain: return, or call it with a request and
  go on with the answer, any number of times.
\<close>

section \<open>Contexts and errors\<close>

datatype enqueue_source = Library | Http

record enqueue_identity =
  subject :: string
  attributes :: "(string \<times> string) list"

record enqueue_context =
  source :: enqueue_source
  ec_identity :: "enqueue_identity option"

definition enqueue_context_default :: enqueue_context where
  "enqueue_context_default = \<lparr>source = Library, ec_identity = None\<rparr>"

datatype client_error =
    Forbidden string
  | CircuitErr circuit_rejected
  | MiddlewareErr string string
  | StoreErr store_error

type_synonym client_result = "client_error + unit"

datatype enqueue_operation = Direct | Transactional

record enqueue_request =
  rq_context :: enqueue_context
  rq_operation :: enqueue_operation
  rq_batch :: "envelope list"

fun authorize_enqueue_batch ::
  "(enqueue_context \<Rightarrow> envelope \<Rightarrow> bool) \<Rightarrow> enqueue_context \<Rightarrow> envelope list \<Rightarrow> string + unit" where
  "authorize_enqueue_batch auth ctx [] = Inr ()"
| "authorize_enqueue_batch auth ctx (e # es) =
     (if \<not> auth ctx e then Inl (kind e) else authorize_enqueue_batch auth ctx es)"

definition is_circuit_failure :: "unit result \<Rightarrow> bool" where
  "is_circuit_failure r = (case r of Inl (Unavailable _) \<Rightarrow> True | _ \<Rightarrow> False)"

section \<open>Hooks and plugins\<close>

datatype insert_outcome =
    Succeeded
  | DuplicateOutcome string bool
  | IdConflictOutcome string
  | RejectedOutcome store_error

definition from_store_result :: "unit result \<Rightarrow> insert_outcome" where
  "from_store_result r =
     (case r of
        Inr _ \<Rightarrow> Succeeded
      | Inl (Duplicate i rep) \<Rightarrow> DuplicateOutcome i rep
      | Inl (IdConflict i) \<Rightarrow> IdConflictOutcome i
      | Inl e \<Rightarrow> RejectedOutcome e)"

datatype hook_event = HookBegin enqueue_request | HookEnd enqueue_request insert_outcome

definition event_attempt :: "hook_event \<Rightarrow> enqueue_request" where
  "event_attempt ev = (case ev of HookBegin a \<Rightarrow> a | HookEnd a _ \<Rightarrow> a)"

datatype plugin_scope = Global | Kinds "string list"

text \<open>\<open>binary_search\<close> on the kinds, which are sorted, is membership.\<close>

definition scope_matches :: "plugin_scope \<Rightarrow> envelope list \<Rightarrow> bool" where
  "scope_matches sc batch =
     (case sc of Global \<Rightarrow> True | Kinds ks \<Rightarrow> list_ex (\<lambda>e. kind e \<in> set ks) batch)"

definition is_global :: "plugin_scope \<Rightarrow> bool" where
  "is_global sc = (case sc of Global \<Rightarrow> True | Kinds _ \<Rightarrow> False)"

text \<open>A hook is named by a number; a group is the hook a plugin installs.\<close>

datatype hook = Hook nat | HookGroup plugin_scope "hook list"

fun on_insert :: "hook \<Rightarrow> hook_event \<Rightarrow> (nat \<times> hook_event) list" where
  "on_insert (Hook n) ev = [(n, ev)]"
| "on_insert (HookGroup sc hs) ev =
     (if scope_matches sc (rq_batch (event_attempt ev))
      then concat (map (\<lambda>h. on_insert h ev) hs) else [])"

text \<open>What a middleware does: answer, or run the rest of the chain and go on.\<close>

datatype mw_prog = Answer client_result | Run enqueue_request "client_result \<Rightarrow> mw_prog"

datatype middleware = Middleware "enqueue_request \<Rightarrow> mw_prog" | MiddlewareGroup plugin_scope "middleware list"

type_synonym 'w continuation = "enqueue_request \<Rightarrow> 'w \<Rightarrow> client_result \<times> 'w"

primrec interp :: "'w continuation \<Rightarrow> mw_prog \<Rightarrow> 'w \<Rightarrow> client_result \<times> 'w" where
  "interp nxt (Answer r) w = (r, w)"
| "interp nxt (Run req k) w = (case nxt req w of (r, w') \<Rightarrow> interp nxt (k r) w')"

text \<open>\<open>EnqueueNext::run\<close> and \<open>EnqueueMiddleware::handle\<close>.\<close>

fun handle :: "middleware \<Rightarrow> 'w continuation \<Rightarrow> 'w continuation" and run_chain :: "middleware list \<Rightarrow> 'w continuation \<Rightarrow> 'w continuation" where
  "handle (Middleware f) nxt req w = interp nxt (f req) w"
| "handle (MiddlewareGroup sc ms) nxt req w =
     (if \<not> scope_matches sc (rq_batch req) then nxt req w else run_chain ms nxt req w)"
| "run_chain [] terminal req w = terminal req w"
| "run_chain (m # ms) terminal req w = handle m (\<lambda>r v. run_chain ms terminal r v) req w"

datatype plugin_config_error = EmptyName | EmptyKinds | InvalidKind string string

record plugin =
  pl_name :: string
  pl_scope :: plugin_scope
  pl_middlewares :: "middleware list"
  pl_hooks :: "hook list"

definition plugin_new :: "string \<Rightarrow> plugin_scope \<Rightarrow> plugin_config_error + plugin" where
  "plugin_new name sc =
     (if all_white_space name then Inl EmptyName
      else Inr \<lparr>pl_name = name, pl_scope = sc, pl_middlewares = [], pl_hooks = []\<rparr>)"

definition plugin_global :: "string \<Rightarrow> plugin_config_error + plugin" where
  "plugin_global name = plugin_new name Global"

fun check_plugin_kinds :: "string list \<Rightarrow> plugin_config_error option" where
  "check_plugin_kinds [] = None"
| "check_plugin_kinds (k # ks) =
     (case validate_kind k of Inl reason \<Rightarrow> Some (InvalidKind k reason) | Inr _ \<Rightarrow> check_plugin_kinds ks)"

definition plugin_for_kinds :: "string \<Rightarrow> string list \<Rightarrow> plugin_config_error + plugin" where
  "plugin_for_kinds name kinds =
     (let ks = sort_dedup kinds
      in if ks = [] then Inl EmptyKinds
         else case check_plugin_kinds ks of
                Some e \<Rightarrow> Inl e
              | None \<Rightarrow> plugin_new name (Kinds ks))"

definition middleware_group :: "plugin \<Rightarrow> middleware option" where
  "middleware_group p =
     (if pl_middlewares p = [] then None else Some (MiddlewareGroup (pl_scope p) (pl_middlewares p)))"

definition hook_group :: "plugin \<Rightarrow> hook option" where
  "hook_group p = (if pl_hooks p = [] then None else Some (HookGroup (pl_scope p) (pl_hooks p)))"

section \<open>The client\<close>

record client =
  authorizer :: "enqueue_context \<Rightarrow> envelope \<Rightarrow> bool"
  circuit_breaker :: "breaker option"
  middlewares :: "middleware list"
  insert_hooks :: "hook list"
  global_plugin_middlewares :: "middleware list"
  scoped_plugin_middlewares :: "middleware list"
  global_plugin_hooks :: "hook list"
  scoped_plugin_hooks :: "hook list"

definition client_new :: client where
  "client_new =
     \<lparr>authorizer = (\<lambda>_ _. True), circuit_breaker = None, middlewares = [], insert_hooks = [],
      global_plugin_middlewares = [], scoped_plugin_middlewares = [], global_plugin_hooks = [],
      scoped_plugin_hooks = []\<rparr>"

definition with_plugin :: "plugin \<Rightarrow> client \<Rightarrow> client" where
  "with_plugin p c =
     (let g = is_global (pl_scope p);
          c1 = (case middleware_group p of
                  None \<Rightarrow> c
                | Some m \<Rightarrow>
                    if g then c\<lparr>global_plugin_middlewares := global_plugin_middlewares c @ [m]\<rparr>
                    else c\<lparr>scoped_plugin_middlewares := scoped_plugin_middlewares c @ [m]\<rparr>)
      in case hook_group p of
           None \<Rightarrow> c1
         | Some h \<Rightarrow>
             if g then c1\<lparr>global_plugin_hooks := global_plugin_hooks c1 @ [h]\<rparr>
             else c1\<lparr>scoped_plugin_hooks := scoped_plugin_hooks c1 @ [h]\<rparr>)"

definition middleware_chain :: "client \<Rightarrow> middleware list" where
  "middleware_chain c = middlewares c @ global_plugin_middlewares c @ scoped_plugin_middlewares c"

definition hook_chain :: "client \<Rightarrow> hook list" where
  "hook_chain c = insert_hooks c @ global_plugin_hooks c @ scoped_plugin_hooks c"

text \<open>What a call touches: the store, the circuit, the clock readings taken so far, and what the
  hooks were told.\<close>

record 's world =
  w_store :: 's
  w_machine :: machine
  w_reads :: nat
  w_log :: "(nat \<times> hook_event) list"

definition emit :: "client \<Rightarrow> hook_event \<Rightarrow> 's world \<Rightarrow> 's world" where
  "emit c ev w = w\<lparr>w_log := w_log w @ concat (map (\<lambda>h. on_insert h ev) (hook_chain c))\<rparr>"

text \<open>The terminal of both operations; \<open>store\<close> is what the operation calls.\<close>

definition call_store ::
  "client \<Rightarrow> (nat \<Rightarrow> u64) \<Rightarrow> (envelope list \<Rightarrow> 's \<Rightarrow> unit result \<times> 's) \<Rightarrow> enqueue_request
    \<Rightarrow> permit option \<Rightarrow> 's world \<Rightarrow> client_result \<times> 's world" where
  "call_store c clk store req pm w =
     (let w1 = emit c (HookBegin req) w
      in case store (rq_batch req) (w_store w1) of
           (r, s') \<Rightarrow>
             let w2 = w1\<lparr>w_store := s'\<rparr>;
                 w3 = (case (pm, circuit_breaker c) of
                         (Some p, Some b) \<Rightarrow>
                           w2\<lparr>w_machine := finish_permit b (clk (w_reads w2)) p (is_circuit_failure r)
                                (w_machine w2), w_reads := w_reads w2 + 1\<rparr>
                       | _ \<Rightarrow> w2);
                 w4 = emit c (HookEnd req (from_store_result r)) w3
             in (case r of Inl e \<Rightarrow> Inl (StoreErr e) | Inr _ \<Rightarrow> Inr (), w4))"

definition with_permit ::
  "client \<Rightarrow> (nat \<Rightarrow> u64) \<Rightarrow> (permit option \<Rightarrow> 's world \<Rightarrow> client_result \<times> 's world)
    \<Rightarrow> 's world \<Rightarrow> client_result \<times> 's world" where
  "with_permit c clk k w =
     (case circuit_breaker c of
        None \<Rightarrow> k None w
      | Some b \<Rightarrow>
          (case acquire b (clk (w_reads w)) (w_machine w) of
             (Inl rj, m') \<Rightarrow> (Inl (CircuitErr rj), w\<lparr>w_machine := m', w_reads := w_reads w + 1\<rparr>)
           | (Inr p, m') \<Rightarrow> k (Some p) (w\<lparr>w_machine := m', w_reads := w_reads w + 1\<rparr>)))"

definition enqueue_terminal ::
  "client \<Rightarrow> (nat \<Rightarrow> u64) \<Rightarrow> (envelope list \<Rightarrow> 's \<Rightarrow> unit result \<times> 's) \<Rightarrow> 's world continuation" where
  "enqueue_terminal c clk store req w =
     (case authorize_enqueue_batch (authorizer c) (rq_context req) (rq_batch req) of
        Inl k \<Rightarrow> (Inl (Forbidden k), w)
      | Inr _ \<Rightarrow> with_permit c clk (call_store c clk store req) w)"

definition enqueue_with_context ::
  "client \<Rightarrow> (nat \<Rightarrow> u64) \<Rightarrow> (envelope list \<Rightarrow> 's \<Rightarrow> unit result \<times> 's) \<Rightarrow> enqueue_context
    \<Rightarrow> envelope list \<Rightarrow> 's world \<Rightarrow> client_result \<times> 's world" where
  "enqueue_with_context c clk store ctx batch w =
     run_chain (middleware_chain c) (enqueue_terminal c clk store)
       \<lparr>rq_context = ctx, rq_operation = Direct, rq_batch = batch\<rparr> w"

definition client_enqueue ::
  "client \<Rightarrow> (nat \<Rightarrow> u64) \<Rightarrow> (envelope list \<Rightarrow> 's \<Rightarrow> unit result \<times> 's) \<Rightarrow> envelope list
    \<Rightarrow> 's world \<Rightarrow> client_result \<times> 's world" where
  "client_enqueue c clk store = enqueue_with_context c clk store enqueue_context_default"

text \<open>The transactional variant; a store without transactions has no such operation.\<close>

definition enqueue_tx_terminal ::
  "client \<Rightarrow> (nat \<Rightarrow> u64) \<Rightarrow> (envelope list \<Rightarrow> 's \<Rightarrow> unit result \<times> 's) option \<Rightarrow> 's world continuation" where
  "enqueue_tx_terminal c clk tx_store req w =
     (case authorize_enqueue_batch (authorizer c) (rq_context req) (rq_batch req) of
        Inl k \<Rightarrow> (Inl (Forbidden k), w)
      | Inr _ \<Rightarrow>
          (case tx_store of
             None \<Rightarrow> (Inl (StoreErr (Invalid ''transactional enqueue is unsupported by this store'')), w)
           | Some store \<Rightarrow> with_permit c clk (call_store c clk store req) w))"

definition enqueue_tx_with_context ::
  "client \<Rightarrow> (nat \<Rightarrow> u64) \<Rightarrow> (envelope list \<Rightarrow> 's \<Rightarrow> unit result \<times> 's) option \<Rightarrow> enqueue_context
    \<Rightarrow> envelope list \<Rightarrow> 's world \<Rightarrow> client_result \<times> 's world" where
  "enqueue_tx_with_context c clk tx_store ctx batch w =
     run_chain (middleware_chain c) (enqueue_tx_terminal c clk tx_store)
       \<lparr>rq_context = ctx, rq_operation = Transactional, rq_batch = batch\<rparr> w"

section \<open>The client of a running job\<close>

datatype job_client_error = JobCancelled | JobClientErr client_error

definition entry_or_insert :: "string \<Rightarrow> string \<Rightarrow> (string \<times> string) list \<Rightarrow> (string \<times> string) list" where
  "entry_or_insert k v hs =
     (if map_of hs k \<noteq> None then hs
      else takeWhile (\<lambda>(k', _). k' < k) hs @ (k, v) # dropWhile (\<lambda>(k', _). k' < k) hs)"

definition inherit_trace :: "trace_context option \<Rightarrow> envelope \<Rightarrow> envelope" where
  "inherit_trace tr e =
     (case tr of
        None \<Rightarrow> e
      | Some t \<Rightarrow>
          let hs = entry_or_insert TRACEPARENT (to_traceparent t) (headers e)
          in e\<lparr>headers := (if trace_state t \<noteq> [] then entry_or_insert TRACESTATE (trace_state t) hs else hs)\<rparr>)"

definition job_client_enqueue ::
  "client \<Rightarrow> (nat \<Rightarrow> u64) \<Rightarrow> (envelope list \<Rightarrow> 's \<Rightarrow> unit result \<times> 's) \<Rightarrow> trace_context option \<Rightarrow> bool
    \<Rightarrow> envelope list \<Rightarrow> 's world \<Rightarrow> (job_client_error + unit) \<times> 's world" where
  "job_client_enqueue c clk store tr canceled batch w =
     (if canceled then (Inl JobCancelled, w)
      else case client_enqueue c clk store (map (inherit_trace tr) batch) w of
             (Inl e, w') \<Rightarrow> (Inl (JobClientErr e), w')
           | (Inr _, w') \<Rightarrow> (Inr (), w'))"

section \<open>What every chain keeps\<close>

text \<open>A relation that the terminal keeps and that composes is kept by every chain around it.\<close>

lemma interp_keeps:
  assumes "\<And>req w. R w (snd (nxt req w))" "\<And>w. R w w" "\<And>u v w. R u v \<Longrightarrow> R v w \<Longrightarrow> R u w"
  shows "R w (snd (interp nxt p w))"
proof (induction p arbitrary: w)
  case (Answer r)
  then show ?case by (simp add: assms(2))
next
  case (Run req k)
  obtain r w' where n: "nxt req w = (r, w')" by fastforce
  then have "R w w'" using assms(1) [of w req] by simp
  moreover have "R w' (snd (interp nxt (k r) w'))" using Run by simp
  ultimately show ?case using n assms(3) by auto
qed

lemma chain_keeps:
  assumes "\<And>w. R w w" "\<And>u v w. R u v \<Longrightarrow> R v w \<Longrightarrow> R u w"
  shows "(\<forall>req w. R w (snd (nxt req w))) \<Longrightarrow> R w (snd (handle m nxt req w))"
    and "(\<forall>req w. R w (snd (terminal req w))) \<Longrightarrow> R w (snd (run_chain ms terminal req w))"
proof (induction m nxt req w and ms terminal req w rule: handle_run_chain.induct)
  case (1 f nxt req w)
  then show ?case using interp_keeps [of R nxt] assms by simp
qed simp_all

section \<open>Properties\<close>

definition authorized :: "client \<Rightarrow> enqueue_request \<Rightarrow> bool" where
  "authorized c req \<longleftrightarrow> (\<forall>e \<in> set (rq_batch req). authorizer c (rq_context req) e)"

definition told :: "client \<Rightarrow> hook_event \<Rightarrow> (nat \<times> hook_event) list" where
  "told c ev = concat (map (\<lambda>h. on_insert h ev) (hook_chain c))"

text \<open>What the hooks are told of the requests that reach the store, one after the other; \<open>tell\<close> is what
  one event makes them hear.\<close>

fun told_of :: "(hook_event \<Rightarrow> (nat \<times> hook_event) list) \<Rightarrow> (envelope list \<Rightarrow> 's \<Rightarrow> unit result \<times> 's)
    \<Rightarrow> enqueue_request list \<Rightarrow> 's \<Rightarrow> (nat \<times> hook_event) list" where
  "told_of tell store [] s = []"
| "told_of tell store (req # reqs) s =
     (case store (rq_batch req) s of
        (r, s') \<Rightarrow> tell (HookBegin req) @ tell (HookEnd req (from_store_result r)) @
                   told_of tell store reqs s')"

text \<open>The requests \<open>reqs\<close> reached the store between two worlds, and nothing else did.\<close>

definition reached ::
  "(hook_event \<Rightarrow> (nat \<times> hook_event) list) \<Rightarrow> (envelope list \<Rightarrow> 's \<Rightarrow> unit result \<times> 's) \<Rightarrow> enqueue_request list
    \<Rightarrow> 's world \<Rightarrow> 's world \<Rightarrow> bool"
where
  "reached tell store reqs w w' \<longleftrightarrow>
     w_store w' = foldl (\<lambda>s req. snd (store (rq_batch req) s)) (w_store w) reqs \<and>
     w_log w' = w_log w @ told_of tell store reqs (w_store w)"

definition guarded :: "client \<Rightarrow> (envelope list \<Rightarrow> 's \<Rightarrow> unit result \<times> 's) \<Rightarrow> 's world \<Rightarrow> 's world \<Rightarrow> bool" where
  "guarded c store w w' \<longleftrightarrow> (\<exists>reqs. list_all (authorized c) reqs \<and> reached (told c) store reqs w w')"

lemma told_of_append:
  "told_of tell store (xs @ ys) s =
     told_of tell store xs s @ told_of tell store ys (foldl (\<lambda>s req. snd (store (rq_batch req) s)) s xs)"
  by (induction xs arbitrary: s) (simp_all split: prod.split)

lemma guarded_refl: "guarded c store w w"
  unfolding guarded_def by (intro exI [of _ "[]"]) (simp add: reached_def)

lemma guarded_trans:
  assumes "guarded c store u v" "guarded c store v w"
  shows "guarded c store u w"
proof -
  from assms obtain xs ys where "list_all (authorized c) xs" "reached (told c) store xs u v"
    "list_all (authorized c) ys" "reached (told c) store ys v w" by (auto simp: guarded_def)
  then have "list_all (authorized c) (xs @ ys)" "reached (told c) store (xs @ ys) u w"
    by (simp_all add: reached_def told_of_append)
  then show ?thesis unfolding guarded_def by blast
qed

lemma authorize_Inr:
  "authorize_enqueue_batch auth ctx es = Inr () \<longleftrightarrow> (\<forall>e \<in> set es. auth ctx e)"
  by (induction es) auto

lemma call_store_reached: "reached (told c) store [req] w (snd (call_store c clk store req pm w))"
  by (auto simp: call_store_def reached_def emit_def told_def Let_def split: prod.split option.split sum.split)

lemma with_permit_guarded:
  assumes "authorized c req"
  shows "guarded c store w (snd (with_permit c clk (call_store c clk store req) w))"
proof (cases "circuit_breaker c")
  case None
  with assms call_store_reached [of c store req w clk None] show ?thesis
    unfolding guarded_def by (intro exI [of _ "[req]"]) (simp add: with_permit_def)
next
  case (Some b)
  obtain r m' where a: "acquire b (clk (w_reads w)) (w_machine w) = (r, m')" by fastforce
  let ?w = "w\<lparr>w_machine := m', w_reads := w_reads w + 1\<rparr>"
  show ?thesis
  proof (cases r)
    case (Inl rj)
    with Some a have "reached (told c) store [] w (snd (with_permit c clk (call_store c clk store req) w))"
      by (simp add: with_permit_def reached_def)
    then show ?thesis unfolding guarded_def by (intro exI [of _ "[]"]) simp
  next
    case (Inr p)
    have "reached (told c) store [req] w (snd (call_store c clk store req (Some p) ?w))"
      using call_store_reached [of c store req ?w clk "Some p"] by (simp add: reached_def)
    with Some a Inr assms show ?thesis
      unfolding guarded_def by (intro exI [of _ "[req]"]) (simp add: with_permit_def)
  qed
qed

lemma enqueue_terminal_guarded: "guarded c store w (snd (enqueue_terminal c clk store req w))"
proof (cases "authorize_enqueue_batch (authorizer c) (rq_context req) (rq_batch req)")
  case (Inl k)
  then show ?thesis by (simp add: enqueue_terminal_def guarded_refl)
next
  case (Inr u)
  then have "authorized c req" by (simp add: authorized_def authorize_Inr)
  with Inr with_permit_guarded show ?thesis by (simp add: enqueue_terminal_def)
qed

lemma enqueue_tx_terminal_guarded:
  "guarded c store w (snd (enqueue_tx_terminal c clk (Some store) req w))"
proof (cases "authorize_enqueue_batch (authorizer c) (rq_context req) (rq_batch req)")
  case (Inl k)
  then show ?thesis by (simp add: enqueue_tx_terminal_def guarded_refl)
next
  case (Inr u)
  then have "authorized c req" by (simp add: authorized_def authorize_Inr)
  with Inr with_permit_guarded show ?thesis by (simp add: enqueue_tx_terminal_def)
qed

text \<open>
  A client as its builder methods make it, and the order the plugin documentation promises: the
  standalone hooks, then the hooks of every global plugin, then those of every plugin scoped to kinds
  of which the batch has one, in the order of installation within each class.
\<close>

definition built_client ::
  "(enqueue_context \<Rightarrow> envelope \<Rightarrow> bool) \<Rightarrow> breaker option \<Rightarrow> middleware list \<Rightarrow> hook list \<Rightarrow> plugin list \<Rightarrow> client" where
  "built_client auth cb ms hs ps =
     foldl (\<lambda>c p. with_plugin p c)
       (client_new\<lparr>authorizer := auth, circuit_breaker := cb, middlewares := ms, insert_hooks := hs\<rparr>) ps"

definition concerns :: "hook_event \<Rightarrow> plugin \<Rightarrow> bool" where
  "concerns ev p \<longleftrightarrow>
     (case pl_scope p of Global \<Rightarrow> False | Kinds ks \<Rightarrow> \<exists>e \<in> set (rq_batch (event_attempt ev)). kind e \<in> set ks)"

definition in_plugin_order :: "hook list \<Rightarrow> plugin list \<Rightarrow> hook_event \<Rightarrow> (nat \<times> hook_event) list" where
  "in_plugin_order hs ps ev =
     concat (map (\<lambda>h. on_insert h ev)
       (hs @ concat (map pl_hooks (filter (\<lambda>p. pl_scope p = Global) ps)) @
        concat (map pl_hooks (filter (concerns ev) ps))))"

definition heard_by :: "hook list \<Rightarrow> hook_event \<Rightarrow> (nat \<times> hook_event) list" where
  "heard_by hs ev = concat (map (\<lambda>h. on_insert h ev) hs)"

lemma with_plugin_frame:
  "authorizer (with_plugin p c) = authorizer c" "insert_hooks (with_plugin p c) = insert_hooks c"
  "heard_by (global_plugin_hooks (with_plugin p c)) ev =
     heard_by (global_plugin_hooks c) ev @ (if pl_scope p = Global then heard_by (pl_hooks p) ev else [])"
  "heard_by (scoped_plugin_hooks (with_plugin p c)) ev =
     heard_by (scoped_plugin_hooks c) ev @ (if concerns ev p then heard_by (pl_hooks p) ev else [])"
  by (cases "pl_scope p"; simp add: with_plugin_def middleware_group_def hook_group_def is_global_def heard_by_def
      scope_matches_def concerns_def list_ex_iff)+

lemma installed_hooks:
  "authorizer (foldl (\<lambda>c p. with_plugin p c) c ps) = authorizer c"
  "insert_hooks (foldl (\<lambda>c p. with_plugin p c) c ps) = insert_hooks c"
  "heard_by (global_plugin_hooks (foldl (\<lambda>c p. with_plugin p c) c ps)) ev =
     heard_by (global_plugin_hooks c) ev @ heard_by (concat (map pl_hooks (filter (\<lambda>p. pl_scope p = Global) ps))) ev"
  "heard_by (scoped_plugin_hooks (foldl (\<lambda>c p. with_plugin p c) c ps)) ev =
     heard_by (scoped_plugin_hooks c) ev @ heard_by (concat (map pl_hooks (filter (concerns ev) ps))) ev"
proof (induction ps arbitrary: c)
  case (Cons p ps)
  {
    case 3
    show ?case using Cons(3) [of "with_plugin p c"] by (simp add: with_plugin_frame) (simp add: heard_by_def)
  next
    case 4
    show ?case using Cons(4) [of "with_plugin p c"] by (simp add: with_plugin_frame) (simp add: heard_by_def)
  }
qed (simp_all add: with_plugin_frame, simp_all add: heard_by_def)

lemma built_client_told: "told (built_client auth cb ms hs ps) = in_plugin_order hs ps"
proof
  fix ev
  have "told (built_client auth cb ms hs ps) ev =
      heard_by (insert_hooks (built_client auth cb ms hs ps)) ev @
      heard_by (global_plugin_hooks (built_client auth cb ms hs ps)) ev @
      heard_by (scoped_plugin_hooks (built_client auth cb ms hs ps)) ev"
    by (simp add: told_def hook_chain_def heard_by_def)
  also have "\<dots> = heard_by hs ev @ heard_by (concat (map pl_hooks (filter (\<lambda>p. pl_scope p = Global) ps))) ev @
      heard_by (concat (map pl_hooks (filter (concerns ev) ps))) ev"
    unfolding built_client_def installed_hooks by (simp add: client_new_def) (simp add: heard_by_def)
  finally show "told (built_client auth cb ms hs ps) ev = in_plugin_order hs ps ev"
    by (simp add: in_plugin_order_def heard_by_def)
qed

lemma chain_guarded:
  "guarded c store w (snd (enqueue_with_context c clk store ctx batch w))"
  "guarded c store w (snd (enqueue_tx_with_context c clk (Some store) ctx batch w))"
  unfolding enqueue_with_context_def enqueue_tx_with_context_def
  by (intro chain_keeps(2) [where R = "guarded c store"];
      auto intro: guarded_refl guarded_trans enqueue_terminal_guarded enqueue_tx_terminal_guarded)+

text \<open>C37. No middleware can get an unauthorized envelope to the store, whatever it rewrites, repeats
  or skips, and no hook can be skipped. Of a client built with any authorizer, circuit, middlewares,
  hooks and plugins, the store sees exactly a sequence of requests whose envelopes the authorizer
  accepted one and all, in the context of the request. For each of them, and for nothing else, the hooks
  are told one begin and then one end with the store's answer: first the standalone hooks, then those of
  the global plugins, then those of the plugins scoped to a kind in the batch, each class in the order
  of installation. Both for direct and for transactional enqueues. A middleware calls the rest of the
  chain any number of times, one call after the other, each to its end: calls that run concurrently
  with each other or are dropped half-way are outside the model.\<close>

theorem client_store_guarded:
  assumes "(r, w') = enqueue_with_context (built_client auth cb ms hs ps) clk store ctx batch w \<or>
    (r, w') = enqueue_tx_with_context (built_client auth cb ms hs ps) clk (Some store) ctx batch w"
  shows "\<exists>reqs. (\<forall>req \<in> set reqs. \<forall>e \<in> set (rq_batch req). auth (rq_context req) e) \<and>
    w_store w' = foldl (\<lambda>s req. snd (store (rq_batch req) s)) (w_store w) reqs \<and>
    w_log w' = w_log w @ told_of (in_plugin_order hs ps) store reqs (w_store w)"
proof -
  let ?c = "built_client auth cb ms hs ps"
  have "guarded ?c store w w'"
    using assms chain_guarded [where c = ?c and store = store and w = w and clk = clk and ctx = ctx and batch = batch]
    by (metis snd_conv)
  moreover have "authorizer ?c = auth" unfolding built_client_def installed_hooks by simp
  ultimately show ?thesis
    by (auto simp: guarded_def reached_def authorized_def list_all_iff built_client_told)
qed

lemma acquire_open:
  assumes "mode m = Mode_Open t" "unat now < unat t + unat (br_recovery_timeout_ms b)" "breaker_ok b"
  shows "\<exists>rj. acquire b now m = (Inl rj, m)"
proof -
  have "\<not> br_recovery_timeout_ms b \<le> saturating_sub now t"
    using assms(2,3) by (auto simp: word_le_nat_alt word_less_nat_alt unat_saturating_sub breaker_ok_def)
  with assms(1) show ?thesis by (simp add: acquire_def advance_open_def Let_def)
qed

text \<open>While its circuit is open, a client shields the store: as long as the clock stays before
  the end of the recovery time, no enqueue, through whatever middleware, calls the store, tells a
  hook, or moves the circuit.\<close>

theorem open_circuit_shields_store:
  assumes "circuit_breaker c = Some b" "breaker_ok b" "mode (w_machine w) = Mode_Open t"
    and "\<forall>k. unat (clk k) < unat t + unat (br_recovery_timeout_ms b)"
    and "enqueue_with_context c clk store ctx batch w = (r, w')"
  shows "w_store w' = w_store w \<and> w_log w' = w_log w \<and> w_machine w' = w_machine w"
proof -
  let ?R = "\<lambda>u v :: 's world. mode (w_machine u) = Mode_Open t \<longrightarrow>
      w_store v = w_store u \<and> w_log v = w_log u \<and> w_machine v = w_machine u"
  have trm: "?R u (snd (enqueue_terminal c clk store req u))" for req u
    using acquire_open [of "w_machine u" t "clk (w_reads u)" b] assms(1,2,4)
    by (auto simp: enqueue_terminal_def with_permit_def split: sum.split)
  have "?R w (snd (run_chain (middleware_chain c) (enqueue_terminal c clk store)
      \<lparr>rq_context = ctx, rq_operation = Direct, rq_batch = batch\<rparr> w))"
    by (rule chain_keeps(2) [where R = ?R]) (use trm in auto)
  with assms(3,5) show ?thesis by (simp add: enqueue_with_context_def)
qed

lemma entry_or_insert_map_of:
  "map_of (entry_or_insert k v hs) k' =
     (if k' = k \<and> map_of hs k = None then Some v else map_of hs k')"
proof (cases "map_of hs k = None")
  case True
  let ?P = "\<lambda>(k', _ :: string). k' < k"
  have "map_of hs k' = map_of (takeWhile ?P hs @ dropWhile ?P hs) k'" by simp
  moreover have "map_of (takeWhile ?P hs) k = None"
    using True by (auto simp: map_of_eq_None_iff dest: set_takeWhileD)
  ultimately show ?thesis using True
    by (auto simp: entry_or_insert_def map_add_def simp del: takeWhile_dropWhile_id split: option.splits)
qed (simp add: entry_or_insert_def)

text \<open>Follow-on work continues the trace of the job that enqueues it: an envelope without trace
  headers is dispatched with exactly the parent's trace context, and a header the handler set
  itself is never overwritten.\<close>

theorem follow_on_inherits_trace:
  assumes "trace_ok t"
  shows "(map_of (headers e) TRACEPARENT = None \<and> map_of (headers e) TRACESTATE = None \<longrightarrow>
      trace_context_of (headers (inherit_trace (Some t) e)) = Some t) \<and>
    (\<forall>k v. map_of (headers e) k = Some v \<longrightarrow>
      map_of (headers (inherit_trace (Some t) e)) k = Some v)"
proof -
  have ne: "TRACEPARENT \<noteq> TRACESTATE" by (simp add: TRACEPARENT_def TRACESTATE_def)
  have get: "map_of (headers (inherit_trace (Some t) e)) k =
      (if k = TRACEPARENT \<and> map_of (headers e) k = None then Some (to_traceparent t)
       else if k = TRACESTATE \<and> map_of (headers e) k = None \<and> trace_state t \<noteq> [] then Some (trace_state t)
       else map_of (headers e) k)" for k
    using ne by (auto simp: inherit_trace_def Let_def entry_or_insert_map_of)
  show ?thesis using get ne parse_to_traceparent [OF assms] by (auto simp: trace_context_of_def)
qed

section \<open>Witnesses\<close>

text \<open>A middleware that retries once; a plugin for mail installed before a global one.\<close>

definition twice :: middleware where
  "twice = Middleware (\<lambda>req. Run req (\<lambda>_. Run req Answer))"

definition two_plugins :: "plugin list" where
  "two_plugins =
     [\<lparr>pl_name = ''m'', pl_scope = Kinds [''mail''], pl_middlewares = [], pl_hooks = [Hook 3]\<rparr>,
      \<lparr>pl_name = ''g'', pl_scope = Global, pl_middlewares = [], pl_hooks = [Hook 2]\<rparr>]"

theorem client_store_guarded_witness:
  "\<exists>w' reqs. enqueue_with_context (built_client (\<lambda>_ e. kind e = ''mail'') None [twice] [Hook 1] two_plugins) (\<lambda>_. 0)
       (\<lambda>_ s. (Inr (), s + 1)) enqueue_context_default [envelope_default\<lparr>kind := ''mail''\<rparr>]
       \<lparr>w_store = (0 :: nat), w_machine = \<lparr>generation = 0, mode = Mode_Open 0\<rparr>, w_reads = 0, w_log = []\<rparr> = (Inr (), w') \<and>
     length reqs = 2 \<and> (\<forall>req \<in> set reqs. \<forall>e \<in> set (rq_batch req). kind e = ''mail'') \<and>
     w_log w' = told_of (in_plugin_order [Hook 1] two_plugins) (\<lambda>_ s. (Inr (), s + 1)) reqs (0 :: nat) \<and>
     map fst (w_log w') = [1, 2, 3, 1, 2, 3, 1, 2, 3, 1, 2, 3]"
proof -
  let ?c = "built_client (\<lambda>_ e. kind e = ''mail'') None [twice] [Hook 1] two_plugins"
  let ?store = "\<lambda>_ (s :: nat). (Inr (), s + 1)"
  let ?w = "\<lparr>w_store = (0 :: nat), w_machine = \<lparr>generation = 0, mode = Mode_Open 0\<rparr>, w_reads = 0, w_log = []\<rparr>"
  let ?run = "enqueue_with_context ?c (\<lambda>_. 0) ?store enqueue_context_default [envelope_default\<lparr>kind := ''mail''\<rparr>] ?w"
  have run: "fst ?run = Inr ()" "w_store (snd ?run) = 2" "map fst (w_log (snd ?run)) = [1, 2, 3, 1, 2, 3, 1, 2, 3, 1, 2, 3]"
    by (simp_all add: enqueue_with_context_def middleware_chain_def built_client_def client_new_def two_plugins_def with_plugin_def
        middleware_group_def hook_group_def is_global_def twice_def enqueue_terminal_def with_permit_def call_store_def
        emit_def hook_chain_def scope_matches_def event_attempt_def)
  then obtain w' where w': "?run = (Inr (), w')" by (cases ?run) simp
  from client_store_guarded [OF disjI1, OF w' [symmetric]] obtain reqs where
    reqs: "\<forall>req \<in> set reqs. \<forall>e \<in> set (rq_batch req). kind e = ''mail''" "w_store w' = foldl (\<lambda>s req. s + 1) 0 reqs"
      "w_log w' = told_of (in_plugin_order [Hook 1] two_plugins) ?store reqs 0" by (auto simp del: One_nat_def add_Suc_right add_0_right)
  have "foldl (\<lambda>s req. s + 1) n reqs = n + length reqs" for n :: nat by (induction reqs arbitrary: n) simp_all
  with reqs(2) run(2) w' have "length reqs = 2" by simp
  with reqs(1,3) run(3) w' show ?thesis by auto
qed

theorem open_circuit_shields_store_witness:
  "w_store (snd (enqueue_with_context (client_new\<lparr>circuit_breaker := Some probe_breaker\<rparr>) (\<lambda>_. 3)
      (\<lambda>_ s. (Inr (), s + 1)) enqueue_context_default [envelope_default]
      \<lparr>w_store = (0 :: nat), w_machine = \<lparr>generation = 1, mode = Mode_Open 3\<rparr>, w_reads = 0, w_log = []\<rparr>)) = 0"
proof -
  let ?c = "client_new\<lparr>circuit_breaker := Some probe_breaker\<rparr>"
  let ?w = "\<lparr>w_store = (0 :: nat), w_machine = \<lparr>generation = 1, mode = Mode_Open 3\<rparr>, w_reads = 0, w_log = []\<rparr>"
  let ?store = "\<lambda>_ s. (Inr (), s + 1)"
  obtain r w' where run: "enqueue_with_context ?c (\<lambda>_. 3) ?store enqueue_context_default [envelope_default] ?w
      = (r, w')" by fastforce
  have "breaker_ok probe_breaker" by (simp add: breaker_ok_def probe_breaker_def)
  with open_circuit_shields_store [OF _ _ _ _ run, of probe_breaker 3] run show ?thesis
    by (simp add: probe_breaker_def)
qed

definition parent_trace :: trace_context where
  "parent_trace = \<lparr>trace_id = replicate 32 CHR ''a'', span_id = replicate 16 CHR ''b'', trace_flags = 1,
     trace_state = ''vendor=1''\<rparr>"

theorem follow_on_inherits_trace_witness:
  "trace_context_of (headers (inherit_trace (Some parent_trace) envelope_default)) = Some parent_trace"
proof -
  have "trace_ok parent_trace"
    by (simp add: trace_ok_def parent_trace_def is_lower_hex_def lower_hex_char_def list_all_iff)
  from follow_on_inherits_trace [OF this, of envelope_default] show ?thesis
    by (simp add: envelope_default_def)
qed

end
