(* ===== verification/ScheduleSpec.thy ===== *)
theory ScheduleSpec
  imports Text Envelope
begin

text \<open>
  The evaluation of schedule specs, src/crates/headgate/src/schedule_spec.rs: the epoch-aligned
  interval form, the normalisation of cron fields, the time zone prefix with its two rules for
  clock changes, and the list of due ticks. The cron engine, the time zone database and the range
  of the calendar are third-party code; they are the fields of a \<open>calendar\<close>. A wall clock is the
  number of milliseconds it would be in UTC, as in the source.
\<close>

record ('c, 'z) calendar =
  cron_parse :: "string \<Rightarrow> string + 'c"
  cron_next :: "'c \<Rightarrow> i64 \<Rightarrow> i64 option"
  zone_of :: "string \<Rightarrow> 'z option"
  wall_of :: "'z \<Rightarrow> i64 \<Rightarrow> i64"
  earliest :: "'z \<Rightarrow> i64 \<Rightarrow> i64 option"
  in_range :: "i64 \<Rightarrow> bool"

text \<open>What the source relies on: the engine answers with an occurrence strictly after the instant
  it is asked for.\<close>

definition calendar_ok :: "('c, 'z) calendar \<Rightarrow> bool" where
  "calendar_ok cal \<longleftrightarrow> (\<forall>c t u. cron_next cal c t = Some u \<longrightarrow> t < u)"

section \<open>Cron fields\<close>

definition dow_shift :: "string \<Rightarrow> i64 option" where
  "dow_shift tok =
     (case parse_i64 tok of
        None \<Rightarrow> None
      | Some d \<Rightarrow> if 0 \<le> d \<and> d \<le> 7 then Some (d mod 7 + 1) else None)"

definition translate_range :: "string \<Rightarrow> string" where
  "translate_range rng =
     (case split_once CHR ''-'' rng of
        Some (a, b) \<Rightarrow>
          (case (dow_shift a, dow_shift b) of
             (Some x, Some y) \<Rightarrow>
               if y < x then show_int x @ ''-7,1'' else show_int x @ ''-'' @ show_int y
           | _ \<Rightarrow> rng)
      | None \<Rightarrow> (case dow_shift rng of Some d \<Rightarrow> show_int d | None \<Rightarrow> rng))"

definition translate_part :: "string \<Rightarrow> string" where
  "translate_part part =
     (case split_once CHR ''/'' part of
        Some (r, s) \<Rightarrow> translate_range r @ ''/'' @ s
      | None \<Rightarrow> translate_range part)"

definition translate_posix_dow :: "string \<Rightarrow> string" where
  "translate_posix_dow field = join_with '','' (map translate_part (split_on CHR '','' field))"

definition normalized_fields :: "string \<Rightarrow> string \<Rightarrow> string + string list" where
  "normalized_fields body spec =
     (let fs0 = split_whitespace body;
          fs = (if length fs0 = 5 then ''0'' # fs0 else fs0)
      in if length fs \<noteq> 6
         then Inl (''bad cron `'' @ spec @ ''`: want 5 fields, or 6 with seconds'')
         else Inr (fs[5 := translate_posix_dow (fs ! 5)]))"

definition parse_one :: "('c, 'z) calendar \<Rightarrow> string \<Rightarrow> string \<Rightarrow> string + 'c" where
  "parse_one cal normalized original =
     (case cron_parse cal normalized of
        Inl e \<Rightarrow> Inl (''bad cron `'' @ original @ ''`: '' @ e)
      | Inr c \<Rightarrow> Inr c)"

definition restricted :: "string \<Rightarrow> bool" where
  "restricted f \<longleftrightarrow> f \<noteq> ''*'' \<and> f \<noteq> ''?''"

definition compile :: "('c, 'z) calendar \<Rightarrow> string \<Rightarrow> string \<Rightarrow> string + 'c list" where
  "compile cal body spec =
     (case normalized_fields body spec of
        Inl e \<Rightarrow> Inl e
      | Inr fs \<Rightarrow>
          if restricted (fs ! 3) \<and> restricted (fs ! 5) then
            (case parse_one cal (join_with '' '' (fs[5 := ''*''])) spec of
               Inl e \<Rightarrow> Inl e
             | Inr dom_only \<Rightarrow>
                 (case parse_one cal (join_with '' '' (fs[3 := ''*''])) spec of
                    Inl e \<Rightarrow> Inl e
                  | Inr dow_only \<Rightarrow> Inr [dom_only, dow_only]))
          else
            (case parse_one cal (join_with '' '' fs) spec of
               Inl e \<Rightarrow> Inl e
             | Inr c \<Rightarrow> Inr [c]))"

section \<open>Occurrences\<close>

definition instant :: "('c, 'z) calendar \<Rightarrow> i64 \<Rightarrow> string + i64" where
  "instant cal ms =
     (if in_range cal ms then Inr ms else Inl (''timestamp '' @ show_int ms @ '' out of range''))"

definition no_occurrence :: "string \<Rightarrow> string" where
  "no_occurrence spec = ''cron `'' @ spec @ ''` has no future occurrence''"

text \<open>\<open>filter_map(..).min()\<close> over the schedules.\<close>

definition next_wall :: "('c, 'z) calendar \<Rightarrow> 'c list \<Rightarrow> string \<Rightarrow> i64 \<Rightarrow> string + i64" where
  "next_wall cal scheds spec after =
     (case instant cal after of
        Inl e \<Rightarrow> Inl e
      | Inr t \<Rightarrow>
          (case List.map_filter (\<lambda>s. cron_next cal s t) scheds of
             [] \<Rightarrow> Inl (no_occurrence spec)
           | u # us \<Rightarrow> Inr (foldl min u us)))"

definition MAX_WALL_CANDIDATES :: nat where "MAX_WALL_CANDIDATES = 100000"

text \<open>The loop over candidate wall clocks; \<open>n\<close> is what is left of the bound.\<close>

fun wall_loop :: "('c, 'z) calendar \<Rightarrow> 'c list \<Rightarrow> string \<Rightarrow> i64 \<Rightarrow> 'z \<Rightarrow> nat \<Rightarrow> i64 \<Rightarrow> string + i64" where
  "wall_loop cal scheds spec after z 0 wall = Inl (no_occurrence spec)"
| "wall_loop cal scheds spec after z (Suc n) wall =
     (case next_wall cal scheds spec wall of
        Inl e \<Rightarrow> Inl e
      | Inr nxt \<Rightarrow>
          (case instant cal nxt of
             Inl e \<Rightarrow> Inl e
           | Inr wall' \<Rightarrow>
               (case earliest cal z wall' of
                  Some ms \<Rightarrow> if ms > after then Inr ms else wall_loop cal scheds spec after z n wall'
                | None \<Rightarrow> wall_loop cal scheds spec after z n wall')))"

definition next_local :: "('c, 'z) calendar \<Rightarrow> 'c list \<Rightarrow> string \<Rightarrow> i64 \<Rightarrow> 'z \<Rightarrow> string + i64" where
  "next_local cal scheds spec after z =
     (case instant cal after of
        Inl e \<Rightarrow> Inl e
      | Inr t \<Rightarrow> wall_loop cal scheds spec after z MAX_WALL_CANDIDATES (wall_of cal z t))"

section \<open>Specs\<close>

definition TZ_PREFIX :: string where "TZ_PREFIX = ''CRON_TZ=''"

definition zone_char :: "char \<Rightarrow> bool" where
  "zone_char c \<longleftrightarrow>
     (let n = (of_char c :: nat)
      in 48 \<le> n \<and> n \<le> 57 \<or> 65 \<le> n \<and> n \<le> 90 \<or> 97 \<le> n \<and> n \<le> 122 \<or>
         c = CHR ''_'' \<or> c = CHR ''+'' \<or> c = CHR ''-'')"

definition zone_segment :: "string \<Rightarrow> bool" where
  "zone_segment seg \<longleftrightarrow>
     (case seg of
        [] \<Rightarrow> False
      | c # _ \<Rightarrow> 65 \<le> (of_char c :: nat) \<and> (of_char c :: nat) \<le> 90 \<and> list_all zone_char seg)"

definition zone_name_is_wellformed :: "string \<Rightarrow> bool" where
  "zone_name_is_wellformed name \<longleftrightarrow>
     name \<noteq> [] \<and> length name \<le> 64 \<and> list_all zone_segment (split_on CHR ''/'' name)"

definition split_tz :: "('c, 'z) calendar \<Rightarrow> string \<Rightarrow> string + 'z option \<times> string" where
  "split_tz cal spec =
     (case strip_prefix TZ_PREFIX spec of
        None \<Rightarrow> Inr (None, spec)
      | Some rest \<Rightarrow>
          (case split_at_white rest of
             (name, tail) \<Rightarrow>
               let bad = Inl (''unknown timezone `'' @ name @ ''`'')
               in if \<not> zone_name_is_wellformed name then bad
                  else case zone_of cal name of
                         Some z \<Rightarrow> Inr (Some z, trim_start tail)
                       | None \<Rightarrow> bad))"

text \<open>\<open>div_euclid\<close> by a positive number is the division that rounds down.\<close>

definition next_every :: "i64 \<Rightarrow> i64 \<Rightarrow> i64" where
  "next_every n after = wrap64 (wrap64 (after div n + 1) * n)"

definition next_after :: "('c, 'z) calendar \<Rightarrow> string \<Rightarrow> i64 \<Rightarrow> string + i64" where
  "next_after cal spec after =
     (case split_tz cal spec of
        Inl e \<Rightarrow> Inl e
      | Inr (tz, body) \<Rightarrow>
          (case strip_prefix ''@every:'' body of
             Some ms \<Rightarrow>
               reject_if (tz \<noteq> None) (''`@every` is epoch-aligned UTC and takes no CRON_TZ: `'' @ spec @ ''`'')
               (case parse_i64 ms of
                  None \<Rightarrow> Inl (''bad @every spec `'' @ spec @ ''`'')
                | Some n \<Rightarrow>
                    reject_if (n < 1) ''@every period must be >= 1ms'' (Inr (next_every n after)))
           | None \<Rightarrow>
               (case compile cal body spec of
                  Inl e \<Rightarrow> Inl e
                | Inr scheds \<Rightarrow>
                    (case tz of
                       None \<Rightarrow> next_wall cal scheds spec after
                     | Some z \<Rightarrow> next_local cal scheds spec after z))))"

definition validate_spec :: "('c, 'z) calendar \<Rightarrow> string \<Rightarrow> string + unit" where
  "validate_spec cal spec = (case next_after cal spec 0 of Inl e \<Rightarrow> Inl e | Inr _ \<Rightarrow> Inr ())"

text \<open>The scan of \<open>due_ticks\<close>: \<open>n\<close> is what is left of its bound.\<close>

fun scan_ticks ::
  "('c, 'z) calendar \<Rightarrow> string \<Rightarrow> i64 \<Rightarrow> nat \<Rightarrow> nat \<Rightarrow> i64 \<Rightarrow> i64 list \<Rightarrow> string + i64 list" where
  "scan_ticks cal spec now cap 0 t ticks = Inr ticks"
| "scan_ticks cal spec now cap (Suc n) t ticks =
     (case next_after cal spec t of
        Inl e \<Rightarrow> Inl e
      | Inr t' \<Rightarrow>
          if t' > now then Inr ticks
          else
            let ticks' = ticks @ [t']
            in scan_ticks cal spec now cap n t' (if length ticks' > cap then tl ticks' else ticks'))"

definition due_ticks :: "('c, 'z) calendar \<Rightarrow> string \<Rightarrow> i64 \<Rightarrow> i64 \<Rightarrow> nat \<Rightarrow> string + i64 list" where
  "due_ticks cal spec first now cap =
     (if first > now then Inr [] else scan_ticks cal spec now cap 10000 first [first])"

section \<open>Strictly later ticks\<close>

lemma foldl_min_mem: "foldl min u us \<in> set (u # us)"
  by (induction us arbitrary: u) (auto simp: min_def)

lemma next_wall_later:
  assumes "calendar_ok cal" "next_wall cal scheds spec after = Inr u"
  shows "after < u"
proof -
  from assms(2) obtain v vs where vs: "List.map_filter (\<lambda>s. cron_next cal s after) scheds = v # vs"
    and u: "u = foldl min v vs"
    by (auto simp: next_wall_def instant_def split: if_splits list.splits)
  from u vs have "u \<in> set (List.map_filter (\<lambda>s. cron_next cal s after) scheds)" using foldl_min_mem by metis
  then obtain s where "cron_next cal s after = Some u" by (auto simp: List.map_filter_def)
  with assms(1) show ?thesis by (auto simp: calendar_ok_def)
qed

lemma wall_loop_later: "wall_loop cal scheds spec after z n wall = Inr u \<Longrightarrow> after < u"
  by (induction n arbitrary: wall) (auto split: sum.splits option.splits if_splits)

lemma next_every_exact:
  assumes "1 \<le> n" "in_i64 after" "after + n < 2 ^ 63"
  shows "next_every n after = (after div n + 1) * n" "after < next_every n after"
    "next_every n after \<le> after + n"
proof -
  have d: "after div n * n \<le> after" "after < after div n * n + n"
    using assms(1) pos_mod_bound [of n after] minus_mod_eq_div_mult [of after n]
    by (smt (verit) pos_mod_sign)+
  have b: "- (2 ^ 63) \<le> after" using assms(2) by (simp add: in_i64_def)
  have q: "- (2 ^ 63) \<le> after div n"
  proof (cases "after < 0")
    case True
    have "after div 1 \<le> after div n" using True assms(1) by (intro zdiv_mono2_neg) auto
    with b show ?thesis by simp
  next
    case False
    then have "0 \<le> after div n" using assms(1) by (simp add: pos_imp_zdiv_nonneg_iff)
    then show ?thesis by simp
  qed
  have "after div n + 1 < 2 ^ 63"
  proof (cases "after < 0")
    case True
    then have "after div n < 0" using assms(1) by (simp add: pos_imp_zdiv_neg_iff)
    then show ?thesis by simp
  next
    case False
    then have "after div n \<le> after" using assms(1) zdiv_mono2 [of after 1 n] by simp
    with assms(1,3) show ?thesis by simp
  qed
  with q have i1: "in_i64 (after div n + 1)" by (simp add: in_i64_def)
  have e: "(after div n + 1) * n = after div n * n + n" by (simp add: distrib_right)
  have i2: "in_i64 ((after div n + 1) * n)" unfolding e using d b assms(3) by (simp add: in_i64_def)
  show eq: "next_every n after = (after div n + 1) * n" using i1 i2 by (simp add: next_every_def wrap64_id)
  show "after < next_every n after" "next_every n after \<le> after + n"
    unfolding eq e using d by simp_all
qed

section \<open>The interval form\<close>

lemma strip_every: "strip_prefix TZ_PREFIX (''@every:'' @ s) = None"
  by (simp add: TZ_PREFIX_def)

lemma next_after_every:
  assumes "1 \<le> n" "in_i64 n"
  shows "next_after cal (''@every:'' @ show_int n) t = Inr (next_every n t)"
proof -
  have "strip_prefix ''@every:'' (''@every:'' @ show_int n) = Some (show_int n)"
    by (simp add: strip_prefix_Some)
  with assms show ?thesis
    by (simp add: next_after_def split_tz_def TZ_PREFIX_def parse_i64_show_int)
qed

text \<open>The interval form is epoch aligned: its next tick is the least multiple of the period that
  is strictly later, whatever calendar a node uses, so every node derives the same ticks. The
  bound keeps the sum in range.\<close>

theorem every_tick_exact:
  assumes "1 \<le> n" "in_i64 n" "in_i64 t" "t + n < 2 ^ 63"
  shows "\<exists>u. next_after cal (''@every:'' @ show_int n) t = Inr u \<and> t < u \<and> n dvd u \<and>
    (\<forall>v. t < v \<and> v < u \<longrightarrow> \<not> n dvd v)"
proof (intro exI conjI allI impI)
  note e = next_every_exact [OF assms(1,3,4)]
  show "next_after cal (''@every:'' @ show_int n) t = Inr (next_every n t)"
    using next_after_every assms by blast
  show "t < next_every n t" "n dvd next_every n t" using e by simp_all
  fix v
  assume v: "t < v \<and> v < next_every n t"
  show "\<not> n dvd v"
  proof
    assume "n dvd v"
    then obtain k where k: "v = n * k" ..
    have "t div n < k"
    proof (rule ccontr)
      assume "\<not> t div n < k"
      then have "n * k \<le> n * (t div n)" using assms(1) by (simp add: mult_left_mono)
      also have "\<dots> \<le> t"
        using minus_mod_eq_mult_div [of t n] pos_mod_sign [of n t] assms(1) by linarith
      finally show False using v k by simp
    qed
    then have "n * (t div n + 1) \<le> n * k" using assms(1) by (intro mult_left_mono) auto
    with v k e(1) show False by (simp add: mult.commute)
  qed
qed

section \<open>Due ticks\<close>

definition keep_last :: "nat \<Rightarrow> 'a list \<Rightarrow> 'a list" where
  "keep_last n xs = drop (length xs - n) xs"

lemma keep_last_step:
  assumes "1 \<le> cap"
  shows "(let ys = keep_last cap xs @ [x] in if length ys > cap then tl ys else ys) = keep_last cap (xs @ [x])"
proof (cases "length xs < cap")
  case True
  then show ?thesis by (simp add: keep_last_def Let_def)
next
  case False
  then have "length (keep_last cap xs) = cap" by (simp add: keep_last_def)
  moreover have "tl (keep_last cap xs) = drop (Suc (length xs) - cap) xs"
    using False by (simp add: keep_last_def tl_drop drop_Suc [symmetric] Suc_diff_le drop_tl [symmetric])
  moreover have "keep_last cap xs \<noteq> []" using calculation(1) assms by auto
  ultimately show ?thesis using False assms by (simp add: keep_last_def Let_def tl_append2)
qed

definition follows :: "('c, 'z) calendar \<Rightarrow> string \<Rightarrow> i64 \<Rightarrow> i64 \<Rightarrow> bool" where
  "follows cal spec a b \<longleftrightarrow> next_after cal spec a = Inr b"

lemma scan_ticks_all:
  assumes "1 \<le> cap" "successively (follows cal spec) (t # ts)" "\<forall>v \<in> set ts. v \<le> now"
    "next_after cal spec (last (t # ts)) = Inr u" "now < u" "length ts < n"
  shows "scan_ticks cal spec now cap n t (keep_last cap xs) = Inr (keep_last cap (xs @ ts))"
  using assms
proof (induction ts arbitrary: n t xs)
  case Nil
  then obtain m where "n = Suc m" by (cases n) auto
  with Nil show ?case by simp
next
  case (Cons v ts)
  then obtain m where m: "n = Suc m" by (cases n) auto
  from Cons.prems have v: "next_after cal spec t = Inr v" "v \<le> now" by (auto simp: follows_def)
  from Cons.prems have "scan_ticks cal spec now cap m v (keep_last cap (xs @ [v])) =
      Inr (keep_last cap ((xs @ [v]) @ ts))" by (intro Cons.IH) (simp_all add: m)
  with v m keep_last_step [OF Cons.prems(1), of xs v] show ?case by (simp add: Let_def)
qed

text \<open>The due ticks are the stored run and its successors up to now, oldest first, cut to the
  most recent \<open>cap\<close> of them, as long as there are at most 10000 of them.\<close>

theorem due_ticks_most_recent:
  assumes "1 \<le> cap" "successively (follows cal spec) (first # ts)" "\<forall>t \<in> set (first # ts). t \<le> now"
    and "next_after cal spec (last (first # ts)) = Inr u" "now < u" "length (first # ts) \<le> 10000"
  shows "due_ticks cal spec first now cap = Inr (drop (length (first # ts) - cap) (first # ts))"
proof -
  have "keep_last cap [first] = [first]" using assms(1) by (simp add: keep_last_def)
  with scan_ticks_all [OF assms(1,2) _ assms(4,5), of 10000 "[first]"] assms(3,6)
  have "scan_ticks cal spec now cap 10000 first [first] = Inr (keep_last cap (first # ts))" by simp
  with assms(3) show ?thesis by (simp add: due_ticks_def keep_last_def)
qed

section \<open>Time zones\<close>

text \<open>A candidate wall clock that does not fire: it does not exist, or its first instant is past.\<close>

definition passed_over :: "('c, 'z) calendar \<Rightarrow> 'z \<Rightarrow> i64 \<Rightarrow> i64 \<Rightarrow> bool" where
  "passed_over cal z after w \<longleftrightarrow> (case earliest cal z w of None \<Rightarrow> True | Some v \<Rightarrow> v \<le> after)"

definition next_candidate :: "('c, 'z) calendar \<Rightarrow> 'c list \<Rightarrow> string \<Rightarrow> i64 \<Rightarrow> i64 \<Rightarrow> bool" where
  "next_candidate cal scheds spec a b \<longleftrightarrow> next_wall cal scheds spec a = Inr b \<and> in_range cal b"

lemma wall_loop_iff:
  "wall_loop cal scheds spec after z n wall = Inr u \<longleftrightarrow>
     (\<exists>ws w. length ws < n \<and> successively (next_candidate cal scheds spec) (wall # ws @ [w]) \<and>
        list_all (passed_over cal z after) ws \<and> earliest cal z w = Some u \<and> after < u)"
proof (induction n arbitrary: wall)
  case (Suc n)
  show ?case
  proof (cases "\<exists>w1. next_candidate cal scheds spec wall w1")
    case False
    then have "wall_loop cal scheds spec after z (Suc n) wall \<noteq> Inr u"
      by (auto simp: next_candidate_def instant_def split: sum.splits if_splits)
    moreover have "\<not> successively (next_candidate cal scheds spec) (wall # ws @ [w])" for ws w
      using False by (cases ws) auto
    ultimately show ?thesis by blast
  next
    case True
    then obtain w1 where w1: "next_wall cal scheds spec wall = Inr w1" "in_range cal w1"
      by (auto simp: next_candidate_def)
    then have nc: "next_candidate cal scheds spec wall b \<longleftrightarrow> b = w1" for b
      by (auto simp: next_candidate_def)
    have chain: "successively (next_candidate cal scheds spec) (wall # ws @ [w]) \<longleftrightarrow>
        (ws = [] \<and> w = w1) \<or>
        (\<exists>vs. ws = w1 # vs \<and> successively (next_candidate cal scheds spec) (w1 # vs @ [w]))" for ws w
      by (cases ws) (auto simp: nc)
    show ?thesis
    proof (cases "passed_over cal z after w1")
      case True
      then have "wall_loop cal scheds spec after z (Suc n) wall = wall_loop cal scheds spec after z n w1"
        using w1 by (auto simp: passed_over_def instant_def split: option.splits)
      moreover have "(\<exists>ws w. length ws < Suc n \<and>
            successively (next_candidate cal scheds spec) (wall # ws @ [w]) \<and>
            list_all (passed_over cal z after) ws \<and> earliest cal z w = Some u \<and> after < u) \<longleftrightarrow>
          (\<exists>vs w. length vs < n \<and> successively (next_candidate cal scheds spec) (w1 # vs @ [w]) \<and>
            list_all (passed_over cal z after) vs \<and> earliest cal z w = Some u \<and> after < u)"
        (is "?L = ?R")
      proof
        assume ?L
        then obtain ws w where a: "length ws < Suc n" "list_all (passed_over cal z after) ws"
          "earliest cal z w = Some u" "after < u"
          and c: "successively (next_candidate cal scheds spec) (wall # ws @ [w])" by blast
        have "w \<noteq> w1 \<or> ws \<noteq> []" using True a by (auto simp: passed_over_def)
        with c obtain vs where "ws = w1 # vs" "successively (next_candidate cal scheds spec) (w1 # vs @ [w])"
          unfolding chain by blast
        with a show ?R by auto
      next
        assume ?R
        then obtain vs w where "length vs < n" "successively (next_candidate cal scheds spec) (w1 # vs @ [w])"
          "list_all (passed_over cal z after) vs" "earliest cal z w = Some u" "after < u" by blast
        with True show ?L unfolding chain by (intro exI [of _ "w1 # vs"] exI [of _ w]) simp
      qed
      ultimately show ?thesis using Suc [of w1] by (simp only:)
    next
      case False
      then obtain v where v: "earliest cal z w1 = Some v" "after < v"
        by (auto simp: passed_over_def split: option.splits)
      then have "wall_loop cal scheds spec after z (Suc n) wall = Inr v"
        using w1 by (simp add: instant_def)
      moreover have "(\<exists>ws w. length ws < Suc n \<and>
            successively (next_candidate cal scheds spec) (wall # ws @ [w]) \<and>
            list_all (passed_over cal z after) ws \<and> earliest cal z w = Some u \<and> after < u) \<longleftrightarrow> u = v"
        (is "?L = _")
      proof
        assume ?L
        then show "u = v" using False v unfolding chain by auto
      next
        assume "u = v"
        with v show ?L unfolding chain by (intro exI [of _ "[]"] exI [of _ w1]) simp
      qed
      ultimately show ?thesis by auto
    qed
  qed
qed simp

text \<open>C40. The clock-change rules: a zoned spec fires at \<open>u\<close> exactly when \<open>u\<close> is the first instant of
  some candidate wall clock and every candidate between the current wall clock and that one
  either does not exist in the zone or had its first instant no later than now. So a wall clock
  inside a gap is skipped, one that occurs twice fires once, at its first occurrence, and a
  search that a bounded number of candidates can satisfy is never given up.\<close>

theorem zoned_tick_rules:
  assumes "in_range cal after"
  shows "next_local cal scheds spec after z = Inr u \<longleftrightarrow>
    (\<exists>ws w. length ws < MAX_WALL_CANDIDATES \<and>
       successively (next_candidate cal scheds spec) (wall_of cal z after # ws @ [w]) \<and>
       list_all (passed_over cal z after) ws \<and> earliest cal z w = Some u \<and> after < u)"
  using assms wall_loop_iff by (simp add: next_local_def instant_def)

section \<open>Days of the week\<close>

text \<open>The days a list of numbers and ranges stands for in the engine's numbering, 1 for Sunday.\<close>

definition range_days :: "string \<Rightarrow> i64 list option" where
  "range_days part =
     (case split_once CHR ''-'' part of
        Some (a, b) \<Rightarrow>
          (case (parse_i64 a, parse_i64 b) of (Some x, Some y) \<Rightarrow> Some [x..y] | _ \<Rightarrow> None)
      | None \<Rightarrow> map_option (\<lambda>x. [x]) (parse_i64 part))"

definition field_days :: "string \<Rightarrow> i64 set option" where
  "field_days f =
     (let ds = map range_days (split_on CHR '','' f)
      in if list_all (\<lambda>d. d \<noteq> None) ds then Some (set (concat (map the ds))) else None)"

definition posix_days :: "int \<Rightarrow> int \<Rightarrow> i64 list" where
  "posix_days a b = map (\<lambda>d. d mod 7 + 1) [a..b]"

text \<open>The translation of a numeric day-of-week range from the POSIX numbering, where 0 and 7
  are both Sunday, to the engine's, where 1 is Sunday, keeps the days: for every range of two
  digits except the one over the whole week from 0 to 7, the translated field stands for exactly
  the days the original does, ranges that end on 7 included.\<close>

theorem dow_ranges_translated:
  assumes "0 \<le> a" "a \<le> b" "b \<le> 7" "(a, b) \<noteq> (0, 7)"
  shows "field_days (translate_posix_dow (show_int a @ ''-'' @ show_int b)) = Some (set (posix_days a b))"
proof -
  have all: "\<forall>x \<in> set [0..7]. \<forall>y \<in> set [x..7]. (x, y) \<noteq> (0, 7) \<longrightarrow>
      field_days (translate_posix_dow (show_int x @ ''-'' @ show_int y)) = Some (set (posix_days x y))"
    by code_simp
  have "a \<in> set [0..7]" "b \<in> set [a..7]" using assms by simp_all
  with all assms(4) show ?thesis by blast
qed

section \<open>Witnesses\<close>

text \<open>A calendar whose engine fires every second, with one zone whose clocks skip an hour.\<close>

definition toy_calendar :: "(unit, unit) calendar" where
  "toy_calendar =
     \<lparr>cron_parse = (\<lambda>_. Inr ()), cron_next = (\<lambda>_ t. Some ((t div 1000 + 1) * 1000)),
      zone_of = (\<lambda>_. Some ()), wall_of = (\<lambda>_ t. t),
      earliest = (\<lambda>_ w. if 2000 \<le> w \<and> w < 4000 then None else Some w), in_range = (\<lambda>_. True)\<rparr>"

theorem every_tick_exact_witness:
  "\<exists>u. next_after toy_calendar (''@every:'' @ show_int 1000) 2500 = Inr u \<and> 2500 < u \<and> 1000 dvd u"
  using every_tick_exact [of 1000 2500 toy_calendar] by (auto simp: in_i64_def)

definition toy_spec :: string where "toy_spec = ''@every:'' @ show_int 1000"

lemma toy_every: "next_after toy_calendar toy_spec t = Inr (next_every 1000 t)"
  unfolding toy_spec_def by (rule next_after_every) (simp_all add: in_i64_def)

theorem due_ticks_most_recent_witness:
  "due_ticks toy_calendar toy_spec 1000 3500 2 = Inr [2000, 3000]"
proof -
  have "next_every 1000 1000 = 2000" "next_every 1000 2000 = 3000" "next_every 1000 3000 = 4000"
    by (simp_all add: next_every_def wrap64_id in_i64_def)
  with due_ticks_most_recent [of 2 toy_calendar toy_spec 1000 "[2000, 3000]" 3500 4000]
  show ?thesis by (simp add: follows_def toy_every)
qed

theorem zoned_tick_rules_witness:
  "next_local toy_calendar [()] ''spec'' 1500 () = Inr 4000"
proof (rule zoned_tick_rules [THEN iffD2])
  show "in_range toy_calendar 1500" by (simp add: toy_calendar_def)
  have "successively (next_candidate toy_calendar [()] ''spec'') [1500, 2000, 3000, 4000]"
    by (simp add: next_candidate_def next_wall_def instant_def toy_calendar_def map_filter_simps)
  moreover have "list_all (passed_over toy_calendar () 1500) [2000, 3000]"
    by (simp add: passed_over_def toy_calendar_def)
  moreover have "wall_of toy_calendar () 1500 = 1500" "earliest toy_calendar () 4000 = Some 4000"
    by (simp_all add: toy_calendar_def)
  ultimately show "\<exists>ws w. length ws < MAX_WALL_CANDIDATES \<and>
      successively (next_candidate toy_calendar [()] ''spec'') (wall_of toy_calendar () 1500 # ws @ [w]) \<and>
      list_all (passed_over toy_calendar () 1500) ws \<and> earliest toy_calendar () w = Some 4000 \<and> 1500 < (4000 :: i64)"
    by (intro exI [of _ "[2000, 3000]"] exI [of _ 4000]) (simp add: MAX_WALL_CANDIDATES_def)
qed

theorem dow_ranges_translated_witness:
  "field_days (translate_posix_dow (show_int 5 @ ''-'' @ show_int 7)) = Some {6, 7, 1}"
  using dow_ranges_translated [of 5 7] by (simp add: posix_days_def upto_rec1)

section \<open>Divergences\<close>

text \<open>The range over the whole week becomes Sunday alone, and the step of a range that is split at
  Sunday stays with the second part.\<close>

theorem whole_week_becomes_sunday: "translate_posix_dow ''0-7'' = ''1-1''"
  by code_simp

theorem step_lost_at_sunday: "translate_posix_dow ''5-7/2'' = ''6-7,1/2''"
  by code_simp

lemma scan_ticks_exhausted:
  assumes "1 \<le> cap" "successively (follows cal spec) (t # ts)" "\<forall>v \<in> set ts. v \<le> now"
  shows "scan_ticks cal spec now cap (length ts) t (keep_last cap xs) = Inr (keep_last cap (xs @ ts))"
  using assms
proof (induction ts arbitrary: t xs)
  case (Cons v ts)
  from Cons.prems have v: "next_after cal spec t = Inr v" "v \<le> now" by (auto simp: follows_def)
  from Cons.prems have "scan_ticks cal spec now cap (length ts) v (keep_last cap (xs @ [v])) =
      Inr (keep_last cap ((xs @ [v]) @ ts))" by (intro Cons.IH) simp_all
  with v keep_last_step [OF Cons.prems(1), of xs v] show ?case by (simp add: Let_def)
qed simp

text \<open>After more than 10000 missed ticks the scan stops early, and what it keeps is not the most
  recent: the last tick it returns here is half of the way to now.\<close>

theorem scan_bound_drops_recent:
  "due_ticks cal (''@every:'' @ show_int 1) 0 20000 1 = Inr [10000]"
proof -
  define spec where "spec = ''@every:'' @ show_int 1"
  define ts where "ts = map int [1..<10001]"
  have len: "length ts = 10000" by (simp add: ts_def)
  have step: "follows cal spec (int k) (int (Suc k))" if "k < 10000" for k
  proof -
    have "next_every 1 (int k) = int k + 1" using that by (simp add: next_every_def wrap64_id in_i64_def)
    then show ?thesis
      using next_after_every [of 1 cal "int k"] by (simp add: follows_def spec_def in_i64_def)
  qed
  have "0 # ts = map int [0..<10001]" by (simp add: ts_def upt_conv_Cons [of 0] del: upt_Suc)
  then have "successively (follows cal spec) (0 # ts)"
    using step by (simp add: successively_conv_nth nth_append del: upt_Suc)
  moreover have "\<forall>v \<in> set ts. v \<le> 20000" by (auto simp: ts_def)
  ultimately have "scan_ticks cal spec 20000 1 10000 0 [0] = Inr (keep_last 1 (0 # ts))"
    using scan_ticks_exhausted [of 1 cal spec 0 ts 20000 "[0]"] len by (simp add: keep_last_def)
  moreover have "keep_last 1 (0 # ts) = [10000]"
    unfolding \<open>0 # ts = map int [0..<10001]\<close> by (simp add: keep_last_def drop_map)
  ultimately show ?thesis by (simp add: due_ticks_def spec_def)
qed

end
