(* ===== verification/Scheduler.thy ===== *)
theory Scheduler
  imports ScheduleSpec Client MemEnqueue
begin

text \<open>
  Periodic schedules: the schedule and its audit events (src/crates/headgate-core/src/lib.rs), the
  schedule tables of the SQLite store (src/crates/headgate-sqlite/src/inspect.rs), the sweep
  that fires due ticks (src/crates/headgate/src/scheduler.rs) and its observers
  (src/crates/headgate/src/periodic_hook.rs). The sweep is leaderless: what makes it safe is the
  identity of a tick's envelope, that enqueueing comes before advancing, and that advancing is a
  compare-and-set; the locale names what the sweep relies on, and it is interpreted on the
  in-memory enqueue with the SQLite tables.
\<close>

section \<open>Schedules and events\<close>

record schedule =
  sch_id :: string
  sch_kind :: string
  sch_payload :: bytes
  sch_queue :: string
  sch_partition_key :: string
  sch_rate_class :: string
  sch_priority :: i32
  sch_max_attempts :: u32
  sch_retention_ms :: i64
  sch_spec :: string
  sch_next_run_ms :: i64
  sch_last_enqueued_ms :: "i64 option"
  sch_on_missed :: missed_policy
  sch_backfill_limit :: u32
  sch_paused :: bool

datatype schedule_event_outcome = SE_Enqueued | SE_Deduplicated | SE_Failed | SE_Skipped

definition event_outcome_as_str :: "schedule_event_outcome \<Rightarrow> string" where
  "event_outcome_as_str o' =
     (case o' of SE_Enqueued \<Rightarrow> ''enqueued'' | SE_Deduplicated \<Rightarrow> ''deduplicated''
      | SE_Failed \<Rightarrow> ''failed'' | SE_Skipped \<Rightarrow> ''skipped'')"

definition event_outcome_parse :: "string \<Rightarrow> schedule_event_outcome option" where
  "event_outcome_parse v =
     (if v = ''enqueued'' then Some SE_Enqueued
      else if v = ''deduplicated'' then Some SE_Deduplicated
      else if v = ''failed'' then Some SE_Failed
      else if v = ''skipped'' then Some SE_Skipped else None)"

record schedule_event =
  se_event_id :: u64
  se_schedule_id :: string
  se_tick_ms :: i64
  se_job_id :: string
  se_outcome :: schedule_event_outcome
  se_reason :: string
  se_recorded_at_ms :: i64

section \<open>The schedule tables of the SQLite store\<close>

text \<open>\<open>seq\<close> is the last event id given; events are in the order of their ids.\<close>

record sched_db =
  sd_schedules :: "string \<rightharpoonup> schedule"
  sd_events :: "schedule_event list"
  sd_seq :: u64

definition upsert_schedule :: "schedule \<Rightarrow> sched_db \<Rightarrow> unit result \<times> sched_db" where
  "upsert_schedule s db =
     (if sch_id s = [] \<or> sch_kind s = [] \<or> sch_spec s = []
      then (Inl (Invalid ''schedule id, kind, and spec must not be empty''), db)
      else
        let row = (case sd_schedules db (sch_id s) of
                     None \<Rightarrow> s\<lparr>sch_last_enqueued_ms := None\<rparr>
                   | Some old \<Rightarrow>
                       s\<lparr>sch_next_run_ms := (if sch_spec old = sch_spec s then sch_next_run_ms old
                                             else sch_next_run_ms s),
                         sch_last_enqueued_ms := sch_last_enqueued_ms old\<rparr>)
        in (Inr (), db\<lparr>sd_schedules := (sd_schedules db)(sch_id s \<mapsto> row)\<rparr>))"

definition delete_schedule :: "string \<Rightarrow> sched_db \<Rightarrow> unit result \<times> sched_db" where
  "delete_schedule i db =
     (if sd_schedules db i = None then (Inl (NotFound (''schedule '' @ i)), db)
      else (Inr (), db\<lparr>sd_schedules := (sd_schedules db)(i := None)\<rparr>))"

text \<open>\<open>ORDER BY next_run_ms, id\<close> is a stable sort by the second key and then by the first.\<close>

definition due_schedules :: "i64 \<Rightarrow> string list \<Rightarrow> i64 \<Rightarrow> sched_db \<Rightarrow> schedule list \<times> i64" where
  "due_schedules now ord limit db =
     (if limit \<le> 0 then ([], 0)
      else
        (take (nat limit)
           (sort_key sch_next_run_ms (sort_key sch_id
             (filter (\<lambda>s. \<not> sch_paused s \<and> sch_next_run_ms s \<le> now)
               (List.map_filter (sd_schedules db) ord)))), now))"

definition advance_schedule :: "i64 \<Rightarrow> string \<Rightarrow> i64 \<Rightarrow> i64 \<Rightarrow> sched_db \<Rightarrow> bool result \<times> sched_db" where
  "advance_schedule now i from to db =
     (case sd_schedules db i of
        Some s \<Rightarrow>
          if sch_next_run_ms s = from
          then (Inr True, db\<lparr>sd_schedules := (sd_schedules db)(i \<mapsto>
                  s\<lparr>sch_next_run_ms := to, sch_last_enqueued_ms := Some now\<rparr>)\<rparr>)
          else (Inr False, db)
      | None \<Rightarrow> (Inr False, db))"

text \<open>The events of a schedule beyond the newest hundred are deleted in the same transaction.\<close>

definition trim_events :: "string \<Rightarrow> schedule_event list \<Rightarrow> schedule_event list" where
  "trim_events i es =
     (let own = filter (\<lambda>e. se_schedule_id e = i) es;
          old = take (length own - 100) own
      in filter (\<lambda>e. se_schedule_id e \<noteq> i \<or> se_event_id e \<notin> se_event_id ` set old) es)"

definition record_schedule_event :: "i64 \<Rightarrow> schedule_event \<Rightarrow> sched_db \<Rightarrow> unit result \<times> sched_db" where
  "record_schedule_event now e db =
     (if event_outcome_parse (event_outcome_as_str (se_outcome e)) = None
      then (Inl (Invalid ''invalid schedule event outcome''), db)
      else if length (se_reason e) > 64
      then (Inl (Invalid ''schedule event reason exceeds 64 bytes''), db)
      else
        let n = sd_seq db + 1;
            e' = e\<lparr>se_event_id := n, se_recorded_at_ms := now\<rparr>
        in (Inr (), db\<lparr>sd_events := trim_events (se_schedule_id e) (sd_events db @ [e']), sd_seq := n\<rparr>))"

definition list_schedule_events ::
  "string \<Rightarrow> u64 option \<Rightarrow> u32 \<Rightarrow> sched_db \<Rightarrow> schedule_event list result" where
  "list_schedule_events i before limit db =
     (case validate_schedule_event_limit limit of
        Inl e \<Rightarrow> Inl e
      | Inr _ \<Rightarrow>
          Inr (take (unat limit) (rev (filter (\<lambda>e. se_schedule_id e = i \<and>
                 (case before of None \<Rightarrow> True | Some b \<Rightarrow> se_event_id e < b)) (sd_events db)))))"

section \<open>The sweep\<close>

text \<open>What the sweep asks of the store.\<close>

record 's inspect =
  insp_enqueue :: "envelope list \<Rightarrow> 's \<Rightarrow> unit result \<times> 's"
  insp_record :: "schedule_event \<Rightarrow> 's \<Rightarrow> unit result \<times> 's"
  insp_advance :: "string \<Rightarrow> i64 \<Rightarrow> i64 \<Rightarrow> 's \<Rightarrow> bool result \<times> 's"
  insp_due :: "i64 \<Rightarrow> 's \<Rightarrow> (schedule list \<times> i64) result"

datatype periodic_event =
    PeriodicBegin string i64 envelope
  | PeriodicEnd string i64 envelope insert_outcome

type_synonym 's sweep = "'s \<times> (nat \<times> periodic_event) list"

definition tell :: "nat list \<Rightarrow> periodic_event \<Rightarrow> 's sweep \<Rightarrow> 's sweep" where
  "tell hooks ev w = (fst w, snd w @ map (\<lambda>h. (h, ev)) hooks)"

definition tick_envelope :: "(bytes \<Rightarrow> bytes) \<Rightarrow> schedule \<Rightarrow> i64 \<Rightarrow> envelope" where
  "tick_envelope sha256 s tick =
     envelope_default\<lparr>env_id := ''sched-'' @ sch_id s @ ''-'' @ show_int tick,
       kind := sch_kind s, fingerprint := fingerprint_of sha256 (sch_kind s) (sch_payload s),
       payload := sch_payload s, queue := sch_queue s, partition_key := sch_partition_key s,
       rate_class := sch_rate_class s, priority := sch_priority s, max_attempts := sch_max_attempts s,
       retention_ms := sch_retention_ms s, scheduled_at_ms := 0, periodic_schedule_id := sch_id s,
       periodic_tick_ms := tick,
       unique_key := Some (''sched:'' @ sch_id s @ '':'' @ show_int tick)\<rparr>"

definition audit_of :: "envelope \<Rightarrow> unit result \<Rightarrow> schedule_event_outcome \<times> string \<times> string" where
  "audit_of e r =
     (case r of
        Inr _ \<Rightarrow> (SE_Enqueued, ''accepted'', env_id e)
      | Inl (Duplicate i _) \<Rightarrow> (SE_Deduplicated, ''unique_key'', i)
      | Inl (IdConflict i) \<Rightarrow> (SE_Deduplicated, ''id_conflict'', i)
      | Inl (Quarantined _) \<Rightarrow> (SE_Skipped, ''quarantined'', env_id e)
      | Inl (Backpressure _ _ _ _) \<Rightarrow> (SE_Failed, ''backpressure'', env_id e)
      | Inl (Unavailable _) \<Rightarrow> (SE_Failed, ''store_unavailable'', env_id e)
      | Inl (Invalid _) \<Rightarrow> (SE_Failed, ''invalid_request'', env_id e)
      | Inl _ \<Rightarrow> (SE_Failed, ''store_error'', env_id e))"

definition audit_event :: "schedule \<Rightarrow> i64 \<Rightarrow> envelope \<Rightarrow> unit result \<Rightarrow> schedule_event" where
  "audit_event s tick e r =
     (case audit_of e r of
        (o', reason, i) \<Rightarrow>
          \<lparr>se_event_id = 0, se_schedule_id = sch_id s, se_tick_ms = tick, se_job_id = i,
           se_outcome = o', se_reason = reason, se_recorded_at_ms = 0\<rparr>)"

text \<open>The errors that end the firing of a schedule.\<close>

definition fatal :: "unit result \<Rightarrow> store_error option" where
  "fatal r =
     (case r of
        Inr _ \<Rightarrow> None
      | Inl (Duplicate _ _) \<Rightarrow> None
      | Inl (IdConflict _) \<Rightarrow> None
      | Inl (Quarantined _) \<Rightarrow> None
      | Inl e \<Rightarrow> Some e)"

fun fire_ticks ::
  "(bytes \<Rightarrow> bytes) \<Rightarrow> 's inspect \<Rightarrow> nat list \<Rightarrow> schedule \<Rightarrow> i64 list \<Rightarrow> nat \<Rightarrow> 's sweep
    \<Rightarrow> nat result \<times> 's sweep" where
  "fire_ticks sha256 insp hooks s [] fired w = (Inr fired, w)"
| "fire_ticks sha256 insp hooks s (tick # ticks) fired w =
     (let e = tick_envelope sha256 s tick;
          w1 = tell hooks (PeriodicBegin (sch_id s) tick e) w
      in case insp_enqueue insp [e] (fst w1) of
           (r, st) \<Rightarrow>
             let w2 = tell hooks (PeriodicEnd (sch_id s) tick e (from_store_result r)) (st, snd w1)
             in case insp_record insp (audit_event s tick e r) (fst w2) of
                  (Inl err, st') \<Rightarrow> (Inl err, (st', snd w2))
                | (Inr _, st') \<Rightarrow>
                    (case fatal r of
                       Some err \<Rightarrow> (Inl err, (st', snd w2))
                     | None \<Rightarrow>
                         fire_ticks sha256 insp hooks s ticks (case r of Inr _ \<Rightarrow> fired + 1 | _ \<Rightarrow> fired)
                           (st', snd w2)))"

definition invalid_spec_event :: "schedule \<Rightarrow> schedule_event" where
  "invalid_spec_event s =
     \<lparr>se_event_id = 0, se_schedule_id = sch_id s, se_tick_ms = sch_next_run_ms s, se_job_id = [],
      se_outcome = SE_Failed, se_reason = ''invalid_spec'', se_recorded_at_ms = 0\<rparr>"

definition ticks_to_fire :: "schedule \<Rightarrow> i64 list \<Rightarrow> i64 list" where
  "ticks_to_fire s ticks =
     (case sch_on_missed s of Missed_Backfill \<Rightarrow> ticks | _ \<Rightarrow> [last ticks])"

definition fire_schedule ::
  "(bytes \<Rightarrow> bytes) \<Rightarrow> ('c, 'z) calendar \<Rightarrow> 's inspect \<Rightarrow> nat list \<Rightarrow> i64 \<Rightarrow> schedule \<Rightarrow> 's sweep
    \<Rightarrow> nat result \<times> 's sweep" where
  "fire_schedule sha256 cal insp hooks now s w =
     (case due_ticks cal (sch_spec s) (sch_next_run_ms s) now (unat (max (sch_backfill_limit s) 1)) of
        Inl _ \<Rightarrow>
          (case insp_record insp (invalid_spec_event s) (fst w) of
             (Inl err, st) \<Rightarrow> (Inl err, (st, snd w))
           | (Inr _, st) \<Rightarrow>
               (Inr 0, (snd (insp_advance insp (sch_id s) (sch_next_run_ms s)
                               (wrap64 (now + 3600000)) st), snd w)))
      | Inr ticks \<Rightarrow>
          if ticks = [] then (Inr 0, w)
          else case next_after cal (sch_spec s) (max now (last ticks)) of
            Inl e \<Rightarrow> (Inl (Invalid e), w)
          | Inr nxt \<Rightarrow>
              (case fire_ticks sha256 insp hooks s (ticks_to_fire s ticks) 0 w of
                 (Inl err, w') \<Rightarrow> (Inl err, w')
               | (Inr fired, w') \<Rightarrow>
                   (case insp_advance insp (sch_id s) (sch_next_run_ms s) nxt (fst w') of
                      (Inl err, st) \<Rightarrow> (Inl err, (st, snd w'))
                    | (Inr _, st) \<Rightarrow> (Inr fired, (st, snd w')))))"

text \<open>One pass; an error of one schedule is logged and the next one is tried.\<close>

fun sweep_all ::
  "(bytes \<Rightarrow> bytes) \<Rightarrow> ('c, 'z) calendar \<Rightarrow> 's inspect \<Rightarrow> nat list \<Rightarrow> i64 \<Rightarrow> schedule list \<Rightarrow> nat \<Rightarrow> 's sweep
    \<Rightarrow> nat \<times> 's sweep" where
  "sweep_all sha256 cal insp hooks now [] fired w = (fired, w)"
| "sweep_all sha256 cal insp hooks now (s # ss) fired w =
     (case fire_schedule sha256 cal insp hooks now s w of
        (Inl _, w') \<Rightarrow> sweep_all sha256 cal insp hooks now ss fired w'
      | (Inr n, w') \<Rightarrow> sweep_all sha256 cal insp hooks now ss (fired + n) w')"

definition scheduler_sweep_with_hooks ::
  "(bytes \<Rightarrow> bytes) \<Rightarrow> ('c, 'z) calendar \<Rightarrow> 's inspect \<Rightarrow> nat list \<Rightarrow> 's sweep \<Rightarrow> nat result \<times> 's sweep" where
  "scheduler_sweep_with_hooks sha256 cal insp hooks w =
     (case insp_due insp 50 (fst w) of
        Inl e \<Rightarrow> (Inl e, w)
      | Inr (due, now) \<Rightarrow>
          (case sweep_all sha256 cal insp hooks now due 0 w of (n, w') \<Rightarrow> (Inr n, w')))"

definition scheduler_sweep ::
  "(bytes \<Rightarrow> bytes) \<Rightarrow> ('c, 'z) calendar \<Rightarrow> 's inspect \<Rightarrow> 's sweep \<Rightarrow> nat result \<times> 's sweep" where
  "scheduler_sweep sha256 cal insp = scheduler_sweep_with_hooks sha256 cal insp []"

section \<open>What the sweep relies on\<close>

text \<open>
  \<open>settled\<close> says of the job table that an envelope of a tick has been dealt with: it is there, or
  something else keeps it out for good. The laws: an enqueue that does not fail settles its
  envelope, settled envelopes stay settled and change nothing when they are enqueued again,
  the audit touches neither jobs nor schedules, and the advance is a compare-and-set.
\<close>

locale tick_store =
  fixes insp :: "'s inspect"
    and jobs_of :: "'s \<Rightarrow> 'j"
    and run_of :: "'s \<Rightarrow> string \<Rightarrow> i64 option"
    and settled :: "'j \<Rightarrow> envelope \<Rightarrow> bool"
    and plain :: "envelope \<Rightarrow> bool"
  assumes ticks_plain: "plain (tick_envelope sha256 s tick)"
    and settles: "plain e \<Longrightarrow> fatal (fst (insp_enqueue insp [e] st)) = None \<Longrightarrow>
      settled (jobs_of (snd (insp_enqueue insp [e] st))) e"
    and stays: "plain e' \<Longrightarrow> settled (jobs_of st) e \<Longrightarrow> settled (jobs_of (snd (insp_enqueue insp [e'] st))) e"
    and again: "plain e \<Longrightarrow> settled (jobs_of st) e \<Longrightarrow> jobs_of (snd (insp_enqueue insp [e] st)) = jobs_of st"
    and enqueue_run: "run_of (snd (insp_enqueue insp es st)) = run_of st"
    and record_keeps: "jobs_of (snd (insp_record insp ev st)) = jobs_of st"
      "run_of (snd (insp_record insp ev st)) = run_of st"
    and advance_jobs: "jobs_of (snd (insp_advance insp i a b st)) = jobs_of st"
    and advance_cas: "run_of (snd (insp_advance insp i a b st)) =
      (if run_of st i = Some a then (run_of st)(i \<mapsto> b) else run_of st)"
begin

lemma fire_step:
  "\<exists>st. jobs_of st = jobs_of (snd (insp_enqueue insp [tick_envelope sha256 s tick] (fst w))) \<and>
     run_of st = run_of (fst w) \<and>
     ((\<exists>err l. fire_ticks sha256 insp hooks s (tick # ts) n w = (Inl err, (st, l))) \<or>
      fatal (fst (insp_enqueue insp [tick_envelope sha256 s tick] (fst w))) = None \<and>
        (\<exists>n' l. fire_ticks sha256 insp hooks s (tick # ts) n w =
           fire_ticks sha256 insp hooks s ts n' (st, l)))"
proof -
  define e where "e = tick_envelope sha256 s tick"
  obtain r st0 where q: "insp_enqueue insp [e] (fst w) = (r, st0)" by fastforce
  obtain r' st where rec: "insp_record insp (audit_event s tick e r) st0 = (r', st)" by fastforce
  have "jobs_of st = jobs_of st0" "run_of st = run_of st0"
    using record_keeps [of "audit_event s tick e r" st0] rec by simp_all
  moreover have "run_of st0 = run_of (fst w)" using enqueue_run [of "[e]" "fst w"] q by simp
  moreover have "(\<exists>err l. fire_ticks sha256 insp hooks s (tick # ts) n w = (Inl err, (st, l))) \<or>
     fatal r = None \<and> (\<exists>n' l. fire_ticks sha256 insp hooks s (tick # ts) n w =
          fire_ticks sha256 insp hooks s ts n' (st, l))"
    using q rec by (cases r'; cases "fatal r") (auto simp: Let_def tell_def e_def)
  ultimately show ?thesis using q unfolding e_def by (intro exI [of _ st]) auto
qed

lemma fire_ticks_run: "run_of (fst (snd (fire_ticks sha256 insp hooks s ts n w))) = run_of (fst w)"
proof (induction ts arbitrary: n w)
  case (Cons tick ts)
  from fire_step [of sha256 s tick w hooks ts n] obtain st where "run_of st = run_of (fst w)"
    "(\<exists>err l. fire_ticks sha256 insp hooks s (tick # ts) n w = (Inl err, (st, l))) \<or>
     (\<exists>n' l. fire_ticks sha256 insp hooks s (tick # ts) n w = fire_ticks sha256 insp hooks s ts n' (st, l))"
    by blast
  with Cons show ?case by (metis fst_conv snd_conv)
qed simp

lemma fire_ticks_stays:
  "settled (jobs_of (fst w)) e \<Longrightarrow>
   settled (jobs_of (fst (snd (fire_ticks sha256 insp hooks s ts n w)))) e"
proof (induction ts arbitrary: n w)
  case (Cons tick ts)
  from fire_step [of sha256 s tick w hooks ts n] obtain st where
    st: "jobs_of st = jobs_of (snd (insp_enqueue insp [tick_envelope sha256 s tick] (fst w)))"
    and cs: "(\<exists>err l. fire_ticks sha256 insp hooks s (tick # ts) n w = (Inl err, (st, l))) \<or>
     (\<exists>n' l. fire_ticks sha256 insp hooks s (tick # ts) n w = fire_ticks sha256 insp hooks s ts n' (st, l))"
    by blast
  have "settled (jobs_of st) e" unfolding st using ticks_plain Cons.prems by (rule stays)
  with cs Cons.IH show ?case by (metis fst_conv snd_conv)
qed simp

lemma fire_ticks_settles:
  "fire_ticks sha256 insp hooks s ts n w = (Inr m, w') \<Longrightarrow> t \<in> set ts \<Longrightarrow>
   settled (jobs_of (fst w')) (tick_envelope sha256 s t)"
proof (induction ts arbitrary: n w)
  case (Cons tick ts)
  from fire_step [of sha256 s tick w hooks ts n] Cons.prems(1) obtain st n' l where
    st: "jobs_of st = jobs_of (snd (insp_enqueue insp [tick_envelope sha256 s tick] (fst w)))"
    and ok: "fatal (fst (insp_enqueue insp [tick_envelope sha256 s tick] (fst w))) = None"
    and go: "fire_ticks sha256 insp hooks s ts n' (st, l) = (Inr m, w')" by auto
  have "settled (jobs_of st) (tick_envelope sha256 s tick)"
    unfolding st using ticks_plain ok by (rule settles)
  with fire_ticks_stays [of "(st, l)"] go have "settled (jobs_of (fst w')) (tick_envelope sha256 s tick)"
    by (metis fst_conv snd_conv)
  with Cons.IH [OF go] Cons.prems(2) show ?case by auto
qed simp

lemma fire_ticks_again:
  "(\<And>t. t \<in> set ts \<Longrightarrow> settled (jobs_of (fst w)) (tick_envelope sha256 s t)) \<Longrightarrow>
   jobs_of (fst (snd (fire_ticks sha256 insp hooks s ts n w))) = jobs_of (fst w)"
proof (induction ts arbitrary: n w)
  case (Cons tick ts)
  from fire_step [of sha256 s tick w hooks ts n] obtain st where
    st: "jobs_of st = jobs_of (snd (insp_enqueue insp [tick_envelope sha256 s tick] (fst w)))"
    and cs: "(\<exists>err l. fire_ticks sha256 insp hooks s (tick # ts) n w = (Inl err, (st, l))) \<or>
     (\<exists>n' l. fire_ticks sha256 insp hooks s (tick # ts) n w = fire_ticks sha256 insp hooks s ts n' (st, l))"
    by blast
  have same: "jobs_of st = jobs_of (fst w)"
    unfolding st by (rule again [OF ticks_plain]) (simp add: Cons.prems)
  then have "jobs_of (fst (snd (fire_ticks sha256 insp hooks s ts n' (st, l)))) = jobs_of (fst w)" for n' l
    using Cons.IH [of "(st, l)" n'] Cons.prems by simp
  with cs same show ?case by (metis fst_conv snd_conv)
qed simp

text \<open>A schedule that could be read advances only once every tick to fire is settled.\<close>

lemma fire_schedule_settles:
  assumes "due_ticks cal (sch_spec s) (sch_next_run_ms s) now (unat (max (sch_backfill_limit s) 1)) = Inr ticks"
    and "fire_schedule sha256 cal insp hooks now s w = (r, w')"
    and "run_of (fst w') \<noteq> run_of (fst w)" "t \<in> set (ticks_to_fire s ticks)"
  shows "settled (jobs_of (fst w')) (tick_envelope sha256 s t)"
proof -
  have ne: "ticks \<noteq> []" using assms(1-3) by (auto simp: fire_schedule_def)
  obtain nxt where nxt: "next_after cal (sch_spec s) (max now (last ticks)) = Inr nxt"
    using assms(1-3) ne by (cases "next_after cal (sch_spec s) (max now (last ticks))")
      (auto simp: fire_schedule_def)
  obtain r1 w1 where f: "fire_ticks sha256 insp hooks s (ticks_to_fire s ticks) 0 w = (r1, w1)" by (meson surj_pair)
  have run: "run_of (fst w1) = run_of (fst w)"
    using fire_ticks_run [of sha256 hooks s "ticks_to_fire s ticks" 0 w] f by simp
  obtain n where n: "r1 = Inr n"
    using assms(1-3) ne nxt f run by (cases r1) (auto simp: fire_schedule_def)
  obtain r2 st where a: "insp_advance insp (sch_id s) (sch_next_run_ms s) nxt (fst w1) = (r2, st)" by fastforce
  have "fst w' = st" using assms(1,2) ne nxt f n a by (cases r2) (auto simp: fire_schedule_def)
  moreover have "jobs_of st = jobs_of (fst w1)"
    using advance_jobs [of "sch_id s" "sch_next_run_ms s" nxt "fst w1"] a by simp
  ultimately show ?thesis using fire_ticks_settles [OF f [unfolded n] assms(4)] by simp
qed

text \<open>A firing that returns has settled every tick it fired.\<close>

lemma fire_schedule_done:
  assumes "due_ticks cal (sch_spec s) (sch_next_run_ms s) now (unat (max (sch_backfill_limit s) 1)) = Inr ticks"
    and "ticks \<noteq> []" "fire_schedule sha256 cal insp hooks now s w = (Inr n, w')" "t \<in> set (ticks_to_fire s ticks)"
  shows "settled (jobs_of (fst w')) (tick_envelope sha256 s t)"
proof -
  obtain nxt where nxt: "next_after cal (sch_spec s) (max now (last ticks)) = Inr nxt"
    using assms(1-3) by (cases "next_after cal (sch_spec s) (max now (last ticks))") (auto simp: fire_schedule_def)
  obtain m w1 where f: "fire_ticks sha256 insp hooks s (ticks_to_fire s ticks) 0 w = (Inr m, w1)"
    using assms(1-3) nxt by (auto simp: fire_schedule_def split: prod.splits sum.splits)
  have "jobs_of (fst w') = jobs_of (fst w1)"
    using assms(1-3) nxt f advance_jobs [of "sch_id s" "sch_next_run_ms s" nxt "fst w1"]
    by (auto simp: fire_schedule_def split: prod.splits sum.splits)
  with fire_ticks_settles [OF f assms(4)] show ?thesis by simp
qed

text \<open>Whatever a firing did to the job table, the enqueues of its ticks did.\<close>

lemma fire_schedule_jobs:
  "jobs_of (fst (snd (fire_schedule sha256 cal insp hooks now s w))) = jobs_of (fst w) \<or>
   (\<exists>ticks. due_ticks cal (sch_spec s) (sch_next_run_ms s) now (unat (max (sch_backfill_limit s) 1)) = Inr ticks \<and>
      jobs_of (fst (snd (fire_schedule sha256 cal insp hooks now s w))) =
      jobs_of (fst (snd (fire_ticks sha256 insp hooks s (ticks_to_fire s ticks) 0 w))))"
proof (cases "due_ticks cal (sch_spec s) (sch_next_run_ms s) now (unat (max (sch_backfill_limit s) 1))")
  case (Inl e)
  then show ?thesis
    using record_keeps(1) [of "invalid_spec_event s" "fst w"] advance_jobs
    by (auto simp: fire_schedule_def split: prod.splits sum.splits)
next
  case (Inr ticks)
  obtain q w1 where f: "fire_ticks sha256 insp hooks s (ticks_to_fire s ticks) 0 w = (q, w1)" by (meson surj_pair)
  have "jobs_of (snd (insp_advance insp i a b st)) = jobs_of st" for i a b st by (rule advance_jobs)
  with Inr f show ?thesis
    by (cases "next_after cal (sch_spec s) (max now (last ticks))"; cases q;
        cases "insp_advance insp (sch_id s) (sch_next_run_ms s) (projr (next_after cal (sch_spec s) (max now (last ticks)))) (fst w1)")
      (auto simp: fire_schedule_def split: prod.splits sum.splits, (metis snd_conv)+)
qed

end

section \<open>The in-memory enqueue with the SQLite tables\<close>

record sched_store =
  ss_jobs :: inner
  ss_db :: sched_db

definition store_inspect :: "i64 \<Rightarrow> string list \<Rightarrow> sched_store inspect" where
  "store_inspect now ord =
     \<lparr>insp_enqueue = (\<lambda>es st. (fst (mem_enqueue now es (ss_jobs st)),
                                 st\<lparr>ss_jobs := snd (mem_enqueue now es (ss_jobs st))\<rparr>)),
      insp_record = (\<lambda>e st. (fst (record_schedule_event now e (ss_db st)),
                              st\<lparr>ss_db := snd (record_schedule_event now e (ss_db st))\<rparr>)),
      insp_advance = (\<lambda>i a b st. (fst (advance_schedule now i a b (ss_db st)),
                                    st\<lparr>ss_db := snd (advance_schedule now i a b (ss_db st))\<rparr>)),
      insp_due = (\<lambda>limit st. Inr (due_schedules now ord limit (ss_db st)))\<rparr>"

definition next_run :: "sched_store \<Rightarrow> string \<Rightarrow> i64 option" where
  "next_run st i = map_option sch_next_run_ms (sd_schedules (ss_db st) i)"

definition plain_env :: "envelope \<Rightarrow> bool" where
  "plain_env e \<longleftrightarrow> unique_replace e = 0 \<and> unique_debounce_ms e = 0 \<and> unique_window_ms e = 0"

text \<open>The job is stored, or its fingerprint is quarantined, or its key is taken.\<close>

definition dealt_with :: "inner \<Rightarrow> envelope \<Rightarrow> bool" where
  "dealt_with s e \<longleftrightarrow>
     jobs s (env_id e) \<noteq> None \<or> blocked_fingerprint s (fingerprint e) \<or>
     (\<exists>k. effective_unique_key e = Some k \<and> unique s k \<noteq> None)"

lemma enqueue_plain:
  assumes "plain_env e" "validate_enqueue [e] = Inr ()"
  shows "mem_enqueue now [e] s =
    (case jobs s (env_id e) of
       Some j \<Rightarrow>
         if same_job_content e (kind (env j)) (fingerprint (env j)) (queue (env j)) then (Inr (), s)
         else (Inl (IdConflict (env_id e)), s)
     | None \<Rightarrow>
         if blocked_fingerprint s (fingerprint e) then (Inl (Quarantined (fingerprint e)), s)
         else case Option.bind (effective_unique_key e) (unique s) of
                Some i \<Rightarrow> (Inl (Duplicate i False), s)
              | None \<Rightarrow> (Inr (), insert_one now s (e, False)))"
  using assms
  by (simp add: mem_enqueue_def plain_env_def unique_holder_def replace_holder_def blocked_fingerprint_def
      insert_one_eq split: option.split)

text \<open>The boundary refuses a single envelope only as invalid.\<close>

definition only_invalid :: "'a result \<Rightarrow> bool" where
  "only_invalid r \<longleftrightarrow> (\<forall>e. r = Inl e \<longrightarrow> (\<exists>m. e = Invalid m))"

lemma only_invalid_reject: "only_invalid rest \<Longrightarrow> only_invalid (reject_if b (Invalid m) rest)"
  by (auto simp: only_invalid_def reject_if_def)

lemma only_invalid_Inr: "only_invalid (Inr x)" "only_invalid (Inl (Invalid m))"
  by (simp_all add: only_invalid_def)

lemma validate_fields_only_invalid: "only_invalid (validate_fields tot e)"
  unfolding validate_fields_def
  by (auto intro!: only_invalid_reject only_invalid_Inr split: sum.split option.split)

lemma validate_tags_only_invalid: "only_invalid (validate_tags seen tot ts)"
  by (induction seen tot ts rule: validate_tags.induct) (auto intro: only_invalid_Inr)

lemma validate_single_Invalid:
  assumes "validate_enqueue [e] = Inl err"
  shows "\<exists>m. err = Invalid m"
proof -
  have r: "only_invalid (validate_routing {} t e)" for t
    by (auto simp: validate_routing_def Let_def intro!: only_invalid_reject only_invalid_Inr)
  have "only_invalid (validate_one {} 0 e)"
    using validate_fields_only_invalid [of 0 e] validate_tags_only_invalid [of "{}" _ "tags e"] r
    by (auto simp: validate_one_def only_invalid_def split: sum.split)
  then have "only_invalid (validate_enqueue [e])"
    unfolding validate_enqueue_def
    by (intro only_invalid_reject) (auto simp: only_invalid_def split: sum.split)
  with assms show ?thesis by (simp add: only_invalid_def)
qed

lemma enqueue_plain_settles:
  assumes "plain_env e" "fatal (fst (mem_enqueue now [e] s)) = None"
  shows "dealt_with (snd (mem_enqueue now [e] s)) e"
proof (cases "validate_enqueue [e]")
  case (Inl err)
  have "\<exists>m. err = Invalid m" using validate_single_Invalid Inl by blast
  with assms(2) Inl show ?thesis by (auto simp: mem_enqueue_def fatal_def)
next
  case (Inr u)
  with enqueue_plain [OF assms(1), of now s] show ?thesis
    by (auto simp: dealt_with_def insert_one_eq split: option.split bind_splits)
qed

lemma enqueue_plain_again:
  assumes "plain_env e" "dealt_with s e"
  shows "snd (mem_enqueue now [e] s) = s"
proof (cases "validate_enqueue [e]")
  case (Inl err)
  then show ?thesis by (simp add: mem_enqueue_def)
next
  case (Inr u)
  with enqueue_plain [OF assms(1), of now s] assms(2) show ?thesis
    by (auto simp: dealt_with_def split: option.split bind_splits)
qed

lemma enqueue_plain_stays:
  assumes "plain_env e'" "dealt_with s e"
  shows "dealt_with (snd (mem_enqueue now [e'] s)) e"
proof (cases "validate_enqueue [e']")
  case (Inl err)
  with assms(2) show ?thesis by (simp add: mem_enqueue_def)
next
  case (Inr u)
  have "unique (index_unique now (fill_defaults now e') s) k \<noteq> None" if "unique s k \<noteq> None" for k
    using that by (auto simp: index_unique_cases split: option.split)
  with Inr enqueue_plain [OF assms(1), of now s] assms(2) show ?thesis
    by (auto simp: dealt_with_def insert_one_eq blocked_fingerprint_def split: option.split bind_splits)
qed

lemma tick_envelope_plain: "plain_env (tick_envelope sha256 s tick)"
  by (simp add: plain_env_def tick_envelope_def envelope_default_def)

lemma record_schedules: "sd_schedules (snd (record_schedule_event now ev db)) = sd_schedules db"
  by (simp add: record_schedule_event_def Let_def)

interpretation sweep: tick_store "store_inspect now ord" ss_jobs next_run dealt_with plain_env
proof unfold_locales
  fix i a b and st :: sched_store
  show "next_run (snd (insp_advance (store_inspect now ord) i a b st)) =
      (if next_run st i = Some a then (next_run st)(i \<mapsto> b) else next_run st)"
    by (auto simp: next_run_def store_inspect_def advance_schedule_def fun_eq_iff split: option.split)
qed (simp_all add: store_inspect_def tick_envelope_plain enqueue_plain_settles enqueue_plain_stays
    enqueue_plain_again next_run_def fun_eq_iff record_schedules)

section \<open>Properties\<close>

text \<open>C38. No tick is lost between firing and advancing: whenever firing a schedule moves its stored
  next run, every tick that the missed-run policy selects has by then been dealt with in the job
  table, as a stored job, as one whose key or id is already taken, or as quarantined. Firing that
  fails before that leaves the schedule where it was, so the ticks stay due.\<close>

theorem schedule_advances_after_ticks:
  assumes "due_ticks cal (sch_spec s) (sch_next_run_ms s) now (unat (max (sch_backfill_limit s) 1)) = Inr ticks"
    and "fire_schedule sha256 cal (store_inspect now ord) hooks now s w = (r, w')"
    and "next_run (fst w') \<noteq> next_run (fst w)" "t \<in> set (ticks_to_fire s ticks)"
  shows "dealt_with (ss_jobs (fst w')) (tick_envelope sha256 s t)"
  using assms by (rule sweep.fire_schedule_settles)




lemma show_int_no_colon: "CHR '':'' \<notin> set (show_int i)"
  using show_nat_digits [of "nat i"] show_nat_digits [of "nat (- i)"]
  by (auto simp: show_int_def list_all_iff is_ascii_digit_def)

lemma show_nat_no_dash: "CHR ''-'' \<notin> set (show_nat n)"
  using show_nat_digits [of n] by (auto simp: list_all_iff is_ascii_digit_def)

lemma last_delimiter:
  assumes "x @ d # a = y @ d # b" "d \<notin> set a" "d \<notin> set b"
  shows "x = y \<and> a = b"
proof -
  from assms(1) have "rev a @ d # rev x = rev b @ d # rev y"
    by (metis append.assoc append_Cons append_Nil rev.simps(2) rev_append)
  moreover have "takeWhile ((\<noteq>) d) (rev a @ d # rev x) = rev a"
    "takeWhile ((\<noteq>) d) (rev b @ d # rev y) = rev b"
    using assms(2,3) by (auto simp: takeWhile_append)
  ultimately have "rev a = rev b" by simp
  with assms(1) show ?thesis by simp
qed

text \<open>A tick has one identity and no two ticks share it: envelopes of the same schedule and tick
  carry the same id and the same effective key on every node, and envelopes of different
  schedules or different ticks since the epoch carry different ids and different keys.\<close>

theorem tick_identity:
  assumes "0 \<le> t" "0 \<le> t'"
  shows "(env_id (tick_envelope h s t) = env_id (tick_envelope h' s' t') \<longleftrightarrow> sch_id s = sch_id s' \<and> t = t') \<and>
    (unique_key (tick_envelope h s t) = unique_key (tick_envelope h' s' t') \<longleftrightarrow> sch_id s = sch_id s' \<and> t = t')"
proof -
  have "CHR ''-'' \<notin> set (show_int t)" "CHR ''-'' \<notin> set (show_int t')"
    using assms show_nat_no_dash by (simp_all add: show_int_def)
  then have "sch_id s @ CHR ''-'' # show_int t = sch_id s' @ CHR ''-'' # show_int t' \<longleftrightarrow>
      sch_id s = sch_id s' \<and> t = t'"
    using last_delimiter [of "sch_id s" "CHR ''-''" "show_int t" "sch_id s'" "show_int t'"]
      show_int_inj [of t t'] by auto
  moreover have "sch_id s @ CHR '':'' # show_int t = sch_id s' @ CHR '':'' # show_int t' \<longleftrightarrow>
      sch_id s = sch_id s' \<and> t = t'"
    using last_delimiter [of "sch_id s" "CHR '':''" "show_int t" "sch_id s'" "show_int t'"]
      show_int_no_colon [of t] show_int_no_colon [of t'] show_int_inj [of t t'] by auto
  ultimately show ?thesis by (simp add: tick_envelope_def)
qed

section \<open>Witnesses\<close>

definition digest0 :: "bytes \<Rightarrow> bytes" where "digest0 _ = []"

definition sched5 :: schedule where
  "sched5 = \<lparr>sch_id = ''s'', sch_kind = ''mail'', sch_payload = [], sch_queue = [], sch_partition_key = [],
     sch_rate_class = [], sch_priority = 0, sch_max_attempts = 3, sch_retention_ms = 0,
     sch_spec = ''@every:'' @ show_int 5, sch_next_run_ms = 5, sch_last_enqueued_ms = None,
     sch_on_missed = Missed_Skip, sch_backfill_limit = 1, sch_paused = False\<rparr>"

definition sched5_world :: "sched_store sweep" where
  "sched5_world = (\<lparr>ss_jobs = inner_default,
     ss_db = \<lparr>sd_schedules = [''s'' \<mapsto> sched5], sd_events = [], sd_seq = 0\<rparr>\<rparr>, [])"

lemma sched5_next: "next_after toy_calendar (sch_spec sched5) t = Inr (next_every 5 t)"
  using next_after_every [of 5 toy_calendar t] by (simp add: sched5_def in_i64_def)

lemma sched5_every: "next_every 5 5 = 10" "next_every 5 7 = 10"
  by (simp_all add: next_every_def wrap64_id in_i64_def)

lemma sched5_due: "due_ticks toy_calendar (sch_spec sched5) 5 7 1 = Inr [5]"
  using scan_ticks_all [of 1 toy_calendar "sch_spec sched5" 5 "[]" 7 10 10000 "[5]"]
  by (simp add: due_ticks_def sched5_next sched5_every keep_last_def)

lemma sched5_valid: "validate_enqueue [tick_envelope digest0 sched5 5] = Inr ()"
proof -
  have "show_int 5 = ''5''" by code_simp
  then show ?thesis
    by (simp add: validate_enqueue_Inr tick_envelope_def sched5_def digest0_def fingerprint_of_def
        envelope_default_def envelope_valid_def fields_valid_def routing_valid_def identifier_fields_def
        unique_key_len_def unique_key_missing_def header_bytes_def kind_ok_def word_char_def
        MAX_JOB_IDENTIFIER_LEN_def MAX_UNIQUE_KEY_BYTES_def envelope_total_def envelope_bytes_def
        MAX_ENQUEUE_BATCH_SIZE_def MAX_ENQUEUE_BYTES_def)
qed

lemma sched5_enqueue: "\<exists>i. mem_enqueue 7 [tick_envelope digest0 sched5 5] inner_default = (Inr (), i)"
  using enqueue_plain [OF tick_envelope_plain sched5_valid, of 7 inner_default]
  by (simp add: inner_default_def blocked_fingerprint_def bind_eq_None_conv split: option.split)

lemma sched5_fire:
  obtains w' where "fire_schedule digest0 toy_calendar (store_inspect 7 [''s'']) [] 7 sched5 sched5_world = (Inr 1, w')"
    "next_run (fst w') ''s'' = Some 10"
proof -
  obtain i where i: "mem_enqueue 7 [tick_envelope digest0 sched5 5] inner_default = (Inr (), i)"
    using sched5_enqueue by blast
  have fields: "sch_next_run_ms sched5 = 5" "sch_backfill_limit sched5 = 1" "sch_on_missed sched5 = Missed_Skip"
    "sch_id sched5 = ''s''" by (simp_all add: sched5_def)
  define w1 where "w1 = snd (fire_ticks digest0 (store_inspect 7 [''s'']) [] sched5 [5] 0 sched5_world)"
  have f: "fire_ticks digest0 (store_inspect 7 [''s'']) [] sched5 [5] 0 sched5_world = (Inr 1, w1)"
    by (simp add: w1_def sched5_world_def store_inspect_def i tell_def fatal_def record_schedule_event_def
        Let_def audit_event_def audit_of_def event_outcome_parse_def event_outcome_as_str_def)
  have "next_run (fst w1) ''s'' = next_run (fst sched5_world) ''s''"
    using sweep.fire_ticks_run [of digest0 7 "[''s'']" "[]" sched5 "[5]" 0 sched5_world] by (simp add: w1_def)
  then have run: "map_option sch_next_run_ms (sd_schedules (ss_db (fst w1)) ''s'') = Some 5"
    by (simp add: next_run_def sched5_world_def fields)
  then have n: "next_run (snd (insp_advance (store_inspect 7 [''s'']) ''s'' 5 10 (fst w1))) ''s'' = Some 10"
    by (auto simp: next_run_def store_inspect_def advance_schedule_def)
  obtain b st where a: "insp_advance (store_inspect 7 [''s'']) ''s'' 5 10 (fst w1) = (Inr b, st)"
    by (cases "sd_schedules (ss_db (fst w1)) ''s''";
        cases "sch_next_run_ms (the (sd_schedules (ss_db (fst w1)) ''s'')) = 5")
      (auto simp: store_inspect_def advance_schedule_def)
  have "fire_schedule digest0 toy_calendar (store_inspect 7 [''s'']) [] 7 sched5 sched5_world =
      (Inr 1, (st, snd w1))"
    using f a by (simp add: fire_schedule_def fields sched5_due [unfolded One_nat_def] sched5_next sched5_every ticks_to_fire_def
        del: fire_ticks.simps)
  with that n a show ?thesis by simp
qed

theorem schedule_advances_after_ticks_witness:
  "\<exists>w'. fire_schedule digest0 toy_calendar (store_inspect 7 [''s'']) [] 7 sched5 sched5_world = (Inr 1, w') \<and>
     dealt_with (ss_jobs (fst w')) (tick_envelope digest0 sched5 5)"
proof (rule sched5_fire)
  fix w'
  assume f: "fire_schedule digest0 toy_calendar (store_inspect 7 [''s'']) [] 7 sched5 sched5_world = (Inr 1, w')"
    and n: "next_run (fst w') ''s'' = Some 10"
  have due: "due_ticks toy_calendar (sch_spec sched5) (sch_next_run_ms sched5) 7
      (unat (max (sch_backfill_limit sched5) 1)) = Inr [5]"
    using sched5_due by (simp add: sched5_def)
  have "next_run (fst sched5_world) ''s'' = Some 5" by (simp add: next_run_def sched5_world_def sched5_def)
  with n have "next_run (fst w') \<noteq> next_run (fst sched5_world)" by auto
  from schedule_advances_after_ticks [OF due f this, of 5] f show ?thesis
    by (simp add: ticks_to_fire_def sched5_def)
qed


theorem tick_identity_witness:
  "env_id (tick_envelope digest0 sched5 5) \<noteq> env_id (tick_envelope digest0 sched5 10)"
  using tick_identity [of 5 10 digest0 sched5 digest0 sched5] by simp

section \<open>A divergence\<close>

text \<open>A replayed tick is answered like a new one, so both nodes count it as a job they enqueued.\<close>

theorem replayed_tick_is_counted:
  assumes "plain_env (tick_envelope h s t)" "validate_enqueue [tick_envelope h s t] = Inr ()"
    and "mem_enqueue now [tick_envelope h s t] st = (Inr (), st')"
  shows "mem_enqueue now' [tick_envelope h s t] st' = (Inr (), st') \<and>
    audit_of (tick_envelope h s t) (fst (mem_enqueue now' [tick_envelope h s t] st')) =
      (SE_Enqueued, ''accepted'', env_id (tick_envelope h s t))"
proof -
  let ?e = "tick_envelope h s t"
  obtain j where "jobs st' (env_id ?e) = Some j"
    "same_job_content ?e (kind (env j)) (fingerprint (env j)) (queue (env j))"
    using enqueue_replayed [OF assms(3)] by auto
  with enqueue_plain [OF assms(1,2), of now' st'] show ?thesis by (simp add: audit_of_def)
qed

end
