(* ===== verification/Graph.thy ===== *)
theory Graph
  imports Prelude
begin

text \<open>
  The cycle check that the workflow crate runs on every graph it accepts: in-degrees and adjacency
  lists built edge by edge, then a queue of nodes whose in-degree has dropped to zero. The code
  has it four times (\<open>validate_graph\<close>, \<open>validate_graft_nodes\<close>, \<open>prepare_bundle\<close> and
  \<open>validate_coordinator\<close> in headgate-workflow/src/lib.rs), with the same loop each time. The loop is
  a partial function: not returning, and the panics of an unknown node or of an in-degree below
  zero, are the value None. The lemmas show that on a graph built by \<open>link\<close> it always returns,
  and that it visits every node exactly when the graph has no cycle, whatever order the hash map
  yields its keys in.
\<close>

section \<open>The loop\<close>

type_synonym degrees = "string \<rightharpoonup> nat"
type_synonym adjacency = "string \<rightharpoonup> string list"

definition succs :: "adjacency \<Rightarrow> string \<Rightarrow> string list" where
  "succs out n = (case out n of None \<Rightarrow> [] | Some cs \<Rightarrow> cs)"

definition link :: "string \<Rightarrow> string \<Rightarrow> degrees \<times> adjacency \<Rightarrow> degrees \<times> adjacency" where
  "link dep n g = ((fst g)(n := map_option Suc (fst g n)), (snd g)(dep \<mapsto> succs (snd g) dep @ [n]))"

fun release :: "string list \<Rightarrow> degrees \<Rightarrow> string list \<Rightarrow> (degrees \<times> string list) option" where
  "release [] deg ready = Some (deg, ready)"
| "release (c # cs) deg ready =
     (case deg c of
        Some (Suc d) \<Rightarrow> release cs (deg(c \<mapsto> d)) (if d = 0 then ready @ [c] else ready)
      | _ \<Rightarrow> None)"

partial_function (option) drain :: "adjacency \<Rightarrow> degrees \<Rightarrow> string list \<Rightarrow> nat \<Rightarrow> nat option" where
  "drain out deg ready visited =
     (case ready of
        [] \<Rightarrow> Some visited
      | n # rest \<Rightarrow>
          Option.bind (release (succs out n) deg rest)
            (\<lambda>(deg', ready'). drain out deg' ready' (visited + 1)))"

declare drain.simps [code]

definition visit_all :: "string list \<Rightarrow> degrees \<times> adjacency \<Rightarrow> nat option" where
  "visit_all ord g = drain (snd g) (fst g) (filter (\<lambda>n. fst g n = Some 0) ord) 0"

section \<open>What the loop computes\<close>

definition zero_degrees :: "string list \<Rightarrow> degrees" where
  "zero_degrees ns = (\<lambda>n. if n \<in> set ns then Some 0 else None)"

definition link_all :: "(string \<times> string) list \<Rightarrow> degrees \<times> adjacency \<Rightarrow> degrees \<times> adjacency" where
  "link_all es g = foldl (\<lambda>g (d, n). link d n g) g es"

lemma link_all_simps [simp]:
  "link_all [] g = g"
  "link_all (e # es) g = link_all es (link (fst e) (snd e) g)"
  "link_all (es @ es') g = link_all es' (link_all es g)"
  by (simp_all add: link_all_def split_beta)

definition edges_in :: "(string \<times> string) list \<Rightarrow> string set \<Rightarrow> string \<Rightarrow> nat" where
  "edges_in es P n = length (filter (\<lambda>e. snd e = n \<and> fst e \<notin> P) es)"

lemma link_all_degrees:
  "fst (link_all es g) n = map_option (\<lambda>k. k + edges_in es {} n) (fst g n)"
proof (induction es arbitrary: g)
  case Nil
  then show ?case by (cases "fst g n") (simp_all add: edges_in_def)
next
  case (Cons e es)
  then show ?case by (cases "fst g n") (auto simp: edges_in_def link_def)
qed

lemma link_all_succs:
  "succs (snd (link_all es g)) d = succs (snd g) d @ map snd (filter (\<lambda>e. fst e = d) es)"
  by (induction es arbitrary: g) (auto simp: link_def succs_def)

lemma release_returns:
  assumes "\<forall>c \<in> set cs. \<exists>k. deg c = Some k \<and> count_list cs c \<le> k"
  shows "\<exists>deg' added. release cs deg ready = Some (deg', ready @ added) \<and>
    (\<forall>c. deg' c = map_option (\<lambda>k. k - count_list cs c) (deg c)) \<and>
    distinct added \<and> set added = {c \<in> set cs. deg c = Some (count_list cs c)}"
  using assms
proof (induction cs arbitrary: deg ready)
  case Nil
  then show ?case by (auto simp: option.map_ident)
next
  case (Cons c cs)
  from Cons.prems obtain k where k: "deg c = Some k" "Suc (count_list cs c) \<le> k" by auto
  then obtain d where d: "k = Suc d" "count_list cs c \<le> d" by (cases k) auto
  have "\<forall>b \<in> set cs. \<exists>k. (deg(c \<mapsto> d)) b = Some k \<and> count_list cs b \<le> k"
    using Cons.prems d by (auto split: if_splits)
  from Cons.IH [OF this, of "if d = 0 then ready @ [c] else ready"] obtain deg' added where
    IH: "release cs (deg(c \<mapsto> d)) (if d = 0 then ready @ [c] else ready) =
        Some (deg', (if d = 0 then ready @ [c] else ready) @ added)"
      "\<forall>b. deg' b = map_option (\<lambda>k. k - count_list cs b) ((deg(c \<mapsto> d)) b)"
      "distinct added" "set added = {b \<in> set cs. (deg(c \<mapsto> d)) b = Some (count_list cs b)}"
    by blast
  let ?added = "if d = 0 then c # added else added"
  have "release (c # cs) deg ready = Some (deg', ready @ ?added)"
    using IH(1) k d by simp
  moreover have "\<forall>b. deg' b = map_option (\<lambda>k. k - count_list (c # cs) b) (deg b)"
    using IH(2) k d by auto
  moreover have "distinct ?added" using IH(3,4) by (auto simp: count_list_0_iff)
  moreover have "set ?added = {b \<in> set (c # cs). deg b = Some (count_list (c # cs) b)}"
  proof (rule set_eqI)
    fix b
    show "b \<in> set ?added \<longleftrightarrow> b \<in> {b \<in> set (c # cs). deg b = Some (count_list (c # cs) b)}"
    proof (cases "b = c")
      case True
      have "c \<in> set cs \<longleftrightarrow> count_list cs c \<noteq> 0" by (simp add: count_list_0_iff)
      with True IH(4) k(1) d show ?thesis by simp linarith
    qed (use IH(4) in simp)
  qed
  ultimately show ?case by blast
qed

text \<open>The invariant: \<open>P\<close> are the nodes popped so far, \<open>f\<close> ranks them in the order they were popped.\<close>

definition drained ::
  "string set \<Rightarrow> (string \<times> string) list \<Rightarrow> string set \<Rightarrow> degrees \<Rightarrow> string list \<Rightarrow> bool" where
  "drained V es P deg ready \<longleftrightarrow>
     P \<subseteq> V \<and> set ready \<subseteq> V \<and> distinct ready \<and> P \<inter> set ready = {} \<and>
     (\<forall>n. deg n = (if n \<in> V then Some (edges_in es P n) else None)) \<and>
     (\<forall>n \<in> V. n \<in> P \<union> set ready \<longleftrightarrow> edges_in es P n = 0) \<and>
     (\<exists>f :: string \<Rightarrow> nat. (\<forall>n \<in> P. f n < card P) \<and>
        (\<forall>(d, n) \<in> set es. n \<in> P \<longrightarrow> d \<in> P \<and> f d < f n))"

lemma edges_in_0: "edges_in es P n = 0 \<longleftrightarrow> (\<forall>(d, m) \<in> set es. m = n \<longrightarrow> d \<in> P)"
  by (auto simp: edges_in_def filter_empty_conv)

lemma edges_in_split:
  assumes "x \<notin> P"
  shows "edges_in es P n = edges_in es (insert x P) n + count_list (map snd (filter (\<lambda>e. fst e = x) es)) n"
  using assms by (induction es) (auto simp: edges_in_def)

lemma drained_step:
  assumes "finite V" "fst ` set es \<subseteq> V" "snd ` set es \<subseteq> V" "drained V es P deg (x # rest)"
  shows "\<exists>deg' ready'. release (map snd (filter (\<lambda>e. fst e = x) es)) deg rest = Some (deg', ready') \<and>
    drained V es (insert x P) deg' ready'"
proof -
  let ?cs = "map snd (filter (\<lambda>e. fst e = x) es)"
  from assms(4) have x: "x \<in> V" "x \<notin> P" "x \<notin> set rest" and PV: "P \<subseteq> V"
    and deg: "\<And>n. deg n = (if n \<in> V then Some (edges_in es P n) else None)"
    and zero: "\<And>n. n \<in> V \<Longrightarrow> n \<in> P \<union> set (x # rest) \<longleftrightarrow> edges_in es P n = 0"
    and rest: "set rest \<subseteq> V" "distinct rest" "P \<inter> set rest = {}"
    by (auto simp: drained_def)
  from assms(4) obtain f :: "string \<Rightarrow> nat" where
    f: "\<forall>n \<in> P. f n < card P" "\<forall>(d, n) \<in> set es. n \<in> P \<longrightarrow> d \<in> P \<and> f d < f n"
    unfolding drained_def by blast
  note split = edges_in_split [OF x(2), of es]
  have "\<forall>c \<in> set ?cs. \<exists>k. deg c = Some k \<and> count_list ?cs c \<le> k"
    using deg assms(3) split by force
  from release_returns [OF this, of rest] obtain deg' added where
    r: "release ?cs deg rest = Some (deg', rest @ added)" and
    deg': "\<And>c. deg' c = map_option (\<lambda>k. k - count_list ?cs c) (deg c)" and
    added: "distinct added" "set added = {c \<in> set ?cs. deg c = Some (count_list ?cs c)}"
    by blast
  have deg2: "deg' n = (if n \<in> V then Some (edges_in es (insert x P) n) else None)" for n
    using deg deg' split by auto
  have px: "\<forall>(d, n) \<in> set es. n = x \<longrightarrow> d \<in> P"
    using zero [OF x(1)] by (simp add: edges_in_0)
  have added2: "set added = {c \<in> V. edges_in es P c \<noteq> 0 \<and> edges_in es (insert x P) c = 0}"
    using added(2) deg split assms(3) by (auto simp: count_list_0_iff split: if_splits)
  have disj: "(P \<union> set (x # rest)) \<inter> set added = {}"
  proof (rule equals0I)
    fix c
    assume "c \<in> (P \<union> set (x # rest)) \<inter> set added"
    with zero [of c] added2 show False by simp
  qed
  have fin: "finite P" using PV assms(1) finite_subset by blast
  have "drained V es (insert x P) deg' (rest @ added)"
    unfolding drained_def
  proof (intro conjI allI ballI)
    show "insert x P \<subseteq> V" "set (rest @ added) \<subseteq> V" using x PV rest added2 by auto
    show "distinct (rest @ added)" using rest added(1) disj by auto
    show "insert x P \<inter> set (rest @ added) = {}" using x rest disj by auto
    show "deg' n = (if n \<in> V then Some (edges_in es (insert x P) n) else None)" for n by (rule deg2)
    show "(n \<in> insert x P \<union> set (rest @ added)) = (edges_in es (insert x P) n = 0)" if "n \<in> V" for n
      using that added2 zero split by auto
    have "\<forall>n \<in> insert x P. (f(x := card P)) n < card (insert x P)"
      using f(1) fin x(2) by (auto intro: less_SucI)
    moreover have "\<forall>(d, n) \<in> set es. n \<in> insert x P \<longrightarrow> d \<in> insert x P \<and> (f(x := card P)) d < (f(x := card P)) n"
      using f px x(2) by fastforce
    ultimately show "\<exists>f :: string \<Rightarrow> nat. (\<forall>n \<in> insert x P. f n < card (insert x P)) \<and>
        (\<forall>(d, n) \<in> set es. n \<in> insert x P \<longrightarrow> d \<in> insert x P \<and> f d < f n)" by blast
  qed
  with r show ?thesis by blast
qed

lemma drain_returns:
  assumes "finite V" "fst ` set es \<subseteq> V" "snd ` set es \<subseteq> V" "drained V es P deg ready"
    and "\<And>n. succs out n = map snd (filter (\<lambda>e. fst e = n) es)"
  shows "\<exists>Q deg'. drain out deg ready (card P) = Some (card Q) \<and> drained V es Q deg' []"
  using assms(4)
proof (induction "card (V - P)" arbitrary: P deg ready rule: less_induct)
  case less
  show ?case
  proof (cases ready)
    case Nil
    with less.prems show ?thesis by (subst drain.simps) auto
  next
    case (Cons x rest)
    from drained_step [OF assms(1-3)] less.prems Cons obtain deg' ready' where
      r: "release (succs out x) deg rest = Some (deg', ready')" "drained V es (insert x P) deg' ready'"
      using assms(5) by metis
    from less.prems Cons have x: "x \<in> V" "x \<notin> P" "P \<subseteq> V" by (auto simp: drained_def)
    have "finite P" using x(3) assms(1) finite_subset by blast
    then have card: "card (insert x P) = card P + 1" using x by simp
    have "card (V - insert x P) < card (V - P)" using x assms(1) by (intro psubset_card_mono) auto
    from less.hyps [OF this r(2)] Cons r(1) card show ?thesis by (subst drain.simps) simp
  qed
qed

lemma drained_all:
  assumes "finite V" "fst ` set es \<subseteq> V" "snd ` set es \<subseteq> V" "drained V es Q deg []"
  shows "card Q = card V \<longleftrightarrow> acyclic (set es)"
proof
  assume "card Q = card V"
  with assms(1,4) have "Q = V" by (intro card_subset_eq) (simp_all add: drained_def)
  with assms(4) obtain f :: "string \<Rightarrow> nat" where "\<forall>(d, n) \<in> set es. n \<in> V \<longrightarrow> d \<in> V \<and> f d < f n"
    unfolding drained_def by blast
  with assms(3) have "set es \<subseteq> measure f" by force
  then show "acyclic (set es)" using acyclic_subset wf_acyclic wf_measure by blast
next
  assume "acyclic (set es)"
  then have "wf (set es)" by (simp add: finite_acyclic_wf)
  have "n \<in> Q" if "n \<in> V" for n
    using \<open>wf (set es)\<close> that
  proof (induction n rule: wf_induct_rule)
    case (less n)
    then have "edges_in es Q n = 0" using assms(2) by (force simp: edges_in_0)
    with less.prems assms(4) show ?case by (auto simp: drained_def)
  qed
  with assms(4) have "Q = V" by (auto simp: drained_def)
  then show "card Q = card V" by simp
qed

theorem visit_all_acyclic:
  assumes "fst ` set es \<subseteq> set ns" "snd ` set es \<subseteq> set ns"
    and "distinct ord" "set ord = set ns"
  shows "\<exists>k. visit_all ord (link_all es (zero_degrees ns, Map.empty)) = Some k \<and>
    (k = card (set ns) \<longleftrightarrow> acyclic (set es))"
proof -
  let ?g = "link_all es (zero_degrees ns, Map.empty)"
  have deg: "fst ?g n = (if n \<in> set ns then Some (edges_in es {} n) else None)" for n
    by (simp add: link_all_degrees zero_degrees_def)
  have "drained (set ns) es {} (fst ?g) (filter (\<lambda>n. fst ?g n = Some 0) ord)"
    using assms(3,4) by (auto simp: drained_def deg)
  moreover have "succs (snd ?g) n = map snd (filter (\<lambda>e. fst e = n) es)" for n
    by (simp add: link_all_succs) (simp add: succs_def)
  ultimately obtain Q deg' where "visit_all ord ?g = Some (card Q)" "drained (set ns) es Q deg' []"
    using drain_returns [OF _ assms(1,2), of "{}" "fst ?g"] unfolding visit_all_def by force
  with drained_all [OF _ assms(1,2)] show ?thesis by auto
qed

end
