(* ===== verification/Workflow.thy ===== *)
theory Workflow
  imports Graph Boundary
begin

text \<open>
  headgate-workflow/src/lib.rs, the producer side: the builder of a workflow, the validation of its
  graph, and the preparation of the one atomic batch that holds the coordinator and every node;
  the same for grafts and for bundles of workflows. The JSON codecs of serde_json, the CEL engine,
  the digest and the iteration order of a hash map are parameters, collected in \<open>wf_env\<close>.
\<close>

section \<open>Data\<close>

text \<open>\<open>WorkflowError\<close>; \<open>Stuck\<close> stands for a panic or a loop that does not return.\<close>

datatype wf_error = WF string | Stuck

datatype draft_node_kind =
    DTask envelope
  | DSignal string
  | DTimerAt i64
  | DTimerAfter i64
  | DChildWorkflow string
  | DCondition string

record draft_node =
  dn_name :: string
  dn_kind :: draft_node_kind
  dn_deps :: "string list"

record workflow_retry_policy =
  max_generations :: u32
  backoff_ms :: i64

record workflow =
  wf_id :: string
  wf_nodes :: "draft_node list"
  wf_coordinator_queue :: string
  wf_retention_ms :: i64
  wf_failed_subgraph_retry :: bool
  wf_retry_policy :: "workflow_retry_policy option"

record workflow_graft =
  gr_workflow_id :: string
  gr_expected_revision :: u64
  gr_nodes :: "draft_node list"
  gr_queue :: string
  gr_retention_ms :: i64

datatype node_type = NTask | NSignal | NTimer | NChildWorkflow | NCondition

record node_spec =
  ns_name :: string
  ns_job_id :: string
  ns_deps :: "string list"
  ns_kind :: node_type
  ns_signal :: "string option"
  ns_wake_at_ms :: "i64 option"
  ns_delay_ms :: "i64 option"
  ns_child_workflow_id :: "string option"
  ns_condition :: "string option"

record coordinator_task =
  ct_workflow_id :: string
  ct_nodes :: "node_spec list"
  ct_failed_subgraph_retry :: bool
  ct_retry_policy :: "workflow_retry_policy option"

record signal_task =
  st_workflow_id :: string
  st_signal :: string

record timer_task =
  tt_workflow_id :: string
  tt_wake_at_ms :: "i64 option"
  tt_delay_ms :: "i64 option"

record child_workflow_task =
  cw_parent_workflow_id :: string
  cw_child_workflow_id :: string

record condition_task =
  cd_workflow_id :: string
  cd_expression :: string

record graft_task =
  gt_workflow_id :: string
  gt_expected_revision :: u64
  gt_nodes :: "node_spec list"

record retry_task =
  rt_workflow_id :: string
  rt_expected_revision :: u64

text \<open>The value a CEL program returns, and the variables it sees.\<close>

datatype cel_value = CelBool bool | CelOther

record cel_context =
  cel_revision :: u64
  cel_generation :: u64
  cel_states :: "string \<rightharpoonup> string"
  cel_completed :: "string \<rightharpoonup> bool"

text \<open>
  What the crate takes from others: serde_json (\<open>enc\<close>, \<open>dec\<close>, failing with a message), the cel
  crate (the message of a rejected expression, and the evaluation of an accepted one), SHA-256,
  and the order in which a hash map of the standard library yields its keys.
\<close>

record wf_env =
  enc_signal :: "signal_task \<Rightarrow> string + bytes"
  enc_timer :: "timer_task \<Rightarrow> string + bytes"
  enc_child :: "child_workflow_task \<Rightarrow> string + bytes"
  enc_condition :: "condition_task \<Rightarrow> string + bytes"
  enc_coordinator :: "coordinator_task \<Rightarrow> string + bytes"
  dec_coordinator :: "bytes \<Rightarrow> string + coordinator_task"
  enc_graft :: "graft_task \<Rightarrow> string + bytes"
  dec_graft :: "bytes \<Rightarrow> string + graft_task"
  enc_retry :: "retry_task \<Rightarrow> string + bytes"
  dec_retry :: "bytes \<Rightarrow> string + retry_task"
  cel_compile :: "string \<Rightarrow> string option"
  cel_execute :: "string \<Rightarrow> cel_context \<Rightarrow> string + cel_value"
  wf_sha256 :: "bytes \<Rightarrow> bytes"
  hash_order :: "degrees \<Rightarrow> string list"

definition hash_ok :: "wf_env \<Rightarrow> bool" where
  "hash_ok env \<longleftrightarrow> (\<forall>m. finite (dom m) \<longrightarrow> iter_order m (hash_order env m))"

definition DEFAULT_RETENTION_MS :: i64 where "DEFAULT_RETENTION_MS = 7 * 24 * 60 * 60 * 1000"
definition MAX_WORKFLOW_NODES :: nat where "MAX_WORKFLOW_NODES = MAX_ENQUEUE_BATCH_SIZE - 1"
definition MAX_WORKFLOW_EDGES :: nat where "MAX_WORKFLOW_EDGES = 10000"

definition SIGNAL_TYPE :: string where "SIGNAL_TYPE = ''headgate:workflow-signal''"
definition TIMER_TYPE :: string where "TIMER_TYPE = ''headgate:workflow-timer''"
definition CHILD_TYPE :: string where "CHILD_TYPE = ''headgate:workflow-child''"
definition CONDITION_TYPE :: string where "CONDITION_TYPE = ''headgate:workflow-condition''"
definition GRAFT_TYPE :: string where "GRAFT_TYPE = ''headgate:workflow-graft''"
definition RETRY_TYPE :: string where "RETRY_TYPE = ''headgate:workflow-retry''"
definition COORDINATOR_TYPE :: string where "COORDINATOR_TYPE = ''headgate:workflow''"

text \<open>The default \<open>Task::VERSION\<close>, and how a codec error is displayed.\<close>

definition TASK_VERSION :: u32 where "TASK_VERSION = 1"

definition malformed :: "string + 'a \<Rightarrow> wf_error + 'a" where
  "malformed r = (case r of Inl m \<Rightarrow> Inl (WF (''malformed payload: '' @ m)) | Inr x \<Rightarrow> Inr x)"

section \<open>The builder\<close>

definition wf_new :: "string \<Rightarrow> workflow" where
  "wf_new i =
     \<lparr>wf_id = i, wf_nodes = [], wf_coordinator_queue = ''headgate-workflow'',
      wf_retention_ms = DEFAULT_RETENTION_MS, wf_failed_subgraph_retry = False, wf_retry_policy = None\<rparr>"

definition coordinator_queue :: "string \<Rightarrow> workflow \<Rightarrow> workflow" where
  "coordinator_queue q w = w\<lparr>wf_coordinator_queue := q\<rparr>"

definition retention :: "duration \<Rightarrow> workflow \<Rightarrow> wf_error + workflow" where
  "retention d w =
     (case i64_of_nat (as_millis d) of
        None \<Rightarrow> Inl (WF ''workflow retention is too large'')
      | Some ms \<Rightarrow>
          if ms \<le> 0 then Inl (WF ''workflow retention must be at least 1ms'')
          else Inr (w\<lparr>wf_retention_ms := ms\<rparr>))"

definition failed_subgraph_retry :: "workflow \<Rightarrow> workflow" where
  "failed_subgraph_retry w = w\<lparr>wf_failed_subgraph_retry := True\<rparr>"

definition automatic_retry :: "u32 \<Rightarrow> duration \<Rightarrow> workflow \<Rightarrow> wf_error + workflow" where
  "automatic_retry gens backoff w =
     (case i64_of_nat (as_millis backoff) of
        None \<Rightarrow> Inl (WF ''workflow retry backoff is too large'')
      | Some ms \<Rightarrow>
          if gens < 2 \<or> ms \<le> 0
          then Inl (WF ''automatic workflow retry requires at least 2 generations and 1ms backoff'')
          else Inr (w\<lparr>wf_failed_subgraph_retry := True,
                 wf_retry_policy := Some \<lparr>max_generations = gens, backoff_ms = ms\<rparr>\<rparr>))"

definition push_node :: "string \<Rightarrow> draft_node_kind \<Rightarrow> string list \<Rightarrow> workflow \<Rightarrow> workflow" where
  "push_node n k deps w = w\<lparr>wf_nodes := wf_nodes w @ [\<lparr>dn_name = n, dn_kind = k, dn_deps = deps\<rparr>]\<rparr>"

definition add_task :: "string \<Rightarrow> envelope \<Rightarrow> string list \<Rightarrow> workflow \<Rightarrow> workflow" where
  "add_task n e = push_node n (DTask e)"

definition add_signal :: "string \<Rightarrow> string \<Rightarrow> string list \<Rightarrow> workflow \<Rightarrow> workflow" where
  "add_signal n s = push_node n (DSignal s)"

definition add_timer_at :: "string \<Rightarrow> i64 \<Rightarrow> string list \<Rightarrow> workflow \<Rightarrow> workflow" where
  "add_timer_at n at = push_node n (DTimerAt at)"

definition add_timer_after :: "string \<Rightarrow> duration \<Rightarrow> string list \<Rightarrow> workflow \<Rightarrow> wf_error + workflow" where
  "add_timer_after n d deps w =
     (case i64_of_nat (as_millis d) of
        None \<Rightarrow> Inl (WF ''workflow timer delay is too large'')
      | Some ms \<Rightarrow>
          if ms \<le> 0 then Inl (WF ''workflow timer delay must be at least 1ms'')
          else Inr (push_node n (DTimerAfter ms) deps w))"

definition add_child :: "string \<Rightarrow> string \<Rightarrow> string list \<Rightarrow> workflow \<Rightarrow> workflow" where
  "add_child n i = push_node n (DChildWorkflow i)"

definition add_condition :: "string \<Rightarrow> string \<Rightarrow> string list \<Rightarrow> workflow \<Rightarrow> workflow" where
  "add_condition n e = push_node n (DCondition e)"

text \<open>The workflows a program can hold: the fields are private, so only the builder makes them.\<close>

inductive built :: "workflow \<Rightarrow> bool" where
  built_new: "built (wf_new i)"
| built_queue: "built w \<Longrightarrow> built (coordinator_queue q w)"
| built_retention: "built w \<Longrightarrow> retention d w = Inr w' \<Longrightarrow> built w'"
| built_retry: "built w \<Longrightarrow> built (failed_subgraph_retry w)"
| built_automatic: "built w \<Longrightarrow> automatic_retry g d w = Inr w' \<Longrightarrow> built w'"
| built_task: "built w \<Longrightarrow> built (add_task n e deps w)"
| built_signal: "built w \<Longrightarrow> built (add_signal n s deps w)"
| built_timer_at: "built w \<Longrightarrow> built (add_timer_at n at deps w)"
| built_timer_after: "built w \<Longrightarrow> add_timer_after n d deps w = Inr w' \<Longrightarrow> built w'"
| built_child: "built w \<Longrightarrow> built (add_child n i deps w)"
| built_condition: "built w \<Longrightarrow> built (add_condition n e deps w)"

section \<open>Validation of a graph\<close>

definition validate_condition :: "wf_env \<Rightarrow> string \<Rightarrow> wf_error + unit" where
  "validate_condition env expr =
     (if expr = [] \<or> length expr > 1024 then Inl (WF ''workflow CEL condition must contain 1-1024 bytes'')
      else case cel_compile env expr of
             None \<Rightarrow> Inr ()
           | Some m \<Rightarrow> Inl (WF (''invalid workflow CEL condition: '' @ m)))"

definition usize_max :: nat where "usize_max = 2 ^ 64 - 1"

definition usize_add :: "nat \<Rightarrow> nat \<Rightarrow> nat" where
  "usize_add a b = min (a + b) usize_max"

text \<open>The end of all four checks: run the loop, compare the count.\<close>

definition check_visited :: "wf_env \<Rightarrow> degrees \<times> adjacency \<Rightarrow> nat \<Rightarrow> string \<Rightarrow> wf_error + unit" where
  "check_visited env g n msg =
     (case visit_all (hash_order env (fst g)) g of
        None \<Rightarrow> Inl Stuck
      | Some visited \<Rightarrow> if visited \<noteq> n then Inl (WF msg) else Inr ())"

fun graph_deps ::
  "string set \<Rightarrow> string \<Rightarrow> string set \<Rightarrow> string list \<Rightarrow> degrees \<times> adjacency \<Rightarrow> wf_error + degrees \<times> adjacency" where
  "graph_deps names n unique [] g = Inr g"
| "graph_deps names n unique (dep # deps) g =
     (if dep \<notin> names then Inl (WF (''task `'' @ n @ ''` depends on missing task `'' @ dep @ ''`''))
      else if dep \<in> unique then Inl (WF (''task `'' @ n @ ''` repeats dependency `'' @ dep @ ''`''))
      else graph_deps names n (insert dep unique) deps (link dep n g))"

definition node_error :: "wf_env \<Rightarrow> draft_node \<Rightarrow> wf_error + unit" where
  "node_error env node =
     (let n = dn_name node
      in if length n > 128 then Inl (WF (''workflow task name `'' @ n @ ''` exceeds 128 bytes''))
      else if dn_kind node = DSignal [] then Inl (WF (''workflow signal node `'' @ n @ ''` has an empty signal''))
      else case dn_kind node of
          DTimerAt at \<Rightarrow>
            if at \<le> 0
            then Inl (WF (''workflow timer node `'' @ n @ ''` must have a positive absolute wake time''))
            else Inr ()
        | DTimerAfter _ \<Rightarrow>
            if dn_deps node = []
            then Inl (WF (''relative workflow timer `'' @ n @ ''` requires at least one dependency''))
            else Inr ()
        | DChildWorkflow i \<Rightarrow>
            if i = [] then Inl (WF (''workflow child node `'' @ n @ ''` has an empty workflow id''))
            else Inr ()
        | DCondition expr \<Rightarrow> validate_condition env expr
        | _ \<Rightarrow> Inr ())"

fun graph_nodes ::
  "wf_env \<Rightarrow> string set \<Rightarrow> draft_node list \<Rightarrow> nat \<Rightarrow> degrees \<times> adjacency \<Rightarrow> wf_error + nat \<times> degrees \<times> adjacency"
where
  "graph_nodes env names [] edges g = Inr (edges, g)"
| "graph_nodes env names (node # nodes) edges g =
     (case node_error env node of
        Inl e \<Rightarrow> Inl e
      | Inr _ \<Rightarrow>
          (case graph_deps names (dn_name node) {} (dn_deps node) g of
             Inl e \<Rightarrow> Inl e
           | Inr g' \<Rightarrow> graph_nodes env names nodes (usize_add edges (length (dn_deps node))) g'))"

definition validate_graph :: "wf_env \<Rightarrow> draft_node list \<Rightarrow> wf_error + unit" where
  "validate_graph env nodes =
     (let ns = map dn_name nodes
      in if length nodes > MAX_WORKFLOW_NODES
         then Inl (WF (''workflow must contain at most '' @ show_nat MAX_WORKFLOW_NODES @ '' tasks''))
         else if card (set ns) \<noteq> length nodes \<or> [] \<in> set ns
         then Inl (WF ''workflow task names must be non-empty and unique'')
         else case graph_nodes env (set ns) nodes 0 (zero_degrees ns, Map.empty) of
                Inl e \<Rightarrow> Inl e
              | Inr (edges, g) \<Rightarrow>
                  if edges > MAX_WORKFLOW_EDGES
                  then Inl (WF (''workflow must contain at most '' @ show_nat MAX_WORKFLOW_EDGES @ '' dependency edges''))
                  else check_visited env g (length nodes) ''workflow dependency graph contains a cycle'')"

section \<open>Preparation of a workflow\<close>

text \<open>\<open>headgate::prepare_envelope\<close>, its error displayed.\<close>

definition prepare_envelope :: "wf_env \<Rightarrow> envelope \<Rightarrow> wf_error + envelope" where
  "prepare_envelope env e =
     (case validate_kind (kind e) of
        Inl m \<Rightarrow> Inl (WF m)
      | Inr _ \<Rightarrow>
          let e1 = (if fingerprint e = [] then e\<lparr>fingerprint := fingerprint_of (wf_sha256 env) (kind e) (payload e)\<rparr> else e);
              e2 = e1\<lparr>weight := effective_weight (weight e1)\<rparr>
          in if unique_window_ms e2 < 0 then Inl (WF ''malformed payload: unique_window_ms must be >= 0'')
             else Inr e2)"

text \<open>The envelope of a node that is not an ordinary task: \<open>ty\<close> is the task's type.\<close>

definition internal_envelope :: "wf_env \<Rightarrow> string \<Rightarrow> string \<Rightarrow> bytes \<Rightarrow> envelope" where
  "internal_envelope env q ty p =
     envelope_default\<lparr>kind := ty, schema_version := TASK_VERSION,
       fingerprint := fingerprint_of (wf_sha256 env) ty p, payload := p, queue := q\<rparr>"

record node_detail =
  nd_kind :: node_type
  nd_signal :: "string option"
  nd_wake_at_ms :: "i64 option"
  nd_delay_ms :: "i64 option"
  nd_child_workflow_id :: "string option"
  nd_condition :: "string option"

definition plain_detail :: "node_type \<Rightarrow> node_detail" where
  "plain_detail t =
     \<lparr>nd_kind = t, nd_signal = None, nd_wake_at_ms = None, nd_delay_ms = None,
      nd_child_workflow_id = None, nd_condition = None\<rparr>"

text \<open>The match on the node's kind at the head of the loop of \<open>prepare\<close>.\<close>

definition draft_envelope :: "wf_env \<Rightarrow> workflow \<Rightarrow> draft_node_kind \<Rightarrow> wf_error + envelope \<times> node_detail" where
  "draft_envelope env w k =
     (let q = wf_coordinator_queue w
      in case k of
        DTask e \<Rightarrow> Inr (e, plain_detail NTask)
      | DSignal s \<Rightarrow>
          map_sum id (\<lambda>p. (internal_envelope env q SIGNAL_TYPE p, (plain_detail NSignal)\<lparr>nd_signal := Some s\<rparr>))
            (malformed (enc_signal env \<lparr>st_workflow_id = wf_id w, st_signal = s\<rparr>))
      | DTimerAt at \<Rightarrow>
          map_sum id (\<lambda>p. ((internal_envelope env q TIMER_TYPE p)\<lparr>scheduled_at_ms := at\<rparr>,
              (plain_detail NTimer)\<lparr>nd_wake_at_ms := Some at\<rparr>))
            (malformed (enc_timer env \<lparr>tt_workflow_id = wf_id w, tt_wake_at_ms = Some at, tt_delay_ms = None\<rparr>))
      | DTimerAfter d \<Rightarrow>
          map_sum id (\<lambda>p. (internal_envelope env q TIMER_TYPE p, (plain_detail NTimer)\<lparr>nd_delay_ms := Some d\<rparr>))
            (malformed (enc_timer env \<lparr>tt_workflow_id = wf_id w, tt_wake_at_ms = None, tt_delay_ms = Some d\<rparr>))
      | DChildWorkflow i \<Rightarrow>
          if i = wf_id w then Inl (WF ''workflow cannot contain itself as a child'')
          else map_sum id (\<lambda>p. (internal_envelope env q CHILD_TYPE p,
                 (plain_detail NChildWorkflow)\<lparr>nd_child_workflow_id := Some i\<rparr>))
                 (malformed (enc_child env \<lparr>cw_parent_workflow_id = wf_id w, cw_child_workflow_id = i\<rparr>))
      | DCondition x \<Rightarrow>
          map_sum id (\<lambda>p. (internal_envelope env q CONDITION_TYPE p,
              (plain_detail NCondition)\<lparr>nd_condition := Some x\<rparr>))
            (malformed (enc_condition env \<lparr>cd_workflow_id = wf_id w, cd_expression = x\<rparr>)))"

text \<open>The rest of the loop's body: identity, retention, and what holds the node back.\<close>

definition place_node :: "workflow \<Rightarrow> string \<Rightarrow> node_detail \<Rightarrow> envelope \<Rightarrow> envelope" where
  "place_node w n d e =
     (let e1 = (if env_id e = [] then e\<lparr>env_id := wf_id w @ '':'' @ n\<rparr> else e);
          e2 = (if retention_ms e1 < wf_retention_ms w then e1\<lparr>retention_ms := wf_retention_ms w\<rparr> else e1)
      in if nd_kind d = NTimer \<and> nd_wake_at_ms d \<noteq> None then e2\<lparr>pending := False\<rparr>
         else e2\<lparr>pending := True, scheduled_at_ms := 0\<rparr>)"

definition spec_of :: "string \<Rightarrow> string \<Rightarrow> string list \<Rightarrow> node_detail \<Rightarrow> node_spec" where
  "spec_of n i deps d =
     \<lparr>ns_name = n, ns_job_id = i, ns_deps = deps, ns_kind = nd_kind d, ns_signal = nd_signal d,
      ns_wake_at_ms = nd_wake_at_ms d, ns_delay_ms = nd_delay_ms d,
      ns_child_workflow_id = nd_child_workflow_id d, ns_condition = nd_condition d\<rparr>"

fun prepare_nodes :: "wf_env \<Rightarrow> workflow \<Rightarrow> draft_node list \<Rightarrow> wf_error + (node_spec \<times> envelope) list" where
  "prepare_nodes env w [] = Inr []"
| "prepare_nodes env w (node # nodes) =
     (case draft_envelope env w (dn_kind node) of
        Inl e \<Rightarrow> Inl e
      | Inr (e, d) \<Rightarrow>
          (case prepare_envelope env (place_node w (dn_name node) d e) of
             Inl e \<Rightarrow> Inl e
           | Inr e' \<Rightarrow>
               (case prepare_nodes env w nodes of
                  Inl e \<Rightarrow> Inl e
                | Inr rest \<Rightarrow> Inr ((spec_of (dn_name node) (env_id e') (dn_deps node) d, e') # rest))))"

definition prepare :: "wf_env \<Rightarrow> workflow \<Rightarrow> wf_error + envelope list" where
  "prepare env w =
     (if wf_id w = [] then Inl (WF ''workflow id must not be empty'')
      else if wf_nodes w = [] then Inl (WF ''workflow must contain at least one task'')
      else case validate_graph env (wf_nodes w) of
        Inl e \<Rightarrow> Inl e
      | Inr _ \<Rightarrow>
          (case prepare_nodes env w (wf_nodes w) of
             Inl e \<Rightarrow> Inl e
           | Inr placed \<Rightarrow>
               (case malformed (enc_coordinator env
                        \<lparr>ct_workflow_id = wf_id w, ct_nodes = map fst placed,
                         ct_failed_subgraph_retry = wf_failed_subgraph_retry w,
                         ct_retry_policy = wf_retry_policy w\<rparr>) of
                  Inl e \<Rightarrow> Inl e
                | Inr p \<Rightarrow>
                    map_sum id (\<lambda>c. c # map snd placed)
                      (prepare_envelope env
                         ((internal_envelope env (wf_coordinator_queue w) COORDINATOR_TYPE p)
                            \<lparr>env_id := wf_id w @ '':coordinator'', retention_ms := wf_retention_ms w\<rparr>)))))"

section \<open>The coordinator's own validation\<close>

definition bad_policy :: "coordinator_task \<Rightarrow> bool" where
  "bad_policy t =
     (case ct_retry_policy t of
        None \<Rightarrow> False
      | Some p \<Rightarrow> max_generations p < 2 \<or> backoff_ms p \<le> 0 \<or> \<not> ct_failed_subgraph_retry t)"

definition empty_or_none :: "string option \<Rightarrow> bool" where
  "empty_or_none s \<longleftrightarrow> s = None \<or> s = Some []"

definition bad_spec :: "wf_env \<Rightarrow> string set \<Rightarrow> node_spec \<Rightarrow> bool" where
  "bad_spec env names node \<longleftrightarrow>
     ns_name node = [] \<or> length (ns_name node) > 128 \<or> ns_job_id node = [] \<or>
     length (ns_job_id node) > MAX_JOB_IDENTIFIER_LEN \<or> ns_name node \<in> names \<or>
     (ns_kind node = NSignal \<and> empty_or_none (ns_signal node)) \<or>
     (ns_kind node = NTimer \<and>
       (case (ns_wake_at_ms node, ns_delay_ms node) of
          (Some at, None) \<Rightarrow> at \<le> 0
        | (None, Some d) \<Rightarrow> d \<le> 0 \<or> ns_deps node = []
        | _ \<Rightarrow> True)) \<or>
     (ns_kind node \<noteq> NSignal \<and> ns_signal node \<noteq> None) \<or>
     (ns_kind node \<noteq> NTimer \<and> (ns_wake_at_ms node \<noteq> None \<or> ns_delay_ms node \<noteq> None)) \<or>
     (ns_kind node = NChildWorkflow \<and> empty_or_none (ns_child_workflow_id node)) \<or>
     (ns_kind node \<noteq> NChildWorkflow \<and> ns_child_workflow_id node \<noteq> None) \<or>
     (ns_kind node = NCondition \<and>
       (case ns_condition node of None \<Rightarrow> True | Some c \<Rightarrow> validate_condition env c \<noteq> Inr ())) \<or>
     (ns_kind node \<noteq> NCondition \<and> ns_condition node \<noteq> None)"

fun scan_specs :: "wf_env \<Rightarrow> string set \<Rightarrow> nat \<Rightarrow> node_spec list \<Rightarrow> wf_error + string set \<times> nat" where
  "scan_specs env names edges [] = Inr (names, edges)"
| "scan_specs env names edges (node # nodes) =
     (if bad_spec env names node then Inl (WF ''workflow coordinator contains an invalid task'')
      else scan_specs env (insert (ns_name node) names) (usize_add edges (length (ns_deps node))) nodes)"

fun spec_deps ::
  "string set \<Rightarrow> string \<Rightarrow> string set \<Rightarrow> string list \<Rightarrow> degrees \<times> adjacency \<Rightarrow> wf_error + degrees \<times> adjacency" where
  "spec_deps names n unique [] g = Inr g"
| "spec_deps names n unique (dep # deps) g =
     (if dep \<notin> names then Inl (WF ''workflow coordinator contains a missing dependency'')
      else if dep \<in> unique then Inl (WF ''workflow coordinator repeats a dependency'')
      else spec_deps names n (insert dep unique) deps (link dep n g))"

fun spec_graph :: "string set \<Rightarrow> node_spec list \<Rightarrow> degrees \<times> adjacency \<Rightarrow> wf_error + degrees \<times> adjacency" where
  "spec_graph names [] g = Inr g"
| "spec_graph names (node # nodes) g =
     (case spec_deps names (ns_name node) {} (ns_deps node) g of
        Inl e \<Rightarrow> Inl e
      | Inr g' \<Rightarrow> spec_graph names nodes g')"

definition validate_coordinator :: "wf_env \<Rightarrow> coordinator_task \<Rightarrow> wf_error + unit" where
  "validate_coordinator env t =
     (if ct_workflow_id t = [] then Inl (WF ''workflow coordinator id must not be empty'')
      else if ct_nodes t = [] \<or> length (ct_nodes t) > MAX_WORKFLOW_NODES
      then Inl (WF (''workflow coordinator must contain 1-'' @ show_nat MAX_WORKFLOW_NODES @ '' tasks''))
      else if bad_policy t then Inl (WF ''workflow coordinator contains an invalid retry policy'')
      else case scan_specs env {} 0 (ct_nodes t) of
        Inl e \<Rightarrow> Inl e
      | Inr (names, edges) \<Rightarrow>
          if edges > MAX_WORKFLOW_EDGES
          then Inl (WF (''workflow coordinator must contain at most '' @ show_nat MAX_WORKFLOW_EDGES @ '' dependency edges''))
          else (case spec_graph names (ct_nodes t) (zero_degrees (map ns_name (ct_nodes t)), Map.empty) of
                  Inl e \<Rightarrow> Inl e
                | Inr g \<Rightarrow> check_visited env g (length (ct_nodes t))
                    ''workflow coordinator dependency graph contains a cycle''))"

section \<open>Grafts\<close>

definition graft_new :: "string \<Rightarrow> u64 \<Rightarrow> workflow_graft" where
  "graft_new i rv =
     \<lparr>gr_workflow_id = i, gr_expected_revision = rv, gr_nodes = [], gr_queue = ''headgate-workflow'',
      gr_retention_ms = DEFAULT_RETENTION_MS\<rparr>"

definition graft_queue :: "string \<Rightarrow> workflow_graft \<Rightarrow> workflow_graft" where
  "graft_queue q w = w\<lparr>gr_queue := q\<rparr>"

definition graft_retention :: "duration \<Rightarrow> workflow_graft \<Rightarrow> wf_error + workflow_graft" where
  "graft_retention d w =
     (case i64_of_nat (as_millis d) of
        None \<Rightarrow> Inl (WF ''workflow graft retention is too large'')
      | Some ms \<Rightarrow>
          if ms \<le> 0 then Inl (WF ''workflow graft retention must be at least 1ms'')
          else Inr (w\<lparr>gr_retention_ms := ms\<rparr>))"

definition graft_add :: "string \<Rightarrow> envelope \<Rightarrow> string list \<Rightarrow> workflow_graft \<Rightarrow> workflow_graft" where
  "graft_add n e deps w = w\<lparr>gr_nodes := gr_nodes w @ [\<lparr>dn_name = n, dn_kind = DTask e, dn_deps = deps\<rparr>]\<rparr>"

definition graft_receipt_id :: "string \<Rightarrow> u64 \<Rightarrow> string" where
  "graft_receipt_id i rv = i @ '':graft:'' @ show_nat (unat rv)"

definition retry_receipt_id :: "string \<Rightarrow> u64 \<Rightarrow> string" where
  "retry_receipt_id i rv = i @ '':retry:'' @ show_nat (unat rv)"

fun graft_deps ::
  "string set \<Rightarrow> string \<Rightarrow> string set \<Rightarrow> string list \<Rightarrow> nat \<Rightarrow> degrees \<times> adjacency
    \<Rightarrow> wf_error + nat \<times> degrees \<times> adjacency" where
  "graft_deps names n unique [] edges g = Inr (edges, g)"
| "graft_deps names n unique (dep # deps) edges g =
     (if dep \<in> unique then Inl (WF (''workflow graft task `'' @ n @ ''` repeats dependency `'' @ dep @ ''`''))
      else if dep = n then Inl (WF (''workflow graft task `'' @ n @ ''` depends on itself''))
      else graft_deps names n (insert dep unique) deps (usize_add edges 1)
             (if dep \<in> names then link dep n g else g))"

fun graft_graph ::
  "string set \<Rightarrow> node_spec list \<Rightarrow> nat \<Rightarrow> degrees \<times> adjacency \<Rightarrow> wf_error + nat \<times> degrees \<times> adjacency" where
  "graft_graph names [] edges g = Inr (edges, g)"
| "graft_graph names (node # nodes) edges g =
     (case graft_deps names (ns_name node) {} (ns_deps node) edges g of
        Inl e \<Rightarrow> Inl e
      | Inr (edges', g') \<Rightarrow> graft_graph names nodes edges' g')"

definition validate_graft_nodes :: "wf_env \<Rightarrow> node_spec list \<Rightarrow> wf_error + unit" where
  "validate_graft_nodes env nodes =
     (let ns = map ns_name nodes
      in case graft_graph (set ns) nodes 0 (zero_degrees ns, Map.empty) of
           Inl e \<Rightarrow> Inl e
         | Inr (edges, g) \<Rightarrow>
             if edges > MAX_WORKFLOW_EDGES
             then Inl (WF (''workflow graft must contain at most '' @ show_nat MAX_WORKFLOW_EDGES @ '' dependency edges''))
             else check_visited env g (length nodes) ''workflow graft dependency graph contains a cycle'')"

text \<open>The loop over the tasks of a graft; a graft holds ordinary tasks only.\<close>

fun graft_nodes ::
  "wf_env \<Rightarrow> workflow_graft \<Rightarrow> u64 \<Rightarrow> string set \<Rightarrow> draft_node list \<Rightarrow> wf_error + (node_spec \<times> envelope) list" where
  "graft_nodes env w rv names [] = Inr []"
| "graft_nodes env w rv names (node # nodes) =
     (let n = dn_name node
      in if n = [] \<or> length n > 128 \<or> n \<in> names
         then Inl (WF ''workflow graft task names must be non-empty and unique'')
         else case dn_kind node of
           DTask e \<Rightarrow>
             let e1 = (if env_id e = []
                       then e\<lparr>env_id := gr_workflow_id w @ '':g'' @ show_nat (unat rv) @ '':'' @ n\<rparr> else e);
                 e2 = e1\<lparr>pending := True, scheduled_at_ms := 0\<rparr>;
                 e3 = (if retention_ms e2 < gr_retention_ms w then e2\<lparr>retention_ms := gr_retention_ms w\<rparr> else e2)
             in (case prepare_envelope env e3 of
                   Inl e \<Rightarrow> Inl e
                 | Inr e4 \<Rightarrow>
                     (case graft_nodes env w rv (insert n names) nodes of
                        Inl e \<Rightarrow> Inl e
                      | Inr rest \<Rightarrow> Inr ((spec_of n (env_id e4) (dn_deps node) (plain_detail NTask), e4) # rest)))
         | _ \<Rightarrow> Inl (WF ''workflow graft currently accepts ordinary tasks only''))"

definition receipt_envelope :: "wf_env \<Rightarrow> string \<Rightarrow> string \<Rightarrow> string \<Rightarrow> i64 \<Rightarrow> bytes \<Rightarrow> envelope" where
  "receipt_envelope env i ty q ret p =
     (internal_envelope env q ty p)\<lparr>env_id := i, pending := True, retention_ms := ret\<rparr>"

definition graft_prepare :: "wf_env \<Rightarrow> workflow_graft \<Rightarrow> wf_error + envelope list" where
  "graft_prepare env w =
     (if gr_workflow_id w = [] then Inl (WF ''workflow id must not be empty'')
      else if gr_expected_revision w = 0
      then Inl (WF ''workflow graft expected revision must be at least 1'')
      else if gr_nodes w = [] \<or> length (gr_nodes w) > MAX_WORKFLOW_NODES
      then Inl (WF (''workflow graft must contain 1-'' @ show_nat MAX_WORKFLOW_NODES @ '' tasks''))
      else case checked_add_word (gr_expected_revision w) 1 of
        None \<Rightarrow> Inl (WF ''workflow graft revision would overflow'')
      | Some rv \<Rightarrow>
          (case graft_nodes env w rv {} (gr_nodes w) of
             Inl e \<Rightarrow> Inl e
           | Inr placed \<Rightarrow>
               (case validate_graft_nodes env (map fst placed) of
                  Inl e \<Rightarrow> Inl e
                | Inr _ \<Rightarrow>
                    (case malformed (enc_graft env
                             \<lparr>gt_workflow_id = gr_workflow_id w, gt_expected_revision = gr_expected_revision w,
                              gt_nodes = map fst placed\<rparr>) of
                       Inl e \<Rightarrow> Inl e
                     | Inr p \<Rightarrow>
                         map_sum id (\<lambda>r. r # map snd placed)
                           (prepare_envelope env
                              (receipt_envelope env (graft_receipt_id (gr_workflow_id w) rv) GRAFT_TYPE
                                 (gr_queue w) (gr_retention_ms w) p))))))"

section \<open>Bundles\<close>

definition child_links :: "workflow \<Rightarrow> string list" where
  "child_links w =
     List.map_filter (\<lambda>node. case dn_kind node of DChildWorkflow i \<Rightarrow> Some i | _ \<Rightarrow> None) (wf_nodes w)"

fun bundle_links ::
  "string set \<Rightarrow> string \<Rightarrow> string set \<Rightarrow> string list \<Rightarrow> degrees \<times> adjacency \<Rightarrow> wf_error + degrees \<times> adjacency" where
  "bundle_links ids i seen [] g = Inr g"
| "bundle_links ids i seen (c # cs) g =
     (if c \<notin> ids then Inl (WF (''atomic workflow bundle is missing child `'' @ c @ ''`''))
      else if c \<in> seen then bundle_links ids i seen cs g
      else bundle_links ids i (insert c seen) cs (link i c g))"

fun bundle_graph :: "string set \<Rightarrow> workflow list \<Rightarrow> degrees \<times> adjacency \<Rightarrow> wf_error + degrees \<times> adjacency" where
  "bundle_graph ids [] g = Inr g"
| "bundle_graph ids (w # ws) g =
     (case bundle_links ids (wf_id w) {} (child_links w) g of
        Inl e \<Rightarrow> Inl e
      | Inr g' \<Rightarrow> bundle_graph ids ws g')"

fun bundle_batch :: "wf_env \<Rightarrow> envelope list \<Rightarrow> workflow list \<Rightarrow> wf_error + envelope list" where
  "bundle_batch env batch [] = Inr batch"
| "bundle_batch env batch (w # ws) =
     (case prepare env w of
        Inl e \<Rightarrow> Inl e
      | Inr b \<Rightarrow>
          if length (batch @ b) > MAX_ENQUEUE_BATCH_SIZE
          then Inl (WF (''workflow bundle must contain at most '' @ show_nat MAX_ENQUEUE_BATCH_SIZE @ '' jobs''))
          else bundle_batch env (batch @ b) ws)"

definition prepare_bundle :: "wf_env \<Rightarrow> workflow list \<Rightarrow> wf_error + envelope list" where
  "prepare_bundle env ws =
     (let ids = map wf_id ws
      in if ws = [] then Inl (WF ''workflow bundle must contain at least one workflow'')
         else if card (set ids) \<noteq> length ws \<or> [] \<in> set ids
         then Inl (WF ''workflow bundle ids must be non-empty and unique'')
         else case bundle_graph (set ids) ws (zero_degrees ids, Map.empty) of
           Inl e \<Rightarrow> Inl e
         | Inr g \<Rightarrow>
             (case check_visited env g (length ws) ''cross-workflow child graph contains a cycle'' of
                Inl e \<Rightarrow> Inl e
              | Inr _ \<Rightarrow> bundle_batch env [] ws))"

section \<open>The checks characterised\<close>

definition edge_list :: "('n \<Rightarrow> string) \<Rightarrow> ('n \<Rightarrow> string list) \<Rightarrow> 'n list \<Rightarrow> (string \<times> string) list" where
  "edge_list nm dps nodes = concat (map (\<lambda>n. map (\<lambda>d. (d, nm n)) (dps n)) nodes)"

lemma edge_list_simps [simp]:
  "edge_list nm dps [] = []"
  "edge_list nm dps (n # ns) = map (\<lambda>d. (d, nm n)) (dps n) @ edge_list nm dps ns"
  by (simp_all add: edge_list_def)

lemma set_edge_list: "set (edge_list nm dps nodes) = {(d, nm n) | d n. n \<in> set nodes \<and> d \<in> set (dps n)}"
  by (auto simp: edge_list_def)

lemma length_edge_list: "length (edge_list nm dps nodes) = sum_list (map (length \<circ> dps) nodes)"
  by (induction nodes) simp_all

lemma check_visited_iff:
  assumes "hash_ok env" "fst ` set es \<subseteq> set ns" "snd ` set es \<subseteq> set ns" "distinct ns"
  shows "check_visited env (link_all es (zero_degrees ns, Map.empty)) (length ns) msg =
    (if acyclic (set es) then Inr () else Inl (WF msg))"
proof -
  let ?g = "link_all es (zero_degrees ns, Map.empty)"
  have dom: "dom (fst ?g) = set ns" by (auto simp: link_all_degrees zero_degrees_def split: if_splits)
  with assms(1) have "iter_order (fst ?g) (hash_order env (fst ?g))" by (simp add: hash_ok_def)
  with dom have ord: "distinct (hash_order env (fst ?g))" "set (hash_order env (fst ?g)) = set ns"
    by (simp_all add: iter_order_def)
  from visit_all_acyclic [OF assms(2,3) ord] obtain k where
    "visit_all (hash_order env (fst ?g)) ?g = Some k" "k = card (set ns) \<longleftrightarrow> acyclic (set es)" by blast
  then show ?thesis using assms(4) by (simp add: check_visited_def distinct_card)
qed

lemma graph_deps_Inr:
  "graph_deps names n unique deps g = Inr g' \<longleftrightarrow>
     set deps \<subseteq> names \<and> distinct deps \<and> set deps \<inter> unique = {} \<and>
     g' = link_all (map (\<lambda>d. (d, n)) deps) g"
  by (induction deps arbitrary: unique g) auto

lemma graph_deps_Inl: "graph_deps names n unique deps g \<noteq> Inl Stuck"
  by (induction deps arbitrary: unique g) auto

lemma spec_deps_Inr:
  "spec_deps names n unique deps g = Inr g' \<longleftrightarrow>
     set deps \<subseteq> names \<and> distinct deps \<and> set deps \<inter> unique = {} \<and>
     g' = link_all (map (\<lambda>d. (d, n)) deps) g"
  by (induction deps arbitrary: unique g) auto

lemma spec_deps_Inl: "spec_deps names n unique deps g \<noteq> Inl Stuck"
  by (induction deps arbitrary: unique g) auto

definition deps_ok :: "('n \<Rightarrow> string list) \<Rightarrow> string set \<Rightarrow> 'n list \<Rightarrow> bool" where
  "deps_ok dps names nodes \<longleftrightarrow> (\<forall>n \<in> set nodes. set (dps n) \<subseteq> names \<and> distinct (dps n))"

lemma spec_graph_Inr:
  "spec_graph names nodes g = Inr g' \<longleftrightarrow>
     deps_ok ns_deps names nodes \<and> g' = link_all (edge_list ns_name ns_deps nodes) g"
proof (induction nodes arbitrary: g)
  case (Cons n nodes)
  show ?case
  proof (cases "spec_deps names (ns_name n) {} (ns_deps n) g")
    case (Inl e)
    then have "\<not> (set (ns_deps n) \<subseteq> names \<and> distinct (ns_deps n))"
      using spec_deps_Inr [of names "ns_name n" "{}" "ns_deps n" g] by fastforce
    with Inl show ?thesis by (auto simp: deps_ok_def)
  next
    case (Inr h)
    then have "set (ns_deps n) \<subseteq> names" "distinct (ns_deps n)"
      "h = link_all (map (\<lambda>d. (d, ns_name n)) (ns_deps n)) g" by (simp_all add: spec_deps_Inr)
    with Inr Cons.IH [of h] show ?thesis by (simp add: deps_ok_def)
  qed
qed (auto simp: deps_ok_def)

lemma spec_graph_Inl: "spec_graph names nodes g \<noteq> Inl Stuck"
  by (induction nodes arbitrary: g) (auto simp: spec_deps_Inl split: sum.split)

lemma node_error_Inl: "node_error env n \<noteq> Inl Stuck"
  by (auto simp: node_error_def validate_condition_def Let_def split: draft_node_kind.splits option.splits)

lemma graph_nodes_Inl: "graph_nodes env names nodes edges g \<noteq> Inl Stuck"
  by (induction nodes arbitrary: edges g) (auto simp: node_error_Inl graph_deps_Inl split: sum.split)

lemma usize_add_sum:
  "usize_add (min a usize_max) b = min (a + b) usize_max"
  by (simp add: usize_add_def)

lemma graph_nodes_Inr:
  "graph_nodes env names nodes (min k usize_max) g = Inr (edges, g') \<longleftrightarrow>
     (\<forall>n \<in> set nodes. node_error env n = Inr ()) \<and> deps_ok dn_deps names nodes \<and>
     edges = min (k + length (edge_list dn_name dn_deps nodes)) usize_max \<and>
     g' = link_all (edge_list dn_name dn_deps nodes) g"
proof (induction nodes arbitrary: k g)
  case (Cons n nodes)
  show ?case
  proof (cases "node_error env n")
    case (Inr u)
    show ?thesis
    proof (cases "graph_deps names (dn_name n) {} (dn_deps n) g")
      case (Inl e)
      then have "\<not> (set (dn_deps n) \<subseteq> names \<and> distinct (dn_deps n))"
        using graph_deps_Inr [of names "dn_name n" "{}" "dn_deps n" g] by fastforce
      with Inl Inr show ?thesis by (auto simp: deps_ok_def)
    next
      case (Inr h)
      then have "set (dn_deps n) \<subseteq> names" "distinct (dn_deps n)"
        "h = link_all (map (\<lambda>d. (d, dn_name n)) (dn_deps n)) g" by (simp_all add: graph_deps_Inr)
      with Inr \<open>node_error env n = Inr u\<close> Cons.IH [of "k + length (dn_deps n)" h] show ?thesis
        by (simp add: deps_ok_def usize_add_sum add.assoc conj_ac)
    qed
  qed simp
qed (auto simp: deps_ok_def)

definition condition_ok :: "wf_env \<Rightarrow> string \<Rightarrow> bool" where
  "condition_ok env x \<longleftrightarrow> x \<noteq> [] \<and> length x \<le> 1024 \<and> cel_compile env x = None"

lemma validate_condition_Inr: "validate_condition env x = Inr () \<longleftrightarrow> condition_ok env x"
  by (auto simp: validate_condition_def condition_ok_def split: option.split)

definition draft_ok :: "wf_env \<Rightarrow> draft_node \<Rightarrow> bool" where
  "draft_ok env n \<longleftrightarrow> length (dn_name n) \<le> 128 \<and>
     (case dn_kind n of
        DTask _ \<Rightarrow> True
      | DSignal s \<Rightarrow> s \<noteq> []
      | DTimerAt at \<Rightarrow> 0 < at
      | DTimerAfter _ \<Rightarrow> dn_deps n \<noteq> []
      | DChildWorkflow i \<Rightarrow> i \<noteq> []
      | DCondition x \<Rightarrow> condition_ok env x)"

lemma node_error_Inr: "node_error env n = Inr () \<longleftrightarrow> draft_ok env n"
  by (auto simp: node_error_def draft_ok_def Let_def validate_condition_Inr split: draft_node_kind.split)

text \<open>What a graph must be: unique names, known dependencies without repetition, no cycle.\<close>

definition dag :: "('n \<Rightarrow> string) \<Rightarrow> ('n \<Rightarrow> string list) \<Rightarrow> 'n list \<Rightarrow> bool" where
  "dag nm dps nodes \<longleftrightarrow>
     distinct (map nm nodes) \<and> deps_ok dps (nm ` set nodes) nodes \<and>
     sum_list (map (length \<circ> dps) nodes) \<le> MAX_WORKFLOW_EDGES \<and>
     acyclic {(d, nm n) | d n. n \<in> set nodes \<and> d \<in> set (dps n)}"

lemma deps_ok_edges:
  assumes "deps_ok dps (nm ` set nodes) nodes"
  shows "fst ` set (edge_list nm dps nodes) \<subseteq> set (map nm nodes)"
    "snd ` set (edge_list nm dps nodes) \<subseteq> set (map nm nodes)"
  using assms by (force simp: set_edge_list deps_ok_def)+

lemma check_visited_dag:
  assumes "hash_ok env" "deps_ok dps (nm ` set nodes) nodes" "distinct (map nm nodes)"
  shows "check_visited env (link_all (edge_list nm dps nodes) (zero_degrees (map nm nodes), Map.empty))
      (length nodes) msg =
    (if acyclic {(d, nm n) | d n. n \<in> set nodes \<and> d \<in> set (dps n)} then Inr () else Inl (WF msg))"
  using check_visited_iff [OF assms(1) deps_ok_edges [OF assms(2)] assms(3)] by (simp add: set_edge_list)

lemma edges_bound: "min k usize_max \<le> MAX_WORKFLOW_EDGES \<longleftrightarrow> k \<le> MAX_WORKFLOW_EDGES"
  by (auto simp: min_def usize_max_def MAX_WORKFLOW_EDGES_def)

definition graph_ok :: "wf_env \<Rightarrow> draft_node list \<Rightarrow> bool" where
  "graph_ok env nodes \<longleftrightarrow>
     length nodes \<le> MAX_WORKFLOW_NODES \<and> (\<forall>n \<in> set nodes. dn_name n \<noteq> [] \<and> draft_ok env n) \<and>
     dag dn_name dn_deps nodes"

lemma validate_graph_iff:
  assumes "hash_ok env"
  shows "validate_graph env nodes = Inr () \<longleftrightarrow> graph_ok env nodes" "validate_graph env nodes \<noteq> Inl Stuck"
proof -
  let ?ns = "map dn_name nodes" and ?g = "(zero_degrees (map dn_name nodes), Map.empty)"
  have names: "card (set ?ns) \<noteq> length nodes \<or> [] \<in> set ?ns \<longleftrightarrow>
      \<not> (distinct ?ns \<and> (\<forall>n \<in> set nodes. dn_name n \<noteq> []))"
    using card_distinct [of ?ns] distinct_card [of ?ns] by force
  note gn = graph_nodes_Inr [of env "set ?ns" nodes 0 ?g, simplified]
  have "(validate_graph env nodes = Inr () \<longleftrightarrow> graph_ok env nodes) \<and> validate_graph env nodes \<noteq> Inl Stuck"
  proof (cases "length nodes > MAX_WORKFLOW_NODES \<or> \<not> (distinct ?ns \<and> (\<forall>n \<in> set nodes. dn_name n \<noteq> []))")
    case True
    then show ?thesis using names by (auto simp: validate_graph_def Let_def graph_ok_def dag_def)
  next
    case False
    then have len: "length nodes \<le> MAX_WORKFLOW_NODES" and dist: "distinct ?ns"
      and ne: "\<forall>n \<in> set nodes. dn_name n \<noteq> []" by auto
    show ?thesis
    proof (cases "graph_nodes env (set ?ns) nodes 0 ?g")
      case (Inl e)
      then have "\<not> ((\<forall>n \<in> set nodes. draft_ok env n) \<and> deps_ok dn_deps (dn_name ` set nodes) nodes)"
        using graph_nodes_Inr [of env "set ?ns" nodes 0 ?g "min (length (edge_list dn_name dn_deps nodes)) usize_max"
            "link_all (edge_list dn_name dn_deps nodes) ?g"] by (simp add: node_error_Inr)
      with Inl len dist ne names graph_nodes_Inl [of env "set ?ns" nodes 0 ?g] show ?thesis
        by (auto simp: validate_graph_def Let_def graph_ok_def dag_def)
    next
      case (Inr p)
      obtain edges h where p: "p = (edges, h)" by (cases p)
      from Inr p gn have ok: "\<forall>n \<in> set nodes. draft_ok env n" "deps_ok dn_deps (dn_name ` set nodes) nodes"
        and e: "edges = min (length (edge_list dn_name dn_deps nodes)) usize_max"
        and h: "h = link_all (edge_list dn_name dn_deps nodes) ?g" by (simp_all add: node_error_Inr)
      have "validate_graph env nodes =
          (if edges > MAX_WORKFLOW_EDGES
           then Inl (WF (''workflow must contain at most '' @ show_nat MAX_WORKFLOW_EDGES @ '' dependency edges''))
           else check_visited env h (length nodes) ''workflow dependency graph contains a cycle'')"
        using Inr p len dist ne names by (simp add: validate_graph_def Let_def)
      moreover have "edges > MAX_WORKFLOW_EDGES \<longleftrightarrow> sum_list (map (length \<circ> dn_deps) nodes) > MAX_WORKFLOW_EDGES"
        using edges_bound by (simp add: e length_edge_list flip: not_le)
      ultimately show ?thesis
        using ok len dist ne check_visited_dag [OF assms ok(2) dist]
        by (auto simp: h graph_ok_def dag_def)
    qed
  qed
  then show "validate_graph env nodes = Inr () \<longleftrightarrow> graph_ok env nodes" "validate_graph env nodes \<noteq> Inl Stuck"
    by auto
qed

text \<open>The nodes a coordinator accepts.\<close>

definition spec_ok :: "wf_env \<Rightarrow> node_spec \<Rightarrow> bool" where
  "spec_ok env n \<longleftrightarrow> \<not> bad_spec env {} n"

lemma bad_spec_names: "bad_spec env names n \<longleftrightarrow> ns_name n \<in> names \<or> \<not> spec_ok env n"
  by (auto simp: spec_ok_def bad_spec_def)

lemma scan_specs_Inr:
  "scan_specs env names (min k usize_max) nodes = Inr (names', edges) \<longleftrightarrow>
     (\<forall>n \<in> set nodes. spec_ok env n) \<and> distinct (map ns_name nodes) \<and> ns_name ` set nodes \<inter> names = {} \<and>
     names' = names \<union> ns_name ` set nodes \<and>
     edges = min (k + length (edge_list ns_name ns_deps nodes)) usize_max"
proof (induction nodes arbitrary: names k)
  case (Cons n nodes)
  from Cons.IH [of "insert (ns_name n) names" "k + length (ns_deps n)"] show ?case
    by (auto simp: bad_spec_names usize_add_sum add.assoc)
qed auto

lemma scan_specs_Inl: "scan_specs env names k nodes \<noteq> Inl Stuck"
  by (induction nodes arbitrary: names k) auto

definition coordinator_ok :: "wf_env \<Rightarrow> coordinator_task \<Rightarrow> bool" where
  "coordinator_ok env t \<longleftrightarrow>
     ct_workflow_id t \<noteq> [] \<and> ct_nodes t \<noteq> [] \<and> length (ct_nodes t) \<le> MAX_WORKFLOW_NODES \<and>
     \<not> bad_policy t \<and> (\<forall>n \<in> set (ct_nodes t). spec_ok env n) \<and> dag ns_name ns_deps (ct_nodes t)"

lemma validate_coordinator_iff:
  assumes "hash_ok env"
  shows "validate_coordinator env t = Inr () \<longleftrightarrow> coordinator_ok env t" "validate_coordinator env t \<noteq> Inl Stuck"
proof -
  let ?nodes = "ct_nodes t" and ?g = "(zero_degrees (map ns_name (ct_nodes t)), Map.empty)"
  let ?es = "edge_list ns_name ns_deps (ct_nodes t)"
  have "(validate_coordinator env t = Inr () \<longleftrightarrow> coordinator_ok env t) \<and> validate_coordinator env t \<noteq> Inl Stuck"
  proof (cases "ct_workflow_id t = [] \<or> ?nodes = [] \<or> length ?nodes > MAX_WORKFLOW_NODES \<or> bad_policy t")
    case True
    then show ?thesis by (auto simp: validate_coordinator_def coordinator_ok_def)
  next
    case False
    show ?thesis
    proof (cases "scan_specs env {} 0 ?nodes")
      case (Inl e)
      then have "\<not> ((\<forall>n \<in> set ?nodes. spec_ok env n) \<and> distinct (map ns_name ?nodes))"
        using scan_specs_Inr [of env "{}" 0 ?nodes "ns_name ` set ?nodes" "min (length ?es) usize_max"] by simp
      with Inl False scan_specs_Inl [of env "{}" 0 ?nodes] show ?thesis
        by (auto simp: validate_coordinator_def coordinator_ok_def dag_def)
    next
      case (Inr p)
      obtain names edges where p: "p = (names, edges)" by (cases p)
      from Inr p scan_specs_Inr [of env "{}" 0 ?nodes names edges]
      have ok: "\<forall>n \<in> set ?nodes. spec_ok env n" "distinct (map ns_name ?nodes)" "names = ns_name ` set ?nodes"
        and e: "edges = min (length ?es) usize_max" by simp_all
      have v: "validate_coordinator env t =
          (if edges > MAX_WORKFLOW_EDGES
           then Inl (WF (''workflow coordinator must contain at most '' @ show_nat MAX_WORKFLOW_EDGES @ '' dependency edges''))
           else (case spec_graph names ?nodes ?g of
                  Inl e \<Rightarrow> Inl e
                | Inr g \<Rightarrow> check_visited env g (length ?nodes) ''workflow coordinator dependency graph contains a cycle''))"
        using Inr p False by (simp add: validate_coordinator_def)
      have eb: "edges > MAX_WORKFLOW_EDGES \<longleftrightarrow> sum_list (map (length \<circ> ns_deps) ?nodes) > MAX_WORKFLOW_EDGES"
        using edges_bound by (simp add: e length_edge_list flip: not_le)
      show ?thesis
      proof (cases "deps_ok ns_deps names ?nodes")
        case True
        then have "spec_graph names ?nodes ?g = Inr (link_all ?es ?g)" by (simp add: spec_graph_Inr)
        with v eb True ok False check_visited_dag [OF assms, of ns_deps ns_name ?nodes] show ?thesis
          by (auto simp: coordinator_ok_def dag_def)
      next
        case dep: False
        then obtain e where "spec_graph names ?nodes ?g = Inl e" "e \<noteq> Stuck"
          using spec_graph_Inr [of names ?nodes ?g] spec_graph_Inl [of names ?nodes ?g]
          by (cases "spec_graph names ?nodes ?g") auto
        with v ok dep show ?thesis by (auto simp: coordinator_ok_def dag_def)
      qed
    qed
  qed
  then show "validate_coordinator env t = Inr () \<longleftrightarrow> coordinator_ok env t" "validate_coordinator env t \<noteq> Inl Stuck"
    by auto
qed

section \<open>What the builder makes\<close>

text \<open>The type invariant of the builder: delays, retention and retry policies are in range.\<close>

definition workflow_ok :: "workflow \<Rightarrow> bool" where
  "workflow_ok w \<longleftrightarrow>
     0 < wf_retention_ms w \<and>
     (\<forall>n \<in> set (wf_nodes w). \<forall>d. dn_kind n = DTimerAfter d \<longrightarrow> 0 < d) \<and>
     (\<forall>p. wf_retry_policy w = Some p \<longrightarrow> 2 \<le> max_generations p \<and> 0 < backoff_ms p \<and> wf_failed_subgraph_retry w)"

lemma built_ok: "built w \<Longrightarrow> workflow_ok w"
  by (induction rule: built.induct)
    (auto simp: workflow_ok_def wf_new_def coordinator_queue_def retention_def failed_subgraph_retry_def
      automatic_retry_def add_task_def add_signal_def add_timer_at_def add_timer_after_def add_child_def
      add_condition_def push_node_def DEFAULT_RETENTION_MS_def split: option.splits if_splits)

lemma prepare_envelope_Inr:
  "prepare_envelope env e = Inr e' \<Longrightarrow>
     env_id e' = env_id e \<and> pending e' = pending e \<and> payload e' = payload e \<and> kind e' = kind e \<and>
     scheduled_at_ms e' = scheduled_at_ms e \<and> retention_ms e' = retention_ms e \<and> weight e' \<noteq> 0"
  by (auto simp: prepare_envelope_def Let_def effective_weight_def DEFAULT_WEIGHT_def split: sum.splits if_splits)

text \<open>How a node of the draft, its entry in the coordinator's graph and its job correspond.\<close>

definition placed :: "wf_env \<Rightarrow> workflow \<Rightarrow> draft_node \<Rightarrow> node_spec \<times> envelope \<Rightarrow> bool" where
  "placed env w n se \<longleftrightarrow>
     ns_name (fst se) = dn_name n \<and> ns_deps (fst se) = dn_deps n \<and>
     ns_job_id (fst se) = env_id (snd se) \<and> env_id (snd se) \<noteq> [] \<and>
     wf_retention_ms w \<le> retention_ms (snd se) \<and>
     (case dn_kind n of
        DTimerAt at \<Rightarrow> \<not> pending (snd se) \<and> scheduled_at_ms (snd se) = at
      | _ \<Rightarrow> pending (snd se) \<and> scheduled_at_ms (snd se) = 0) \<and>
     (draft_ok env n \<and> dn_name n \<noteq> [] \<and> (\<forall>d. dn_kind n = DTimerAfter d \<longrightarrow> 0 < d) \<and>
        length (env_id (snd se)) \<le> MAX_JOB_IDENTIFIER_LEN \<longrightarrow> spec_ok env (fst se))"

lemma place_node_sel:
  "env_id (place_node w n d e) = (if env_id e = [] then wf_id w @ '':'' @ n else env_id e)"
  "wf_retention_ms w \<le> retention_ms (place_node w n d e)"
  "pending (place_node w n d e) \<longleftrightarrow> \<not> (nd_kind d = NTimer \<and> nd_wake_at_ms d \<noteq> None)"
  "scheduled_at_ms (place_node w n d e) =
     (if nd_kind d = NTimer \<and> nd_wake_at_ms d \<noteq> None then scheduled_at_ms e else 0)"
  by (auto simp: place_node_def Let_def)

lemma map_sum_Inr_iff: "map_sum id f r = Inr y \<longleftrightarrow> (\<exists>x. r = Inr x \<and> y = f x)"
  by (cases r) auto

definition detail_of :: "draft_node_kind \<Rightarrow> node_detail" where
  "detail_of k =
     (case k of
        DTask _ \<Rightarrow> plain_detail NTask
      | DSignal s \<Rightarrow> (plain_detail NSignal)\<lparr>nd_signal := Some s\<rparr>
      | DTimerAt at \<Rightarrow> (plain_detail NTimer)\<lparr>nd_wake_at_ms := Some at\<rparr>
      | DTimerAfter d \<Rightarrow> (plain_detail NTimer)\<lparr>nd_delay_ms := Some d\<rparr>
      | DChildWorkflow i \<Rightarrow> (plain_detail NChildWorkflow)\<lparr>nd_child_workflow_id := Some i\<rparr>
      | DCondition x \<Rightarrow> (plain_detail NCondition)\<lparr>nd_condition := Some x\<rparr>)"

lemma draft_envelope_detail:
  assumes "draft_envelope env w k = Inr (e, d)"
  shows "d = detail_of k" "k = DTimerAt at \<Longrightarrow> scheduled_at_ms e = at"
  using assms
  by (cases k; auto simp: draft_envelope_def detail_of_def map_sum_Inr_iff split: if_splits)+

lemma draft_placed:
  assumes "draft_envelope env w (dn_kind n) = Inr (e, d)"
    and "prepare_envelope env (place_node w (dn_name n) d e) = Inr e'"
  shows "placed env w n (spec_of (dn_name n) (env_id e') (dn_deps n) d, e')"
  using prepare_envelope_Inr [OF assms(2)] draft_envelope_detail [OF assms(1)]
  by (cases "dn_kind n")
    (simp_all add: placed_def place_node_sel detail_of_def spec_of_def plain_detail_def spec_ok_def bad_spec_def
      draft_ok_def empty_or_none_def validate_condition_Inr not_less)

lemma prepare_nodes_placed: "prepare_nodes env w nodes = Inr ps \<Longrightarrow> list_all2 (placed env w) nodes ps"
proof (induction nodes arbitrary: ps)
  case (Cons n nodes)
  then show ?case by (auto split: sum.splits prod.splits intro: draft_placed)
qed simp

lemma placed_lists:
  assumes "list_all2 (placed env w) nodes ps"
  shows "map (ns_name \<circ> fst) ps = map dn_name nodes" "map (ns_deps \<circ> fst) ps = map dn_deps nodes"
    "map (ns_job_id \<circ> fst) ps = map (env_id \<circ> snd) ps"
  using assms by (induction rule: list_all2_induct) (simp_all add: placed_def)

lemma dag_cong:
  assumes "map nm nodes = map nm' nodes'" "map dps nodes = map dps' nodes'" "dag nm dps nodes"
  shows "dag nm' dps' nodes'"
proof -
  have len: "length nodes = length nodes'" using assms(1) map_eq_imp_length_eq by blast
  have pairs: "(\<lambda>n. (nm n, dps n)) ` set nodes = (\<lambda>n. (nm' n, dps' n)) ` set nodes'"
  proof -
    have "map (\<lambda>n. (nm n, dps n)) nodes = zip (map nm nodes) (map dps nodes)"
      "map (\<lambda>n. (nm' n, dps' n)) nodes' = zip (map nm' nodes') (map dps' nodes')"
      by (simp_all add: zip_map_map zip_same_conv_map)
    with assms(1,2) have "map (\<lambda>n. (nm n, dps n)) nodes = map (\<lambda>n. (nm' n, dps' n)) nodes'" by simp
    then show ?thesis by (metis set_map)
  qed
  have 1: "nm ` set nodes = nm' ` set nodes'" using assms(1) by (metis set_map)
  have 2: "deps_ok dps N nodes \<longleftrightarrow> deps_ok dps' N nodes'" for N
  proof -
    have "dps ` set nodes = dps' ` set nodes'" using assms(2) by (metis set_map)
    then show ?thesis unfolding deps_ok_def by (metis (no_types, lifting) image_iff)
  qed
  have "{(d, nm n) | d n. n \<in> set nodes \<and> d \<in> set (dps n)} =
      {(d, m) | d m ds. (m, ds) \<in> (\<lambda>n. (nm n, dps n)) ` set nodes \<and> d \<in> set ds}"
    "{(d, nm' n) | d n. n \<in> set nodes' \<and> d \<in> set (dps' n)} =
      {(d, m) | d m ds. (m, ds) \<in> (\<lambda>n. (nm' n, dps' n)) ` set nodes' \<and> d \<in> set ds}" by auto
  with pairs have 3: "{(d, nm n) | d n. n \<in> set nodes \<and> d \<in> set (dps n)} =
      {(d, nm' n) | d n. n \<in> set nodes' \<and> d \<in> set (dps' n)}" by simp
  have 4: "map (length \<circ> dps) nodes = map (length \<circ> dps') nodes'"
    using arg_cong [OF assms(2), of "map length"] by simp
  from assms(3) show ?thesis unfolding dag_def 3 using 1 2 4 assms(1) by simp
qed

section \<open>Properties\<close>

text \<open>C26. The graph check always returns, whatever order the hash maps yield their keys in, and
  accepts exactly the graphs a coordinator can run: at most 999 nodes with unique, non-empty names,
  each well formed for its kind, whose dependencies are nodes of the graph, are not repeated, are
  at most 10000 in all, and form no cycle.\<close>

theorem validate_graph_characterised:
  assumes "hash_ok env"
  shows "validate_graph env nodes \<noteq> Inl Stuck \<and>
    (validate_graph env nodes = Inr () \<longleftrightarrow>
      length nodes \<le> 999 \<and> distinct (map dn_name nodes) \<and>
      (\<forall>n \<in> set nodes. dn_name n \<noteq> [] \<and> draft_ok env n \<and>
         set (dn_deps n) \<subseteq> dn_name ` set nodes \<and> distinct (dn_deps n)) \<and>
      sum_list (map (length \<circ> dn_deps) nodes) \<le> 10000 \<and>
      acyclic {(d, dn_name n) | d n. n \<in> set nodes \<and> d \<in> set (dn_deps n)})"
  using validate_graph_iff [OF assms, of nodes]
  by (auto simp: graph_ok_def dag_def deps_ok_def MAX_WORKFLOW_NODES_def MAX_WORKFLOW_EDGES_def
      MAX_ENQUEUE_BATCH_SIZE_def)

text \<open>C28. What the builder makes, the coordinator runs: when a workflow made by the builder is
  prepared and the store's boundary accepts the batch, its first job is the coordinator, whose
  payload decodes to a graph that the coordinator's own validation accepts; the rest of the batch
  are exactly the jobs of the graph's nodes, in order, each held back as pending, except an
  absolute timer, which is scheduled for its time, and each retained at least as long as the
  workflow.\<close>

theorem prepared_workflow_accepted:
  assumes "hash_ok env" "\<forall>t p. enc_coordinator env t = Inr p \<longrightarrow> dec_coordinator env p = Inr t"
    and "built w" "prepare env w = Inr batch" "validate_enqueue batch = Inr ()"
  shows "\<exists>t. dec_coordinator env (payload (hd batch)) = Inr t \<and> validate_coordinator env t = Inr () \<and>
    env_id (hd batch) = ct_workflow_id t @ '':coordinator'' \<and>
    map ns_job_id (ct_nodes t) = map env_id (tl batch) \<and>
    list_all2 (\<lambda>n e. wf_retention_ms w \<le> retention_ms e \<and>
       (case dn_kind n of DTimerAt at \<Rightarrow> \<not> pending e \<and> scheduled_at_ms e = at
        | _ \<Rightarrow> pending e \<and> scheduled_at_ms e = 0)) (wf_nodes w) (tl batch)"
proof -
  from assms(4) obtain ps p c where g: "validate_graph env (wf_nodes w) = Inr ()"
    and ps: "prepare_nodes env w (wf_nodes w) = Inr ps" and ne: "wf_id w \<noteq> []" "wf_nodes w \<noteq> []"
    and p: "enc_coordinator env \<lparr>ct_workflow_id = wf_id w, ct_nodes = map fst ps,
        ct_failed_subgraph_retry = wf_failed_subgraph_retry w, ct_retry_policy = wf_retry_policy w\<rparr> = Inr p"
    and c: "prepare_envelope env ((internal_envelope env (wf_coordinator_queue w) COORDINATOR_TYPE p)
        \<lparr>env_id := wf_id w @ '':coordinator'', retention_ms := wf_retention_ms w\<rparr>) = Inr c"
    and batch: "batch = c # map snd ps"
    by (auto simp: prepare_def malformed_def map_sum_Inr_iff split: if_splits sum.splits)
  let ?t = "\<lparr>ct_workflow_id = wf_id w, ct_nodes = map fst ps,
    ct_failed_subgraph_retry = wf_failed_subgraph_retry w, ct_retry_policy = wf_retry_policy w\<rparr>"
  note pl = prepare_nodes_placed [OF ps] and wok = built_ok [OF assms(3)]
  from g have gok: "graph_ok env (wf_nodes w)" by (simp add: validate_graph_iff [OF assms(1)])
  have ids: "length (env_id e) \<le> MAX_JOB_IDENTIFIER_LEN" if "e \<in> set batch" for e
    using assms(5) that
    by (auto simp: validate_enqueue_Inr envelope_valid_def fields_valid_def identifier_fields_def list_all_iff)
  have "spec_ok env s" if "(s, e) \<in> set ps" for s e
  proof -
    from that pl obtain n where n: "n \<in> set (wf_nodes w)" "placed env w n (s, e)"
      by (metis in_set_conv_nth list_all2_conv_all_nth)
    moreover have "e \<in> set batch" using that batch by force
    moreover have "draft_ok env n" "dn_name n \<noteq> []" "\<forall>d. dn_kind n = DTimerAfter d \<longrightarrow> 0 < d"
      using n(1) gok wok by (auto simp: graph_ok_def workflow_ok_def)
    ultimately show ?thesis using ids by (auto simp: placed_def)
  qed
  moreover have "dag ns_name ns_deps (map fst ps)"
    using gok placed_lists [OF pl] by (auto simp: graph_ok_def intro!: dag_cong [of dn_name "wf_nodes w" ns_name _ dn_deps])
  moreover have "length ps = length (wf_nodes w)" using pl by (simp add: list_all2_lengthD)
  moreover have "\<not> bad_policy ?t" using wok by (auto simp: bad_policy_def workflow_ok_def not_less split: option.split)
  ultimately have "coordinator_ok env ?t" using ne gok by (auto simp: coordinator_ok_def graph_ok_def)
  then have v: "validate_coordinator env ?t = Inr ()" by (simp add: validate_coordinator_iff [OF assms(1)])
  have "payload c = p" "env_id c = wf_id w @ '':coordinator''"
    using prepare_envelope_Inr [OF c] by (simp_all add: internal_envelope_def)
  moreover have "map ns_job_id (map fst ps) = map env_id (map snd ps)" using placed_lists(3) [OF pl] by simp
  moreover have "list_all2 (\<lambda>n e. wf_retention_ms w \<le> retention_ms e \<and>
       (case dn_kind n of DTimerAt at \<Rightarrow> \<not> pending e \<and> scheduled_at_ms e = at
        | _ \<Rightarrow> pending e \<and> scheduled_at_ms e = 0)) (wf_nodes w) (map snd ps)"
    using pl unfolding list_all2_map2 by (rule list_all2_mono) (simp add: placed_def)
  ultimately show ?thesis using v assms(2) p batch by (intro exI [of _ ?t]) auto
qed

section \<open>Witnesses\<close>

text \<open>Two tasks, one after the other; the codec knows the one graph they make.\<close>

definition demo_task :: coordinator_task where
  "demo_task =
     \<lparr>ct_workflow_id = ''w'',
      ct_nodes = [spec_of ''a'' ''w:a'' [] (plain_detail NTask), spec_of ''b'' ''w:b'' [''a''] (plain_detail NTask)],
      ct_failed_subgraph_retry = False, ct_retry_policy = None\<rparr>"

definition demo_wf_env :: wf_env where
  "demo_wf_env =
     \<lparr>enc_signal = \<lambda>_. Inl [], enc_timer = \<lambda>_. Inl [], enc_child = \<lambda>_. Inl [], enc_condition = \<lambda>_. Inl [],
      enc_coordinator = \<lambda>t. if t = demo_task then Inr ''x'' else Inl [],
      dec_coordinator = \<lambda>p. if p = ''x'' then Inr demo_task else Inl [],
      enc_graft = \<lambda>_. Inl [], dec_graft = \<lambda>_. Inl [], enc_retry = \<lambda>_. Inl [], dec_retry = \<lambda>_. Inl [],
      cel_compile = \<lambda>_. Some [], cel_execute = \<lambda>_ _. Inl [], wf_sha256 = \<lambda>_. [],
      hash_order = \<lambda>m. sorted_list_of_set (dom m)\<rparr>"

definition demo_workflow :: workflow where
  "demo_workflow = add_task ''b'' (envelope_default\<lparr>kind := ''mail''\<rparr>) [''a'']
     (add_task ''a'' (envelope_default\<lparr>kind := ''mail''\<rparr>) [] (wf_new ''w''))"

definition demo_job :: "string \<Rightarrow> envelope" where
  "demo_job i = envelope_default\<lparr>kind := ''mail'', env_id := i, retention_ms := 604800000, weight := 1, pending := True\<rparr>"

definition demo_coordinator :: envelope where
  "demo_coordinator = envelope_default\<lparr>env_id := ''w:coordinator'', kind := ''headgate:workflow'',
     schema_version := 1, payload := ''x'', queue := ''headgate-workflow'', weight := 1, retention_ms := 604800000\<rparr>"

lemma demo_hash_ok: "hash_ok demo_wf_env"
  by (simp add: hash_ok_def iter_order_def demo_wf_env_def)

lemma demo_nodes:
  "wf_nodes demo_workflow =
     [\<lparr>dn_name = ''a'', dn_kind = DTask (envelope_default\<lparr>kind := ''mail''\<rparr>), dn_deps = []\<rparr>,
      \<lparr>dn_name = ''b'', dn_kind = DTask (envelope_default\<lparr>kind := ''mail''\<rparr>), dn_deps = [''a'']\<rparr>]"
  by (simp add: demo_workflow_def add_task_def push_node_def wf_new_def)

lemma demo_acyclic: "acyclic {(''a'', ''b'')}"
  by (simp add: acyclic_insert) (simp add: acyclic_def)

lemma demo_edges: "{(d, dn_name n) | d n. n \<in> set (wf_nodes demo_workflow) \<and> d \<in> set (dn_deps n)} = {(''a'', ''b'')}"
  unfolding set_edge_list [symmetric] by (simp add: demo_nodes)

lemma demo_graph: "validate_graph demo_wf_env (wf_nodes demo_workflow) = Inr ()"
  using demo_acyclic demo_edges
  by (simp add: validate_graph_iff [OF demo_hash_ok] graph_ok_def dag_def deps_ok_def draft_ok_def
      MAX_WORKFLOW_NODES_def MAX_WORKFLOW_EDGES_def MAX_ENQUEUE_BATCH_SIZE_def) (simp add: demo_nodes)

lemma demo_prepare_envelope:
  "prepare_envelope demo_wf_env (place_node demo_workflow n (plain_detail NTask) (envelope_default\<lparr>kind := ''mail''\<rparr>)) =
     Inr (demo_job (''w:'' @ n))"
  by (simp add: prepare_envelope_def place_node_def plain_detail_def Let_def envelope_default_def demo_job_def
      demo_wf_env_def demo_workflow_def add_task_def push_node_def wf_new_def DEFAULT_RETENTION_MS_def
      validate_kind_def kind_ok_def word_char_def fingerprint_of_def effective_weight_def DEFAULT_WEIGHT_def)

lemma demo_prepare: "prepare demo_wf_env demo_workflow = Inr [demo_coordinator, demo_job ''w:a'', demo_job ''w:b'']"
proof -
  have sel: "wf_id demo_workflow = ''w''" "wf_coordinator_queue demo_workflow = ''headgate-workflow''"
    "wf_retention_ms demo_workflow = 604800000" "wf_failed_subgraph_retry demo_workflow = False"
    "wf_retry_policy demo_workflow = None"
    by (simp_all add: demo_workflow_def add_task_def push_node_def wf_new_def DEFAULT_RETENTION_MS_def)
  have ids: "env_id (demo_job i) = i" for i by (simp add: demo_job_def)
  have nodes: "prepare_nodes demo_wf_env demo_workflow (wf_nodes demo_workflow) =
      Inr [(spec_of ''a'' ''w:a'' [] (plain_detail NTask), demo_job ''w:a''),
           (spec_of ''b'' ''w:b'' [''a''] (plain_detail NTask), demo_job ''w:b'')]"
    by (simp add: demo_nodes draft_envelope_def demo_prepare_envelope ids)
  have enc: "enc_coordinator demo_wf_env demo_task = Inr ''x''" by (simp add: demo_wf_env_def)
  have c: "prepare_envelope demo_wf_env ((internal_envelope demo_wf_env ''headgate-workflow'' COORDINATOR_TYPE ''x'')
      \<lparr>env_id := ''w:coordinator'', retention_ms := 604800000\<rparr>) = Inr demo_coordinator"
    by (simp add: prepare_envelope_def internal_envelope_def COORDINATOR_TYPE_def TASK_VERSION_def Let_def
        envelope_default_def demo_coordinator_def demo_wf_env_def validate_kind_def kind_ok_def word_char_def
        fingerprint_of_def effective_weight_def DEFAULT_WEIGHT_def)
  have ne: "wf_nodes demo_workflow \<noteq> []" by (simp add: demo_nodes)
  show ?thesis
    using enc c ne by (simp add: prepare_def sel demo_graph nodes malformed_def demo_task_def)
qed

lemma demo_built: "built demo_workflow"
  unfolding demo_workflow_def by (intro built_task built_new)

lemma demo_batch_enqueues: "validate_enqueue [demo_coordinator, demo_job ''w:a'', demo_job ''w:b''] = Inr ()"
  by (simp add: validate_enqueue_Inr demo_coordinator_def demo_job_def envelope_default_def envelope_valid_def
      fields_valid_def routing_valid_def identifier_fields_def unique_key_len_def unique_key_missing_def
      header_bytes_def kind_ok_def word_char_def MAX_JOB_IDENTIFIER_LEN_def MAX_UNIQUE_KEY_BYTES_def
      envelope_total_def envelope_bytes_def MAX_ENQUEUE_BATCH_SIZE_def MAX_ENQUEUE_BYTES_def
      MAX_JOB_PAYLOAD_BYTES_def MAX_JOB_HEADERS_BYTES_def)

theorem validate_graph_characterised_witness:
  "hash_ok demo_wf_env \<and> validate_graph demo_wf_env (wf_nodes demo_workflow) = Inr () \<and>
   validate_graph demo_wf_env [\<lparr>dn_name = ''a'', dn_kind = DTask envelope_default, dn_deps = [''a'']\<rparr>] \<notin> {Inr (), Inl Stuck}"
proof -
  have "\<not> acyclic {(d, dn_name n) | d n.
      n \<in> set [\<lparr>dn_name = ''a'', dn_kind = DTask envelope_default, dn_deps = [''a'']\<rparr>] \<and> d \<in> set (dn_deps n)}"
    by (auto simp: acyclic_def intro!: exI [of _ "''a''"] r_into_trancl)
  then show ?thesis
    using validate_graph_characterised [OF demo_hash_ok,
        of "[\<lparr>dn_name = ''a'', dn_kind = DTask envelope_default, dn_deps = [''a'']\<rparr>]"]
      demo_hash_ok demo_graph by auto
qed

theorem prepared_workflow_accepted_witness:
  "\<exists>t. dec_coordinator demo_wf_env (payload demo_coordinator) = Inr t \<and> validate_coordinator demo_wf_env t = Inr () \<and>
     map ns_job_id (ct_nodes t) = [''w:a'', ''w:b'']"
proof -
  have "\<forall>t p. enc_coordinator demo_wf_env t = Inr p \<longrightarrow> dec_coordinator demo_wf_env p = Inr t"
    by (simp add: demo_wf_env_def)
  from prepared_workflow_accepted [OF demo_hash_ok this demo_built demo_prepare demo_batch_enqueues]
  show ?thesis by (auto simp: demo_job_def)
qed

end
