(* ===== verification/Coordinator.thy ===== *)
theory Coordinator
  imports Workflow
begin

text \<open>
  headgate-workflow/src/lib.rs, the coordinator: the durable cursor, its event history, the
  evidence of completion, the propagation of failure, and the tick that turns them into promotions,
  deletions, timer deadlines and a verdict. The store is a record of the operations of \<open>Inspect\<close>
  that the crate calls, over an abstract store state; the coordinator's own checkpoint writes are
  two more of them. The reads of a tick are answered in node order. Its promotions and deletions
  run concurrently in the code: here they take effect one after the other in an order that is a
  parameter, and stop at the first error.
\<close>

section \<open>Data\<close>

definition store_error_fmt :: "store_error \<Rightarrow> string" where
  "store_error_fmt e =
     (case e of
        Duplicate i _ \<Rightarrow> ''duplicate unique key; existing job '' @ i
      | IdConflict i \<Rightarrow> ''id conflict: job '' @ i
      | Quarantined fp \<Rightarrow> ''fingerprint '' @ fp @ '' is quarantined''
      | Backpressure q limit current incoming \<Rightarrow>
          ''enqueue backpressure: queue '' @ q @ '' has '' @ show_nat (unat current) @ '' unfinished jobs, limit ''
          @ show_nat (unat limit) @ '', incoming '' @ show_nat (unat incoming)
      | LeaseRejected i \<Rightarrow> ''lease no longer held for job '' @ i @ ''; stop work immediately''
      | Unavailable m \<Rightarrow> ''store unavailable: '' @ m
      | NotFound m \<Rightarrow> ''not found: '' @ m
      | Invalid m \<Rightarrow> ''invalid request: '' @ m
      | Backend m \<Rightarrow> m)"

record job_summary =
  js_id :: string
  js_kind :: string
  js_queue :: string
  js_state :: string
  js_schema_version :: u32
  js_priority :: i32
  js_attempt :: u32
  js_crash_attempt :: u32
  js_max_attempts :: u32
  js_partition_key :: string
  js_rate_class :: string
  js_sticky_worker :: string
  js_weight :: u32
  js_fingerprint :: string
  js_enqueued_at_ms :: i64
  js_scheduled_at_ms :: i64
  js_claimed_at_ms :: "i64 option"
  js_periodic_schedule_id :: string
  js_periodic_tick_ms :: i64
  js_finalized_at_ms :: "i64 option"
  js_payload :: "bytes option"
  js_headers :: "(string \<times> string) list"
  js_errors_json :: string
  js_tags :: "string list"

record durable_event =
  de_event_id :: u64
  de_scope :: string
  de_topic :: string
  de_idempotency_key :: string
  de_payload :: bytes
  de_source :: bytes
  de_recorded_at_ms :: i64

record workflow_event =
  we_sequence :: u64
  we_event :: string
  we_node :: "string option"
  we_revision :: u64
  we_generation :: u32
  we_at_ms :: "i64 option"

record workflow_cursor =
  cu_revision :: u64
  cu_completed :: "string list"
  cu_completed_at_ms :: "string \<rightharpoonup> i64"
  cu_grafts :: "node_spec list"
  cu_pending_graft_receipt :: "string option"
  cu_generation :: u32
  cu_failed :: bool
  cu_pending_retry_receipt :: "string option"
  cu_automatic_retry_pending :: bool
  cu_events :: "workflow_event list"

definition cursor_default :: workflow_cursor where
  "cursor_default =
     \<lparr>cu_revision = 1, cu_completed = [], cu_completed_at_ms = Map.empty, cu_grafts = [],
      cu_pending_graft_receipt = None, cu_generation = 1, cu_failed = False,
      cu_pending_retry_receipt = None, cu_automatic_retry_pending = False, cu_events = []\<rparr>"

text \<open>The store and the job context, as the workflow crate sees them.\<close>

record 's coord =
  co_env :: wf_env
  enc_cursor :: "workflow_cursor \<Rightarrow> string + bytes"
  dec_cursor :: "bytes \<Rightarrow> string + workflow_cursor"
  get_job :: "string \<Rightarrow> bool \<Rightarrow> 's \<Rightarrow> job_summary option result"
  promote_job :: "string \<Rightarrow> 's \<Rightarrow> unit result \<times> 's"
  delete_job :: "string \<Rightarrow> 's \<Rightarrow> unit result \<times> 's"
  schedule_pending_job :: "string \<Rightarrow> i64 \<Rightarrow> 's \<Rightarrow> unit result \<times> 's"
  operator_retry :: "string \<Rightarrow> 's \<Rightarrow> unit result \<times> 's"
  operator_cancel :: "string \<Rightarrow> 's \<Rightarrow> unit result \<times> 's"
  quarantine_release :: "string \<Rightarrow> 's \<Rightarrow> u64 result \<times> 's"
  edit_payload :: "string \<Rightarrow> bytes \<Rightarrow> u32 \<Rightarrow> string \<Rightarrow> 's \<Rightarrow> unit result \<times> 's"
  enqueue_jobs :: "envelope list \<Rightarrow> 's \<Rightarrow> unit result \<times> 's"
  append_durable_event :: "durable_event \<Rightarrow> 's \<Rightarrow> (durable_event \<times> bool) result \<times> 's"
  get_job_checkpoint :: "(string \<Rightarrow> 's \<Rightarrow> checkpoint option result) option"
  get_job_output :: "(string \<Rightarrow> 's \<Rightarrow> job_output option result) option"
  ctx_queue :: string
  ctx_set_cursor :: "bytes \<Rightarrow> 's \<Rightarrow> (string + unit) \<times> 's"
  ctx_persist_output :: "u32 \<Rightarrow> bytes \<Rightarrow> 's \<Rightarrow> (string + unit) \<times> 's"
  mutation_order :: "(string \<times> bool) list \<Rightarrow> (string \<times> bool) list"

text \<open>Calls that may fail, in sequence; the question mark of the code.\<close>

type_synonym ('s, 'a) act = "'s \<Rightarrow> (wf_error + 'a) \<times> 's"

definition give :: "'a \<Rightarrow> ('s, 'a) act" where
  "give x s = (Inr x, s)"

definition give_up :: "wf_error \<Rightarrow> ('s, 'a) act" where
  "give_up e s = (Inl e, s)"

definition seq :: "('s, 'a) act \<Rightarrow> ('a \<Rightarrow> ('s, 'b) act) \<Rightarrow> ('s, 'b) act" where
  "seq m k s = (case m s of (Inl e, s') \<Rightarrow> (Inl e, s') | (Inr x, s') \<Rightarrow> k x s')"

definition of_sum :: "wf_error + 'a \<Rightarrow> ('s, 'a) act" where
  "of_sum r s = (r, s)"

definition call :: "('s \<Rightarrow> 'a result \<times> 's) \<Rightarrow> ('s, 'a) act" where
  "call f s = (case f s of (Inl e, s') \<Rightarrow> (Inl (WF (store_error_fmt e)), s') | (Inr x, s') \<Rightarrow> (Inr x, s'))"

definition query :: "('s \<Rightarrow> 'a result) \<Rightarrow> ('s, 'a) act" where
  "query f s = (case f s of Inl e \<Rightarrow> (Inl (WF (store_error_fmt e)), s) | Inr x \<Rightarrow> (Inr x, s))"

definition boxed :: "('s \<Rightarrow> (string + 'a) \<times> 's) \<Rightarrow> ('s, 'a) act" where
  "boxed f s = (case f s of (Inl e, s') \<Rightarrow> (Inl (WF e), s') | (Inr x, s') \<Rightarrow> (Inr x, s'))"

lemma act_simps [simp]:
  "give x s = (Inr x, s)"
  "give_up e s = (Inl e, s)"
  "of_sum r s = (r, s)"
  by (simp_all add: give_def give_up_def of_sum_def)

lemma seq_Inr: "seq m k s = (Inr y, s') \<longleftrightarrow> (\<exists>x s1. m s = (Inr x, s1) \<and> k x s1 = (Inr y, s'))"
  by (auto simp: seq_def split: prod.splits sum.splits)

lemma query_Inr: "query f s = (Inr x, s') \<longleftrightarrow> f s = Inr x \<and> s' = s"
  by (auto simp: query_def split: sum.splits)

lemma call_Inr: "call f s = (Inr x, s') \<longleftrightarrow> f s = (Inr x, s')"
  by (auto simp: call_def split: prod.splits sum.splits)

section \<open>History\<close>

definition MAX_WORKFLOW_EVENTS :: nat where "MAX_WORKFLOW_EVENTS = 256"

definition record_event ::
  "string \<Rightarrow> string option \<Rightarrow> i64 option \<Rightarrow> workflow_cursor \<Rightarrow> wf_error + workflow_cursor" where
  "record_event ev node at c =
     (let evs = cu_events c;
          sequence = (if evs = [] then 1 else saturating_add (we_sequence (last evs)) 1)
      in if sequence = - 1 \<and> evs \<noteq> [] then Inl (WF ''workflow event sequence overflow'')
         else let evs' = evs @ [\<lparr>we_sequence = sequence, we_event = ev, we_node = node,
                    we_revision = cu_revision c, we_generation = cu_generation c, we_at_ms = at\<rparr>]
              in Inr (c\<lparr>cu_events := drop (length evs' - MAX_WORKFLOW_EVENTS) evs'\<rparr>))"

definition persist_workflow_cursor :: "'s coord \<Rightarrow> workflow_cursor \<Rightarrow> ('s, unit) act" where
  "persist_workflow_cursor co c =
     seq (of_sum (map_sum WF id (enc_cursor co c))) (\<lambda>bytes.
     seq (boxed (ctx_set_cursor co bytes)) (\<lambda>_.
     seq (boxed (ctx_persist_output co 1 bytes)) (\<lambda>_. give ())))"

definition effective_workflow :: "coordinator_task \<Rightarrow> workflow_cursor \<Rightarrow> coordinator_task" where
  "effective_workflow base c = base\<lparr>ct_nodes := ct_nodes base @ cu_grafts c\<rparr>"

section \<open>Evidence\<close>

type_synonym job_states = "string \<rightharpoonup> job_summary"

definition virtual :: "node_type \<Rightarrow> bool" where
  "virtual k \<longleftrightarrow> k \<in> {NSignal, NTimer, NCondition}"

definition effective_state :: "node_spec \<Rightarrow> job_summary option \<Rightarrow> string set \<Rightarrow> string option" where
  "effective_state node job completed =
     (if ns_name node \<in> completed then Some ''completed''
      else let st = map_option js_state job
           in if virtual (ns_kind node) \<and> st = Some ''completed'' then Some ''pending'' else st)"

definition completed_set :: "coordinator_task \<Rightarrow> string list \<Rightarrow> string set" where
  "completed_set t names = set (filter (\<lambda>n. n \<in> set (map ns_name (ct_nodes t))) names)"

definition completed_names :: "coordinator_task \<Rightarrow> string set \<Rightarrow> string list" where
  "completed_names t completed = map ns_name (filter (\<lambda>n. ns_name n \<in> completed) (ct_nodes t))"

definition job_done :: "job_states \<Rightarrow> string \<Rightarrow> bool" where
  "job_done state n = (case state n of None \<Rightarrow> False | Some j \<Rightarrow> js_state j = ''completed'')"

definition finalized :: "job_states \<Rightarrow> string \<Rightarrow> i64 option" where
  "finalized state n = Option.bind (state n) js_finalized_at_ms"

type_synonym evidence = "bool \<times> string set \<times> (string \<rightharpoonup> i64)"

text \<open>The first loop: tasks and child links whose job has completed.\<close>

definition note_task :: "job_states \<Rightarrow> evidence \<Rightarrow> node_spec \<Rightarrow> evidence" where
  "note_task state = (\<lambda>(changed, completed, at) node.
     let n = ns_name node
     in if \<not> virtual (ns_kind node) \<and> job_done state n
        then let changed1 = (changed \<or> n \<notin> completed)
             in case finalized state n of
                  None \<Rightarrow> (changed1, insert n completed, at)
                | Some ms \<Rightarrow> (changed1 \<or> at n \<noteq> Some ms, insert n completed, at(n \<mapsto> ms))
        else (changed, completed, at))"

definition ripe :: "job_states \<Rightarrow> string set \<Rightarrow> node_spec list \<Rightarrow> string list" where
  "ripe state completed nodes =
     map ns_name (filter (\<lambda>node. virtual (ns_kind node) \<and> ns_name node \<notin> completed \<and>
       list_all (\<lambda>d. d \<in> completed) (ns_deps node) \<and> job_done state (ns_name node)) nodes)"

definition stamp :: "job_states \<Rightarrow> (string \<rightharpoonup> i64) \<Rightarrow> string \<Rightarrow> (string \<rightharpoonup> i64)" where
  "stamp state at n = (case finalized state n of None \<Rightarrow> at | Some ms \<Rightarrow> at(n \<mapsto> ms))"

text \<open>The second loop: signals, timers and conditions, once their dependencies are complete.\<close>

function evidence_loop :: "job_states \<Rightarrow> node_spec list \<Rightarrow> evidence \<Rightarrow> evidence" where
  "evidence_loop state nodes (changed, completed, at) =
     (let el = ripe state completed nodes
      in if el = [] then (changed, completed, at)
         else evidence_loop state nodes (True, completed \<union> set el, foldl (stamp state) at el))"
  by pat_completeness auto

definition open_nodes :: "node_spec list \<Rightarrow> string set \<Rightarrow> nat" where
  "open_nodes nodes completed = length (filter (\<lambda>n. ns_name n \<notin> completed) nodes)"

lemma open_nodes_less:
  assumes "n \<in> set nodes" "ns_name n \<notin> A" "ns_name n \<in> B" "A \<subseteq> B"
  shows "open_nodes nodes B < open_nodes nodes A"
proof -
  have "filter (\<lambda>n. ns_name n \<notin> B) nodes = filter (\<lambda>n. ns_name n \<notin> B) (filter (\<lambda>n. ns_name n \<notin> A) nodes)"
    using assms(4) by (auto intro: filter_cong)
  moreover have "length (filter (\<lambda>n. ns_name n \<notin> B) (filter (\<lambda>n. ns_name n \<notin> A) nodes))
      < length (filter (\<lambda>n. ns_name n \<notin> A) nodes)"
    using assms by (intro length_filter_less) auto
  ultimately show ?thesis by (simp add: open_nodes_def)
qed

termination evidence_loop
proof (relation "measure (\<lambda>(state, nodes, changed, completed, at). open_nodes nodes completed)")
  fix state nodes changed completed at el
  assume "el = ripe state completed nodes" "el \<noteq> []"
  then obtain n where "n \<in> set nodes" "ns_name n \<notin> completed" "ns_name n \<in> set el"
    by (auto simp: ripe_def filter_empty_conv)
  then have "open_nodes nodes (completed \<union> set el) < open_nodes nodes completed"
    by (intro open_nodes_less) auto
  then show "((state, nodes, True, completed \<union> set el, foldl (stamp state) at el), state, nodes, changed, completed, at)
      \<in> measure (\<lambda>(state, nodes, changed, completed, at). open_nodes nodes completed)" by simp
qed simp

declare evidence_loop.simps [simp del]

definition record_completion_evidence ::
  "coordinator_task \<Rightarrow> job_states \<Rightarrow> string set \<Rightarrow> (string \<rightharpoonup> i64) \<Rightarrow> evidence" where
  "record_completion_evidence t state completed at =
     evidence_loop state (ct_nodes t) (foldl (note_task state) (False, completed, at) (ct_nodes t))"

section \<open>Failure\<close>

definition dead_state :: "string option \<Rightarrow> bool" where
  "dead_state s \<longleftrightarrow> s \<in> {None, Some ''archived'', Some ''cancelled'', Some ''quarantined'', Some ''undecodable''}"

definition spread :: "node_spec list \<Rightarrow> string set \<Rightarrow> string set" where
  "spread nodes failed =
     foldl (\<lambda>f node. if list_ex (\<lambda>d. d \<in> f) (ns_deps node) then insert (ns_name node) f else f) failed nodes"

lemma spread_mono: "failed \<subseteq> spread nodes failed"
  unfolding spread_def by (induction nodes arbitrary: failed) (simp_all, blast)

lemma spread_names: "spread nodes failed \<subseteq> failed \<union> ns_name ` set nodes"
proof (induction nodes arbitrary: failed)
  case (Cons n nodes)
  let ?f = "if list_ex (\<lambda>d. d \<in> failed) (ns_deps n) then insert (ns_name n) failed else failed"
  have "spread (n # nodes) failed = spread nodes ?f" by (simp add: spread_def)
  with Cons.IH [of ?f] show ?case by auto
qed (simp add: spread_def)

function failed_loop :: "node_spec list \<Rightarrow> string set \<Rightarrow> string set" where
  "failed_loop nodes failed =
     (let f = spread nodes failed in if card f = card failed then f else failed_loop nodes f)"
  by pat_completeness auto

termination failed_loop
proof (relation "measure (\<lambda>(nodes, failed). open_nodes nodes failed)")
  fix nodes :: "node_spec list" and failed f
  assume f: "f = spread nodes failed" "card f \<noteq> card failed"
  then have "f \<noteq> failed" by auto
  with f(1) spread_mono [of failed nodes] obtain x where x: "x \<in> f" "x \<notin> failed" by blast
  moreover from x f(1) spread_names [of nodes failed] obtain n where "n \<in> set nodes" "ns_name n = x" by blast
  ultimately show "((nodes, f), nodes, failed) \<in> measure (\<lambda>(nodes, failed). open_nodes nodes failed)"
    using open_nodes_less [of n nodes failed f] spread_mono f(1) by simp
qed simp

declare failed_loop.simps [simp del]

definition failed_set :: "coordinator_task \<Rightarrow> job_states \<Rightarrow> string set \<Rightarrow> string set" where
  "failed_set t state completed =
     failed_loop (ct_nodes t)
       (set (map ns_name (filter (\<lambda>n. dead_state (effective_state n (state (ns_name n)) completed)) (ct_nodes t))))"

section \<open>The tick\<close>

datatype tick = Waiting | Succeeded | Failed

text \<open>A dependency that is no node is a panic; the validation rules it out.\<close>

fun dependencies_complete ::
  "node_spec list \<Rightarrow> job_states \<Rightarrow> string set \<Rightarrow> string list \<Rightarrow> wf_error + bool" where
  "dependencies_complete nodes state completed [] = Inr True"
| "dependencies_complete nodes state completed (dep # deps) =
     (case find (\<lambda>n. ns_name n = dep) nodes of
        None \<Rightarrow> Inl Stuck
      | Some upstream \<Rightarrow>
          if effective_state upstream (state dep) completed = Some ''completed''
          then dependencies_complete nodes state completed deps else Inr False)"

fun completion_anchor ::
  "string \<Rightarrow> (string \<rightharpoonup> i64) \<Rightarrow> i64 option \<Rightarrow> string list \<Rightarrow> wf_error + i64" where
  "completion_anchor n at None [] =
     Inl (WF (''relative workflow timer `'' @ n @ ''` requires at least one dependency''))"
| "completion_anchor n at (Some a) [] = Inr a"
| "completion_anchor n at anchor (dep # deps) =
     (case at dep of
        None \<Rightarrow> Inl (WF (''workflow timer `'' @ n @ ''` has no durable completion timestamp for `'' @ dep @ ''`''))
      | Some ms \<Rightarrow> completion_anchor n at (Some (case anchor of None \<Rightarrow> ms | Some a \<Rightarrow> max a ms)) deps)"

definition dependency_completion_anchor :: "node_spec \<Rightarrow> (string \<rightharpoonup> i64) \<Rightarrow> wf_error + i64" where
  "dependency_completion_anchor node at = completion_anchor (ns_name node) at None (ns_deps node)"

definition condition_context ::
  "workflow_cursor \<Rightarrow> coordinator_task \<Rightarrow> job_states \<Rightarrow> string set \<Rightarrow> cel_context" where
  "condition_context c t state completed =
     \<lparr>cel_revision = cu_revision c, cel_generation = ucast (cu_generation c),
      cel_states = map_of (rev (map (\<lambda>n. (ns_name n,
        case effective_state n (state (ns_name n)) completed of None \<Rightarrow> ''missing'' | Some s \<Rightarrow> s)) (ct_nodes t))),
      cel_completed = map_of (rev (map (\<lambda>n. (ns_name n, ns_name n \<in> completed)) (ct_nodes t)))\<rparr>"

definition evaluate_condition ::
  "wf_env \<Rightarrow> node_spec \<Rightarrow> workflow_cursor \<Rightarrow> coordinator_task \<Rightarrow> job_states \<Rightarrow> string set \<Rightarrow> wf_error + bool" where
  "evaluate_condition env node c t state completed =
     (let n = ns_name node
      in case ns_condition node of
        None \<Rightarrow> Inl (WF (''workflow condition `'' @ n @ ''` has no expression''))
      | Some expr \<Rightarrow>
          (case cel_compile env expr of
             Some m \<Rightarrow> Inl (WF (''invalid workflow CEL condition `'' @ n @ ''`: '' @ m))
           | None \<Rightarrow>
               (case cel_execute env expr (condition_context c t state completed) of
                  Inl m \<Rightarrow> Inl (WF (''workflow CEL condition `'' @ n @ ''` failed: '' @ m))
                | Inr (CelBool b) \<Rightarrow> Inr b
                | Inr CelOther \<Rightarrow> Inl (WF (''workflow CEL condition `'' @ n @ ''` must return bool'')))))"

text \<open>
  One node of the scan: nothing, a mutation (the job, and whether it is deleted rather than
  promoted), or a timer's deadline, which ends the scan.
\<close>

datatype verdict = Leave | Mutate string bool | Wake string i64

definition judge ::
  "wf_env \<Rightarrow> coordinator_task \<Rightarrow> workflow_cursor \<Rightarrow> job_states \<Rightarrow> string set \<Rightarrow> string set \<Rightarrow> node_spec
    \<Rightarrow> wf_error + verdict" where
  "judge env t c state completed failed node =
     (let current = effective_state node (state (ns_name node)) completed;
          waiting = dependencies_complete (ct_nodes t) state completed (ns_deps node)
      in if ns_name node \<in> failed
         then Inr (if \<not> ct_failed_subgraph_retry t \<and>
                      current \<in> {Some ''pending'', Some ''scheduled'', Some ''available'', Some ''retryable''}
                   then Mutate (ns_job_id node) True else Leave)
         else if current \<noteq> Some ''pending'' then Inr Leave
         else case ns_kind node of
             NTask \<Rightarrow> map_sum id (\<lambda>b. if b then Mutate (ns_job_id node) False else Leave) waiting
           | NChildWorkflow \<Rightarrow> map_sum id (\<lambda>b. if b then Mutate (ns_job_id node) False else Leave) waiting
           | NCondition \<Rightarrow>
               (case waiting of
                  Inl e \<Rightarrow> Inl e
                | Inr b \<Rightarrow>
                    if b then map_sum id (\<lambda>v. if v then Mutate (ns_job_id node) False else Leave)
                                (evaluate_condition env node c t state completed)
                    else Inr Leave)
           | NTimer \<Rightarrow>
               (case ns_delay_ms node of
                  None \<Rightarrow> Inr Leave
                | Some delay \<Rightarrow>
                    (case waiting of
                       Inl e \<Rightarrow> Inl e
                     | Inr b \<Rightarrow>
                         if \<not> b then Inr Leave
                         else case dependency_completion_anchor node (cu_completed_at_ms c) of
                                Inl e \<Rightarrow> Inl e
                              | Inr anchor \<Rightarrow>
                                  (case checked_add_i64 anchor delay of
                                     None \<Rightarrow> Inl (WF (''workflow timer `'' @ ns_name node @ ''` deadline overflow''))
                                   | Some wake \<Rightarrow> Inr (Wake (ns_job_id node) wake))))
           | NSignal \<Rightarrow> Inr Leave)"

datatype plan = Mutations "(string \<times> bool) list" | Deadline string i64

fun scan_nodes :: "(node_spec \<Rightarrow> wf_error + verdict) \<Rightarrow> (string \<times> bool) list \<Rightarrow> node_spec list \<Rightarrow> wf_error + plan" where
  "scan_nodes j ms [] = Inr (Mutations ms)"
| "scan_nodes j ms (node # nodes) =
     (case j node of
        Inl e \<Rightarrow> Inl e
      | Inr Leave \<Rightarrow> scan_nodes j ms nodes
      | Inr (Mutate i d) \<Rightarrow> scan_nodes j (ms @ [(i, d)]) nodes
      | Inr (Wake i at) \<Rightarrow> Inr (Deadline i at))"

fun final_verdict :: "(node_spec \<Rightarrow> string option) \<Rightarrow> string set \<Rightarrow> bool \<Rightarrow> node_spec list \<Rightarrow> tick" where
  "final_verdict st failed f [] = (if f then Failed else Succeeded)"
| "final_verdict st failed f (node # nodes) =
     (if ns_name node \<in> failed then final_verdict st failed True nodes
      else if st node = Some ''completed'' then final_verdict st failed f nodes
      else if dead_state (st node) then final_verdict st failed True nodes
      else Waiting)"

fun read_jobs :: "'s coord \<Rightarrow> node_spec list \<Rightarrow> ('s, job_states) act" where
  "read_jobs co [] = give Map.empty"
| "read_jobs co (node # nodes) =
     seq (query (get_job co (ns_job_id node) False)) (\<lambda>job.
     seq (read_jobs co nodes) (\<lambda>state. give (state(ns_name node := job))))"

fun run_mutations :: "'s coord \<Rightarrow> (string \<times> bool) list \<Rightarrow> ('s, unit) act" where
  "run_mutations co [] = give ()"
| "run_mutations co ((i, delete) # ms) =
     seq (call (if delete then delete_job co i else promote_job co i)) (\<lambda>_. run_mutations co ms)"

fun note_completed :: "string set \<Rightarrow> string set \<Rightarrow> node_spec list \<Rightarrow> workflow_cursor \<Rightarrow> wf_error + workflow_cursor" where
  "note_completed before completed [] c = Inr c"
| "note_completed before completed (node # nodes) c =
     (if ns_name node \<notin> before \<and> ns_name node \<in> completed
      then case record_event ''node_completed'' (Some (ns_name node)) (cu_completed_at_ms c (ns_name node)) c of
             Inl e \<Rightarrow> Inl e
           | Inr c' \<Rightarrow> note_completed before completed nodes c'
      else note_completed before completed nodes c)"

text \<open>The part of the tick that gathers and persists the evidence.\<close>

definition gather ::
  "'s coord \<Rightarrow> coordinator_task \<Rightarrow> bool \<Rightarrow> workflow_cursor \<Rightarrow> ('s, job_states \<times> string set \<times> workflow_cursor) act" where
  "gather co t persist c =
     (let before = completed_set t (cu_completed c)
      in seq (read_jobs co (ct_nodes t)) (\<lambda>state.
         case record_completion_evidence t state before (cu_completed_at_ms c) of
           (changed, completed, at) \<Rightarrow>
             seq (of_sum (note_completed before completed (ct_nodes t) (c\<lparr>cu_completed_at_ms := at\<rparr>))) (\<lambda>c1.
               if changed \<and> persist
               then let c2 = c1\<lparr>cu_completed := completed_names t completed\<rparr>
                    in seq (persist_workflow_cursor co c2) (\<lambda>_. give (state, completed, c2))
               else give (state, completed, c1))))"

definition tick_with_evidence ::
  "'s coord \<Rightarrow> coordinator_task \<Rightarrow> bool \<Rightarrow> workflow_cursor \<Rightarrow> ('s, tick \<times> workflow_cursor) act" where
  "tick_with_evidence co t persist c =
     seq (of_sum (validate_coordinator (co_env co) t)) (\<lambda>_.
     seq (gather co t persist c) (\<lambda>(state, completed, c1).
       let failed = failed_set t state completed
       in seq (of_sum (scan_nodes (judge (co_env co) t c1 state completed failed) [] (ct_nodes t))) (\<lambda>p.
          case p of
            Deadline i wake \<Rightarrow> seq (call (schedule_pending_job co i wake)) (\<lambda>_. give (Waiting, c1))
          | Mutations ms \<Rightarrow>
              if ms \<noteq> [] then seq (run_mutations co (mutation_order co ms)) (\<lambda>_. give (Waiting, c1))
              else give (final_verdict (\<lambda>n. effective_state n (state (ns_name n)) completed) failed False (ct_nodes t), c1))))"

section \<open>What the loops compute\<close>

definition dep_rel :: "node_spec list \<Rightarrow> (string \<times> string) set" where
  "dep_rel nodes = {(d, ns_name n) | d n. n \<in> set nodes \<and> d \<in> set (ns_deps n)}"

definition downstream :: "node_spec list \<Rightarrow> string set \<Rightarrow> string set" where
  "downstream nodes A = {n. \<exists>m \<in> A. (m, n) \<in> (dep_rel nodes)\<^sup>*}"

lemma downstream_refl: "A \<subseteq> downstream nodes A"
  by (auto simp: downstream_def)

lemma downstream_mono: "A \<subseteq> B \<Longrightarrow> downstream nodes A \<subseteq> downstream nodes B"
  by (auto simp: downstream_def)

lemma downstream_idem: "downstream nodes (downstream nodes A) = downstream nodes A"
  by (auto simp: downstream_def intro: rtrancl_trans)

lemma downstream_closed:
  assumes "\<And>n d. n \<in> set nodes \<Longrightarrow> d \<in> set (ns_deps n) \<Longrightarrow> d \<in> A \<Longrightarrow> ns_name n \<in> A"
  shows "downstream nodes A = A"
proof -
  have "n \<in> A" if "(m, n) \<in> (dep_rel nodes)\<^sup>*" "m \<in> A" for m n
    using that by (induction rule: rtrancl_induct) (auto simp: dep_rel_def intro: assms)
  then show ?thesis by (auto simp: downstream_def)
qed

lemma spread_step:
  assumes "n \<in> set nodes" "d \<in> set (ns_deps n)" "d \<in> failed"
  shows "ns_name n \<in> spread nodes failed"
  using assms
proof (induction nodes arbitrary: failed)
  case (Cons m nodes)
  let ?f = "if list_ex (\<lambda>d. d \<in> failed) (ns_deps m) then insert (ns_name m) failed else failed"
  have s: "spread (m # nodes) failed = spread nodes ?f" by (simp add: spread_def)
  show ?case
  proof (cases "n = m")
    case True
    then have "ns_name n \<in> ?f" using Cons.prems by (auto simp: list_ex_iff)
    then show ?thesis using spread_mono [of ?f nodes] s by auto
  next
    case False
    then have "ns_name n \<in> spread nodes ?f" using Cons.IH [of ?f] Cons.prems by auto
    then show ?thesis using s by simp
  qed
qed simp

lemma spread_downstream: "set nodes \<subseteq> set all \<Longrightarrow> spread nodes failed \<subseteq> downstream all failed"
proof (induction nodes arbitrary: failed)
  case (Cons m nodes)
  let ?f = "if list_ex (\<lambda>d. d \<in> failed) (ns_deps m) then insert (ns_name m) failed else failed"
  have f: "?f \<subseteq> downstream all failed"
  proof (cases "list_ex (\<lambda>d. d \<in> failed) (ns_deps m)")
    case True
    then obtain d where d: "d \<in> set (ns_deps m)" "d \<in> failed" by (auto simp: list_ex_iff)
    with Cons.prems have "(d, ns_name m) \<in> dep_rel all" by (auto simp: dep_rel_def)
    with d True show ?thesis using downstream_refl [of failed all] by (auto simp: downstream_def)
  qed (use downstream_refl in auto)
  have "spread (m # nodes) failed \<subseteq> downstream all ?f"
    using Cons.IH [of ?f] Cons.prems by (simp add: spread_def)
  also have "\<dots> \<subseteq> downstream all (downstream all failed)" by (rule downstream_mono [OF f])
  finally show ?case by (simp add: downstream_idem)
qed (use downstream_refl in \<open>simp add: spread_def\<close>)

lemma failed_loop_downstream: "finite failed \<Longrightarrow> failed_loop nodes failed = downstream nodes failed"
proof (induction nodes failed rule: failed_loop.induct)
  case (1 nodes failed)
  let ?f = "spread nodes failed"
  have fin: "finite ?f" by (rule finite_subset [OF spread_names]) (use 1(2) in simp)
  show ?case
  proof (cases "card ?f = card failed")
    case True
    then have eq: "?f = failed" using card_subset_eq [OF fin spread_mono] by auto
    then have "downstream nodes failed = failed" using spread_step [of _ nodes _ failed] by (intro downstream_closed) auto
    with True eq show ?thesis by (subst failed_loop.simps) (simp add: Let_def)
  next
    case False
    then have "failed_loop nodes failed = downstream nodes ?f"
      using 1(1) [OF refl] fin by (subst failed_loop.simps) (simp add: Let_def)
    moreover have "downstream nodes ?f = downstream nodes failed"
      using spread_mono [of failed nodes] spread_downstream [of nodes nodes failed]
        downstream_mono [of failed ?f nodes] downstream_mono [of ?f "downstream nodes failed" nodes]
      by (auto simp: downstream_idem)
    ultimately show ?thesis by simp
  qed
qed

text \<open>The evidence as a least set: what is known, completed tasks, and completed signals, timers and
  conditions whose dependencies are evident.\<close>

inductive evident :: "job_states \<Rightarrow> node_spec list \<Rightarrow> string set \<Rightarrow> string \<Rightarrow> bool"
  for state nodes known where
  evident_known: "n \<in> known \<Longrightarrow> evident state nodes known n"
| evident_task: "node \<in> set nodes \<Longrightarrow> \<not> virtual (ns_kind node) \<Longrightarrow> job_done state (ns_name node) \<Longrightarrow>
    evident state nodes known (ns_name node)"
| evident_virtual: "node \<in> set nodes \<Longrightarrow> virtual (ns_kind node) \<Longrightarrow> job_done state (ns_name node) \<Longrightarrow>
    (\<And>d. d \<in> set (ns_deps node) \<Longrightarrow> evident state nodes known d) \<Longrightarrow> evident state nodes known (ns_name node)"

lemma foldl_note_task:
  "foldl (note_task state) (ch, completed, at) nodes = (ch', completed', at') \<Longrightarrow>
   completed' = completed \<union> {ns_name n | n. n \<in> set nodes \<and> \<not> virtual (ns_kind n) \<and> job_done state (ns_name n)}"
proof (induction nodes arbitrary: ch completed at)
  case (Cons n nodes)
  obtain ch1 c1 at1 where n: "note_task state (ch, completed, at) n = (ch1, c1, at1)" by (metis prod_cases3)
  then have c1: "c1 = (if \<not> virtual (ns_kind n) \<and> job_done state (ns_name n) then insert (ns_name n) completed else completed)"
    by (auto simp: note_task_def Let_def split: if_splits option.splits)
  from Cons.IH [of ch1 c1 at1] Cons.prems n have
    "completed' = c1 \<union> {ns_name n | n. n \<in> set nodes \<and> \<not> virtual (ns_kind n) \<and> job_done state (ns_name n)}"
    by simp
  then show ?case unfolding c1 by auto
qed simp

lemma evidence_loop_sound:
  assumes "\<forall>n \<in> completed. evident state nodes known n"
    and "evidence_loop state nodes (ch, completed, at) = (ch', completed', at')"
  shows "\<forall>n \<in> completed'. evident state nodes known n"
  using assms
proof (induction state nodes "(ch, completed, at)" arbitrary: ch completed at rule: evidence_loop.induct)
  case (1 state nodes ch completed at)
  let ?el = "ripe state completed nodes"
  show ?case
  proof (cases "?el = []")
    case True
    with 1(2,3) show ?thesis by (simp add: evidence_loop.simps)
  next
    case False
    have "evident state nodes known n" if "n \<in> set ?el" for n
      using that 1(2) by (auto simp: ripe_def list_all_iff intro!: evident_virtual)
    with 1(2) have "\<forall>n \<in> completed \<union> set ?el. evident state nodes known n" by auto
    moreover have "evidence_loop state nodes (True, completed \<union> set ?el, foldl (stamp state) at ?el) = (ch', completed', at')"
      using 1(3) False by (subst (asm) evidence_loop.simps) (simp add: Let_def)
    ultimately show ?thesis using 1(1) [OF refl False] by blast
  qed
qed

lemma evidence_loop_complete:
  assumes "evidence_loop state nodes (ch, completed, at) = (ch', completed', at')"
  shows "completed \<subseteq> completed' \<and> ripe state completed' nodes = []"
  using assms
proof (induction state nodes "(ch, completed, at)" arbitrary: ch completed at rule: evidence_loop.induct)
  case (1 state nodes ch completed at)
  let ?el = "ripe state completed nodes"
  show ?case
  proof (cases "?el = []")
    case True
    with 1(2) show ?thesis by (simp add: evidence_loop.simps)
  next
    case False
    have "evidence_loop state nodes (True, completed \<union> set ?el, foldl (stamp state) at ?el) = (ch', completed', at')"
      using 1(2) False by (subst (asm) evidence_loop.simps) (simp add: Let_def)
    with 1(1) [OF refl False] show ?thesis by blast
  qed
qed

lemma completion_evidence:
  assumes "record_completion_evidence t state known at = (ch, completed, at')"
  shows "completed = {n. evident state (ct_nodes t) known n}"
proof -
  obtain ch1 c1 at1 where f: "foldl (note_task state) (False, known, at) (ct_nodes t) = (ch1, c1, at1)"
    by (metis prod_cases3)
  note c1 = foldl_note_task [OF f]
  from assms f have l: "evidence_loop state (ct_nodes t) (ch1, c1, at1) = (ch, completed, at')"
    by (simp add: record_completion_evidence_def)
  have "\<forall>n \<in> c1. evident state (ct_nodes t) known n" unfolding c1 by (auto intro: evident_known evident_task)
  from evidence_loop_sound [OF this l] have 1: "completed \<subseteq> {n. evident state (ct_nodes t) known n}" by auto
  from evidence_loop_complete [OF l] have sub: "c1 \<subseteq> completed" and el: "ripe state completed (ct_nodes t) = []"
    by auto
  have "n \<in> completed" if "evident state (ct_nodes t) known n" for n
    using that
  proof induction
    case (evident_virtual node)
    with el show ?case by (auto simp: ripe_def filter_empty_conv list_all_iff)
  qed (use sub c1 in auto)
  with 1 show ?thesis by auto
qed

section \<open>The tick on a valid graph\<close>

lemma effective_completed:
  assumes "node \<in> set nodes" "completed = {n. evident state nodes known n}"
  shows "effective_state node (state (ns_name node)) completed = Some ''completed'' \<longleftrightarrow> ns_name node \<in> completed"
proof -
  have "ns_name node \<in> completed" if "\<not> virtual (ns_kind node)" "job_done state (ns_name node)"
    using that assms by (auto intro: evident_task)
  then show ?thesis
    by (auto simp: effective_state_def Let_def job_done_def split: if_splits option.splits)
qed

lemma dependencies_complete_eq:
  assumes "set deps \<subseteq> ns_name ` set nodes" "completed = {n. evident state nodes known n}"
  shows "dependencies_complete nodes state completed deps = Inr (set deps \<subseteq> completed)"
  using assms(1)
proof (induction deps)
  case (Cons d deps)
  then obtain up where up: "find (\<lambda>n. ns_name n = d) nodes = Some up"
    by (cases "find (\<lambda>n. ns_name n = d) nodes") (auto simp: find_None_iff)
  then have "up \<in> set nodes" "ns_name up = d" by (auto simp: find_Some_iff)
  with effective_completed [OF _ assms(2), of up] up Cons show ?case by auto
qed simp

definition awaits :: "wf_env \<Rightarrow> coordinator_task \<Rightarrow> workflow_cursor \<Rightarrow> job_states \<Rightarrow> string set \<Rightarrow> node_spec \<Rightarrow> bool" where
  "awaits env t c state completed n \<longleftrightarrow>
     set (ns_deps n) \<subseteq> completed \<and> ns_name n \<notin> completed \<and>
     (let st = effective_state n (state (ns_name n)) completed
      in \<not> dead_state st \<and>
         (st \<noteq> Some ''pending'' \<or> ns_kind n = NSignal \<or> (ns_kind n = NTimer \<and> ns_delay_ms n = None) \<or>
          (ns_kind n = NCondition \<and> evaluate_condition env n c t state completed = Inr False)))"

lemma judge_Leave:
  assumes "judge env t c state completed failed n = Inr Leave" "ns_name n \<notin> failed"
    and "set (ns_deps n) \<subseteq> ns_name ` set (ct_nodes t)" "completed = {m. evident state (ct_nodes t) known m}"
    and "set (ns_deps n) \<subseteq> completed" "ns_name n \<notin> completed"
    and "\<not> dead_state (effective_state n (state (ns_name n)) completed)"
  shows "awaits env t c state completed n"
  using assms(1,2,5-7) dependencies_complete_eq [OF assms(3,4)]
  by (auto simp: judge_def awaits_def Let_def map_sum_Inr_iff
      split: if_splits node_type.splits sum.splits option.splits)

lemma scan_nodes_mono: "scan_nodes j ms nodes = Inr (Mutations ms') \<Longrightarrow> set ms \<subseteq> set ms'"
  by (induction j ms nodes rule: scan_nodes.induct) (auto split: sum.splits verdict.splits)

lemma scan_nodes_idle:
  assumes "scan_nodes j ms nodes = Inr (Mutations [])"
  shows "\<forall>n \<in> set nodes. j n = Inr Leave"
  using assms
proof (induction nodes arbitrary: ms)
  case (Cons n nodes)
  then show ?case
  proof (cases "j n")
    case (Inr v)
    with Cons show ?thesis by (cases v) (auto dest: scan_nodes_mono)
  qed simp
qed simp

lemma scan_nodes_all_leave: "\<forall>n \<in> set nodes. j n = Inr Leave \<Longrightarrow> scan_nodes j ms nodes = Inr (Mutations ms)"
  by (induction nodes) auto

lemma final_verdict_Waiting:
  "final_verdict st failed f nodes = Waiting \<longleftrightarrow>
     (\<exists>n \<in> set nodes. ns_name n \<notin> failed \<and> st n \<noteq> Some ''completed'' \<and> \<not> dead_state (st n))"
  by (induction nodes arbitrary: f) auto

lemma final_verdict_Succeeded:
  "final_verdict st failed f nodes = Succeeded \<longleftrightarrow>
     \<not> f \<and> (\<forall>n \<in> set nodes. ns_name n \<notin> failed \<and> st n = Some ''completed'')"
  by (induction nodes arbitrary: f) auto

lemma failed_set_downstream:
  "failed_set t state completed =
     downstream (ct_nodes t) {ns_name n | n. n \<in> set (ct_nodes t) \<and>
       dead_state (effective_state n (state (ns_name n)) completed)}"
  unfolding failed_set_def by (subst failed_loop_downstream) (auto simp: downstream_def)

lemma failed_dep:
  assumes "n \<in> set (ct_nodes t)" "d \<in> set (ns_deps n)" "d \<in> failed_set t state completed"
  shows "ns_name n \<in> failed_set t state completed"
  using assms unfolding failed_set_downstream downstream_def dep_rel_def
  by (auto intro: rtrancl_into_rtrancl)

lemma first_unfinished:
  assumes "dag ns_name ns_deps (ct_nodes t)" "n \<in> set (ct_nodes t)" "ns_name n \<notin> failed_set t state completed"
    and "ns_name n \<notin> completed"
  shows "\<exists>m \<in> set (ct_nodes t). ns_name m \<notin> failed_set t state completed \<and> ns_name m \<notin> completed \<and>
    set (ns_deps m) \<subseteq> completed"
proof -
  let ?Q = "{ns_name m | m. m \<in> set (ct_nodes t) \<and> ns_name m \<notin> failed_set t state completed \<and> ns_name m \<notin> completed}"
  let ?E = "{(d, ns_name n) | d n. n \<in> set (ct_nodes t) \<and> d \<in> set (ns_deps n)}"
  have "finite ?E" unfolding set_edge_list [symmetric] by simp
  with assms(1) have "wf ?E" by (simp add: dag_def finite_acyclic_wf)
  moreover have "ns_name n \<in> ?Q" using assms by auto
  ultimately obtain z where z: "z \<in> ?Q" "\<forall>y. (y, z) \<in> ?E \<longrightarrow> y \<notin> ?Q"
    by (rule wfE_min [where Q = ?Q]) (rule that, assumption, blast)
  then obtain m where m: "m \<in> set (ct_nodes t)" "ns_name m = z" "z \<notin> failed_set t state completed" "z \<notin> completed"
    by auto
  have "d \<in> completed" if d: "d \<in> set (ns_deps m)" for d
  proof -
    from d m z(2) have "d \<notin> ?Q" by auto
    moreover from assms(1) m(1) d obtain k where "k \<in> set (ct_nodes t)" "ns_name k = d"
      by (auto simp: dag_def deps_ok_def)
    moreover have "d \<notin> failed_set t state completed" using failed_dep [OF m(1) d] m by auto
    ultimately show ?thesis by auto
  qed
  with m show ?thesis by blast
qed

lemma gather_completed:
  assumes "gather co t persist c s = (Inr (state, completed, c1), s1)"
  shows "completed = {n. evident state (ct_nodes t) (completed_set t (cu_completed c)) n}"
proof -
  let ?known = "completed_set t (cu_completed c)"
  from assms obtain st s0 where "read_jobs co (ct_nodes t) s = (Inr st, s0)"
    and rest: "(case record_completion_evidence t st ?known (cu_completed_at_ms c) of
        (changed, completed, at) \<Rightarrow>
          seq (of_sum (note_completed ?known completed (ct_nodes t) (c\<lparr>cu_completed_at_ms := at\<rparr>))) (\<lambda>c1.
            if changed \<and> persist
            then let c2 = c1\<lparr>cu_completed := completed_names t completed\<rparr>
                 in seq (persist_workflow_cursor co c2) (\<lambda>_. give (st, completed, c2))
            else give (st, completed, c1))) s0 = (Inr (state, completed, c1), s1)"
    unfolding gather_def Let_def seq_Inr by blast
  obtain ch comp at where e: "record_completion_evidence t st ?known (cu_completed_at_ms c) = (ch, comp, at)"
    by (metis prod_cases3)
  from rest have "st = state" "comp = completed"
    by (auto simp: e seq_Inr Let_def split: if_splits)
  with completion_evidence [OF e] show ?thesis by simp
qed

lemma tick_cases:
  assumes "tick_with_evidence co t persist c s = (Inr (r, c'), s')"
  obtains state completed c1 s1 p where "validate_coordinator (co_env co) t = Inr ()"
    "gather co t persist c s = (Inr (state, completed, c1), s1)" "c' = c1"
    "scan_nodes (judge (co_env co) t c1 state completed (failed_set t state completed)) [] (ct_nodes t) = Inr p"
    "case p of
       Deadline i wake \<Rightarrow> r = Waiting \<and> schedule_pending_job co i wake s1 = (Inr (), s')
     | Mutations ms \<Rightarrow>
         if ms \<noteq> [] then r = Waiting \<and> run_mutations co (mutation_order co ms) s1 = (Inr (), s')
         else r = final_verdict (\<lambda>n. effective_state n (state (ns_name n)) completed) (failed_set t state completed)
                False (ct_nodes t) \<and> s' = s1"
proof -
  from assms obtain g s1 where v: "validate_coordinator (co_env co) t = Inr ()"
    and g: "gather co t persist c s = (Inr g, s1)"
    and rest: "(\<lambda>(state, completed, c1).
       let failed = failed_set t state completed
       in seq (of_sum (scan_nodes (judge (co_env co) t c1 state completed failed) [] (ct_nodes t))) (\<lambda>p.
          case p of
            Deadline i wake \<Rightarrow> seq (call (schedule_pending_job co i wake)) (\<lambda>_. give (Waiting, c1))
          | Mutations ms \<Rightarrow>
              if ms \<noteq> [] then seq (run_mutations co (mutation_order co ms)) (\<lambda>_. give (Waiting, c1))
              else give (final_verdict (\<lambda>n. effective_state n (state (ns_name n)) completed) failed False (ct_nodes t), c1)))
       g s1 = (Inr (r, c'), s')"
    unfolding tick_with_evidence_def seq_Inr by (auto simp: of_sum_def)
  obtain state completed c1 where gg: "g = (state, completed, c1)" by (cases g)
  from rest obtain p where p: "scan_nodes (judge (co_env co) t c1 state completed (failed_set t state completed)) [] (ct_nodes t) = Inr p"
    and k: "(case p of
            Deadline i wake \<Rightarrow> seq (call (schedule_pending_job co i wake)) (\<lambda>_. give (Waiting, c1))
          | Mutations ms \<Rightarrow>
              if ms \<noteq> [] then seq (run_mutations co (mutation_order co ms)) (\<lambda>_. give (Waiting, c1))
              else give (final_verdict (\<lambda>n. effective_state n (state (ns_name n)) completed)
                (failed_set t state completed) False (ct_nodes t), c1)) s1 = (Inr (r, c'), s')"
    unfolding gg prod.case Let_def seq_Inr by (auto simp: of_sum_def)
  show thesis
    by (rule that [OF v g [unfolded gg] _ p])
      (use k in \<open>auto simp: seq_Inr call_Inr split: plan.splits if_splits\<close>)
qed

lemma dead_failed:
  assumes "n \<in> set (ct_nodes t)" "dead_state (effective_state n (state (ns_name n)) completed)"
  shows "ns_name n \<in> failed_set t state completed"
  using assms unfolding failed_set_downstream downstream_def by blast

lemma complete_no_failure:
  assumes "ns_name ` set (ct_nodes t) \<subseteq> completed" "completed = {n. evident state (ct_nodes t) known n}"
  shows "failed_set t state completed = {}"
proof -
  have "effective_state n (state (ns_name n)) completed = Some ''completed''" if "n \<in> set (ct_nodes t)" for n
    using effective_completed [OF that assms(2)] that assms(1) by auto
  then show ?thesis unfolding failed_set_downstream downstream_def by (auto simp: dead_state_def)
qed

lemma complete_leaves:
  assumes "ns_name ` set (ct_nodes t) \<subseteq> completed" "completed = {n. evident state (ct_nodes t) known n}"
    and "n \<in> set (ct_nodes t)"
  shows "judge env t c state completed (failed_set t state completed) n = Inr Leave"
  using effective_completed [OF assms(3,2)] assms(1,3) complete_no_failure [OF assms(1,2)]
  by (auto simp: judge_def Let_def)

lemma idle_awaits:
  assumes "dag ns_name ns_deps (ct_nodes t)" "completed = {m. evident state (ct_nodes t) known m}"
    and "\<forall>m \<in> set (ct_nodes t). judge env t c state completed (failed_set t state completed) m = Inr Leave"
    and "n \<in> set (ct_nodes t)" "ns_name n \<notin> failed_set t state completed" "ns_name n \<notin> completed"
  shows "\<exists>m \<in> set (ct_nodes t). ns_name m \<notin> failed_set t state completed \<and> awaits env t c state completed m"
proof -
  from first_unfinished [OF assms(1,4-6)] obtain m where m: "m \<in> set (ct_nodes t)"
    "ns_name m \<notin> failed_set t state completed" "ns_name m \<notin> completed" "set (ns_deps m) \<subseteq> completed" by blast
  moreover have "set (ns_deps m) \<subseteq> ns_name ` set (ct_nodes t)" using assms(1) m(1) by (auto simp: dag_def deps_ok_def)
  ultimately have "awaits env t c state completed m"
    using assms(3) dead_failed judge_Leave [OF _ m(2) _ assms(2)] by blast
  with m show ?thesis by blast
qed

section \<open>Properties\<close>

text \<open>C32. The two loops of a tick end and compute what they mean: the evidence is the least set that
  holds what the cursor knows, every task and child link whose job has completed, and every
  signal, timer and condition whose job has completed and whose dependencies are all in it; and
  the failed nodes are exactly those that are dead themselves or depend, however indirectly, on one
  that is.\<close>

theorem evidence_and_failure_exact:
  "fst (snd (record_completion_evidence t state known at)) = {n. evident state (ct_nodes t) known n} \<and>
   failed_set t state completed =
     {n. \<exists>m \<in> set (ct_nodes t). dead_state (effective_state m (state (ns_name m)) completed) \<and>
        (ns_name m, n) \<in> {(d, ns_name k) | d k. k \<in> set (ct_nodes t) \<and> d \<in> set (ns_deps k)}\<^sup>*}"
proof
  show "fst (snd (record_completion_evidence t state known at)) = {n. evident state (ct_nodes t) known n}"
    using completion_evidence [of t state known at] by (metis prod.collapse)
  show "failed_set t state completed =
     {n. \<exists>m \<in> set (ct_nodes t). dead_state (effective_state m (state (ns_name m)) completed) \<and>
        (ns_name m, n) \<in> {(d, ns_name k) | d k. k \<in> set (ct_nodes t) \<and> d \<in> set (ns_deps k)}\<^sup>*}"
    unfolding failed_set_downstream downstream_def dep_rel_def by blast
qed

text \<open>What a tick that returns has found, and what it did when it found nothing to do.\<close>

lemma tick_verdict:
  assumes "hash_ok (co_env co)" "tick_with_evidence co t persist c s = (Inr (r, c'), s')"
    and "gather co t persist c s = (Inr (state, completed, c1), s1)"
    and "failed = failed_set t state completed"
  shows "(r = Succeeded \<longleftrightarrow> ns_name ` set (ct_nodes t) \<subseteq> completed) \<and>
    (r = Failed \<longrightarrow> failed \<noteq> {} \<and> ns_name ` set (ct_nodes t) \<subseteq> completed \<union> failed \<and> s' = s1) \<and>
    (r = Waiting \<longrightarrow>
      (\<exists>n \<in> set (ct_nodes t). judge (co_env co) t c1 state completed failed n \<noteq> Inr Leave) \<or>
      (\<exists>n \<in> set (ct_nodes t). ns_name n \<notin> failed \<and> awaits (co_env co) t c1 state completed n))"
proof -
  note ev = gather_completed [OF assms(3)]
  let ?st = "\<lambda>n. effective_state n (state (ns_name n)) completed"
  let ?j = "judge (co_env co) t c1 state completed failed"
  from assms(2) obtain st comp c2 s2 p where "validate_coordinator (co_env co) t = Inr ()"
    "gather co t persist c s = (Inr (st, comp, c2), s2)"
    "scan_nodes (judge (co_env co) t c2 st comp (failed_set t st comp)) [] (ct_nodes t) = Inr p"
    "case p of
       Deadline i wake \<Rightarrow> r = Waiting \<and> schedule_pending_job co i wake s2 = (Inr (), s')
     | Mutations ms \<Rightarrow>
         if ms \<noteq> [] then r = Waiting \<and> run_mutations co (mutation_order co ms) s2 = (Inr (), s')
         else r = final_verdict (\<lambda>n. effective_state n (st (ns_name n)) comp) (failed_set t st comp)
                False (ct_nodes t) \<and> s' = s2"
    by (rule tick_cases) blast
  with assms(3,4) have v: "validate_coordinator (co_env co) t = Inr ()"
    and p: "scan_nodes ?j [] (ct_nodes t) = Inr p"
    and act: "p \<noteq> Mutations [] \<Longrightarrow> r = Waiting"
    and idle: "p = Mutations [] \<Longrightarrow> r = final_verdict ?st failed False (ct_nodes t) \<and> s' = s1"
    by (auto split: plan.splits if_splits)
  from v have ok: "dag ns_name ns_deps (ct_nodes t)"
    by (simp add: validate_coordinator_iff [OF assms(1)] coordinator_ok_def)
  have all_done: "p = Mutations []" if "ns_name ` set (ct_nodes t) \<subseteq> completed"
    using scan_nodes_all_leave [of "ct_nodes t" ?j] complete_leaves [OF that ev] p assms(4) by fastforce
  show ?thesis
  proof (cases "p = Mutations []")
    case False
    then have "r = Waiting" by (rule act)
    moreover have "\<exists>n \<in> set (ct_nodes t). ?j n \<noteq> Inr Leave"
      using False p scan_nodes_all_leave [of "ct_nodes t" ?j "[]"] by auto
    ultimately show ?thesis using all_done False by auto
  next
    case True
    note r = idle [OF True] and leave = scan_nodes_idle [OF p [unfolded True]]
    have s: "r = Succeeded \<longleftrightarrow> ns_name ` set (ct_nodes t) \<subseteq> completed"
      using r effective_completed [OF _ ev] complete_no_failure [OF _ ev] assms(4)
      by (auto simp: final_verdict_Succeeded)
    have "ns_name ` set (ct_nodes t) \<subseteq> completed \<union> failed" if "r = Failed"
      using that r final_verdict_Waiting [of ?st failed False "ct_nodes t"] effective_completed [OF _ ev]
        dead_failed [of _ t state completed] assms(4) by auto
    moreover have "\<exists>n \<in> set (ct_nodes t). ns_name n \<notin> failed \<and> ns_name n \<notin> completed" if "r = Waiting"
      using that r final_verdict_Waiting [of ?st failed False "ct_nodes t"] effective_completed [OF _ ev] by auto
    ultimately show ?thesis
      using s r idle_awaits [OF ok ev, of "co_env co" c1] leave assms(4) by (cases r) auto
  qed
qed

section \<open>Witnesses\<close>

lemma demo_task_sel [simp]:
  "ct_nodes demo_task = [spec_of ''a'' ''w:a'' [] (plain_detail NTask), spec_of ''b'' ''w:b'' [''a''] (plain_detail NTask)]"
  "ct_failed_subgraph_retry demo_task = False" "ct_retry_policy demo_task = None"
  by (simp_all add: demo_task_def)

lemma demo_spec_sel [simp]:
  "ns_name (spec_of n i deps d) = n" "ns_job_id (spec_of n i deps d) = i" "ns_deps (spec_of n i deps d) = deps"
  "ns_kind (spec_of n i deps (plain_detail k)) = k"
  by (simp_all add: spec_of_def plain_detail_def)

lemma demo_accepted: "validate_coordinator demo_wf_env demo_task = Inr ()"
proof -
  have "{(d, ns_name n) | d n. n \<in> set (ct_nodes demo_task) \<and> d \<in> set (ns_deps n)} = {(''a'', ''b'')}"
    unfolding set_edge_list [symmetric] by simp
  with demo_acyclic have "dag ns_name ns_deps (ct_nodes demo_task)"
    unfolding dag_def by (simp add: deps_ok_def MAX_WORKFLOW_EDGES_def)
  then show ?thesis
    by (simp add: validate_coordinator_iff [OF demo_hash_ok] coordinator_ok_def MAX_WORKFLOW_NODES_def
        bad_policy_def spec_ok_def bad_spec_def) (simp add: demo_task_def spec_of_def plain_detail_def
        MAX_ENQUEUE_BATCH_SIZE_def MAX_JOB_IDENTIFIER_LEN_def)
qed

lemma demo_gather:
  assumes "get_job co ''w:a'' False s = Inr (Some ja)" "get_job co ''w:b'' False s = Inr (Some jb)"
    and "js_state ja \<noteq> ''completed''" "js_state jb \<noteq> ''completed''"
    and "cu_completed c = []" "cu_completed_at_ms c = Map.empty"
  shows "gather co demo_task persist c s = (Inr ([''b'' \<mapsto> jb, ''a'' \<mapsto> ja], {}, c), s)"
proof -
  let ?state = "[''b'' \<mapsto> jb, ''a'' \<mapsto> ja]"
  have r: "read_jobs co (ct_nodes demo_task) s = (Inr ?state, s)"
    using assms(1,2) by (simp add: seq_def query_def)
  have "record_completion_evidence demo_task ?state {} Map.empty = (False, {}, Map.empty)"
    using assms(3,4) by (simp add: record_completion_evidence_def note_task_def job_done_def evidence_loop.simps ripe_def Let_def)
  moreover have "c\<lparr>cu_completed_at_ms := Map.empty\<rparr> = c" using assms(6) by simp
  ultimately show ?thesis
    using r assms(5,6) by (simp add: gather_def seq_def Let_def completed_set_def)
qed

lemma demo_no_failure:
  assumes "js_state ja \<in> {''pending'', ''running''}" "js_state jb = ''pending''"
  shows "failed_set demo_task [''b'' \<mapsto> jb, ''a'' \<mapsto> ja] {} = {}"
proof -
  have "failed_loop (ct_nodes demo_task) {} = {}"
    by (subst failed_loop.simps) (simp add: spread_def)
  moreover have "filter (\<lambda>n. dead_state (effective_state n ([''b'' \<mapsto> jb, ''a'' \<mapsto> ja] (ns_name n)) {}))
      (ct_nodes demo_task) = []"
    using assms by (auto simp: effective_state_def dead_state_def virtual_def)
  ultimately show ?thesis by (simp only: failed_set_def) simp
qed

end
