(* ===== verification/WorkflowRun.thy ===== *)
theory WorkflowRun
  imports Coordinator MemSteps "HOL-Library.Multiset"
begin

text \<open>
  A coordinator and the store it drives, together. The locale \<open>job_board\<close> states what the
  coordinator relies on: reads report the stored state, promotion and scheduling move a pending job
  only, deletion removes one job, a cursor write stores the bytes or nothing, and a step of the rest
  of the world that starts a job that was pending, cancelled or absent is labelled with that job.
  Inside it, runs interleave the rest of the world with the parts of
  a tick: a decision taken on one state of the store may be carried out much later, in any order,
  twice, or never. The locale is interpreted on the rows of the store of \<open>MemStore\<close> with the
  operations of \<open>Inspect\<close> as headgate-sqlite/src/inspect.rs has them, every operation of the store
  being a step of the rest of the world.
\<close>

section \<open>Runs\<close>

datatype command = Cmd_Promote string | Cmd_Delete string | Cmd_Schedule string i64

definition perform :: "'s coord \<Rightarrow> command \<Rightarrow> 's \<Rightarrow> unit result \<times> 's" where
  "perform co cmd =
     (case cmd of
        Cmd_Promote i \<Rightarrow> promote_job co i
      | Cmd_Delete i \<Rightarrow> delete_job co i
      | Cmd_Schedule i at \<Rightarrow> schedule_pending_job co i at)"

definition commands :: "plan \<Rightarrow> command set" where
  "commands p =
     (case p of
        Mutations ms \<Rightarrow> (\<lambda>(i, delete). if delete then Cmd_Delete i else Cmd_Promote i) ` set ms
      | Deadline i at \<Rightarrow> {Cmd_Schedule i at})"

text \<open>The cursor a new attempt of the coordinator starts from.\<close>

definition durable_cursor :: "'s coord \<Rightarrow> bytes option \<Rightarrow> workflow_cursor \<Rightarrow> bool" where
  "durable_cursor co stored c \<longleftrightarrow>
     (case stored of None \<Rightarrow> c = cursor_default | Some b \<Rightarrow> dec_cursor co b = Inr c)"

definition node_jobs :: "coordinator_task \<Rightarrow> string set" where
  "node_jobs t = ns_job_id ` {n \<in> set (ct_nodes t). \<not> virtual (ns_kind n)}"

text \<open>
  \<open>D\<close> collects the jobs that have ever been seen completed, \<open>P\<close> the commands that coordinators
  have decided on, \<open>F\<close> the jobs that somebody else forced: a step of the rest of the world is
  labelled with them. The coordinator may be run by several attempts at once.
\<close>

abbreviation dormant :: "string option \<Rightarrow> bool" where
  "dormant st \<equiv> st \<in> {None, Some ''pending'', Some ''cancelled''}"

inductive runs ::
  "'s coord \<Rightarrow> ('s \<Rightarrow> string \<Rightarrow> string option) \<Rightarrow> ('s \<Rightarrow> bytes option) \<Rightarrow> ('s \<Rightarrow> string set \<Rightarrow> 's \<Rightarrow> bool)
    \<Rightarrow> ('s \<Rightarrow> bool) \<Rightarrow> coordinator_task \<Rightarrow> 's \<Rightarrow> string set \<Rightarrow> command set \<Rightarrow> string set \<Rightarrow> bool"
  for co state_of cursor_of outside ok t where
  start: "ok s \<Longrightarrow> cursor_of s = None \<Longrightarrow> (\<forall>i \<in> node_jobs t. state_of s i \<in> {None, Some ''pending''}) \<Longrightarrow>
    runs co state_of cursor_of outside ok t s {i. state_of s i = Some ''completed''} {} {}"
| others: "runs co state_of cursor_of outside ok t s D P F \<Longrightarrow> outside s G s' \<Longrightarrow>
    runs co state_of cursor_of outside ok t s' (D \<union> {i. state_of s' i = Some ''completed''}) P (F \<union> G)"
| decide: "runs co state_of cursor_of outside ok t s D P F \<Longrightarrow> durable_cursor co (cursor_of s) c \<Longrightarrow>
    validate_coordinator (co_env co) t = Inr () \<Longrightarrow> gather co t True c s = (Inr (state, completed, c1), s') \<Longrightarrow>
    scan_nodes (judge (co_env co) t c1 state completed (failed_set t state completed)) [] (ct_nodes t) = Inr p \<Longrightarrow>
    runs co state_of cursor_of outside ok t s' (D \<union> {i. state_of s' i = Some ''completed''}) (P \<union> commands p) F"
| fail: "runs co state_of cursor_of outside ok t s D P F \<Longrightarrow> durable_cursor co (cursor_of s) c \<Longrightarrow>
    validate_coordinator (co_env co) t = Inr () \<Longrightarrow> gather co t True c s = (r, s') \<Longrightarrow>
    runs co state_of cursor_of outside ok t s' (D \<union> {i. state_of s' i = Some ''completed''}) P F"
| act: "runs co state_of cursor_of outside ok t s D P F \<Longrightarrow> cmd \<in> P \<Longrightarrow> perform co cmd s = (r, s') \<Longrightarrow>
    runs co state_of cursor_of outside ok t s' (D \<union> {i. state_of s' i = Some ''completed''}) P F"

lemma scan_nodes_from:
  assumes "scan_nodes j ms nodes = Inr p"
  shows "case p of
      Mutations ms' \<Rightarrow> \<forall>(i, d) \<in> set ms'. (i, d) \<in> set ms \<or> (\<exists>n \<in> set nodes. j n = Inr (Mutate i d))
    | Deadline i at \<Rightarrow> \<exists>n \<in> set nodes. j n = Inr (Wake i at)"
  using assms
proof (induction nodes arbitrary: ms)
  case (Cons n nodes)
  then show ?case
  proof (cases "j n")
    case (Inr v)
    show ?thesis
    proof (cases v)
      case (Mutate i d)
      with Inr Cons.prems Cons.IH [of "ms @ [(i, d)]"] show ?thesis by (auto split: plan.splits)
    qed (use Inr Cons in \<open>fastforce split: plan.splits\<close>)+
  qed simp
qed auto

locale job_board =
  fixes co :: "'s coord"
    and state_of :: "'s \<Rightarrow> string \<Rightarrow> string option"
    and cursor_of :: "'s \<Rightarrow> bytes option"
    and outside :: "'s \<Rightarrow> string set \<Rightarrow> 's \<Rightarrow> bool"
    and ok :: "'s \<Rightarrow> bool"
  assumes read_state: "ok s \<Longrightarrow> get_job co i b s = Inr job \<Longrightarrow> map_option js_state job = state_of s i"
    and promote_pending: "ok s \<Longrightarrow> promote_job co i s = (r, s') \<Longrightarrow>
      ok s' \<and> cursor_of s' = cursor_of s \<and>
      (state_of s' = state_of s \<or>
       state_of s i = Some ''pending'' \<and> state_of s' = (state_of s)(i \<mapsto> ''available''))"
    and schedule_pending: "ok s \<Longrightarrow> schedule_pending_job co i at s = (r, s') \<Longrightarrow>
      ok s' \<and> cursor_of s' = cursor_of s \<and>
      (state_of s' = state_of s \<or>
       state_of s i = Some ''pending'' \<and> state_of s' = (state_of s)(i \<mapsto> ''scheduled''))"
    and delete_one: "ok s \<Longrightarrow> delete_job co i s = (r, s') \<Longrightarrow>
      ok s' \<and> cursor_of s' = cursor_of s \<and> (state_of s' = state_of s \<or> state_of s' = (state_of s)(i := None))"
    and write_cursor: "ok s \<Longrightarrow> ctx_set_cursor co bs s = (q, s') \<Longrightarrow>
      ok s' \<and> state_of s' = state_of s \<and> cursor_of s' \<in> {cursor_of s, Some bs}"
    and write_output: "ok s \<Longrightarrow> ctx_persist_output co v bs s = (q, s') \<Longrightarrow>
      ok s' \<and> state_of s' = state_of s \<and> cursor_of s' = cursor_of s"
    and outside_frame: "ok s \<Longrightarrow> outside s G s' \<Longrightarrow> ok s' \<and> cursor_of s' = cursor_of s"
    and outside_dormant: "ok s \<Longrightarrow> outside s G s' \<Longrightarrow> i \<notin> G \<Longrightarrow> dormant (state_of s i) \<Longrightarrow> dormant (state_of s' i)"
begin

definition finished :: "'s \<Rightarrow> string set" where
  "finished s = {i. state_of s i = Some ''completed''}"

text \<open>The cursor, wherever it is, names only nodes whose job has completed.\<close>

definition cursor_true :: "coordinator_task \<Rightarrow> string set \<Rightarrow> workflow_cursor \<Rightarrow> bool" where
  "cursor_true t D c \<longleftrightarrow> (\<forall>n \<in> set (ct_nodes t). ns_name n \<in> set (cu_completed c) \<longrightarrow> ns_job_id n \<in> D)"

definition stored_true :: "coordinator_task \<Rightarrow> string set \<Rightarrow> bytes option \<Rightarrow> bool" where
  "stored_true t D stored \<longleftrightarrow> (\<forall>c. durable_cursor co stored c \<longrightarrow> cursor_true t D c)"

definition deps_in :: "coordinator_task \<Rightarrow> string set \<Rightarrow> node_spec \<Rightarrow> bool" where
  "deps_in t D n \<longleftrightarrow> (\<forall>m \<in> set (ct_nodes t). ns_name m \<in> set (ns_deps n) \<longrightarrow> ns_job_id m \<in> D)"

definition starts :: "command \<Rightarrow> string option" where
  "starts cmd = (case cmd of Cmd_Promote i \<Rightarrow> Some i | Cmd_Schedule i _ \<Rightarrow> Some i | Cmd_Delete _ \<Rightarrow> None)"

definition in_order :: "coordinator_task \<Rightarrow> 's \<Rightarrow> string set \<Rightarrow> command set \<Rightarrow> string set \<Rightarrow> bool" where
  "in_order t s D P F \<longleftrightarrow>
     ok s \<and> finished s \<subseteq> D \<and> stored_true t D (cursor_of s) \<and>
     (\<forall>n \<in> set (ct_nodes t). \<not> virtual (ns_kind n) \<longrightarrow>
        (\<not> dormant (state_of s (ns_job_id n)) \<and> ns_job_id n \<notin> F \<or>
         (\<exists>cmd \<in> P. starts cmd = Some (ns_job_id n))) \<longrightarrow> deps_in t D n)"

lemma deps_in_mono: "deps_in t D n \<Longrightarrow> D \<subseteq> D' \<Longrightarrow> deps_in t D' n"
  by (auto simp: deps_in_def)

lemma stored_true_mono: "stored_true t D b \<Longrightarrow> D \<subseteq> D' \<Longrightarrow> stored_true t D' b"
  by (auto simp: stored_true_def cursor_true_def)

lemma read_jobs_state:
  assumes "read_jobs co nodes s = (Inr state, s')" "ok s"
  shows "s' = s \<and> (\<forall>n \<in> set nodes. distinct (map ns_name nodes) \<longrightarrow>
    map_option js_state (state (ns_name n)) = state_of s (ns_job_id n))"
  using assms
proof (induction nodes arbitrary: state s')
  case (Cons n nodes)
  then obtain job st where j: "get_job co (ns_job_id n) False s = Inr job"
    and r: "read_jobs co nodes s = (Inr st, s')" and st: "state = st(ns_name n := job)"
    by (auto simp: seq_Inr query_Inr)
  with Cons.IH [OF r Cons.prems(2)] read_state [OF Cons.prems(2) j] show ?case by auto (metis imageI)
qed simp

lemma read_jobs_same: "read_jobs co nodes s = (r, s') \<Longrightarrow> s' = s"
  by (induction nodes arbitrary: r s')
    (auto simp: seq_def query_def split: sum.splits prod.splits)

lemma evident_done:
  assumes "evident state (ct_nodes t) known n" "m \<in> set (ct_nodes t)" "ns_name m = n"
    and "distinct (map ns_name (ct_nodes t))" "\<forall>m \<in> set (ct_nodes t). ns_name m \<in> known \<longrightarrow> ns_job_id m \<in> D"
    and "\<forall>m \<in> set (ct_nodes t). map_option js_state (state (ns_name m)) = state_of s (ns_job_id m)" "finished s \<subseteq> D"
  shows "ns_job_id m \<in> D"
  using assms(1)
proof cases
  case evident_known
  with assms(2,3,5) show ?thesis by auto
next
  case (evident_task node)
  then have "job_done state (ns_name m)" using assms(3) by simp
  with assms(2,6,7) show ?thesis by (force simp: job_done_def finished_def split: option.splits)
next
  case (evident_virtual node)
  then have "job_done state (ns_name m)" using assms(3) by simp
  with assms(2,6,7) show ?thesis by (force simp: job_done_def finished_def split: option.splits)
qed

lemma persist_keeps:
  assumes "persist_workflow_cursor co c s = (r, s')" "ok s"
  shows "ok s' \<and> state_of s' = state_of s \<and>
    (cursor_of s' = cursor_of s \<or> (\<exists>b. enc_cursor co c = Inr b \<and> cursor_of s' = Some b))"
proof (cases "enc_cursor co c")
  case (Inl e)
  with assms show ?thesis by (auto simp: persist_workflow_cursor_def seq_def)
next
  case (Inr b)
  obtain q1 s1 where w: "ctx_set_cursor co b s = (q1, s1)" by (meson surj_pair)
  obtain q2 s2 where o: "ctx_persist_output co 1 b s1 = (q2, s2)" by (meson surj_pair)
  from assms(1) Inr w o have "s' = s1 \<or> s' = s2"
    by (auto simp: persist_workflow_cursor_def seq_def boxed_def split: sum.splits)
  with write_cursor [OF assms(2) w] write_output [of s1 1 b q2 s2] o Inr show ?thesis by auto
qed

text \<open>Gathering evidence moves no job, and what it finds and stores is true.\<close>

lemma gather_keeps:
  assumes "gather co t True c s = (r, s')" "ok s" "finished s \<subseteq> D" "cursor_true t D c"
    and "distinct (map ns_name (ct_nodes t))" "\<forall>c b. enc_cursor co c = Inr b \<longrightarrow> dec_cursor co b = Inr c"
  shows "ok s' \<and> state_of s' = state_of s \<and> (stored_true t D (cursor_of s) \<longrightarrow> stored_true t D (cursor_of s')) \<and>
    (\<forall>state completed c1. r = Inr (state, completed, c1) \<longrightarrow>
      (\<forall>m \<in> set (ct_nodes t). ns_name m \<in> completed \<longrightarrow> ns_job_id m \<in> D))"
proof (cases "read_jobs co (ct_nodes t) s")
  case (Pair q s0)
  note s0 = read_jobs_same [OF Pair]
  show ?thesis
  proof (cases q)
    case (Inl e)
    with Pair s0 assms(1,2) show ?thesis by (auto simp: gather_def seq_def Let_def)
  next
    case (Inr st)
    let ?known = "completed_set t (cu_completed c)"
    obtain ch comp at where e: "record_completion_evidence t st ?known (cu_completed_at_ms c) = (ch, comp, at)"
      by (metis prod_cases3)
    have "\<forall>m \<in> set (ct_nodes t). ns_name m \<in> ?known \<longrightarrow> ns_job_id m \<in> D"
      using assms(4) by (auto simp: cursor_true_def completed_set_def)
    then have done_in: "ns_job_id m \<in> D" if "m \<in> set (ct_nodes t)" "ns_name m \<in> comp" for m
      using evident_done [of st t ?known "ns_name m" m D s] that completion_evidence [OF e] assms(3,5)
        read_jobs_state [OF Pair [unfolded Inr] assms(2)] by auto
    let ?c0 = "c\<lparr>cu_completed_at_ms := at\<rparr>"
    show ?thesis
    proof (cases "note_completed ?known comp (ct_nodes t) ?c0")
      case (Inl err)
      with Pair Inr s0 e assms(1,2) show ?thesis by (auto simp: gather_def seq_def Let_def)
    next
      case noted: (Inr c1)
      let ?c2 = "c1\<lparr>cu_completed := completed_names t comp\<rparr>"
      have c2: "cursor_true t D ?c2"
        using done_in by (auto simp: cursor_true_def completed_names_def)
      show ?thesis
      proof (cases ch)
        case False
        with Pair Inr s0 e noted assms(1,2) done_in show ?thesis by (auto simp: gather_def seq_def Let_def)
      next
        case True
        obtain q3 s3 where p: "persist_workflow_cursor co ?c2 s = (q3, s3)" by (meson surj_pair)
        from assms(1) Pair Inr s0 e noted True p have s': "s' = s3" and r: "\<forall>state completed c1. r = Inr (state, completed, c1) \<longrightarrow> completed = comp"
          by (auto simp: gather_def seq_def Let_def split: sum.splits)
        have "stored_true t D (Some b)" if "enc_cursor co ?c2 = Inr b" for b
          using assms(6) that c2 by (auto simp: stored_true_def durable_cursor_def)
        with persist_keeps [OF p assms(2)] s' r done_in show ?thesis by auto
      qed
    qed
  qed
qed

text \<open>What a plan starts, may start.\<close>

lemma judge_starts:
  assumes "judge we t c state completed failed n = Inr v" "v = Mutate i False \<or> v = Wake i at"
    and "set (ns_deps n) \<subseteq> ns_name ` set (ct_nodes t)" "completed = {m. evident state (ct_nodes t) known m}"
  shows "ns_job_id n = i \<and> set (ns_deps n) \<subseteq> completed"
  using assms(1,2) dependencies_complete_eq [OF assms(3,4)]
  by (auto simp: judge_def Let_def map_sum_Inr_iff split: if_splits node_type.splits sum.splits option.splits)

lemma plan_starts:
  assumes "scan_nodes (judge we t c state completed failed) [] (ct_nodes t) = Inr p" "cmd \<in> commands p"
    and "starts cmd = Some (ns_job_id n)" "n \<in> set (ct_nodes t)" "distinct (map ns_job_id (ct_nodes t))"
    and "dag ns_name ns_deps (ct_nodes t)" "completed = {m. evident state (ct_nodes t) known m}"
  shows "set (ns_deps n) \<subseteq> completed"
proof -
  from scan_nodes_from [OF assms(1)] assms(2,3) obtain m v at where m: "m \<in> set (ct_nodes t)"
    "judge we t c state completed failed m = Inr v" "v = Mutate (ns_job_id n) False \<or> v = Wake (ns_job_id n) at"
    by (auto simp: commands_def starts_def split: plan.splits command.splits if_splits)
  moreover have "set (ns_deps m) \<subseteq> ns_name ` set (ct_nodes t)" using assms(6) m(1) by (auto simp: dag_def deps_ok_def)
  ultimately have "ns_job_id m = ns_job_id n \<and> set (ns_deps m) \<subseteq> completed" using judge_starts [OF m(2,3) _ assms(7)] by blast
  with assms(4,5) m(1) show ?thesis by (auto simp: distinct_map dest: inj_onD)
qed

lemma perform_moves:
  assumes "ok s" "perform co cmd s = (r, s')"
  shows "ok s' \<and> cursor_of s' = cursor_of s \<and>
    (\<not> dormant (state_of s' i) \<longrightarrow> \<not> dormant (state_of s i) \<or> starts cmd = Some i)"
proof (cases cmd)
  case (Cmd_Promote k)
  with promote_pending [OF assms(1), of k r s'] assms(2) show ?thesis
    by (auto simp: perform_def starts_def split: if_splits)
next
  case (Cmd_Delete k)
  with delete_one [OF assms(1), of k r s'] assms(2) show ?thesis
    by (auto simp: perform_def starts_def split: if_splits)
next
  case (Cmd_Schedule k at)
  with schedule_pending [OF assms(1), of k at r s'] assms(2) show ?thesis
    by (auto simp: perform_def starts_def split: if_splits)
qed

lemma in_order_step:
  assumes "ok s'" "stored_true t D (cursor_of s')"
    and "\<And>n. n \<in> set (ct_nodes t) \<Longrightarrow> \<not> virtual (ns_kind n) \<Longrightarrow>
      \<not> dormant (state_of s' (ns_job_id n)) \<and> ns_job_id n \<notin> F \<or> (\<exists>cmd \<in> P. starts cmd = Some (ns_job_id n)) \<Longrightarrow>
      deps_in t D n"
  shows "in_order t s' (D \<union> {i. state_of s' i = Some ''completed''}) P F"
  unfolding in_order_def finished_def
proof (intro conjI ballI impI)
  show "stored_true t (D \<union> {i. state_of s' i = Some ''completed''}) (cursor_of s')"
    by (rule stored_true_mono [OF assms(2)]) simp
  show "deps_in t (D \<union> {i. state_of s' i = Some ''completed''}) n"
    if "n \<in> set (ct_nodes t)" "\<not> virtual (ns_kind n)"
      "\<not> dormant (state_of s' (ns_job_id n)) \<and> ns_job_id n \<notin> F \<or> (\<exists>cmd \<in> P. starts cmd = Some (ns_job_id n))" for n
    by (rule deps_in_mono [OF assms(3) [OF that]]) simp
qed (use assms(1) in auto)

lemma runs_in_order:
  assumes "runs co state_of cursor_of outside ok t s D P F" "coordinator_ok (co_env co) t"
    and "distinct (map ns_job_id (ct_nodes t))" "\<forall>c b. enc_cursor co c = Inr b \<longrightarrow> dec_cursor co b = Inr c"
  shows "in_order t s D P F"
  using assms(1)
proof induction
  case (start s)
  moreover have "stored_true t D None" for D
    by (auto simp: stored_true_def durable_cursor_def cursor_true_def cursor_default_def)
  ultimately show ?case by (auto simp: in_order_def finished_def node_jobs_def)
next
  case (others s D P F G s')
  then have o: "ok s" "outside s G s'" by (simp_all add: in_order_def)
  have "deps_in t D n" if "n \<in> set (ct_nodes t)" "\<not> virtual (ns_kind n)"
    "\<not> dormant (state_of s' (ns_job_id n)) \<and> ns_job_id n \<notin> F \<union> G \<or> (\<exists>cmd \<in> P. starts cmd = Some (ns_job_id n))" for n
    using that others.IH outside_dormant [OF o, of "ns_job_id n"] unfolding in_order_def by blast
  with others.IH outside_frame [OF o] show ?case by (intro in_order_step) (auto simp: in_order_def)
next
  case (decide s D P F c state completed c1 s' p)
  have dag: "dag ns_name ns_deps (ct_nodes t)" using assms(2) by (simp add: coordinator_ok_def)
  then have dist: "distinct (map ns_name (ct_nodes t))" by (simp add: dag_def)
  from decide.IH decide.hyps(2) have i: "ok s" "finished s \<subseteq> D" "cursor_true t D c" "stored_true t D (cursor_of s)"
    by (auto simp: in_order_def stored_true_def)
  note g = gather_keeps [OF decide.hyps(4) i(1-3) dist assms(4)]
  have "deps_in t D n" if "n \<in> set (ct_nodes t)" "cmd \<in> commands p" "starts cmd = Some (ns_job_id n)" for n cmd
    using plan_starts [OF decide.hyps(5) that(2,3,1) assms(3) dag gather_completed [OF decide.hyps(4)]] g
    by (auto simp: deps_in_def)
  with decide.IH g i show ?case by (intro in_order_step) (auto simp: in_order_def)
next
  case (fail s D P F c r s')
  have dist: "distinct (map ns_name (ct_nodes t))" using assms(2) by (simp add: coordinator_ok_def dag_def)
  from fail.IH fail.hyps(2) have i: "ok s" "finished s \<subseteq> D" "cursor_true t D c" "stored_true t D (cursor_of s)"
    by (auto simp: in_order_def stored_true_def)
  note g = gather_keeps [OF fail.hyps(4) i(1-3) dist assms(4)]
  with fail.IH i show ?case by (intro in_order_step) (auto simp: in_order_def)
next
  case (act s D P F cmd r s')
  then have "ok s" by (simp add: in_order_def)
  note p = perform_moves [OF this act.hyps(3)]
  have "deps_in t D n" if "n \<in> set (ct_nodes t)" "\<not> virtual (ns_kind n)"
    "\<not> dormant (state_of s' (ns_job_id n)) \<and> ns_job_id n \<notin> F \<or> (\<exists>cmd \<in> P. starts cmd = Some (ns_job_id n))" for n
    using that act.IH act.hyps(2) p [of "ns_job_id n"] unfolding in_order_def by blast
  with act.IH p show ?case by (intro in_order_step) (auto simp: in_order_def)
qed

text \<open>A whole tick is a decision and the commands it carries out.\<close>

lemma mutations_run:
  assumes "run_mutations co ms s = (r, s')" "runs co state_of cursor_of outside ok t s D P F"
    and "(\<lambda>(i, delete). if delete then Cmd_Delete i else Cmd_Promote i) ` set ms \<subseteq> P"
  shows "\<exists>D'. runs co state_of cursor_of outside ok t s' D' P F"
  using assms
proof (induction ms arbitrary: s D)
  case (Cons m ms)
  obtain i d where m: "m = (i, d)" by (cases m)
  let ?cmd = "if d then Cmd_Delete i else Cmd_Promote i"
  obtain q s1 where q: "perform co ?cmd s = (q, s1)" by (meson surj_pair)
  have "?cmd \<in> P" using Cons.prems(3) m by auto
  from runs.act [OF Cons.prems(2) this q] have r1: "\<exists>D'. runs co state_of cursor_of outside ok t s1 D' P F" by blast
  have "(if d then delete_job co i else promote_job co i) s = (q, s1)"
    using q by (auto simp: perform_def split: if_splits)
  with Cons.prems(1) m have "(q \<noteq> Inr () \<and> s' = s1) \<or> (q = Inr () \<and> run_mutations co ms s1 = (r, s'))"
    by (auto simp: seq_def call_def split: sum.splits)
  with r1 Cons.IH Cons.prems(3) show ?case by auto
qed auto

lemma plan_run:
  assumes "runs co state_of cursor_of outside ok t s D P F" "commands p \<subseteq> P" "\<forall>ms. set (mutation_order co ms) \<subseteq> set ms"
    and "(case p of
        Deadline i wake \<Rightarrow> seq (call (schedule_pending_job co i wake)) (\<lambda>_. give x)
      | Mutations ms \<Rightarrow>
          if ms \<noteq> [] then seq (run_mutations co (mutation_order co ms)) (\<lambda>_. give x) else give y) s = (r, s')"
  shows "\<exists>D'. runs co state_of cursor_of outside ok t s' D' P F"
proof (cases p)
  case (Deadline i at)
  obtain q s2 where q: "schedule_pending_job co i at s = (q, s2)" by (meson surj_pair)
  then have "perform co (Cmd_Schedule i at) s = (q, s2)" by (simp add: perform_def)
  moreover have "Cmd_Schedule i at \<in> P" using assms(2) Deadline by (simp add: commands_def)
  moreover have "s' = s2" using assms(4) Deadline q by (auto simp: seq_def call_def split: sum.splits)
  ultimately show ?thesis using runs.act [OF assms(1)] by blast
next
  case (Mutations ms)
  obtain q s2 where q: "run_mutations co (mutation_order co ms) s = (q, s2)" by (meson surj_pair)
  have "(\<lambda>(i, delete). if delete then Cmd_Delete i else Cmd_Promote i) ` set (mutation_order co ms) \<subseteq> commands p"
    unfolding Mutations commands_def plan.case by (intro image_mono assms(3) [rule_format])
  from mutations_run [OF q assms(1) order_trans [OF this assms(2)]]
  have "\<exists>D'. runs co state_of cursor_of outside ok t s2 D' P F" .
  moreover have "s' = s \<or> s' = s2" using assms(4) Mutations q by (auto simp: seq_def split: sum.splits if_splits)
  ultimately show ?thesis using assms(1) by blast
qed

lemma tick_runs:
  assumes "tick_with_evidence co t True c s = (r, s')" "runs co state_of cursor_of outside ok t s D P F"
    and "durable_cursor co (cursor_of s) c" "\<forall>ms. set (mutation_order co ms) \<subseteq> set ms"
  shows "\<exists>D' P'. runs co state_of cursor_of outside ok t s' D' P' F"
proof (cases "validate_coordinator (co_env co) t")
  case (Inl e)
  with assms(1,2) show ?thesis by (auto simp: tick_with_evidence_def seq_def)
next
  case (Inr u)
  then have v: "validate_coordinator (co_env co) t = Inr ()" by simp
  obtain g s1 where g: "gather co t True c s = (g, s1)" by (meson surj_pair)
  from runs.fail [OF assms(2,3) v g] obtain D1 where D1: "runs co state_of cursor_of outside ok t s1 D1 P F" by blast
  show ?thesis
  proof (cases g)
    case (Inl e)
    with assms(1) v g D1 show ?thesis by (auto simp: tick_with_evidence_def seq_def)
  next
    case gi: (Inr x)
    obtain state completed c1 where x: "x = (state, completed, c1)" by (cases x)
    show ?thesis
    proof (cases "scan_nodes (judge (co_env co) t c1 state completed (failed_set t state completed)) [] (ct_nodes t)")
      case (Inl e)
      with assms(1) v g gi x D1 show ?thesis by (auto simp: tick_with_evidence_def seq_def Let_def)
    next
      case (Inr p)
      from runs.decide [OF assms(2,3) v g [unfolded gi x] Inr] obtain D2 where
        D2: "runs co state_of cursor_of outside ok t s1 D2 (P \<union> commands p) F" by blast
      let ?y = "(final_verdict (\<lambda>n. effective_state n (state (ns_name n)) completed) (failed_set t state completed)
          False (ct_nodes t), c1)"
      from assms(1) v g gi x Inr have k: "(case p of
          Deadline i wake \<Rightarrow> seq (call (schedule_pending_job co i wake)) (\<lambda>_. give (Waiting, c1))
        | Mutations ms \<Rightarrow>
            if ms \<noteq> [] then seq (run_mutations co (mutation_order co ms)) (\<lambda>_. give (Waiting, c1)) else give ?y) s1 = (r, s')"
        unfolding tick_with_evidence_def
        by (simp add: seq_def [of "of_sum q" for q] seq_def [of "gather co t True c"] Let_def)
      from plan_run [OF D2 Un_upper2 assms(4) k] show ?thesis by blast
    qed
  qed
qed

end

section \<open>The operations of Inspect on the rows\<close>

text \<open>
  headgate-sqlite/src/inspect.rs, on the rows of \<open>MemStore\<close>: a null timestamp is zero, and the
  uniqueness query over live rows is the index, which a row leaves with the live states (a row an
  operator retries does not take its key back). Here the tables of one store are one value, so
  \<open>ord\<close> stands for the order of its rows where a count reads them.
\<close>

definition simple_transition :: "i64 \<Rightarrow> string \<Rightarrow> string list \<Rightarrow> string \<Rightarrow> inner \<Rightarrow> unit result \<times> inner" where
  "simple_transition now i from to s =
     (case jobs s i of
        None \<Rightarrow> (Inl (NotFound (''job '' @ i)), s)
      | Some j \<Rightarrow>
          if jstate j \<in> set from
          then (let j' = j\<lparr>jstate := to,
                      env := (if to = ''available'' then (env j)\<lparr>scheduled_at_ms := now\<rparr> else env j),
                      finalized_at := (if to = ''cancelled'' then now else 0), lease_id := [], lease_expires := 0\<rparr>
                in (Inr (), put_row i j' (if live to then s else release_unique i s)))
          else (Inl (Invalid (''transition to '' @ to @ '' is not defined from '' @ jstate j)), s))"

definition sq_promote_job :: "i64 \<Rightarrow> string \<Rightarrow> inner \<Rightarrow> unit result \<times> inner" where
  "sq_promote_job now i = simple_transition now i [''pending''] ''available''"

definition sq_operator_retry :: "i64 \<Rightarrow> string \<Rightarrow> inner \<Rightarrow> unit result \<times> inner" where
  "sq_operator_retry now i = simple_transition now i [''archived'', ''cancelled'', ''undecodable''] ''available''"

definition sq_operator_cancel :: "i64 \<Rightarrow> string \<Rightarrow> inner \<Rightarrow> unit result \<times> inner" where
  "sq_operator_cancel now i =
     simple_transition now i [''pending'', ''scheduled'', ''available'', ''running'', ''retryable''] ''cancelled''"

definition sq_schedule_pending_job :: "string \<Rightarrow> i64 \<Rightarrow> inner \<Rightarrow> unit result \<times> inner" where
  "sq_schedule_pending_job i at s =
     (case jobs s i of
        Some j \<Rightarrow>
          if jstate j = ''pending''
          then (Inr (), put_row i (j\<lparr>jstate := ''scheduled'', env := (env j)\<lparr>scheduled_at_ms := at\<rparr>\<rparr>) s)
          else (Inl (Invalid ''job is not pending''), s)
      | None \<Rightarrow> (Inl (Invalid ''job is not pending''), s))"

definition sq_delete_job :: "string \<Rightarrow> inner \<Rightarrow> unit result \<times> inner" where
  "sq_delete_job i s =
     (case jobs s i of
        None \<Rightarrow> (Inl (NotFound (''job '' @ i)), s)
      | Some j \<Rightarrow>
          if jstate j = ''running'' then (Inl (Invalid ''cannot delete a running job; cancel it first''), s)
          else (Inr (), del_row i (release_unique i s)))"

text \<open>The columns the workflow crate reads; a row has no separate enqueue and claim times here.\<close>

definition sq_summary :: "bool \<Rightarrow> mem_job \<Rightarrow> job_summary" where
  "sq_summary include_payload j =
     (let e = env j
      in \<lparr>js_id = env_id e, js_kind = kind e, js_queue = queue e, js_state = jstate j,
          js_schema_version = schema_version e, js_priority = priority e, js_attempt = attempt e,
          js_crash_attempt = crash_attempt e, js_max_attempts = max_attempts e,
          js_partition_key = partition_key e, js_rate_class = rate_class e, js_sticky_worker = sticky_worker e,
          js_weight = weight e, js_fingerprint = fingerprint e, js_enqueued_at_ms = 0,
          js_scheduled_at_ms = scheduled_at_ms e, js_claimed_at_ms = None,
          js_periodic_schedule_id = periodic_schedule_id e, js_periodic_tick_ms = periodic_tick_ms e,
          js_finalized_at_ms = (if finalized_at j = 0 then None else Some (finalized_at j)),
          js_payload = (if include_payload then Some (payload e) else None),
          js_headers = (if include_payload then headers e else []), js_errors_json = [], js_tags = tags e\<rparr>)"

definition sq_get_job :: "string \<Rightarrow> bool \<Rightarrow> inner \<Rightarrow> job_summary option result" where
  "sq_get_job i p s = Inr (map_option (sq_summary p) (jobs s i))"

definition sq_quarantine_release :: "string list \<Rightarrow> i64 \<Rightarrow> string \<Rightarrow> inner \<Rightarrow> u64 result \<times> inner" where
  "sq_quarantine_release ord now fp s =
     (let hit = (\<lambda>j. fingerprint (env j) = fp \<and> jstate j = ''quarantined'');
          n = length (filter (\<lambda>i. case jobs s i of Some j \<Rightarrow> hit j | None \<Rightarrow> False) ord)
      in if n = 0 \<and> quarantine s fp = None
         then (Inl (NotFound (''fingerprint '' @ fp @ '' is not quarantined'')), s)
         else (Inr (of_nat n),
               s\<lparr>jobs := (\<lambda>i. map_option (\<lambda>j. if hit j
                     then j\<lparr>jstate := ''available'', env := (env j)\<lparr>scheduled_at_ms := now\<rparr>, finalized_at := 0\<rparr>
                     else j) (jobs s i)),
                 quarantine := (quarantine s)(fp := None)\<rparr>))"

text \<open>The quarantine duty parks the waiting siblings of a quarantined fingerprint, in the order of their ids.\<close>

definition swept_ids :: "string list \<Rightarrow> i64 \<Rightarrow> inner \<Rightarrow> string list" where
  "swept_ids ord limit s =
     take (nat limit) (filter (\<lambda>i. case jobs s i of
         None \<Rightarrow> False
       | Some j \<Rightarrow> jstate j \<in> {''pending'', ''scheduled'', ''available'', ''retryable''} \<and>
           quarantine s (fingerprint (env j)) \<noteq> None) (sort ord))"

definition park_row :: "i64 \<Rightarrow> inner \<Rightarrow> string \<Rightarrow> inner" where
  "park_row now s i =
     (case jobs s i of
        None \<Rightarrow> s
      | Some j \<Rightarrow> put_row i (j\<lparr>jstate := ''quarantined'', finalized_at := now\<rparr>) (release_unique i s))"

definition sq_quarantine_sweep :: "string list \<Rightarrow> i64 \<Rightarrow> i64 \<Rightarrow> inner \<Rightarrow> u64 result \<times> inner" where
  "sq_quarantine_sweep ord now limit s =
     (if limit \<le> 0 then (Inr 0, s)
      else let hit = swept_ids ord limit s in (Inr (of_nat (length hit)), foldl (park_row now) s hit))"

definition sq_edit_payload :: "string \<Rightarrow> bytes \<Rightarrow> u32 \<Rightarrow> string \<Rightarrow> inner \<Rightarrow> unit result \<times> inner" where
  "sq_edit_payload i p v fp s =
     (if v = 0 \<or> v > MAX_OPAQUE_SCHEMA_VERSION
      then (Inl (Invalid ''schema_version is outside the portable range''), s)
      else case jobs s i of
        Some j \<Rightarrow>
          if jstate j \<noteq> ''running''
          then (Inr (), put_row i (j\<lparr>env := (env j)\<lparr>payload := p, schema_version := v, fingerprint := fp\<rparr>\<rparr>) s)
          else (Inl (Invalid ''job cannot be edited while running or does not exist''), s)
      | None \<Rightarrow> (Inl (Invalid ''job cannot be edited while running or does not exist''), s))"

definition MAX_DURABLE_EVENT_PAYLOAD_BYTES :: nat where "MAX_DURABLE_EVENT_PAYLOAD_BYTES = 64 * 1024"
definition MAX_DURABLE_EVENT_SOURCE_BYTES :: nat where "MAX_DURABLE_EVENT_SOURCE_BYTES = 16 * 1024"

text \<open>The durable event table, newest last, with its next key; \<open>json_ok\<close> is what serde_json parses.\<close>

definition sq_append_durable_event ::
  "(bytes \<Rightarrow> bool) \<Rightarrow> i64 \<Rightarrow> durable_event \<Rightarrow> durable_event list \<times> u64
    \<Rightarrow> (durable_event \<times> bool) result \<times> durable_event list \<times> u64" where
  "sq_append_durable_event json_ok now e = (\<lambda>(evs, seqno).
     if de_scope e = [] \<or> de_topic e = [] \<or> de_idempotency_key e = []
     then (Inl (Invalid ''durable event scope, topic, and idempotency_key must not be empty''), evs, seqno)
     else if length (de_payload e) > MAX_DURABLE_EVENT_PAYLOAD_BYTES \<or>
        length (de_source e) > MAX_DURABLE_EVENT_SOURCE_BYTES \<or> \<not> json_ok (de_payload e) \<or> \<not> json_ok (de_source e)
     then (Inl (Invalid ''durable event payload/source must be valid bounded JSON''), evs, seqno)
     else let key = (\<lambda>d. de_scope d = de_scope e \<and> de_idempotency_key d = de_idempotency_key e);
              fresh = e\<lparr>de_event_id := seqno + 1, de_recorded_at_ms := now\<rparr>;
              (stored, inserted, evs1, seqno1) =
                (case find key evs of Some d \<Rightarrow> (d, False, evs, seqno) | None \<Rightarrow> (fresh, True, evs @ [fresh], seqno + 1));
              mine = filter (\<lambda>d. de_scope d = de_scope e) evs1;
              keep = set (map de_event_id (drop (length mine - 100) mine))
          in (Inr (stored, inserted), filter (\<lambda>d. de_scope d = de_scope e \<longrightarrow> de_event_id d \<in> keep) evs1, seqno1))"

section \<open>The board\<close>

text \<open>
  The rows, the clock, the event table, and of the coordinator's own row the two columns its job
  context writes: the checkpoint cursor and the output. They are fields of their own because the
  coordinator's row is not a node of its workflow; the fence on the row is the predicate that says
  whether the attempt still holds its lease. A read of this store always answers.
\<close>

record board =
  bo_store :: inner
  bo_now :: i64
  bo_cursor :: "bytes option"
  bo_output :: "(u32 \<times> bytes) option"
  bo_events :: "durable_event list \<times> u64"

definition on_store :: "(i64 \<Rightarrow> inner \<Rightarrow> 'a result \<times> inner) \<Rightarrow> board \<Rightarrow> 'a result \<times> board" where
  "on_store f s = (case f (bo_now s) (bo_store s) of (r, st) \<Rightarrow> (r, s\<lparr>bo_store := st\<rparr>))"

record board_params =
  bp_env :: wf_env
  bp_enc :: "workflow_cursor \<Rightarrow> string + bytes"
  bp_dec :: "bytes \<Rightarrow> string + workflow_cursor"
  bp_order :: "(string \<times> bool) list \<Rightarrow> (string \<times> bool) list"
  bp_rows :: "string list"
  bp_json_ok :: "bytes \<Rightarrow> bool"
  bp_lease_ok :: "board \<Rightarrow> bool"

text \<open>A write of the job context is refused when the coordinator has lost its lease.\<close>

definition board_coord :: "board_params \<Rightarrow> board coord" where
  "board_coord bp =
     \<lparr>co_env = bp_env bp, enc_cursor = bp_enc bp, dec_cursor = bp_dec bp,
      get_job = (\<lambda>i p s. sq_get_job i p (bo_store s)),
      promote_job = (\<lambda>i. on_store (\<lambda>now. sq_promote_job now i)),
      delete_job = (\<lambda>i. on_store (\<lambda>_. sq_delete_job i)),
      schedule_pending_job = (\<lambda>i at. on_store (\<lambda>_. sq_schedule_pending_job i at)),
      operator_retry = (\<lambda>i. on_store (\<lambda>now. sq_operator_retry now i)),
      operator_cancel = (\<lambda>i. on_store (\<lambda>now. sq_operator_cancel now i)),
      quarantine_release = (\<lambda>fp. on_store (\<lambda>now. sq_quarantine_release (bp_rows bp) now fp)),
      edit_payload = (\<lambda>i p v fp. on_store (\<lambda>_. sq_edit_payload i p v fp)),
      enqueue_jobs = (\<lambda>batch. on_store (\<lambda>now. mem_enqueue now batch)),
      append_durable_event = (\<lambda>e s. case sq_append_durable_event (bp_json_ok bp) (bo_now s) e (bo_events s) of
        (r, evs) \<Rightarrow> (r, s\<lparr>bo_events := evs\<rparr>)),
      get_job_checkpoint = Some (\<lambda>i s. Inr (map_option jcheckpoint (jobs (bo_store s) i))),
      get_job_output = Some (\<lambda>i s. Inr (Option.bind (jobs (bo_store s) i) joutput)),
      ctx_queue = [],
      ctx_set_cursor = (\<lambda>b s. if bp_lease_ok bp s then (Inr (), s\<lparr>bo_cursor := Some b\<rparr>) else (Inl ''lease lost'', s)),
      ctx_persist_output =
        (\<lambda>v b s. if bp_lease_ok bp s then (Inr (), s\<lparr>bo_output := Some (v, b)\<rparr>) else (Inl ''lease lost'', s)),
      mutation_order = bp_order bp\<rparr>"

definition board_state :: "board \<Rightarrow> string \<Rightarrow> string option" where
  "board_state s i = map_option jstate (jobs (bo_store s) i)"

definition board_ok :: "board \<Rightarrow> bool" where
  "board_ok s \<longleftrightarrow> machine_ok (bo_store s)"

text \<open>
  The rest of the world: every operation of the store, the clock, the quarantine duty, and operators
  who retry, delete, promote, schedule, cancel, edit and release from quarantine whatever they like. A
  step is labelled with the jobs it forces: the ids it enqueues for which there is no row, the pending
  job it promotes or schedules by hand, the cancelled job it retries, the pending jobs it parks in
  quarantine, from where a release starts them. A quarantined row is released before it is
  edited, as a retry of the workflow does.
\<close>

definition forced :: "board \<Rightarrow> string \<Rightarrow> string \<Rightarrow> string set" where
  "forced s i st = (if board_state s i = Some st then {i} else {})"

inductive board_outside :: "board \<Rightarrow> string set \<Rightarrow> board \<Rightarrow> bool" where
  store_op: "op_fits (bo_store s) op \<Longrightarrow>
    board_outside s {i \<in> enqueued_ids op. board_state s i = None}
      (s\<lparr>bo_store := exec cfg (bo_now s) op (bo_store s)\<rparr>)"
| clock_op: "board_outside s {} (s\<lparr>bo_now := n\<rparr>)"
| retry_op: "board_outside s (forced s i ''cancelled'')
    (s\<lparr>bo_store := snd (sq_operator_retry (bo_now s) i (bo_store s))\<rparr>)"
| promote_op: "board_outside s (forced s i ''pending'')
    (s\<lparr>bo_store := snd (sq_promote_job (bo_now s) i (bo_store s))\<rparr>)"
| schedule_op: "board_outside s (forced s i ''pending'')
    (s\<lparr>bo_store := snd (sq_schedule_pending_job i at (bo_store s))\<rparr>)"
| cancel_op: "board_outside s {} (s\<lparr>bo_store := snd (sq_operator_cancel (bo_now s) i (bo_store s))\<rparr>)"
| delete_op: "board_outside s {} (s\<lparr>bo_store := snd (sq_delete_job i (bo_store s))\<rparr>)"
| release_op: "board_outside s {} (s\<lparr>bo_store := snd (sq_quarantine_release ord (bo_now s) fp (bo_store s))\<rparr>)"
| sweep_op: "board_outside s {i \<in> set (swept_ids ord limit (bo_store s)). board_state s i = Some ''pending''}
    (s\<lparr>bo_store := snd (sq_quarantine_sweep ord (bo_now s) limit (bo_store s))\<rparr>)"
| edit_op: "board_state s i \<noteq> Some ''quarantined'' \<Longrightarrow>
    board_outside s {} (s\<lparr>bo_store := snd (sq_edit_payload i p v fp (bo_store s))\<rparr>)"

lemma put_row_state: "jobs (put_row i j s) = (jobs s)(i \<mapsto> j)" "jobs (del_row i s) = (jobs s)(i := None)"
  by (simp_all add: put_row_def del_row_def)

lemma machine_ok_put:
  assumes "machine_ok s" "jobs s i = Some j" "same_key j j'" "row_ok i j'" "jstate j' \<noteq> ''quarantined''"
    and "live (jstate j) \<longrightarrow> live (jstate j')"
  shows "machine_ok (put_row i j' s)"
proof -
  have "store_ok (put_row i j' s)" unfolding put_row_def
  proof (rule store_ok_update)
    show "holds_key k j'" if "unique s k = Some i" for k
      using that assms store_ok_index [of s k i] by (auto simp: machine_ok_def holds_key_def same_key_def)
  qed (use assms in \<open>auto simp: machine_ok_def parked_ok_def\<close>)
  with assms(1) show ?thesis by (simp add: machine_ok_def bursts_ok_def put_row_def)
qed

lemma machine_ok_retire:
  assumes "machine_ok s" "row_ok i j'" "jstate j' \<noteq> ''quarantined''" "\<not> live (jstate j')"
  shows "machine_ok (put_row i j' (release_unique i s))" "machine_ok (del_row i (release_unique i s))"
proof -
  from assms(1) have ok: "store_ok s" "bursts_ok s" by (simp_all add: machine_ok_def)
  have "parked_ok s j'" using assms(3) by (simp add: parked_ok_def)
  then show "machine_ok (put_row i j' (release_unique i s))"
    using put_released(1) [OF assms(4) ok(1) assms(2)] ok(2) by (simp add: machine_ok_def bursts_ok_def put_row_def)
  show "machine_ok (del_row i (release_unique i s))"
    using del_released(1) [OF ok(1)] ok(2) by (simp add: machine_ok_def bursts_ok_def del_row_def)
qed

lemma machine_ok_del:
  assumes "machine_ok s"
  shows "machine_ok (del_row i (release_unique i s))"
  using assms del_released(1) [of s i] by (simp add: machine_ok_def bursts_ok_def del_row_def)

lemma transition_ok:
  assumes "machine_ok s" "to = ''available'' \<or> to = ''cancelled''"
  shows "machine_ok (snd (simple_transition now i from to s))"
proof (cases "jobs s i")
  case (Some j)
  have r: "row_ok i j" using assms(1) store_ok_row [OF _ Some] by (simp add: machine_ok_def)
  let ?j = "j\<lparr>jstate := to, env := (if to = ''available'' then (env j)\<lparr>scheduled_at_ms := now\<rparr> else env j),
    finalized_at := (if to = ''cancelled'' then now else 0), lease_id := [], lease_expires := 0\<rparr>"
  have r': "row_ok i ?j" using r assms(2) by (auto simp: row_ok_def)
  have k: "same_key j ?j" by (simp add: same_key_def effective_unique_key_def split: option.split)
  show ?thesis
  proof (cases "jstate j \<in> set from")
    case True
    show ?thesis
    proof (cases "to = ''available''")
      case True
      then have "machine_ok (put_row i ?j s)" using machine_ok_put [OF assms(1) Some k r'] by simp
      with True \<open>jstate j \<in> set from\<close> Some show ?thesis by (simp add: simple_transition_def Let_def)
    next
      case False
      then have "\<not> live to" using assms(2) by (simp add: live_def is_terminal_def)
      with machine_ok_retire(1) [OF assms(1) r'] False assms(2) \<open>jstate j \<in> set from\<close> Some show ?thesis
        by (simp add: simple_transition_def Let_def)
    qed
  qed (use assms(1) Some in \<open>simp add: simple_transition_def\<close>)
qed (use assms(1) in \<open>simp add: simple_transition_def\<close>)

lemma schedule_ok:
  assumes "machine_ok s"
  shows "machine_ok (snd (sq_schedule_pending_job i at s))"
proof (cases "jobs s i")
  case (Some j)
  have r: "row_ok i j" using assms(1) store_ok_row [OF _ Some] by (simp add: machine_ok_def)
  show ?thesis
    using machine_ok_put [OF assms Some, of "j\<lparr>jstate := ''scheduled'', env := (env j)\<lparr>scheduled_at_ms := at\<rparr>\<rparr>"] r assms Some
    by (auto simp: sq_schedule_pending_job_def row_ok_def same_key_def effective_unique_key_def split: option.splits)
qed (use assms(1) in \<open>simp add: sq_schedule_pending_job_def\<close>)

lemma delete_ok: "machine_ok s \<Longrightarrow> machine_ok (snd (sq_delete_job i s))"
  by (auto simp: sq_delete_job_def machine_ok_del split: option.split)

lemma transition_states:
  "map_option jstate (jobs (snd (simple_transition now i from to s)) k) =
     (if k = i \<and> map_option jstate (jobs s i) \<in> Some ` set from then Some to else map_option jstate (jobs s k))"
  by (auto simp: simple_transition_def Let_def put_row_state split: option.splits)

lemma schedule_states:
  "map_option jstate (jobs (snd (sq_schedule_pending_job i at s)) k) =
     (if k = i \<and> map_option jstate (jobs s i) = Some ''pending'' then Some ''scheduled'' else map_option jstate (jobs s k))"
  by (auto simp: sq_schedule_pending_job_def put_row_state split: option.splits)

lemma delete_states:
  "map_option jstate (jobs (snd (sq_delete_job i s)) k) \<in> {map_option jstate (jobs s k), None} \<and>
   (k \<noteq> i \<longrightarrow> jobs (snd (sq_delete_job i s)) k = jobs s k)"
  by (auto simp: sq_delete_job_def put_row_state split: option.splits)

lemma release_ok:
  assumes "machine_ok s"
  shows "machine_ok (snd (sq_quarantine_release ord now fp s))"
proof -
  let ?hit = "\<lambda>j. fingerprint (env j) = fp \<and> jstate j = ''quarantined''"
  let ?f = "\<lambda>j. if ?hit j then j\<lparr>jstate := ''available'', env := (env j)\<lparr>scheduled_at_ms := now\<rparr>, finalized_at := 0\<rparr> else j"
  let ?s = "s\<lparr>jobs := (\<lambda>i. map_option ?f (jobs s i)), quarantine := (quarantine s)(fp := None)\<rparr>"
  from assms have ok: "rows_ok s" "index_ok s" "bursts_ok s" "\<forall>n b. rate s n = Some b \<longrightarrow> bucket_ok b"
    by (simp_all add: machine_ok_def store_ok_def)
  have row: "row_ok i (?f j)" if "row_ok i j" for i j using that by (simp add: row_ok_def)
  have parked: "parked_ok ?s (?f j)" if "parked_ok s j" for j
    using that by (simp add: parked_ok_def blocked_fingerprint_def)
  have rows: "rows_ok ?s" unfolding rows_ok_def
  proof (intro conjI allI impI)
    have "dom (jobs ?s) = dom (jobs s)" by (auto simp: dom_def)
    with ok(1) show "finite (dom (jobs ?s))" by (simp add: rows_ok_def)
  next
    fix i j'
    assume "jobs ?s i = Some j'"
    then obtain j where j: "jobs s i = Some j" "j' = ?f j" by auto
    with ok(1) have "row_ok i j" "parked_ok s j" by (simp_all add: rows_ok_def)
    with row [of i j] parked [of j] j(2) show "row_ok i j'" "parked_ok ?s j'" by simp_all
  qed
  have key: "holds_key k (?f j)" if "holds_key k j" for k j
  proof -
    have "effective_unique_key ((env j)\<lparr>scheduled_at_ms := now\<rparr>) = effective_unique_key (env j)"
      by (simp add: effective_unique_key_def split: option.split)
    with that show ?thesis by (simp add: holds_key_def live_def is_terminal_def)
  qed
  have "index_ok ?s" unfolding index_ok_def
  proof (intro allI impI)
    fix k i
    assume "unique ?s k = Some i"
    with ok(2) obtain j where "jobs s i = Some j" "holds_key k j" by (auto simp: index_ok_def)
    with key [of k j] show "\<exists>j. jobs ?s i = Some j \<and> holds_key k j" by simp
  qed
  with rows ok(3,4) have "machine_ok ?s" by (simp add: machine_ok_def store_ok_def bursts_ok_def)
  with assms show ?thesis by (simp add: sq_quarantine_release_def Let_def)
qed

lemma release_states:
  "map_option jstate (jobs (snd (sq_quarantine_release ord now fp s)) k) =
     map_option jstate (jobs s k) \<or> map_option jstate (jobs s k) = Some ''quarantined''"
  by (cases "jobs s k") (auto simp: sq_quarantine_release_def Let_def)

lemma edit_ok:
  assumes "machine_ok s" "map_option jstate (jobs s i) \<noteq> Some ''quarantined''"
  shows "machine_ok (snd (sq_edit_payload i p v fp s))"
proof (cases "jobs s i")
  case (Some j)
  have r: "row_ok i j" using assms(1) store_ok_row [OF _ Some] by (simp add: machine_ok_def)
  let ?j = "j\<lparr>env := (env j)\<lparr>payload := p, schema_version := v, fingerprint := fp\<rparr>\<rparr>"
  have "same_key j ?j" by (simp add: same_key_def effective_unique_key_def split: option.split)
  moreover have "row_ok i ?j" using r by (simp add: row_ok_def)
  ultimately have "machine_ok (put_row i ?j s)" using machine_ok_put [OF assms(1) Some] assms(2) Some by simp
  with assms(1) Some show ?thesis by (simp add: sq_edit_payload_def)
qed (use assms(1) in \<open>simp add: sq_edit_payload_def\<close>)

lemma edit_states: "map_option jstate (jobs (snd (sq_edit_payload i p v fp s)) k) = map_option jstate (jobs s k)"
  by (auto simp: sq_edit_payload_def put_row_state split: option.splits)

lemma park_ok:
  assumes "machine_ok s" "jobs s i = Some j" "jstate j \<noteq> ''running''" "quarantine s (fingerprint (env j)) \<noteq> None"
  shows "machine_ok (park_row now s i)"
proof -
  from assms(1) have ok: "store_ok s" "bursts_ok s" by (simp_all add: machine_ok_def)
  let ?j = "j\<lparr>jstate := ''quarantined'', finalized_at := now\<rparr>"
  have "row_ok i ?j" using store_ok_row [OF ok(1) assms(2)] assms(3) by (simp add: row_ok_def)
  moreover have "parked_ok s ?j" using assms(4) by (simp add: parked_ok_def blocked_fingerprint_def)
  moreover have "\<not> live (jstate ?j)" by (simp add: live_def is_terminal_def)
  ultimately have "store_ok (put_row i ?j (release_unique i s))"
    using put_released(1) ok(1) by (simp add: put_row_def)
  with ok(2) assms(2) show ?thesis by (simp add: park_row_def machine_ok_def bursts_ok_def put_row_def)
qed

lemma park_frame:
  "quarantine (park_row now s i) = quarantine s"
  "jobs (park_row now s i) k =
     (if k = i then map_option (\<lambda>j. j\<lparr>jstate := ''quarantined'', finalized_at := now\<rparr>) (jobs s i) else jobs s k)"
  by (simp_all add: park_row_def put_row_def split: option.split)

lemma foldl_park_ok:
  assumes "machine_ok s"
    and "\<And>i. i \<in> set is \<Longrightarrow> \<exists>j. jobs s i = Some j \<and> jstate j \<noteq> ''running'' \<and> quarantine s (fingerprint (env j)) \<noteq> None"
  shows "machine_ok (foldl (park_row now) s is)"
  using assms
proof (induction "is" arbitrary: s)
  case (Cons i "is")
  from Cons.prems(2) [OF list.set_intros(1)] obtain j where "jobs s i = Some j" "jstate j \<noteq> ''running''"
    "quarantine s (fingerprint (env j)) \<noteq> None" by blast
  from park_ok [OF Cons.prems(1) this] have "machine_ok (park_row now s i)" .
  moreover have "\<exists>j. jobs (park_row now s i) k = Some j \<and> jstate j \<noteq> ''running'' \<and>
      quarantine (park_row now s i) (fingerprint (env j)) \<noteq> None" if "k \<in> set is" for k
    using Cons.prems(2) [of k] that by (auto simp: park_frame)
  ultimately show ?case using Cons.IH by simp
qed simp

lemma foldl_park_states:
  "map_option jstate (jobs (foldl (park_row now) s is) k) =
     (if k \<in> set is \<and> jobs s k \<noteq> None then Some ''quarantined'' else map_option jstate (jobs s k))"
  by (induction "is" arbitrary: s) (auto simp: park_frame)

lemma swept_row:
  assumes "i \<in> set (swept_ids ord limit s)"
  shows "\<exists>j. jobs s i = Some j \<and> jstate j \<in> {''pending'', ''scheduled'', ''available'', ''retryable''} \<and>
    quarantine s (fingerprint (env j)) \<noteq> None"
  using in_set_takeD [OF assms [unfolded swept_ids_def]] by (auto split: option.splits)

lemma sweep_ok: "machine_ok s \<Longrightarrow> machine_ok (snd (sq_quarantine_sweep ord now limit s))"
  using swept_row [of _ ord limit s] by (auto simp: sq_quarantine_sweep_def Let_def intro!: foldl_park_ok) fastforce

lemma sweep_states:
  "map_option jstate (jobs (snd (sq_quarantine_sweep ord now limit s)) k) = map_option jstate (jobs s k) \<or>
   k \<in> set (swept_ids ord limit s)"
  by (auto simp: sq_quarantine_sweep_def Let_def foldl_park_states)

lemma exec_keeps_dormant:
  assumes "machine_ok s" "op_fits s op" "i \<notin> enqueued_ids op \<or> jobs s i \<noteq> None"
    and "dormant (map_option jstate (jobs s i))"
  shows "dormant (map_option jstate (jobs (exec cfg now op s) i))"
proof -
  from assms(1) have "store_ok s" by (simp add: machine_ok_def)
  from exec_move [OF this assms(2), of i cfg now] show ?thesis
    using assms(3,4) by (cases rule: row_move.cases) (auto simp: replaceable_def live_def)
qed

lemma outside_keeps:
  assumes "board_outside s G s'" "board_ok s"
  shows "board_ok s' \<and> bo_cursor s' = bo_cursor s"
  using assms(1)
proof cases
  case (edit_op i p v fp)
  with assms(2) edit_ok [of "bo_store s" i] show ?thesis by (simp add: board_ok_def board_state_def)
qed (use assms(2) exec_machine_ok transition_ok delete_ok schedule_ok release_ok sweep_ok in
    \<open>auto simp: board_ok_def sq_operator_retry_def sq_promote_job_def sq_operator_cancel_def\<close>)

lemma outside_leaves_dormant:
  assumes "board_outside s G s'" "board_ok s" "i \<notin> G" "dormant (board_state s i)"
  shows "dormant (board_state s' i)"
  using assms(1)
proof cases
  case (store_op op cfg)
  then have "i \<notin> enqueued_ids op \<or> jobs (bo_store s) i \<noteq> None" using assms(3) by (auto simp: board_state_def)
  with store_op assms(2,4) exec_keeps_dormant [of "bo_store s" op i cfg "bo_now s"] show ?thesis
    by (simp add: board_ok_def board_state_def)
next
  case (delete_op k)
  with assms(4) delete_states [of k "bo_store s" i] show ?thesis by (auto simp: board_state_def)
next
  case (release_op ord fp)
  with assms(4) release_states [of ord "bo_now s" fp "bo_store s" i] show ?thesis by (auto simp: board_state_def)
next
  case (sweep_op ord limit)
  have "i \<notin> set (swept_ids ord limit (bo_store s))"
    using swept_row [of i ord limit "bo_store s"] sweep_op(1) assms(3,4) by (auto simp: board_state_def)
  with sweep_states [of ord "bo_now s" limit "bo_store s" i] sweep_op(2) assms(4) show ?thesis
    by (auto simp: board_state_def)
qed (use assms(3,4) in \<open>auto simp: board_state_def sq_operator_retry_def sq_promote_job_def forced_def
    sq_operator_cancel_def transition_states schedule_states edit_states split: if_splits\<close>)

lemma on_store_step:
  assumes "on_store f s = (r, s')"
  shows "s' = s\<lparr>bo_store := snd (f (bo_now s) (bo_store s))\<rparr>"
  using assms by (auto simp: on_store_def split: prod.splits)

lemma board_coord_sel [simp]:
  "co_env (board_coord bp) = bp_env bp" "enc_cursor (board_coord bp) = bp_enc bp"
  "dec_cursor (board_coord bp) = bp_dec bp" "mutation_order (board_coord bp) = bp_order bp"
  by (simp_all add: board_coord_def)

interpretation board: job_board "board_coord bp" board_state bo_cursor board_outside board_ok for bp
proof
  show "map_option js_state job = board_state s i" if "get_job (board_coord bp) i b s = Inr job" for s i b job
    using that by (cases "jobs (bo_store s) i")
      (auto simp: board_coord_def sq_get_job_def board_state_def sq_summary_def Let_def)
  show "board_ok s' \<and> bo_cursor s' = bo_cursor s \<and>
      (board_state s' = board_state s \<or>
       board_state s i = Some ''pending'' \<and> board_state s' = (board_state s)(i \<mapsto> ''available''))"
    if "board_ok s" "promote_job (board_coord bp) i s = (r, s')" for s i r s'
  proof -
    from that(2) have "s' = s\<lparr>bo_store := snd (sq_promote_job (bo_now s) i (bo_store s))\<rparr>"
      by (auto simp: board_coord_def dest: on_store_step)
    with that(1) show ?thesis
      by (auto simp: board_ok_def board_state_def sq_promote_job_def transition_ok transition_states fun_eq_iff)
  qed
  show "board_ok s' \<and> bo_cursor s' = bo_cursor s \<and>
      (board_state s' = board_state s \<or>
       board_state s i = Some ''pending'' \<and> board_state s' = (board_state s)(i \<mapsto> ''scheduled''))"
    if "board_ok s" "schedule_pending_job (board_coord bp) i at s = (r, s')" for s i at r s'
  proof -
    from that(2) have "s' = s\<lparr>bo_store := snd (sq_schedule_pending_job i at (bo_store s))\<rparr>"
      by (auto simp: board_coord_def dest: on_store_step)
    with that(1) show ?thesis
      by (auto simp: board_ok_def board_state_def schedule_ok schedule_states fun_eq_iff)
  qed
  show "board_ok s' \<and> bo_cursor s' = bo_cursor s \<and>
      (board_state s' = board_state s \<or> board_state s' = (board_state s)(i := None))"
    if "board_ok s" "delete_job (board_coord bp) i s = (r, s')" for s i r s'
  proof -
    from that(2) have s': "s' = s\<lparr>bo_store := snd (sq_delete_job i (bo_store s))\<rparr>"
      by (auto simp: board_coord_def dest: on_store_step)
    have "board_state s' = board_state s \<or> board_state s' = (board_state s)(i := None)"
      by (auto simp: s' board_state_def sq_delete_job_def put_row_state fun_eq_iff split: option.splits)
    with that(1) s' show ?thesis by (simp add: board_ok_def delete_ok)
  qed
  show "board_ok s' \<and> board_state s' = board_state s \<and> bo_cursor s' \<in> {bo_cursor s, Some bs}"
    if "board_ok s" "ctx_set_cursor (board_coord bp) bs s = (q, s')" for s bs q s'
    using that by (auto simp: board_coord_def board_ok_def board_state_def fun_eq_iff split: if_splits)
  show "board_ok s' \<and> board_state s' = board_state s \<and> bo_cursor s' = bo_cursor s"
    if "board_ok s" "ctx_persist_output (board_coord bp) v bs s = (q, s')" for s v bs q s'
    using that by (auto simp: board_coord_def board_ok_def board_state_def fun_eq_iff split: if_splits)
qed (use outside_keeps outside_leaves_dormant in blast)+


section \<open>A tick and the rows\<close>

lemma promote_done:
  "promote_job (board_coord bp) i s = (Inr (), s') \<Longrightarrow> board_state s' = (board_state s)(i \<mapsto> ''available'')"
  by (auto simp: board_coord_def on_store_def sq_promote_job_def simple_transition_def board_state_def Let_def
      put_row_state fun_eq_iff split: option.splits if_splits)

lemma delete_done: "delete_job (board_coord bp) i s = (Inr (), s') \<Longrightarrow> board_state s' = (board_state s)(i := None)"
  by (auto simp: board_coord_def on_store_def sq_delete_job_def board_state_def put_row_state fun_eq_iff
      split: option.splits if_splits)

lemma schedule_done:
  "schedule_pending_job (board_coord bp) i at s = (Inr (), s') \<Longrightarrow>
     board_state s i = Some ''pending'' \<and> board_state s' = (board_state s)(i \<mapsto> ''scheduled'') \<and>
     (\<exists>j. jobs (bo_store s') i = Some j \<and> scheduled_at_ms (env j) = at)"
  by (auto simp: board_coord_def on_store_def sq_schedule_pending_job_def board_state_def put_row_state fun_eq_iff
      split: option.splits if_splits)

lemma mutations_done:
  assumes "run_mutations (board_coord bp) ms s = (Inr (), s')" "distinct (map fst ms)"
  shows "board_state s' k =
    (case map_of ms k of None \<Rightarrow> board_state s k | Some d \<Rightarrow> if d then None else Some ''available'')"
  using assms
proof (induction ms arbitrary: s)
  case (Cons m ms)
  obtain i d where m: "m = (i, d)" by (cases m)
  from Cons.prems(1) m obtain s1 where
    o: "(if d then delete_job (board_coord bp) i else promote_job (board_coord bp) i) s = (Inr (), s1)"
    and r: "run_mutations (board_coord bp) ms s1 = (Inr (), s')"
    by (auto simp: seq_def call_def split: sum.splits prod.splits)
  have "board_state s1 = (board_state s)(i := (if d then None else Some ''available''))"
    using o promote_done delete_done by (cases d) auto
  moreover have "map_of ms i = None" using Cons.prems(2) m by (simp add: map_of_eq_None_iff)
  ultimately show ?case using Cons.IH [OF r] Cons.prems(2) m by (auto split: option.split)
qed (simp add: give_def)

definition mutation_of :: "wf_error + verdict \<Rightarrow> (string \<times> bool) option" where
  "mutation_of v = (case v of Inr (Mutate i d) \<Rightarrow> Some (i, d) | _ \<Rightarrow> None)"

lemma scan_mutations:
  "scan_nodes j ms nodes = Inr (Mutations ms') \<Longrightarrow> ms' = ms @ List.map_filter (\<lambda>n. mutation_of (j n)) nodes"
proof (induction nodes arbitrary: ms)
  case (Cons n nodes)
  from Cons.prems obtain v where v: "j n = Inr v" by (auto split: sum.splits)
  show ?case
  proof (cases v)
    case (Mutate i d)
    with v Cons.prems Cons.IH [of "ms @ [(i, d)]"] show ?thesis by (simp add: map_filter_simps mutation_of_def)
  qed (use v Cons in \<open>simp_all add: map_filter_simps mutation_of_def\<close>)
qed (simp add: map_filter_simps)

lemma judge_own:
  "judge we t c state completed failed n = Inr v \<Longrightarrow> v = Mutate i d \<or> v = Wake i at \<Longrightarrow> i = ns_job_id n"
  by (auto simp: judge_def Let_def map_sum_Inr_iff split: if_splits node_type.splits sum.splits option.splits)

lemma task_no_wake: "ns_kind n = NTask \<Longrightarrow> judge we t c state completed failed n \<noteq> Inr (Wake i at)"
  by (auto simp: judge_def Let_def map_sum_Inr_iff split: if_splits sum.splits)

lemma map_filter_keys:
  assumes "distinct (map f xs)" "\<And>x y. x \<in> set xs \<Longrightarrow> g x = Some y \<Longrightarrow> fst y = f x"
  shows "distinct (map fst (List.map_filter g xs)) \<and> set (List.map_filter g xs) = {y. \<exists>x \<in> set xs. g x = Some y}"
  using assms
proof (induction xs)
  case (Cons x xs)
  then have IH: "distinct (map fst (List.map_filter g xs))" "set (List.map_filter g xs) = {y. \<exists>x \<in> set xs. g x = Some y}"
    by auto
  show ?case
  proof (cases "g x")
    case (Some y)
    then have "fst y = f x" using Cons.prems(2) by simp
    have "fst z \<noteq> f x" if "z \<in> set (List.map_filter g xs)" for z
    proof -
      from that IH(2) obtain w where w: "w \<in> set xs" "g w = Some z" by auto
      then have "fst z = f w" using Cons.prems(2) by simp
      moreover have "f x \<notin> f ` set xs" using Cons.prems(1) by simp
      ultimately show ?thesis using w(1) by (metis imageI)
    qed
    then have "f x \<notin> fst ` set (List.map_filter g xs)" by (metis imageE)
    moreover have "set (List.map_filter g (x # xs)) = insert y {y. \<exists>x \<in> set xs. g x = Some y}"
      using Some IH(2) by (simp add: map_filter_simps)
    ultimately show ?thesis using IH(1) Some \<open>fst y = f x\<close> by (auto simp: map_filter_simps)
  qed (use IH in \<open>auto simp: map_filter_simps\<close>)
qed (simp add: map_filter_simps)

lemma tick_acts:
  assumes "scan_nodes (judge we t c state completed failed) [] (ct_nodes t) = Inr (Mutations ms)"
    and "run_mutations (board_coord bp) ms1 s = (Inr (), s')" "mset ms1 = mset ms" "distinct (map ns_job_id (ct_nodes t))"
    and "n \<in> set (ct_nodes t)" "judge we t c state completed failed n = Inr (Mutate i d)"
  shows "board_state s' (ns_job_id n) = (if d then None else Some ''available'')"
proof -
  let ?g = "\<lambda>n. mutation_of (judge we t c state completed failed n)"
  have "fst y = ns_job_id n" if "?g n = Some y" for n y
    using that judge_own by (auto simp: mutation_of_def split: sum.splits verdict.splits)
  note k = map_filter_keys [where g = ?g, OF assms(4) this] scan_mutations [OF assms(1)]
  have "?g n = Some (ns_job_id n, d)" using assms(6) judge_own [OF assms(6)] by (simp add: mutation_of_def)
  with k assms(5) have "distinct (map fst ms)" "(ns_job_id n, d) \<in> set ms" by auto
  moreover have "mset (map fst ms1) = mset (map fst ms)" using assms(3) by (simp add: mset_map)
  ultimately have "distinct (map fst ms1)" "(ns_job_id n, d) \<in> set ms1"
    using mset_eq_imp_distinct_iff [of "map fst ms1" "map fst ms"] mset_eq_setD [OF assms(3)] by simp_all
  with mutations_done [OF assms(2)] show ?thesis by simp
qed

text \<open>C27. A coordinator is never stuck and never wrong about the end. On the rows of a store, for a
  workflow whose nodes have different job ids: it reports success exactly when every node is
  complete; it reports failure only when there is a failed node and every node is complete or
  downstream of a dead one; and a report of either kind leaves the rows as they were read. When it
  says that it waits, one of three things has happened. It has put a pending timer on its schedule,
  for the deadline it computed. Or it found nodes to promote or to delete, and each of them now is
  available or gone. Or it found nothing to do, and then there is a node, not failed, with all its
  dependencies complete, that waits for something outside: its own job, a signal, an absolute timer,
  or a condition that does not hold yet. The order in which concurrent mutations take effect is
  any order of them.\<close>

theorem tick_never_stuck:
  assumes "hash_ok (bp_env bp)" "\<forall>ms. mset (bp_order bp ms) = mset ms" "distinct (map ns_job_id (ct_nodes t))"
    and "tick_with_evidence (board_coord bp) t persist c s = (Inr (r, c'), s')"
    and "gather (board_coord bp) t persist c s = (Inr (state, completed, c1), s1)"
    and "failed = failed_set t state completed"
  shows "(r = Succeeded \<longleftrightarrow> ns_name ` set (ct_nodes t) \<subseteq> completed) \<and>
    (r = Failed \<longrightarrow> failed \<noteq> {} \<and> ns_name ` set (ct_nodes t) \<subseteq> completed \<union> failed) \<and>
    (r \<noteq> Waiting \<longrightarrow> s' = s1) \<and>
    (r = Waiting \<longrightarrow>
      (\<exists>n \<in> set (ct_nodes t). \<exists>at j. judge (bp_env bp) t c1 state completed failed n = Inr (Wake (ns_job_id n) at) \<and>
         board_state s1 (ns_job_id n) = Some ''pending'' \<and> board_state s' (ns_job_id n) = Some ''scheduled'' \<and>
         jobs (bo_store s') (ns_job_id n) = Some j \<and> scheduled_at_ms (env j) = at) \<or>
      (\<exists>n \<in> set (ct_nodes t). \<exists>d. judge (bp_env bp) t c1 state completed failed n = Inr (Mutate (ns_job_id n) d)) \<and>
        (\<forall>n \<in> set (ct_nodes t). \<forall>i d. judge (bp_env bp) t c1 state completed failed n = Inr (Mutate i d) \<longrightarrow>
           board_state s' (ns_job_id n) = (if d then None else Some ''available'')) \<or>
      s' = s1 \<and> (\<exists>n \<in> set (ct_nodes t). ns_name n \<notin> failed \<and> awaits (bp_env bp) t c1 state completed n))"
proof -
  let ?j = "judge (bp_env bp) t c1 state completed failed"
  have h: "hash_ok (co_env (board_coord bp))" using assms(1) by simp
  note v = tick_verdict [OF h assms(4-6)]
  from assms(4) obtain st comp c2 s2 p where g: "gather (board_coord bp) t persist c s = (Inr (st, comp, c2), s2)"
    and p: "scan_nodes (judge (co_env (board_coord bp)) t c2 st comp (failed_set t st comp)) [] (ct_nodes t) = Inr p"
    and act: "case p of
       Deadline i wake \<Rightarrow> r = Waiting \<and> schedule_pending_job (board_coord bp) i wake s2 = (Inr (), s')
     | Mutations ms \<Rightarrow>
         if ms \<noteq> [] then r = Waiting \<and> run_mutations (board_coord bp) (mutation_order (board_coord bp) ms) s2 = (Inr (), s')
         else r = final_verdict (\<lambda>n. effective_state n (st (ns_name n)) comp) (failed_set t st comp)
                False (ct_nodes t) \<and> s' = s2"
    by (rule tick_cases) blast
  from g assms(5,6) p have s2: "s2 = s1" and p: "scan_nodes ?j [] (ct_nodes t) = Inr p" by simp_all
  show ?thesis
  proof (cases p)
    case (Deadline i at)
    with scan_nodes_from [OF p] obtain n where n: "n \<in> set (ct_nodes t)" "?j n = Inr (Wake i at)" by auto
    moreover have i: "i = ns_job_id n" using judge_own [OF n(2)] by simp
    moreover from act Deadline s2 have r: "r = Waiting" and "schedule_pending_job (board_coord bp) i at s1 = (Inr (), s')" by simp_all
    moreover note schedule_done [OF this(2)]
    ultimately have w: "\<exists>n \<in> set (ct_nodes t). \<exists>at j. ?j n = Inr (Wake (ns_job_id n) at) \<and>
         board_state s1 (ns_job_id n) = Some ''pending'' \<and> board_state s' (ns_job_id n) = Some ''scheduled'' \<and>
         jobs (bo_store s') (ns_job_id n) = Some j \<and> scheduled_at_ms (env j) = at"
      by (intro bexI [of _ n]) auto
    have "r \<noteq> Succeeded" "r \<noteq> Failed" using r by simp_all
    with w r v show ?thesis by blast
  next
    case (Mutations ms)
    show ?thesis
    proof (cases "ms = []")
      case True
      with act Mutations s2 have "s' = s1" by simp
      moreover have "?j n = Inr Leave" if "n \<in> set (ct_nodes t)" for n
        using scan_nodes_idle [OF p [unfolded Mutations True]] that by blast
      ultimately show ?thesis using v by auto
    next
      case False
      then obtain i d where "(i, d) \<in> set ms" by (cases ms) auto
      with scan_nodes_from [OF p] Mutations obtain n where n: "n \<in> set (ct_nodes t)" "?j n = Inr (Mutate i d)" by fastforce
      moreover have "i = ns_job_id n" using judge_own [OF n(2)] by simp
      moreover have "r \<noteq> Succeeded" "r \<noteq> Failed" using act Mutations False by simp_all
      moreover from act Mutations False s2 have r: "r = Waiting" "run_mutations (board_coord bp) (bp_order bp ms) s1 = (Inr (), s')" by simp_all
      moreover have "board_state s' (ns_job_id n) = (if d then None else Some ''available'')"
        if "n \<in> set (ct_nodes t)" "?j n = Inr (Mutate i d)" for n i d
        using tick_acts [OF p [unfolded Mutations] r(2) _ assms(3) that] assms(2) by blast
      ultimately show ?thesis using v by blast
    qed
  qed
qed

section \<open>Witnesses\<close>

text \<open>
  The two tasks of the demonstration workflow, pending. A coordinator starts the first; a worker
  draws it and completes it; a further attempt of the coordinator finds it completed, stores that in
  its cursor, and starts the second.
\<close>

definition demo_params :: board_params where
  "demo_params =
     \<lparr>bp_env = demo_wf_env, bp_enc = \<lambda>_. Inl [], bp_dec = \<lambda>_. Inl [], bp_order = id, bp_rows = [],
      bp_json_ok = \<lambda>_. True, bp_lease_ok = \<lambda>_. True\<rparr>"

definition demo_pending :: "string \<Rightarrow> mem_job" where
  "demo_pending i = mem_job_default\<lparr>env := demo_job i, jstate := ''pending''\<rparr>"

definition demo_board :: board where
  "demo_board =
     \<lparr>bo_store = inner_default\<lparr>jobs := [''w:a'' \<mapsto> demo_pending ''w:a'', ''w:b'' \<mapsto> demo_pending ''w:b'']\<rparr>,
      bo_now = 1, bo_cursor = None, bo_output = None, bo_events = ([], 0)\<rparr>"

definition demo_noted :: workflow_cursor where
  "demo_noted = cursor_default\<lparr>cu_completed_at_ms := [''a'' \<mapsto> 1], cu_completed := [''a''],
     cu_events := [\<lparr>we_sequence = 1, we_event = ''node_completed'', we_node = Some ''a'', we_revision = 1,
       we_generation = 1, we_at_ms = Some 1\<rparr>]\<rparr>"

definition demo_live :: board_params where
  "demo_live = demo_params
     \<lparr>bp_enc := \<lambda>c. if c = demo_noted then Inr ''a'' else Inl [],
      bp_dec := \<lambda>p. if p = ''a'' then Inr demo_noted else Inl []\<rparr>"

lemma demo_live_sel [simp]:
  "bp_env demo_live = demo_wf_env" "bp_order demo_live = id" "bp_dec demo_live ''a'' = Inr demo_noted"
  by (simp_all add: demo_live_def demo_params_def)

lemma demo_pending_sel [simp]: "env (demo_pending i) = demo_job i" "jstate (demo_pending i) = ''pending''"
  by (simp_all add: demo_pending_def)

lemma demo_board_sel [simp]:
  "bo_cursor demo_board = None" "bo_now demo_board = 1"
  "jobs (bo_store demo_board) = [''w:a'' \<mapsto> demo_pending ''w:a'', ''w:b'' \<mapsto> demo_pending ''w:b'']"
  by (simp_all add: demo_board_def)



definition demo_opened :: board where
  "demo_opened = snd (on_store (\<lambda>now. sq_promote_job now ''w:a'') demo_board)"

lemma demo_promote: "on_store (\<lambda>now. sq_promote_job now ''w:a'') demo_board = (Inr (), demo_opened)"
  by (simp add: demo_opened_def on_store_def sq_promote_job_def simple_transition_def Let_def)

definition demo_ready :: mem_job where
  "demo_ready = (demo_pending ''w:a'')\<lparr>jstate := ''available'', env := (demo_job ''w:a'')\<lparr>scheduled_at_ms := 1\<rparr>,
     finalized_at := 0, lease_id := [], lease_expires := 0\<rparr>"

lemma demo_opened_eq:
  "demo_opened = demo_board\<lparr>bo_store := (bo_store demo_board)
     \<lparr>jobs := [''w:a'' \<mapsto> demo_ready, ''w:b'' \<mapsto> demo_pending ''w:b'']\<rparr>\<rparr>"
proof -
  have "live ''available''" by (simp add: live_def is_terminal_def)
  then show ?thesis
    by (simp add: demo_opened_def on_store_def sq_promote_job_def simple_transition_def Let_def put_row_def
        demo_ready_def fun_upd_twist)
qed

abbreviation demo_seen :: job_states where
  "demo_seen \<equiv> [''b'' \<mapsto> sq_summary False (demo_pending ''w:b''), ''a'' \<mapsto> sq_summary False (demo_pending ''w:a'')]"

lemma demo_first_decision:
  "gather (board_coord bp) demo_task True cursor_default demo_board = (Inr (demo_seen, {}, cursor_default), demo_board)"
  "failed_set demo_task demo_seen {} = {}"
  "scan_nodes (judge we demo_task c demo_seen {} {}) [] (ct_nodes demo_task) = Inr (Mutations [(''w:a'', False)])"
proof -
  have st: "js_state (sq_summary False (demo_pending i)) = ''pending''" for i by (simp add: sq_summary_def Let_def)
  show "gather (board_coord bp) demo_task True cursor_default demo_board = (Inr (demo_seen, {}, cursor_default), demo_board)"
    by (rule demo_gather) (simp_all add: board_coord_def sq_get_job_def st cursor_default_def)
  show "failed_set demo_task demo_seen {} = {}" by (rule demo_no_failure) (simp_all add: st)
  show "scan_nodes (judge we demo_task c demo_seen {} {}) [] (ct_nodes demo_task) = Inr (Mutations [(''w:a'', False)])"
    by (simp add: judge_def effective_state_def st virtual_def)
qed


theorem tick_never_stuck_witness:
  "tick_with_evidence (board_coord demo_live) demo_task True cursor_default demo_board = (Inr (Waiting, cursor_default), demo_opened) \<and>
   board_state demo_board ''w:a'' = Some ''pending'' \<and> board_state demo_opened ''w:a'' = Some ''available''"
proof -
  let ?co = "board_coord demo_live"
  note d = demo_first_decision
  have "run_mutations ?co [(''w:a'', False)] demo_board = (Inr (), demo_opened)"
    using demo_promote by (simp add: seq_def call_def board_coord_def give_def)
  then have t: "tick_with_evidence ?co demo_task True cursor_default demo_board = (Inr (Waiting, cursor_default), demo_opened)"
    unfolding tick_with_evidence_def
    by (simp add: seq_def demo_accepted d(1,2,3) del: demo_task_sel run_mutations.simps)
  let ?a = "spec_of ''a'' ''w:a'' [] (plain_detail NTask)"
  have j: "judge demo_wf_env demo_task cursor_default demo_seen {} {} ?a = Inr (Mutate ''w:a'' False)"
    by (simp add: judge_def effective_state_def sq_summary_def Let_def virtual_def)
  have "ns_kind n = NTask" if "n \<in> set (ct_nodes demo_task)" for n using that by auto
  then have w: "judge demo_wf_env demo_task cursor_default demo_seen {} {} n \<noteq> Inr (Wake i at)"
    if "n \<in> set (ct_nodes demo_task)" for n i at
    using that task_no_wake by blast
  have h: "hash_ok (bp_env demo_live)" "\<forall>ms. mset (bp_order demo_live ms) = mset ms"
    "distinct (map ns_job_id (ct_nodes demo_task))"
    using demo_hash_ok by simp_all
  have "bo_store demo_opened \<noteq> bo_store demo_board"
    by (auto simp: demo_opened_eq demo_ready_def dest!: arg_cong [where f = "\<lambda>s. map_option jstate (jobs s ''w:a'')"])
  then have "demo_opened \<noteq> demo_board" by auto
  with w tick_never_stuck [OF h t d(1) refl, unfolded d(2) demo_live_sel(1),
      THEN conjunct2, THEN conjunct2, THEN conjunct2, rule_format, OF refl]
  have "\<forall>n \<in> set (ct_nodes demo_task). \<forall>i d. judge demo_wf_env demo_task cursor_default demo_seen {} {} n = Inr (Mutate i d) \<longrightarrow>
      board_state demo_opened (ns_job_id n) = (if d then None else Some ''available'')"
    by blast
  moreover have "?a \<in> set (ct_nodes demo_task)" "ns_job_id ?a = ''w:a''" by simp_all
  ultimately have "board_state demo_opened ''w:a'' = Some ''available''" using j by fastforce
  with t show ?thesis by (simp add: board_state_def)
qed



















end
