(* ===== verification/WorkflowOps.thy ===== *)
theory WorkflowOps
  imports WorkflowRun
begin

text \<open>
  headgate-workflow/src/lib.rs, what operators and clients do to a workflow that exists, and the
  handler that the coordinator's job runs: inspection, cancellation across linked workflows, signal
  emission, the request to retry a failed part, the reconciliation of retry and graft receipts, and
  the automatic retry. They use the operations of \<open>Coordinator\<close>. The lemmas show what a
  cancellation and an emission do to a store of \<open>WorkflowRun\<close>, and what every write of the
  handler leaves in the durable cursor.
\<close>

section \<open>Shared pieces\<close>

definition expect :: "string \<Rightarrow> 'a option \<Rightarrow> ('s, 'a) act" where
  "expect m x = (case x of None \<Rightarrow> give_up (WF m) | Some y \<Rightarrow> give y)"

definition parsed :: "string \<Rightarrow> string + 'a \<Rightarrow> ('s, 'a) act" where
  "parsed pre r = of_sum (map_sum (\<lambda>m. WF (pre @ m)) id r)"

text \<open>The error of an action as a value, for the places that go on after one; a panic is not one.\<close>

definition attempt_act :: "('s, 'a) act \<Rightarrow> ('s, string + 'a) act" where
  "attempt_act m s =
     (case m s of
        (Inl (WF e), s') \<Rightarrow> (Inr (Inl e), s')
      | (Inl Stuck, s') \<Rightarrow> (Inl Stuck, s')
      | (Inr x, s') \<Rightarrow> (Inr (Inr x), s'))"

definition coordinator_id :: "string \<Rightarrow> string" where
  "coordinator_id wid = wid @ '':coordinator''"

definition fetch_coordinator :: "'s coord \<Rightarrow> string \<Rightarrow> ('s, job_summary \<times> coordinator_task) act" where
  "fetch_coordinator co wid =
     seq (query (get_job co (coordinator_id wid) True)) (\<lambda>found.
     seq (expect (''workflow `'' @ wid @ ''` was not found'') found) (\<lambda>job.
     seq (expect ''workflow coordinator payload was not returned'' (js_payload job)) (\<lambda>payload.
     seq (parsed ''invalid workflow coordinator: malformed payload: '' (dec_coordinator (co_env co) payload)) (\<lambda>task.
       give (job, task)))))"

section \<open>Inspection\<close>

record workflow_node =
  wn_name :: string
  wn_job_id :: string
  wn_kind :: node_type
  wn_job_kind :: string
  wn_state :: string
  wn_dependencies :: "string list"
  wn_dependents :: "string list"
  wn_signal :: "string option"
  wn_wake_at_ms :: "i64 option"
  wn_delay_ms :: "i64 option"
  wn_child_workflow_id :: "string option"
  wn_condition :: "string option"
  wn_completed_at_ms :: "i64 option"

record workflow_snapshot =
  sn_workflow_id :: string
  sn_coordinator_job_id :: string
  sn_coordinator_state :: string
  sn_revision :: u64
  sn_generation :: u32
  sn_failed :: bool
  sn_failed_subgraph_retry :: bool
  sn_retry_policy :: "workflow_retry_policy option"
  sn_nodes :: "workflow_node list"

definition snapshot_node :: "workflow_snapshot \<Rightarrow> string \<Rightarrow> workflow_node option" where
  "snapshot_node sn n = find (\<lambda>node. wn_name node = n) (sn_nodes sn)"

definition snapshot_dependencies :: "workflow_snapshot \<Rightarrow> string \<Rightarrow> workflow_node list option" where
  "snapshot_dependencies sn n =
     map_option (\<lambda>node. List.map_filter (snapshot_node sn) (wn_dependencies node)) (snapshot_node sn n)"

definition snapshot_dependents :: "workflow_snapshot \<Rightarrow> string \<Rightarrow> workflow_node list option" where
  "snapshot_dependents sn n =
     map_option (\<lambda>node. List.map_filter (snapshot_node sn) (wn_dependents node)) (snapshot_node sn n)"

definition wrong_step :: "checkpoint \<Rightarrow> bool" where
  "wrong_step cp = (case cursor_step cp of None \<Rightarrow> False | Some st \<Rightarrow> st \<noteq> ''headgate:workflow-state'')"

definition load_workflow_cursor :: "'s coord \<Rightarrow> string \<Rightarrow> string \<Rightarrow> ('s, workflow_cursor) act" where
  "load_workflow_cursor co i st =
     seq (expect ''workflow inspection requires checkpoint inspection support'' (get_job_checkpoint co)) (\<lambda>read.
     seq (query (read i)) (\<lambda>found.
       case found of
         None \<Rightarrow> give cursor_default
       | Some cp \<Rightarrow>
           if wrong_step cp then give_up (WF ''workflow coordinator has no workflow-state checkpoint'')
           else seq (case cursor cp of
                       Some b \<Rightarrow> give (Some b)
                     | None \<Rightarrow>
                         (case coord.get_job_output co of
                            Some out \<Rightarrow> seq (query (out i)) (\<lambda>kept. give (map_option out_bytes kept))
                          | None \<Rightarrow> give None)) (\<lambda>bytes.
                case bytes of
                  None \<Rightarrow>
                    if st \<in> {''completed'', ''archived'', ''cancelled'', ''quarantined'', ''undecodable''}
                    then give_up (WF ''terminal workflow has no durable coordinator output'')
                    else give cursor_default
                | Some b \<Rightarrow> parsed ''invalid workflow cursor: '' (dec_cursor co b))))"

definition inspect_node :: "coordinator_task \<Rightarrow> workflow_cursor \<Rightarrow> node_spec \<Rightarrow> job_summary option \<Rightarrow> workflow_node" where
  "inspect_node effective c node job =
     \<lparr>wn_name = ns_name node, wn_job_id = ns_job_id node, wn_kind = ns_kind node,
      wn_job_kind = (case job of None \<Rightarrow> [] | Some j \<Rightarrow> js_kind j),
      wn_state = (case job of
          None \<Rightarrow> if ns_name node \<in> set (cu_completed c) then ''completed'' else ''missing''
        | Some j \<Rightarrow> js_state j),
      wn_dependencies = ns_deps node,
      wn_dependents = concat (map (\<lambda>n. map (\<lambda>_. ns_name n) (filter (\<lambda>d. d = ns_name node) (ns_deps n))) (ct_nodes effective)),
      wn_signal = ns_signal node, wn_wake_at_ms = ns_wake_at_ms node, wn_delay_ms = ns_delay_ms node,
      wn_child_workflow_id = ns_child_workflow_id node, wn_condition = ns_condition node,
      wn_completed_at_ms = cu_completed_at_ms c (ns_name node)\<rparr>"

text \<open>The reads run concurrently in the code and are put back in node order; here they are in order.\<close>

fun inspect_nodes ::
  "'s coord \<Rightarrow> coordinator_task \<Rightarrow> workflow_cursor \<Rightarrow> node_spec list \<Rightarrow> ('s, workflow_node list) act" where
  "inspect_nodes co effective c [] = give []"
| "inspect_nodes co effective c (node # nodes) =
     seq (query (get_job co (ns_job_id node) False)) (\<lambda>job.
     seq (inspect_nodes co effective c nodes) (\<lambda>rest. give (inspect_node effective c node job # rest)))"

definition inspect_workflow :: "'s coord \<Rightarrow> string \<Rightarrow> ('s, workflow_snapshot) act" where
  "inspect_workflow co wid =
     (if wid = [] then give_up (WF ''workflow id must not be empty'')
      else seq (fetch_coordinator co wid) (\<lambda>(job, base).
           seq (load_workflow_cursor co (coordinator_id wid) (js_state job)) (\<lambda>c.
           let effective = effective_workflow base c
           in seq (inspect_nodes co effective c (ct_nodes effective)) (\<lambda>nodes.
              give \<lparr>sn_workflow_id = wid, sn_coordinator_job_id = coordinator_id wid,
                    sn_coordinator_state = js_state job, sn_revision = cu_revision c,
                    sn_generation = cu_generation c, sn_failed = cu_failed c,
                    sn_failed_subgraph_retry = ct_failed_subgraph_retry base,
                    sn_retry_policy = ct_retry_policy base, sn_nodes = nodes\<rparr>))))"

definition workflow_node_of :: "'s coord \<Rightarrow> string \<Rightarrow> string \<Rightarrow> ('s, workflow_node) act" where
  "workflow_node_of co wid n =
     seq (inspect_workflow co wid) (\<lambda>sn.
       expect (''workflow node `'' @ n @ ''` was not found'') (snapshot_node sn n))"

definition workflow_dependencies :: "'s coord \<Rightarrow> string \<Rightarrow> string \<Rightarrow> ('s, workflow_node list) act" where
  "workflow_dependencies co wid n =
     seq (inspect_workflow co wid) (\<lambda>sn.
       expect (''workflow node `'' @ n @ ''` was not found'') (snapshot_dependencies sn n))"

definition workflow_dependents :: "'s coord \<Rightarrow> string \<Rightarrow> string \<Rightarrow> ('s, workflow_node list) act" where
  "workflow_dependents co wid n =
     seq (inspect_workflow co wid) (\<lambda>sn.
       expect (''workflow node `'' @ n @ ''` was not found'') (snapshot_dependents sn n))"

definition workflow_events :: "'s coord \<Rightarrow> string \<Rightarrow> ('s, workflow_event list) act" where
  "workflow_events co wid =
     seq (expect ''workflow history requires checkpoint inspection support'' (get_job_checkpoint co)) (\<lambda>read.
     seq (query (read (coordinator_id wid))) (\<lambda>found.
     seq (expect (''workflow `'' @ wid @ ''` was not found'') found) (\<lambda>cp.
       if wrong_step cp then give_up (WF ''workflow coordinator has no workflow-state checkpoint'')
       else seq (case cursor cp of
                   Some b \<Rightarrow> give b
                 | None \<Rightarrow>
                     seq (expect ''workflow history requires output inspection support'' (coord.get_job_output co)) (\<lambda>out.
                     seq (query (out (coordinator_id wid))) (\<lambda>kept.
                       expect ''workflow has no durable history'' (map_option out_bytes kept)))) (\<lambda>bytes.
            seq (parsed ''invalid workflow cursor: '' (dec_cursor co bytes)) (\<lambda>c. give (cu_events c))))))"

text \<open>The list of coordinators; \<open>list_jobs\<close> is the store's page of jobs of a kind.\<close>

record workflow_summary =
  wy_workflow_id :: string
  wy_coordinator_job_id :: string
  wy_state :: string
  wy_enqueued_at_ms :: i64
  wy_scheduled_at_ms :: i64
  wy_finalized_at_ms :: "i64 option"

record workflow_page =
  wp_workflows :: "workflow_summary list"
  wp_next_cursor :: "string option"

definition strip_suffix :: "string \<Rightarrow> string \<Rightarrow> string option" where
  "strip_suffix suf x =
     (if length suf \<le> length x \<and> drop (length x - length suf) x = suf then Some (take (length x - length suf) x) else None)"

definition workflow_summary_of :: "job_summary \<Rightarrow> workflow_summary" where
  "workflow_summary_of job =
     \<lparr>wy_workflow_id = (case strip_suffix '':coordinator'' (js_id job) of None \<Rightarrow> js_id job | Some w \<Rightarrow> w),
      wy_coordinator_job_id = js_id job, wy_state = js_state job, wy_enqueued_at_ms = js_enqueued_at_ms job,
      wy_scheduled_at_ms = js_scheduled_at_ms job, wy_finalized_at_ms = js_finalized_at_ms job\<rparr>"

definition list_workflows ::
  "(string \<Rightarrow> string option \<Rightarrow> u32 \<Rightarrow> 's \<Rightarrow> (job_summary list \<times> string option) result) \<Rightarrow> string option \<Rightarrow> u32
    \<Rightarrow> ('s, workflow_page) act" where
  "list_workflows list_jobs from limit =
     (if \<not> (1 \<le> limit \<and> limit \<le> 200) then give_up (WF ''workflow list limit must be between 1 and 200'')
      else seq (query (list_jobs COORDINATOR_TYPE from limit)) (\<lambda>(found, following).
        give \<lparr>wp_workflows = map workflow_summary_of found, wp_next_cursor = following\<rparr>))"

section \<open>Cancellation\<close>

record cancel_receipt =
  cr_workflows :: nat
  cr_jobs :: nat

definition cancellable :: "string \<Rightarrow> bool" where
  "cancellable st \<longleftrightarrow> st \<in> {''pending'', ''scheduled'', ''available'', ''running'', ''retryable''}"

fun cancel_each :: "'s coord \<Rightarrow> string list \<Rightarrow> nat \<Rightarrow> ('s, nat) act" where
  "cancel_each co [] n = give n"
| "cancel_each co (i # is) n =
     seq (query (get_job co i False)) (\<lambda>job.
       case job of
         None \<Rightarrow> cancel_each co is n
       | Some j \<Rightarrow>
           if cancellable (js_state j)
           then seq (call (operator_cancel co i)) (\<lambda>_. cancel_each co is (n + 1))
           else cancel_each co is n)"

definition child_ids :: "coordinator_task \<Rightarrow> string list" where
  "child_ids task = List.map_filter ns_child_workflow_id (ct_nodes task)"

definition workflow_jobs :: "string \<Rightarrow> coordinator_task \<Rightarrow> string list" where
  "workflow_jobs wid task = map ns_job_id (ct_nodes task) @ [coordinator_id wid]"

text \<open>The traversal: \<open>todo\<close> is the queue, \<open>visited\<close> the set, newest first.\<close>

function cancel_loop ::
  "'s coord \<Rightarrow> bool \<Rightarrow> string list \<Rightarrow> string list \<Rightarrow> nat \<Rightarrow> ('s, cancel_receipt) act" where
  "cancel_loop co propagate [] visited n s = (Inr \<lparr>cr_workflows = length visited, cr_jobs = n\<rparr>, s)"
| "cancel_loop co propagate (current # todo) visited n s =
     (if current \<in> set visited then cancel_loop co propagate todo visited n s
      else if length visited + 1 > MAX_WORKFLOW_NODES
      then (Inl (WF ''workflow cancellation exceeds the bounded nested-workflow limit''), s)
      else case fetch_coordinator co current s of
        (Inl e, s1) \<Rightarrow> (Inl e, s1)
      | (Inr (job, task), s1) \<Rightarrow>
          (case cancel_each co (workflow_jobs current task) n s1 of
             (Inl e, s2) \<Rightarrow> (Inl e, s2)
           | (Inr n1, s2) \<Rightarrow>
               cancel_loop co propagate (todo @ (if propagate then child_ids task else [])) (current # visited) n1 s2))"
  by pat_completeness auto

termination cancel_loop
  by (relation "measures [\<lambda>(co, propagate, todo, visited, n, s). MAX_WORKFLOW_NODES - length visited,
      \<lambda>(co, propagate, todo, visited, n, s). length todo]")
    auto

definition cancel_workflow :: "'s coord \<Rightarrow> string \<Rightarrow> bool \<Rightarrow> ('s, cancel_receipt) act" where
  "cancel_workflow co wid propagate =
     (if wid = [] then give_up (WF ''workflow id must not be empty'')
      else cancel_loop co propagate [wid] [] 0)"

section \<open>Signals\<close>

text \<open>A JSON value is a value of serde_json; the crate writes, reads and compares none of its parts.\<close>

record 'j json_codec =
  enc_json :: "'j \<Rightarrow> string + bytes"
  dec_json :: "bytes \<Rightarrow> string + 'j"
  json_null :: 'j
  json_object :: 'j

record 'j signal_emission =
  em_signal :: string
  em_idempotency_key :: string
  em_payload :: 'j
  em_source :: 'j

record 'j workflow_signal_record =
  ws_id :: u64
  ws_signal :: string
  ws_idempotency_key :: string
  ws_payload :: 'j
  ws_source :: 'j
  ws_recorded_at_ms :: i64

record 'j signal_receipt =
  sr_matched :: nat
  sr_promoted :: nat
  sr_inserted :: bool
  sr_emission :: "'j workflow_signal_record"

definition MAX_SIGNAL_PAYLOAD_BYTES :: nat where "MAX_SIGNAL_PAYLOAD_BYTES = 64 * 1024"
definition MAX_SIGNAL_SOURCE_BYTES :: nat where "MAX_SIGNAL_SOURCE_BYTES = 16 * 1024"

definition workflow_signal_scope :: "string \<Rightarrow> string" where
  "workflow_signal_scope wid = ''workflow:'' @ wid @ '':signals''"

definition workflow_signal :: "'j json_codec \<Rightarrow> durable_event \<Rightarrow> ('s, 'j workflow_signal_record) act" where
  "workflow_signal js e =
     seq (parsed ''invalid signal payload: '' (dec_json js (de_payload e))) (\<lambda>p.
     seq (parsed ''invalid signal source: '' (dec_json js (de_source e))) (\<lambda>src.
       give \<lparr>ws_id = de_event_id e, ws_signal = de_topic e, ws_idempotency_key = de_idempotency_key e,
             ws_payload = p, ws_source = src, ws_recorded_at_ms = de_recorded_at_ms e\<rparr>))"

definition released_state :: "string \<Rightarrow> bool" where
  "released_state st \<longleftrightarrow> st \<in> {''available'', ''running'', ''completed''}"

fun promote_signals :: "'s coord \<Rightarrow> string list \<Rightarrow> nat \<Rightarrow> ('s, nat) act" where
  "promote_signals co [] n = give n"
| "promote_signals co (i # is) n =
     seq (query (get_job co i False)) (\<lambda>found.
     seq (expect (''signal job `'' @ i @ ''` was not found'') found) (\<lambda>job.
       if js_state job = ''pending''
       then (\<lambda>s. case promote_job co i s of
              (Inr _, s1) \<Rightarrow> promote_signals co is (n + 1) s1
            | (Inl e, s1) \<Rightarrow>
                seq (query (get_job co i False)) (\<lambda>current.
                  if (case current of None \<Rightarrow> False | Some j \<Rightarrow> released_state (js_state j))
                  then promote_signals co is n
                  else give_up (WF (store_error_fmt e))) s1)
       else if released_state (js_state job) then promote_signals co is n
       else give_up (WF (''signal job `'' @ i @ ''` cannot be emitted from state `'' @ js_state job @ ''`''))))"

definition signal_jobs :: "coordinator_task \<Rightarrow> string \<Rightarrow> string list" where
  "signal_jobs task sig =
     map ns_job_id (filter (\<lambda>n. ns_kind n = NSignal \<and> ns_signal n = Some sig) (ct_nodes task))"

definition emit_signal_with ::
  "'s coord \<Rightarrow> 'j json_codec \<Rightarrow> string \<Rightarrow> 'j signal_emission \<Rightarrow> ('s, 'j signal_receipt) act" where
  "emit_signal_with co js wid em =
     (let sig = em_signal em
      in if wid = [] \<or> sig = [] then give_up (WF ''workflow id and signal must not be empty'')
         else seq (fetch_coordinator co wid) (\<lambda>(job, task).
           let found = signal_jobs task sig
           in if found = [] then give_up (WF (''workflow `'' @ wid @ ''` has no signal `'' @ sig @ ''`''))
              else if em_idempotency_key em = [] then give_up (WF ''signal idempotency key must not be empty'')
              else seq (parsed [] (enc_json js (em_payload em))) (\<lambda>p.
                   seq (parsed [] (enc_json js (em_source em))) (\<lambda>src.
                     if length p > MAX_SIGNAL_PAYLOAD_BYTES
                     then give_up (WF ''signal payload must be at most 65536 bytes'')
                     else if length src > MAX_SIGNAL_SOURCE_BYTES
                     then give_up (WF ''signal source must be at most 16384 bytes'')
                     else seq (call (append_durable_event co
                                 \<lparr>de_event_id = 0, de_scope = workflow_signal_scope wid, de_topic = sig,
                                  de_idempotency_key = em_idempotency_key em, de_payload = p, de_source = src,
                                  de_recorded_at_ms = 0\<rparr>)) (\<lambda>(stored, inserted).
                          seq (promote_signals co found 0) (\<lambda>n.
                          seq (workflow_signal js stored) (\<lambda>rec.
                            give \<lparr>sr_matched = length found, sr_promoted = n, sr_inserted = inserted, sr_emission = rec\<rparr>)))))))"

definition emit_signal :: "'s coord \<Rightarrow> 'j json_codec \<Rightarrow> string \<Rightarrow> string \<Rightarrow> ('s, 'j signal_receipt) act" where
  "emit_signal co js wid sig =
     emit_signal_with co js wid
       \<lparr>em_signal = sig, em_idempotency_key = ''legacy:'' @ sig, em_payload = json_null js, em_source = json_object js\<rparr>"

fun workflow_signals :: "'j json_codec \<Rightarrow> durable_event list \<Rightarrow> ('s, 'j workflow_signal_record list) act" where
  "workflow_signals js [] = give []"
| "workflow_signals js (e # es) =
     seq (workflow_signal js e) (\<lambda>w. seq (workflow_signals js es) (\<lambda>rest. give (w # rest)))"

definition list_signals ::
  "(string \<Rightarrow> u64 option \<Rightarrow> u32 \<Rightarrow> 's \<Rightarrow> durable_event list result) \<Rightarrow> 'j json_codec \<Rightarrow> string \<Rightarrow> u64 option \<Rightarrow> u32
    \<Rightarrow> ('s, 'j workflow_signal_record list) act" where
  "list_signals list_durable_events js wid before limit =
     (if wid = [] then give_up (WF ''workflow id must not be empty'')
      else seq (query (list_durable_events (workflow_signal_scope wid) before limit)) (workflow_signals js))"

section \<open>Retry of a failed part\<close>

record retry_receipt =
  rr_revision :: u64
  rr_generation :: u32

record workflow_recovery =
  wr_node :: string
  wr_payload :: "bytes option"
  wr_schema_version :: "u32 option"
  wr_release_quarantine :: bool

definition recover_node :: "'s coord \<Rightarrow> workflow_recovery \<Rightarrow> string \<Rightarrow> job_summary \<Rightarrow> ('s, unit) act" where
  "recover_node co wr i job =
     (let st = js_state job
      in if st = ''quarantined''
         then if wr_release_quarantine wr
              then seq (call (quarantine_release co (js_fingerprint job))) (\<lambda>_. give ())
              else give_up (WF (''workflow node `'' @ wr_node wr @ ''` requires explicit quarantine release''))
         else if st = ''undecodable''
         then seq (expect (''undecodable workflow node `'' @ wr_node wr @ ''` requires replacement payload'') (wr_payload wr)) (\<lambda>p.
              seq (expect (''undecodable workflow node `'' @ wr_node wr @ ''` requires schema_version'') (wr_schema_version wr)) (\<lambda>v.
              seq (call (edit_payload co i p v (fingerprint_of (wf_sha256 (co_env co)) (js_kind job) p))) (\<lambda>_.
                call (operator_retry co i))))
         else if st \<in> {''archived'', ''cancelled'', ''available''} then give ()
         else give_up (WF (''workflow node `'' @ wr_node wr @ ''` does not require recovery from `'' @ st @ ''`'')))"

fun recover_all :: "'s coord \<Rightarrow> coordinator_task \<Rightarrow> string set \<Rightarrow> workflow_recovery list \<Rightarrow> ('s, unit) act" where
  "recover_all co task seen [] = give ()"
| "recover_all co task seen (wr # rest) =
     (if wr_node wr \<in> seen then give_up (WF (''workflow recovery repeats node `'' @ wr_node wr @ ''`''))
      else seq (expect (''workflow recovery names unknown node `'' @ wr_node wr @ ''`'')
                  (find (\<lambda>n. ns_name n = wr_node wr) (rev (ct_nodes task)))) (\<lambda>node.
           seq (query (get_job co (ns_job_id node) True)) (\<lambda>found.
           seq (expect (''workflow node `'' @ ns_job_id node @ ''` is missing'') found) (\<lambda>job.
           seq (recover_node co wr (ns_job_id node) job) (\<lambda>_.
             recover_all co task (insert (wr_node wr) seen) rest)))))"

fun unrecovered :: "'s coord \<Rightarrow> node_spec list \<Rightarrow> ('s, unit) act" where
  "unrecovered co [] = give ()"
| "unrecovered co (node # nodes) =
     seq (query (get_job co (ns_job_id node) False)) (\<lambda>found.
       case found of
         Some job \<Rightarrow>
           if js_state job \<in> {''quarantined'', ''undecodable''}
           then give_up (WF (''workflow node `'' @ ns_name node @ ''` requires recovery from `'' @ js_state job @ ''`''))
           else unrecovered co nodes
       | None \<Rightarrow> unrecovered co nodes)"

definition retry_envelope :: "wf_env \<Rightarrow> string \<Rightarrow> u64 \<Rightarrow> u64 \<Rightarrow> string \<Rightarrow> wf_error + envelope" where
  "retry_envelope we wid expected following q =
     (case malformed (enc_retry we \<lparr>rt_workflow_id = wid, rt_expected_revision = expected\<rparr>) of
        Inl e \<Rightarrow> Inl e
      | Inr p \<Rightarrow>
          prepare_envelope we
            (receipt_envelope we (retry_receipt_id wid following) RETRY_TYPE q DEFAULT_RETENTION_MS p))"

definition request_failed_subgraph_retry_with_recovery ::
  "'s coord \<Rightarrow> string \<Rightarrow> u64 \<Rightarrow> workflow_recovery list \<Rightarrow> ('s, retry_receipt) act" where
  "request_failed_subgraph_retry_with_recovery co wid expected recoveries =
     (if wid = [] \<or> expected = 0 then give_up (WF ''workflow id and expected revision must be set'')
      else seq (fetch_coordinator co wid) (\<lambda>(coordinator, task).
        if \<not> ct_failed_subgraph_retry task
        then give_up (WF ''workflow was not created with failed-subgraph retry enabled'')
        else if js_state coordinator \<noteq> ''archived''
        then give_up (WF (''workflow retry requires an archived coordinator, found `'' @ js_state coordinator @ ''`''))
        else seq (recover_all co task {} recoveries) (\<lambda>_.
             seq (unrecovered co (ct_nodes task)) (\<lambda>_.
             seq (expect ''workflow retry requires checkpoint inspection support'' (get_job_checkpoint co)) (\<lambda>read.
             seq (query (read (coordinator_id wid))) (\<lambda>found.
             seq (expect ''workflow coordinator checkpoint is missing'' found) (\<lambda>cp.
               if cursor_step cp \<noteq> Some ''headgate:workflow-state''
               then give_up (WF ''workflow coordinator has no workflow-state checkpoint'')
               else seq (expect ''workflow coordinator cursor is missing'' (cursor cp)) (\<lambda>bytes.
                    seq (parsed ''invalid workflow cursor: '' (dec_cursor co bytes)) (\<lambda>c.
                      if \<not> cu_failed c \<or> cu_revision c \<noteq> expected
                      then give_up (WF (''workflow retry revision conflict: expected '' @ show_nat (unat expected)
                             @ '', current '' @ show_nat (unat (cu_revision c))))
                      else seq (expect ''workflow retry revision would overflow'' (checked_add_word expected 1)) (\<lambda>following.
                           seq (expect ''workflow generation would overflow'' (checked_add_word (cu_generation c) 1)) (\<lambda>generation.
                           seq (of_sum (retry_envelope (co_env co) wid expected following (js_queue coordinator))) (\<lambda>receipt.
                           seq (call (enqueue_jobs co [receipt])) (\<lambda>_ s.
                             case operator_retry co (coordinator_id wid) s of
                               (Inr _, s1) \<Rightarrow> (Inr \<lparr>rr_revision = following, rr_generation = generation\<rparr>, s1)
                             | (Inl e, s1) \<Rightarrow>
                                 seq (query (get_job co (coordinator_id wid) False)) (\<lambda>current.
                                   if (case current of None \<Rightarrow> False | Some j \<Rightarrow> js_state j \<in> {''available'', ''running''})
                                   then give \<lparr>rr_revision = following, rr_generation = generation\<rparr>
                                   else give_up (WF (store_error_fmt e))) s1)))))))))))))"

definition request_failed_subgraph_retry :: "'s coord \<Rightarrow> string \<Rightarrow> u64 \<Rightarrow> ('s, retry_receipt) act" where
  "request_failed_subgraph_retry co wid expected =
     request_failed_subgraph_retry_with_recovery co wid expected []"

section \<open>Receipts\<close>

fun delete_unstarted :: "'s coord \<Rightarrow> string list \<Rightarrow> ('s, unit) act" where
  "delete_unstarted co [] = give ()"
| "delete_unstarted co (i # is) =
     seq (query (get_job co i False)) (\<lambda>found.
       case found of
         None \<Rightarrow> delete_unstarted co is
       | Some job \<Rightarrow>
           if js_state job \<in> {''pending'', ''scheduled'', ''available'', ''retryable''}
           then seq (call (delete_job co i)) (\<lambda>_. delete_unstarted co is)
           else give_up (WF (''rejected workflow graft job `'' @ i @ ''` is already `'' @ js_state job @ ''`'')))"

definition reject_graft :: "'s coord \<Rightarrow> string \<Rightarrow> node_spec list \<Rightarrow> ('s, unit) act" where
  "reject_graft co receipt_id nodes = delete_unstarted co (map ns_job_id nodes @ [receipt_id])"

fun failed_nodes_to_retry :: "'s coord \<Rightarrow> node_spec list \<Rightarrow> ('s, string list) act" where
  "failed_nodes_to_retry co [] = give []"
| "failed_nodes_to_retry co (node # nodes) =
     seq (query (get_job co (ns_job_id node) False)) (\<lambda>found.
     seq (expect (''retry-enabled workflow node `'' @ ns_job_id node @ ''` is missing'') found) (\<lambda>job.
       if js_state job \<in> {''archived'', ''cancelled''}
       then seq (failed_nodes_to_retry co nodes) (\<lambda>rest. give (ns_job_id node # rest))
       else if js_state job \<in> {''pending'', ''scheduled'', ''retryable'', ''available'', ''running'', ''completed''}
       then failed_nodes_to_retry co nodes
       else give_up (WF (''workflow node `'' @ ns_job_id node @ ''` cannot be retried from `'' @ js_state job @ ''`''))))"

fun reopen_failed_nodes :: "'s coord \<Rightarrow> string list \<Rightarrow> ('s, unit) act" where
  "reopen_failed_nodes co [] = give ()"
| "reopen_failed_nodes co (i # is) = seq (call (operator_retry co i)) (\<lambda>_. reopen_failed_nodes co is)"

definition retry_child :: "'s coord \<Rightarrow> (string \<Rightarrow> 's \<Rightarrow> checkpoint option result) \<Rightarrow> string \<Rightarrow> ('s, unit) act" where
  "retry_child co read child =
     seq (query (get_job co (coordinator_id child) False)) (\<lambda>found.
     seq (expect (''child workflow `'' @ child @ ''` is missing'') found) (\<lambda>job.
       if js_state job \<noteq> ''archived'' then give ()
       else seq (query (read (coordinator_id child))) (\<lambda>found_cp.
            seq (expect (''child workflow `'' @ child @ ''` has no checkpoint'') found_cp) (\<lambda>cp.
            seq (expect ''child workflow cursor is missing'' (cursor cp)) (\<lambda>bytes.
            seq (parsed [] (dec_cursor co bytes)) (\<lambda>c.
            seq (request_failed_subgraph_retry co child (cu_revision c)) (\<lambda>_. give ())))))))"

fun retry_children ::
  "'s coord \<Rightarrow> (string \<Rightarrow> 's \<Rightarrow> checkpoint option result) \<Rightarrow> node_spec list \<Rightarrow> ('s, unit) act" where
  "retry_children co read [] = give ()"
| "retry_children co read (node # nodes) =
     (case (if ns_kind node = NChildWorkflow then ns_child_workflow_id node else None) of
        None \<Rightarrow> retry_children co read nodes
      | Some child \<Rightarrow>
          seq (query (get_job co (ns_job_id node) False)) (\<lambda>link.
            if (case link of None \<Rightarrow> False | Some l \<Rightarrow> js_state l \<in> {''archived'', ''cancelled''})
            then seq (retry_child co read child) (\<lambda>_. retry_children co read nodes)
            else retry_children co read nodes))"

definition retry_failed_children :: "'s coord \<Rightarrow> coordinator_task \<Rightarrow> ('s, unit) act" where
  "retry_failed_children co task =
     seq (expect ''child retry propagation requires checkpoint inspection support'' (get_job_checkpoint co)) (\<lambda>read.
       retry_children co read (ct_nodes task))"

type_synonym reconciled = "tick option \<times> workflow_cursor"

text \<open>
  The first half of either reconciliation: a receipt that has been accepted and not yet finished.
  \<open>Inl\<close> ends the reconciliation, \<open>Inr\<close> goes on with the cursor.
\<close>

definition settle_retry ::
  "'s coord \<Rightarrow> coordinator_task \<Rightarrow> workflow_cursor \<Rightarrow> ('s, reconciled + workflow_cursor) act" where
  "settle_retry co base c =
     (case cu_pending_retry_receipt c of
        None \<Rightarrow> give (Inr c)
      | Some i \<Rightarrow>
          seq (query (get_job co i False)) (\<lambda>found.
          seq (expect (''accepted workflow retry receipt `'' @ i @ ''` is missing'') found) (\<lambda>receipt.
            if js_state receipt = ''pending''
            then seq (failed_nodes_to_retry co (ct_nodes (effective_workflow base c))) (\<lambda>failed.
                 seq (reopen_failed_nodes co failed) (\<lambda>_.
                 seq (call (promote_job co i)) (\<lambda>_. give (Inl (Some Waiting, c)))))
            else if js_state receipt \<in> {''available'', ''running''} then give (Inl (Some Waiting, c))
            else if js_state receipt = ''completed''
            then let c' = c\<lparr>cu_pending_retry_receipt := None\<rparr>
                 in seq (persist_workflow_cursor co c') (\<lambda>_. give (Inr c'))
            else give_up (WF (''accepted workflow retry receipt `'' @ i @ ''` entered `'' @ js_state receipt @ ''`'')))))"

definition settle_graft :: "'s coord \<Rightarrow> workflow_cursor \<Rightarrow> ('s, reconciled + workflow_cursor) act" where
  "settle_graft co c =
     (case cu_pending_graft_receipt c of
        None \<Rightarrow> give (Inr c)
      | Some i \<Rightarrow>
          seq (query (get_job co i False)) (\<lambda>found.
          seq (expect (''accepted workflow graft receipt `'' @ i @ ''` is missing'') found) (\<lambda>receipt.
            if js_state receipt = ''pending''
            then seq (call (promote_job co i)) (\<lambda>_. give (Inl (Some Waiting, c)))
            else if js_state receipt \<in> {''available'', ''running''} then give (Inl (Some Waiting, c))
            else if js_state receipt = ''completed''
            then let c' = c\<lparr>cu_pending_graft_receipt := None\<rparr>
                 in seq (persist_workflow_cursor co c') (\<lambda>_. give (Inr c'))
            else give_up (WF (''accepted workflow graft receipt `'' @ i @ ''` entered `'' @ js_state receipt @ ''`'')))))"

definition reject_competing_graft :: "'s coord \<Rightarrow> string \<Rightarrow> ('s, unit) act" where
  "reject_competing_graft co i =
     seq (query (get_job co i True)) (\<lambda>found.
       case found of
         None \<Rightarrow> give ()
       | Some competing \<Rightarrow>
           if js_state competing \<noteq> ''pending''
           then give_up (WF (''competing workflow graft receipt `'' @ i @ ''` entered `'' @ js_state competing @ ''`''))
           else reject_graft co i
                  (case js_payload competing of
                     None \<Rightarrow> []
                   | Some p \<Rightarrow> (case dec_graft (co_env co) p of Inl _ \<Rightarrow> [] | Inr g \<Rightarrow> gt_nodes g)))"

definition accept_retry ::
  "'s coord \<Rightarrow> coordinator_task \<Rightarrow> u64 \<Rightarrow> string \<Rightarrow> workflow_cursor \<Rightarrow> ('s, reconciled) act" where
  "accept_retry co base following i c =
     seq (retry_failed_children co (effective_workflow base c)) (\<lambda>_.
     seq (attempt_act (failed_nodes_to_retry co (ct_nodes (effective_workflow base c)))) (\<lambda>outcome.
       case outcome of
         Inl _ \<Rightarrow> seq (reject_graft co i []) (\<lambda>_. give (Some Failed, c))
       | Inr failed \<Rightarrow>
           seq (expect ''workflow generation would overflow'' (checked_add_word (cu_generation c) 1)) (\<lambda>generation.
           seq (of_sum (record_event ''workflow_retry_accepted'' None None
                  (c\<lparr>cu_generation := generation, cu_revision := following, cu_failed := False\<rparr>))) (\<lambda>c1.
           let c2 = c1\<lparr>cu_pending_retry_receipt := Some i\<rparr>
           in seq (persist_workflow_cursor co c2) (\<lambda>_.
              seq (reopen_failed_nodes co failed) (\<lambda>_.
              seq (call (promote_job co i)) (\<lambda>_. give (Some Waiting, c2))))))))"

text \<open>The second half: the receipt of the following revision.\<close>

definition next_retry :: "'s coord \<Rightarrow> coordinator_task \<Rightarrow> workflow_cursor \<Rightarrow> ('s, reconciled) act" where
  "next_retry co base c =
     seq (expect ''workflow revision would overflow'' (checked_add_word (cu_revision c) 1)) (\<lambda>following.
     let i = retry_receipt_id (ct_workflow_id base) following
     in seq (query (get_job co i True)) (\<lambda>found.
       case found of
         None \<Rightarrow> give (None, c)
       | Some receipt \<Rightarrow>
           if js_state receipt \<noteq> ''pending''
           then give_up (WF (''unaccepted workflow retry receipt `'' @ i @ ''` entered `'' @ js_state receipt @ ''`''))
           else seq (expect (''workflow retry receipt `'' @ i @ ''` did not return its payload'') (js_payload receipt)) (\<lambda>p.
             case dec_retry (co_env co) p of
               Inl _ \<Rightarrow> seq (reject_graft co i []) (\<lambda>_. give (Some Failed, c))
             | Inr retry \<Rightarrow>
                 if \<not> ct_failed_subgraph_retry base \<or> \<not> cu_failed c \<or> rt_workflow_id retry \<noteq> ct_workflow_id base \<or>
                    rt_expected_revision retry \<noteq> cu_revision c
                 then seq (reject_graft co i []) (\<lambda>_. give (Some (if cu_failed c then Failed else Waiting), c))
                 else seq (reject_competing_graft co (graft_receipt_id (ct_workflow_id base) following)) (\<lambda>_.
                      accept_retry co base following i c))))"

definition reconcile_retry :: "'s coord \<Rightarrow> coordinator_task \<Rightarrow> workflow_cursor \<Rightarrow> ('s, reconciled) act" where
  "reconcile_retry co base c0 =
     seq (settle_retry co base c0) (\<lambda>settled. case settled of Inl r \<Rightarrow> give r | Inr c \<Rightarrow> next_retry co base c)"

definition accept_graft ::
  "'s coord \<Rightarrow> coordinator_task \<Rightarrow> u64 \<Rightarrow> string \<Rightarrow> node_spec list \<Rightarrow> workflow_cursor \<Rightarrow> ('s, reconciled) act" where
  "accept_graft co base following i nodes c =
     (case validate_coordinator (co_env co)
             ((effective_workflow base c)\<lparr>ct_nodes := ct_nodes (effective_workflow base c) @ nodes\<rparr>) of
        Inl Stuck \<Rightarrow> give_up Stuck
      | Inl (WF _) \<Rightarrow> seq (reject_graft co i nodes) (\<lambda>_. give (Some Waiting, c))
      | Inr _ \<Rightarrow>
          seq (of_sum (record_event ''workflow_graft_accepted'' None None
                 (c\<lparr>cu_revision := following, cu_grafts := cu_grafts c @ nodes\<rparr>))) (\<lambda>c1.
          let c2 = c1\<lparr>cu_pending_graft_receipt := Some i\<rparr>
          in seq (persist_workflow_cursor co c2) (\<lambda>_.
             seq (call (promote_job co i)) (\<lambda>_. give (Some Waiting, c2)))))"

definition next_graft :: "'s coord \<Rightarrow> coordinator_task \<Rightarrow> workflow_cursor \<Rightarrow> ('s, reconciled) act" where
  "next_graft co base c =
     seq (expect ''workflow revision would overflow'' (checked_add_word (cu_revision c) 1)) (\<lambda>following.
     let i = graft_receipt_id (ct_workflow_id base) following
     in seq (query (get_job co i True)) (\<lambda>found.
       case found of
         None \<Rightarrow> give (None, c)
       | Some receipt \<Rightarrow>
           if js_state receipt \<noteq> ''pending''
           then give_up (WF (''unaccepted workflow graft receipt `'' @ i @ ''` entered `'' @ js_state receipt @ ''`''))
           else seq (expect (''workflow graft receipt `'' @ i @ ''` did not return its payload'') (js_payload receipt)) (\<lambda>p.
             case dec_graft (co_env co) p of
               Inl _ \<Rightarrow> seq (reject_graft co i []) (\<lambda>_. give (Some Waiting, c))
             | Inr graft \<Rightarrow>
                 if gt_workflow_id graft \<noteq> ct_workflow_id base \<or> gt_expected_revision graft \<noteq> cu_revision c \<or>
                    gt_nodes graft = [] \<or> cu_failed c
                 then seq (reject_graft co i (gt_nodes graft)) (\<lambda>_. give (Some Waiting, c))
                 else accept_graft co base following i (gt_nodes graft) c)))"

definition reconcile_graft :: "'s coord \<Rightarrow> coordinator_task \<Rightarrow> workflow_cursor \<Rightarrow> ('s, reconciled) act" where
  "reconcile_graft co base c0 =
     (if cu_revision c0 = 0 then give_up (WF ''workflow cursor contains revision zero'')
      else seq (settle_graft co c0) (\<lambda>settled. case settled of Inl r \<Rightarrow> give r | Inr c \<Rightarrow> next_graft co base c))"

definition enqueue_automatic_retry :: "'s coord \<Rightarrow> coordinator_task \<Rightarrow> workflow_cursor \<Rightarrow> ('s, workflow_cursor) act" where
  "enqueue_automatic_retry co base c =
     (if \<not> cu_failed c then give_up (WF ''automatic retry is pending for a non-failed workflow'')
      else seq (expect ''workflow retry revision would overflow'' (checked_add_word (cu_revision c) 1)) (\<lambda>following.
           seq (of_sum (retry_envelope (co_env co) (ct_workflow_id base) (cu_revision c) following (ctx_queue co))) (\<lambda>receipt.
           seq (call (enqueue_jobs co [receipt])) (\<lambda>_.
           let c' = c\<lparr>cu_automatic_retry_pending := False\<rparr>
           in seq (persist_workflow_cursor co c') (\<lambda>_. give c')))))"

section \<open>The handlers\<close>

datatype handled = Completed | Snoozed duration | Skipped

definition of_tick :: "duration \<Rightarrow> tick \<Rightarrow> handled" where
  "of_tick poll r = (case r of Waiting \<Rightarrow> Snoozed poll | Succeeded \<Rightarrow> Completed | Failed \<Rightarrow> Skipped)"

text \<open>The end of a tick that found the workflow failed.\<close>

definition conclude_failure :: "'s coord \<Rightarrow> coordinator_task \<Rightarrow> workflow_cursor \<Rightarrow> ('s, handled) act" where
  "conclude_failure co task c =
     (let again = (case ct_retry_policy task of None \<Rightarrow> False | Some p \<Rightarrow> cu_generation c < max_generations p);
          c0 = (if ct_failed_subgraph_retry task then c\<lparr>cu_failed := True\<rparr> else c);
          c1 = (if ct_failed_subgraph_retry task \<and> again then c0\<lparr>cu_automatic_retry_pending := True\<rparr> else c0);
          what = (if ct_failed_subgraph_retry task \<and> again then ''automatic_retry_scheduled'' else ''workflow_failed'')
      in seq (of_sum (record_event what None None c1)) (\<lambda>c2.
         seq (persist_workflow_cursor co c2) (\<lambda>_.
           if cu_automatic_retry_pending c2
           then case ct_retry_policy task of
                  None \<Rightarrow> give_up Stuck
                | Some p \<Rightarrow>
                    if backoff_ms p < 0 then give_up (WF ''invalid workflow retry backoff'')
                    else give (Snoozed (nat (backoff_ms p) * 1000000))
           else give Skipped)))"

definition conclude :: "'s coord \<Rightarrow> duration \<Rightarrow> coordinator_task \<Rightarrow> tick \<times> workflow_cursor \<Rightarrow> ('s, handled) act" where
  "conclude co poll task = (\<lambda>(t, c).
     case t of
       Waiting \<Rightarrow> give (Snoozed poll)
     | Succeeded \<Rightarrow>
         seq (of_sum (record_event ''workflow_succeeded'' None None c)) (\<lambda>c1.
         seq (persist_workflow_cursor co c1) (\<lambda>_. give Completed))
     | Failed \<Rightarrow> conclude_failure co task c)"

definition after_graft :: "'s coord \<Rightarrow> duration \<Rightarrow> coordinator_task \<Rightarrow> reconciled \<Rightarrow> ('s, handled) act" where
  "after_graft co poll task = (\<lambda>(r, c).
     case r of
       Some t \<Rightarrow> give (of_tick poll t)
     | None \<Rightarrow> seq (tick_with_evidence co (effective_workflow task c) True c) (conclude co poll task))"

definition after_retry :: "'s coord \<Rightarrow> duration \<Rightarrow> coordinator_task \<Rightarrow> reconciled \<Rightarrow> ('s, handled) act" where
  "after_retry co poll task = (\<lambda>(r, c).
     case r of
       Some t \<Rightarrow> give (of_tick poll t)
     | None \<Rightarrow> seq (reconcile_graft co task c) (after_graft co poll task))"

definition start_history :: "'s coord \<Rightarrow> workflow_cursor \<Rightarrow> ('s, workflow_cursor) act" where
  "start_history co c =
     (if cu_events c = []
      then seq (of_sum (record_event ''workflow_started'' None None c)) (\<lambda>c1.
           seq (persist_workflow_cursor co c1) (\<lambda>_. give c1))
      else give c)"

text \<open>The body of the coordinator's cursor step. The step around it, which hands over the bytes of the
  stored checkpoint, is modelled with the other steps of a job context in \<open>JobSteps\<close>.\<close>

definition coordinate :: "'s coord \<Rightarrow> duration \<Rightarrow> coordinator_task \<Rightarrow> bytes option \<Rightarrow> ('s, handled) act" where
  "coordinate co poll task stored =
     seq (case stored of None \<Rightarrow> give cursor_default | Some b \<Rightarrow> parsed [] (dec_cursor co b)) (\<lambda>c0.
     seq (start_history co c0) (\<lambda>c1.
     seq (if cu_automatic_retry_pending c1 then enqueue_automatic_retry co task c1 else give c1) (\<lambda>c2.
     seq (reconcile_retry co task c2) (after_retry co poll task))))"

text \<open>Signals, timers, conditions and receipts have nothing to do; being run is what they are for.\<close>

definition run_virtual :: "('s, handled) act" where
  "run_virtual = give Completed"

definition run_child :: "'s coord \<Rightarrow> duration \<Rightarrow> child_workflow_task \<Rightarrow> ('s, handled) act" where
  "run_child co poll task =
     (if cw_child_workflow_id task = [] \<or> cw_child_workflow_id task = cw_parent_workflow_id task
      then give_up (WF ''invalid child workflow link'')
      else let i = coordinator_id (cw_child_workflow_id task)
           in seq (query (get_job co i False)) (\<lambda>found.
              seq (expect (''child workflow `'' @ i @ ''` was not found'') found) (\<lambda>child.
                give (if js_state child = ''completed'' then Completed
                      else if js_state child \<in> {''archived'', ''cancelled'', ''quarantined'', ''undecodable''} then Skipped
                      else Snoozed poll))))"

end
