(* ===== verification/WorkflowCursor.thy ===== *)
theory WorkflowCursor
  imports WorkflowOps
begin

text \<open>
  What the coordinator's handler may write into its durable cursor. A small logic of actions: the
  locale \<open>cursor_writer\<close> says that only the job context writes the cursor, and \<open>act_ok P Q m\<close> that
  whatever \<open>m\<close> leaves stored satisfies \<open>P\<close> and what it returns satisfies \<open>Q\<close>. The handler of
  \<open>WorkflowOps\<close> is then walked once.
\<close>

section \<open>The cursor's invariant\<close>

definition history_ok :: "workflow_event list \<Rightarrow> bool" where
  "history_ok evs \<longleftrightarrow> length evs \<le> MAX_WORKFLOW_EVENTS \<and>
     successively (\<lambda>a b. unat (we_sequence b) = unat (we_sequence a) + 1) evs"

definition cursor_ok :: "wf_env \<Rightarrow> coordinator_task \<Rightarrow> workflow_cursor \<Rightarrow> bool" where
  "cursor_ok we t c \<longleftrightarrow>
     coordinator_ok we (effective_workflow t c) \<and> cu_revision c \<noteq> 0 \<and> history_ok (cu_events c)"

text \<open>A node that was complete stays complete.\<close>

definition grown :: "coordinator_task \<Rightarrow> workflow_cursor \<Rightarrow> workflow_cursor \<Rightarrow> bool" where
  "grown t c c' \<longleftrightarrow>
     set (cu_completed c) \<inter> ns_name ` set (ct_nodes (effective_workflow t c)) \<subseteq> set (cu_completed c')"

definition same_plan :: "workflow_cursor \<Rightarrow> workflow_cursor \<Rightarrow> bool" where
  "same_plan c c' \<longleftrightarrow>
     cu_revision c' = cu_revision c \<and> cu_generation c' = cu_generation c \<and> cu_grafts c' = cu_grafts c"

definition grafted :: "workflow_cursor \<Rightarrow> workflow_cursor \<Rightarrow> bool" where
  "grafted c c' \<longleftrightarrow>
     unat (cu_revision c') = unat (cu_revision c) + 1 \<and> cu_generation c' = cu_generation c \<and>
     \<not> cu_failed c \<and> (\<exists>g. g \<noteq> [] \<and> cu_grafts c' = cu_grafts c @ g)"

definition retried :: "workflow_cursor \<Rightarrow> workflow_cursor \<Rightarrow> bool" where
  "retried c c' \<longleftrightarrow>
     unat (cu_revision c') = unat (cu_revision c) + 1 \<and> unat (cu_generation c') = unat (cu_generation c) + 1 \<and>
     cu_grafts c' = cu_grafts c \<and> cu_failed c \<and> \<not> cu_failed c'"

definition moved_on :: "wf_env \<Rightarrow> coordinator_task \<Rightarrow> workflow_cursor \<Rightarrow> workflow_cursor \<Rightarrow> bool" where
  "moved_on we t c c' \<longleftrightarrow>
     cursor_ok we t c' \<and> grown t c c' \<and> (same_plan c c' \<or> grafted c c' \<or> retried c c')"

text \<open>Between the two, the handler holds a cursor of the same plan.\<close>

definition steady :: "wf_env \<Rightarrow> coordinator_task \<Rightarrow> workflow_cursor \<Rightarrow> workflow_cursor \<Rightarrow> bool" where
  "steady we t c c' \<longleftrightarrow> cursor_ok we t c' \<and> grown t c c' \<and> same_plan c c' \<and> cu_failed c' = cu_failed c"

lemma steady_refl: "cursor_ok we t c \<Longrightarrow> steady we t c c"
  by (auto simp: steady_def grown_def same_plan_def)

lemma steady_moved: "steady we t c c' \<Longrightarrow> moved_on we t c c'"
  by (simp add: steady_def moved_on_def)

lemma successively_drop: "successively R xs \<Longrightarrow> successively R (drop k xs)"
  by (metis append_take_drop_id successively_append_iff)

lemma saturating_next:
  fixes a :: u64
  assumes "saturating_add a 1 \<noteq> - 1"
  shows "unat (saturating_add a 1) = unat a + 1"
proof -
  have "unat (saturating_add a 1) = min (unat a + 1) (2 ^ 64 - 1)" using unat_saturating_add [of a 1] by simp
  moreover have "unat (saturating_add a 1) \<noteq> 2 ^ 64 - 1"
  proof
    assume "unat (saturating_add a 1) = 2 ^ 64 - 1"
    also have "2 ^ 64 - 1 = unat (- 1 :: u64)" by (simp add: unsigned_minus_1_eq_mask mask_eq_exp_minus_1)
    finally have "saturating_add a 1 = - 1" by (rule unsigned_word_eqI)
    with assms show False ..
  qed
  ultimately show ?thesis by (simp add: min_def split: if_splits)
qed

lemma checked_next: "checked_add_word a 1 = Some b \<Longrightarrow> unat b = unat a + 1" for a :: "'a::len word"
proof -
  assume "checked_add_word a 1 = Some b"
  then have "uint a + uint (1 :: 'a word) < 2 ^ LENGTH('a)" "b = a + 1"
    by (auto simp: checked_add_word_def split: if_splits)
  then have "unat a + unat (1 :: 'a word) < 2 ^ LENGTH('a)"
    by (metis (mono_tags) of_nat_add of_nat_less_iff of_nat_numeral of_nat_power uint_nat)
  with \<open>b = a + 1\<close> show ?thesis using unat_add_lem [of a 1] by (simp only: unat_1)
qed

lemma record_event_fields:
  assumes "record_event ev node at c = Inr c'"
  shows "c' = c\<lparr>cu_events := cu_events c'\<rparr>" "history_ok (cu_events c) \<Longrightarrow> history_ok (cu_events c')"
proof -
  let ?evs = "cu_events c"
  let ?q = "if ?evs = [] then 1 else saturating_add (we_sequence (last ?evs)) 1"
  let ?e = "\<lparr>we_sequence = ?q, we_event = ev, we_node = node, we_revision = cu_revision c,
    we_generation = cu_generation c, we_at_ms = at\<rparr>"
  have c': "c' = c\<lparr>cu_events := drop (length (?evs @ [?e]) - MAX_WORKFLOW_EVENTS) (?evs @ [?e])\<rparr>"
    and q: "?evs \<noteq> [] \<Longrightarrow> ?q \<noteq> - 1"
    using assms unfolding record_event_def Let_def by (simp_all only: split: if_splits) simp_all
  then show "c' = c\<lparr>cu_events := cu_events c'\<rparr>" by simp
  assume h: "history_ok ?evs"
  have "successively (\<lambda>a b. unat (we_sequence b) = unat (we_sequence a) + 1) (?evs @ [?e])"
  proof (cases "?evs = []")
    case False
    with q have "saturating_add (we_sequence (last ?evs)) 1 \<noteq> - 1" by simp
    from saturating_next [OF this] h False show ?thesis by (simp add: history_ok_def successively_append_iff)
  qed simp
  then have "history_ok (drop (length (?evs @ [?e]) - MAX_WORKFLOW_EVENTS) (?evs @ [?e]))"
    unfolding history_ok_def by (intro conjI successively_drop) simp_all
  then show "history_ok (cu_events c')" unfolding c' by simp
qed

section \<open>A logic of actions\<close>

locale cursor_writer =
  fixes co :: "'s coord" and cur :: "'s \<Rightarrow> bytes option"
  assumes keep_promote: "promote_job co i s = (r, s') \<Longrightarrow> cur s' = cur s"
    and keep_delete: "delete_job co i s = (r, s') \<Longrightarrow> cur s' = cur s"
    and keep_schedule: "schedule_pending_job co i at s = (r, s') \<Longrightarrow> cur s' = cur s"
    and keep_retry: "operator_retry co i s = (r, s') \<Longrightarrow> cur s' = cur s"
    and keep_release: "quarantine_release co fp s = (rq, s') \<Longrightarrow> cur s' = cur s"
    and keep_edit: "edit_payload co i p v fp s = (r, s') \<Longrightarrow> cur s' = cur s"
    and keep_enqueue: "enqueue_jobs co batch s = (r, s') \<Longrightarrow> cur s' = cur s"
    and keep_output: "ctx_persist_output co v p s = (q, s') \<Longrightarrow> cur s' = cur s"
    and write_cursor: "ctx_set_cursor co p s = (q, s') \<Longrightarrow> cur s' \<in> {cur s, Some p}"
begin

definition act_ok :: "(workflow_cursor \<Rightarrow> bool) \<Rightarrow> ('a \<Rightarrow> bool) \<Rightarrow> ('s, 'a) act \<Rightarrow> bool" where
  "act_ok P Q m \<longleftrightarrow> (\<forall>s r s'. m s = (r, s') \<longrightarrow>
     (cur s' = cur s \<or> (\<exists>c p. enc_cursor co c = Inr p \<and> cur s' = Some p \<and> P c)) \<and> (\<forall>x. r = Inr x \<longrightarrow> Q x))"

lemma act_okI:
  assumes "\<And>s r s'. m s = (r, s') \<Longrightarrow> cur s' = cur s \<or> (\<exists>c p. enc_cursor co c = Inr p \<and> cur s' = Some p \<and> P c)"
    and "\<And>s x s'. m s = (Inr x, s') \<Longrightarrow> Q x"
  shows "act_ok P Q m"
  using assms unfolding act_ok_def by blast

lemma give_ok: "Q x \<Longrightarrow> act_ok P Q (give x)"
  and give_up_ok: "act_ok P Q (give_up e)"
  and of_sum_ok: "(\<And>x. r = Inr x \<Longrightarrow> Q x) \<Longrightarrow> act_ok P Q (of_sum r)"
  by (simp_all add: act_ok_def)

lemma query_ok: "act_ok P (\<lambda>_. True) (query f)"
  by (auto simp: act_ok_def query_def split: sum.splits)

lemma call_ok: "(\<And>s r s'. f s = (r, s') \<Longrightarrow> cur s' = cur s) \<Longrightarrow> act_ok P (\<lambda>_. True) (call f)"
  by (rule act_okI) (auto simp: call_def split: prod.splits sum.splits)

lemma seq_ok:
  assumes m: "act_ok P R m" and k: "\<And>x. R x \<Longrightarrow> act_ok P Q (k x)"
  shows "act_ok P Q (seq m k)"
proof (rule act_okI)
  fix s r s'
  assume s: "seq m k s = (r, s')"
  obtain r1 s1 where m1: "m s = (r1, s1)" by (meson surj_pair)
  note w1 = m [unfolded act_ok_def, rule_format, OF m1]
  show "cur s' = cur s \<or> (\<exists>c p. enc_cursor co c = Inr p \<and> cur s' = Some p \<and> P c)"
  proof (cases r1)
    case (Inl e)
    with s m1 w1 show ?thesis by (auto simp: seq_def)
  next
    case (Inr x)
    with s m1 have "k x s1 = (r, s')" by (simp add: seq_def)
    with k [of x, unfolded act_ok_def, rule_format, of s1 r s'] w1 Inr show ?thesis by auto
  qed
next
  fix s y s'
  assume "seq m k s = (Inr y, s')"
  then obtain x s1 where "m s = (Inr x, s1)" "k x s1 = (Inr y, s')" by (auto simp: seq_Inr)
  then show "Q y" using m k unfolding act_ok_def by blast
qed

lemma seq_any:
  assumes "act_ok P (\<lambda>_. True) m" "\<And>x. act_ok P Q (k x)"
  shows "act_ok P Q (seq m k)"
  using seq_ok [of P "\<lambda>_. True"] assms by blast

lemma seq_query: "(\<And>x. act_ok P Q (k x)) \<Longrightarrow> act_ok P Q (seq (query f) k)"
  by (rule seq_any [OF query_ok])

lemma seq_of_sum: "(\<And>x. r = Inr x \<Longrightarrow> act_ok P Q (k x)) \<Longrightarrow> act_ok P Q (seq (of_sum r) k)"
  by (rule seq_ok [of P "\<lambda>x. r = Inr x"]) (auto intro: of_sum_ok)

lemma expect_ok: "(\<And>x. y = Some x \<Longrightarrow> Q x) \<Longrightarrow> act_ok P Q (expect m y)"
  by (auto simp: expect_def give_ok give_up_ok split: option.split)

lemma seq_expect: "(\<And>x. y = Some x \<Longrightarrow> act_ok P Q (k x)) \<Longrightarrow> act_ok P Q (seq (expect m y) k)"
  by (rule seq_ok [of P "\<lambda>x. y = Some x"]) (auto intro: expect_ok)

lemma seq_parsed: "(\<And>x. r = Inr x \<Longrightarrow> act_ok P Q (k x)) \<Longrightarrow> act_ok P Q (seq (parsed pre r) k)"
  unfolding parsed_def by (rule seq_of_sum) (cases r; simp)

lemma persist_ok: "P c \<Longrightarrow> act_ok P (\<lambda>_. True) (persist_workflow_cursor co c)"
  unfolding persist_workflow_cursor_def
proof (rule seq_of_sum)
  fix p
  assume P: "P c" and "map_sum WF id (enc_cursor co c) = Inr p"
  then have e: "enc_cursor co c = Inr p" by (cases "enc_cursor co c") auto
  have "act_ok P (\<lambda>_. True) (boxed (ctx_set_cursor co p))"
    by (rule act_okI) (use P e write_cursor in \<open>auto simp: boxed_def split: prod.splits sum.splits, blast+\<close>)
  moreover have "act_ok P (\<lambda>_. True) (boxed (ctx_persist_output co 1 p))"
    by (rule act_okI) (use keep_output in \<open>auto simp: boxed_def split: prod.splits sum.splits\<close>)
  ultimately show "act_ok P (\<lambda>_. True) (seq (boxed (ctx_set_cursor co p)) (\<lambda>_.
      seq (boxed (ctx_persist_output co 1 p)) (\<lambda>_. give ())))"
    by (intro seq_any give_ok) simp_all
qed

lemma seq_persist: "P c \<Longrightarrow> (\<And>x. act_ok P Q (k x)) \<Longrightarrow> act_ok P Q (seq (persist_workflow_cursor co c) k)"
  by (rule seq_any [OF persist_ok])

lemma attempt_ok: "act_ok P (\<lambda>_. True) m \<Longrightarrow> act_ok P (\<lambda>_. True) (attempt_act m)"
  unfolding act_ok_def attempt_act_def by (auto split: prod.splits sum.splits wf_error.splits)

lemma calls_ok:
  "act_ok P (\<lambda>_. True) (call (promote_job co i))"
  "act_ok P (\<lambda>_. True) (call (delete_job co i))"
  "act_ok P (\<lambda>_. True) (call (schedule_pending_job co i at))"
  "act_ok P (\<lambda>_. True) (call (operator_retry co i))"
  "act_ok P (\<lambda>_. True) (call (quarantine_release co fp))"
  "act_ok P (\<lambda>_. True) (call (edit_payload co i p v fp))"
  "act_ok P (\<lambda>_. True) (call (enqueue_jobs co batch))"
  by (rule call_ok, erule keep_promote keep_delete keep_schedule keep_retry keep_release keep_edit keep_enqueue)+

lemmas seq_call = calls_ok [THEN seq_any]

lemma pair_ok: "(\<And>x. r = Inr x \<Longrightarrow> Q x) \<Longrightarrow> act_ok P Q (Pair r)"
  by (simp add: act_ok_def)

lemma seq_pair: "(\<And>x. r = Inr x \<Longrightarrow> act_ok P Q (k x)) \<Longrightarrow> act_ok P Q (seq (Pair r) k)"
  by (rule seq_ok [of P "\<lambda>x. r = Inr x"]) (auto intro: pair_ok)

lemma branch_ok:
  "(b \<Longrightarrow> act_ok P Q m1) \<Longrightarrow> (\<not> b \<Longrightarrow> act_ok P Q m2) \<Longrightarrow> act_ok P Q (if b then m1 else m2)"
  "(\<And>x y. p = (x, y) \<Longrightarrow> act_ok P Q (f x y)) \<Longrightarrow> act_ok P Q (case p of (x, y) \<Rightarrow> f x y)"
  "(v = None \<Longrightarrow> act_ok P Q m1) \<Longrightarrow> (\<And>x. v = Some x \<Longrightarrow> act_ok P Q (g x)) \<Longrightarrow>
     act_ok P Q (case v of None \<Rightarrow> m1 | Some x \<Rightarrow> g x)"
  "(\<And>x. r = Inl x \<Longrightarrow> act_ok P Q (h x)) \<Longrightarrow> (\<And>x. r = Inr x \<Longrightarrow> act_ok P Q (k x)) \<Longrightarrow>
     act_ok P Q (case r of Inl x \<Rightarrow> h x | Inr x \<Rightarrow> k x)"
  "act_ok P Q (l z) \<Longrightarrow> act_ok P Q (Let z l)"
  by (auto split: prod.split option.split sum.split)

lemmas step_ok = seq_query seq_of_sum seq_expect seq_parsed seq_call seq_pair
lemmas last_ok = give_ok give_up_ok of_sum_ok pair_ok expect_ok

section \<open>Actions that leave the cursor alone\<close>

lemma delete_unstarted_ok: "act_ok P (\<lambda>_. True) (delete_unstarted co is)"
  by (induction "is") (auto intro!: step_ok last_ok split: option.split)

lemma reject_graft_ok: "act_ok P (\<lambda>_. True) (reject_graft co i nodes)"
  unfolding reject_graft_def by (rule delete_unstarted_ok)

lemma failed_nodes_ok: "act_ok P (\<lambda>_. True) (failed_nodes_to_retry co nodes)"
  by (induction nodes) (auto intro!: step_ok seq_any last_ok)

lemma reopen_ok: "act_ok P (\<lambda>_. True) (reopen_failed_nodes co is)"
  by (induction "is") (auto intro!: step_ok last_ok)

lemma run_mutations_ok: "act_ok P (\<lambda>_. True) (run_mutations co ms)"
  by (induction ms) (auto intro!: seq_any calls_ok last_ok)

lemma read_jobs_ok: "act_ok P (\<lambda>_. True) (read_jobs co nodes)"
  by (induction nodes) (auto intro!: step_ok seq_any last_ok)

end

section \<open>The handler\<close>

lemma effective_sel [simp]:
  "ct_nodes (effective_workflow t c) = ct_nodes t @ cu_grafts c"
  "ct_workflow_id (effective_workflow t c) = ct_workflow_id t"
  by (simp_all add: effective_workflow_def)

lemma effective_cong: "cu_grafts c' = cu_grafts c \<Longrightarrow> effective_workflow t c' = effective_workflow t c"
  by (simp add: effective_workflow_def)

lemma steady_event:
  assumes "steady we t c0 c" "record_event ev node at c = Inr c'"
  shows "steady we t c0 c'"
proof -
  obtain evs where c': "c' = c\<lparr>cu_events := evs\<rparr>" "history_ok (cu_events c) \<longrightarrow> history_ok evs"
    using record_event_fields [OF assms(2)] by blast
  have "effective_workflow t c' = effective_workflow t c" by (rule effective_cong) (simp add: c'(1))
  with assms(1) c' show ?thesis by (auto simp: steady_def cursor_ok_def same_plan_def grown_def)
qed

lemma steady_clock: "steady we t c0 c \<Longrightarrow> steady we t c0 (c\<lparr>cu_completed_at_ms := at\<rparr>)"
  using effective_cong [of "c\<lparr>cu_completed_at_ms := at\<rparr>" c t]
  by (auto simp: steady_def cursor_ok_def same_plan_def grown_def)

lemma steady_completed:
  assumes "steady we t c0 c" "set (cu_completed c) \<inter> ns_name ` set (ct_nodes (effective_workflow t c)) \<subseteq> A"
  shows "steady we t c0 (c\<lparr>cu_completed := completed_names (effective_workflow t c) A\<rparr>)"
proof -
  have e: "effective_workflow t (c\<lparr>cu_completed := ns\<rparr>) = effective_workflow t c" for ns
    by (rule effective_cong) simp
  have "effective_workflow t c0 = effective_workflow t c"
    using assms(1) by (intro effective_cong) (simp add: steady_def same_plan_def)
  with assms e show ?thesis
    unfolding steady_def cursor_ok_def same_plan_def grown_def completed_names_def by fastforce
qed

lemma steady_noted:
  "steady we t c0 c \<Longrightarrow> note_completed before completed nodes c = Inr c' \<Longrightarrow> steady we t c0 c'"
proof (induction nodes arbitrary: c)
  case (Cons node nodes)
  then show ?case by (auto intro: steady_event split: if_splits sum.splits)
qed simp

lemma steady_receipts:
  assumes "steady we t c0 c"
  shows "steady we t c0 (c\<lparr>cu_pending_retry_receipt := x\<rparr>)" "steady we t c0 (c\<lparr>cu_pending_graft_receipt := x\<rparr>)"
    and "steady we t c0 (c\<lparr>cu_automatic_retry_pending := b\<rparr>)"
proof -
  have "effective_workflow t (c\<lparr>cu_pending_retry_receipt := x\<rparr>) = effective_workflow t c"
    "effective_workflow t (c\<lparr>cu_pending_graft_receipt := x\<rparr>) = effective_workflow t c"
    "effective_workflow t (c\<lparr>cu_automatic_retry_pending := b\<rparr>) = effective_workflow t c"
    by (simp_all add: effective_workflow_def)
  with assms show "steady we t c0 (c\<lparr>cu_pending_retry_receipt := x\<rparr>)"
    "steady we t c0 (c\<lparr>cu_pending_graft_receipt := x\<rparr>)" "steady we t c0 (c\<lparr>cu_automatic_retry_pending := b\<rparr>)"
    by (auto simp: steady_def cursor_ok_def same_plan_def grown_def)
qed

lemma moved_retried:
  assumes "steady we t c0 c" "cu_failed c" "checked_add_word (cu_revision c) 1 = Some following"
    and "checked_add_word (cu_generation c) 1 = Some generation"
    and "record_event ev None None (c\<lparr>cu_generation := generation, cu_revision := following, cu_failed := False\<rparr>) = Inr c1"
  shows "moved_on we t c0 (c1\<lparr>cu_pending_retry_receipt := x\<rparr>)"
proof -
  let ?c = "c\<lparr>cu_generation := generation, cu_revision := following, cu_failed := False\<rparr>"
  obtain evs where c1: "c1 = ?c\<lparr>cu_events := evs\<rparr>" "history_ok (cu_events c) \<longrightarrow> history_ok evs"
    using record_event_fields [OF assms(5)] by auto
  have n: "unat following = unat (cu_revision c) + 1" "unat generation = unat (cu_generation c) + 1"
    using assms(3,4) by (simp_all add: checked_next)
  then have "following \<noteq> 0" by auto
  have "effective_workflow t (c1\<lparr>cu_pending_retry_receipt := x\<rparr>) = effective_workflow t c"
    by (rule effective_cong) (simp add: c1(1))
  with assms(1,2) c1 n \<open>following \<noteq> 0\<close> show ?thesis
    by (auto simp: moved_on_def steady_def cursor_ok_def same_plan_def grown_def retried_def)
qed

lemma moved_grafted:
  assumes "steady we t c0 c" "\<not> cu_failed c" "checked_add_word (cu_revision c) 1 = Some following" "g \<noteq> []"
    and "coordinator_ok we ((effective_workflow t c)\<lparr>ct_nodes := ct_nodes (effective_workflow t c) @ g\<rparr>)"
    and "record_event ev None None (c\<lparr>cu_revision := following, cu_grafts := cu_grafts c @ g\<rparr>) = Inr c1"
  shows "moved_on we t c0 (c1\<lparr>cu_pending_graft_receipt := x\<rparr>)"
proof -
  let ?c = "c\<lparr>cu_revision := following, cu_grafts := cu_grafts c @ g\<rparr>"
  obtain evs where c1: "c1 = ?c\<lparr>cu_events := evs\<rparr>" "history_ok (cu_events c) \<longrightarrow> history_ok evs"
    using record_event_fields [OF assms(6)] by auto
  have n: "unat following = unat (cu_revision c) + 1" using assms(3) by (simp add: checked_next)
  then have "following \<noteq> 0" by auto
  have "effective_workflow t (c1\<lparr>cu_pending_graft_receipt := x\<rparr>) =
      (effective_workflow t c)\<lparr>ct_nodes := ct_nodes (effective_workflow t c) @ g\<rparr>"
    by (simp add: effective_workflow_def c1(1))
  with assms(1,2,4,5) c1 n \<open>following \<noteq> 0\<close> show ?thesis
    by (auto simp: moved_on_def steady_def cursor_ok_def same_plan_def grown_def grafted_def)
qed

text \<open>A reconciliation that does not end the tick leaves a steady cursor.\<close>

definition going_on :: "wf_env \<Rightarrow> coordinator_task \<Rightarrow> workflow_cursor \<Rightarrow> reconciled \<Rightarrow> bool" where
  "going_on we t c0 x \<longleftrightarrow> (case x of (None, c1) \<Rightarrow> steady we t c0 c1 | (Some _, _) \<Rightarrow> True)"

lemma noted_keeps:
  "note_completed before completed nodes c = Inr c' \<Longrightarrow>
     cu_completed c' = cu_completed c \<and> cu_grafts c' = cu_grafts c"
proof (induction nodes arbitrary: c)
  case (Cons node nodes)
  have "cu_completed c1 = cu_completed c \<and> cu_grafts c1 = cu_grafts c" if "record_event ev n at c = Inr c1" for ev n at c1
    using record_event_fields(1) [OF that] by (metis workflow_cursor.ext_inject workflow_cursor.surjective workflow_cursor.update_convs(10))
  with Cons show ?case by (fastforce split: if_splits sum.splits)
qed simp

context cursor_writer
begin

lemma fetch_ok: "act_ok P (\<lambda>_. True) (fetch_coordinator co w)"
  unfolding fetch_coordinator_def by (auto intro!: step_ok last_ok)

lemma recover_node_ok: "act_ok P (\<lambda>_. True) (recover_node co wr i job)"
  unfolding recover_node_def Let_def by (auto intro!: step_ok calls_ok last_ok)

lemma recover_all_ok: "act_ok P (\<lambda>_. True) (recover_all co task seen wrs)"
  by (induction wrs arbitrary: seen) (auto intro!: step_ok seq_any [OF recover_node_ok] last_ok)

lemma unrecovered_ok: "act_ok P (\<lambda>_. True) (unrecovered co nodes)"
  by (induction nodes) (auto intro!: step_ok last_ok split: option.split)

lemma retry_tail_ok:
  "act_ok P (\<lambda>_. True) (\<lambda>s. case operator_retry co i s of
      (Inr _, s1) \<Rightarrow> (Inr x, s1)
    | (Inl e, s1) \<Rightarrow> seq (query f) (\<lambda>current. if b current then give x else give_up (g e)) s1)"
proof (rule act_okI)
  fix s r s'
  assume m: "(case operator_retry co i s of
      (Inr _, s1) \<Rightarrow> (Inr x, s1)
    | (Inl e, s1) \<Rightarrow> seq (query f) (\<lambda>current. if b current then give x else give_up (g e)) s1) = (r, s')"
  obtain q s1 where o: "operator_retry co i s = (q, s1)" by (meson surj_pair)
  with m have "s' = s1"
    by (cases q) (auto simp: seq_def query_def split: sum.splits if_splits)
  with keep_retry [OF o] show "cur s' = cur s \<or> (\<exists>c p. enc_cursor co c = Inr p \<and> cur s' = Some p \<and> P c)" by simp
qed simp

lemma request_retry_ok: "act_ok P (\<lambda>_. True) (request_failed_subgraph_retry co w expected)"
  unfolding request_failed_subgraph_retry_def request_failed_subgraph_retry_with_recovery_def
  by (intro step_ok branch_ok seq_any [OF fetch_ok] seq_any [OF recover_all_ok] seq_any [OF unrecovered_ok]
      retry_tail_ok last_ok TrueI)

lemma retry_children_ok: "act_ok P (\<lambda>_. True) (retry_children co read nodes)"
proof (induction nodes)
  case (Cons node nodes)
  have "act_ok P (\<lambda>_. True) (retry_child co read child)" for child
    unfolding retry_child_def by (auto intro!: step_ok seq_any [OF request_retry_ok] last_ok)
  with Cons show ?case by (auto intro!: step_ok seq_any split: option.split)
qed (auto intro!: last_ok)

lemma retry_failed_children_ok: "act_ok P (\<lambda>_. True) (retry_failed_children co task)"
  unfolding retry_failed_children_def by (auto intro!: step_ok retry_children_ok)

lemma gather_ok:
  assumes "steady we t c0 c"
  shows "act_ok (moved_on we t c0) (\<lambda>(st, done_names, c1). steady we t c0 c1) (gather co (effective_workflow t c) True c)"
proof -
  let ?t = "effective_workflow t c" and ?before = "completed_set (effective_workflow t c) (cu_completed c)"
  have "act_ok (moved_on we t c0) (\<lambda>(st, done_names, c1). steady we t c0 c1)
      (seq (of_sum (note_completed ?before A (ct_nodes ?t) (c\<lparr>cu_completed_at_ms := at\<rparr>))) (\<lambda>c1.
         if ch \<and> True
         then let c2 = c1\<lparr>cu_completed := completed_names ?t A\<rparr>
              in seq (persist_workflow_cursor co c2) (\<lambda>_. give (state, A, c2))
         else give (state, A, c1)))"
    if e: "record_completion_evidence ?t state ?before (cu_completed_at_ms c) = (ch, A, at)" for state ch A at
  proof (rule seq_of_sum)
    fix c1
    assume n: "note_completed ?before A (ct_nodes ?t) (c\<lparr>cu_completed_at_ms := at\<rparr>) = Inr c1"
    have c1: "steady we t c0 c1" by (rule steady_noted [OF steady_clock [OF assms] n])
    have same: "cu_completed c1 = cu_completed c \<and> effective_workflow t c1 = ?t"
      using noted_keeps [OF n] by (simp add: effective_workflow_def)
    have "?before \<subseteq> A" using completion_evidence [OF e] evident.evident_known by fastforce
    then have "steady we t c0 (c1\<lparr>cu_completed := completed_names ?t A\<rparr>)"
      using steady_completed [OF c1, of A] same by (force simp: completed_set_def)
    with c1 show "act_ok (moved_on we t c0) (\<lambda>(st, done_names, c1). steady we t c0 c1)
       (if ch \<and> True
         then let c2 = c1\<lparr>cu_completed := completed_names ?t A\<rparr>
              in seq (persist_workflow_cursor co c2) (\<lambda>_. give (state, A, c2))
         else give (state, A, c1))"
      by (auto intro!: branch_ok seq_persist last_ok steady_moved)
  qed
  then show ?thesis
    unfolding gather_def by (intro branch_ok(5) seq_any [OF read_jobs_ok] branch_ok(2)) (auto split: prod.split)
qed

lemma tick_ok:
  assumes "steady we t c0 c"
  shows "act_ok (moved_on we t c0) (\<lambda>(r, c1). steady we t c0 c1) (tick_with_evidence co (effective_workflow t c) True c)"
  unfolding tick_with_evidence_def
proof (rule seq_of_sum, rule seq_ok [OF gather_ok [OF assms]])
  fix x :: "job_states \<times> string set \<times> workflow_cursor"
  assume "case x of (st, done_names, c1) \<Rightarrow> steady we t c0 c1"
  then show "act_ok (moved_on we t c0) (\<lambda>(r, c1). steady we t c0 c1)
      (case x of (state, completed, c1) \<Rightarrow>
        let failed = failed_set (effective_workflow t c) state completed
        in seq (of_sum (scan_nodes (judge (co_env co) (effective_workflow t c) c1 state completed failed) []
                 (ct_nodes (effective_workflow t c)))) (\<lambda>p.
          case p of
            Deadline i wake \<Rightarrow> seq (call (schedule_pending_job co i wake)) (\<lambda>_. give (Waiting, c1))
          | Mutations ms \<Rightarrow>
              if ms \<noteq> [] then seq (run_mutations co (mutation_order co ms)) (\<lambda>_. give (Waiting, c1))
              else give (final_verdict (\<lambda>n. effective_state n (state (ns_name n)) completed) failed False
                     (ct_nodes (effective_workflow t c)), c1)))"
    by (auto intro!: branch_ok seq_of_sum seq_call seq_any [OF run_mutations_ok] last_ok split: plan.split prod.split)
qed

lemma settle_retry_ok:
  assumes "steady we t c0 c"
  shows "act_ok (moved_on we t c0) (\<lambda>x. case x of Inl (r, c1) \<Rightarrow> r \<noteq> None | Inr c1 \<Rightarrow> steady we t c0 c1) (settle_retry co t c)"
  unfolding settle_retry_def
  by (intro step_ok branch_ok seq_any [OF failed_nodes_ok] seq_any [OF reopen_ok] seq_persist last_ok)
    (use assms steady_receipts in \<open>auto intro: steady_moved\<close>)

lemma settle_graft_ok:
  assumes "steady we t c0 c"
  shows "act_ok (moved_on we t c0) (\<lambda>x. case x of Inl (r, c1) \<Rightarrow> r \<noteq> None | Inr c1 \<Rightarrow> steady we t c0 c1) (settle_graft co c)"
  unfolding settle_graft_def
  by (intro step_ok branch_ok seq_persist last_ok) (use assms steady_receipts in \<open>auto intro: steady_moved\<close>)

lemma settled_ok:
  assumes "act_ok (moved_on we t c0) (\<lambda>x. case x of Inl (r, c1) \<Rightarrow> r \<noteq> None | Inr c1 \<Rightarrow> steady we t c0 c1) m"
    and "\<And>c. steady we t c0 c \<Longrightarrow> act_ok (moved_on we t c0) (going_on we t c0) (k c)"
  shows "act_ok (moved_on we t c0) (going_on we t c0) (seq m (\<lambda>x. case x of Inl r \<Rightarrow> give r | Inr c \<Rightarrow> k c))"
  by (rule seq_ok [OF assms(1)]) (auto intro!: last_ok assms(2) simp: going_on_def split: sum.splits prod.splits option.splits)

lemma accept_retry_ok:
  assumes "steady we t c0 c" "cu_failed c" "checked_add_word (cu_revision c) 1 = Some following"
  shows "act_ok (moved_on we t c0) (going_on we t c0) (accept_retry co t following i c)"
  unfolding accept_retry_def
  by (intro seq_any [OF retry_failed_children_ok] seq_any [OF attempt_ok [OF failed_nodes_ok]] step_ok branch_ok
      seq_any [OF reject_graft_ok] seq_any [OF reopen_ok] seq_persist last_ok)
    (use moved_retried [OF assms] in \<open>auto simp: going_on_def\<close>)

lemma reconcile_retry_ok:
  assumes "steady we t c0 c"
  shows "act_ok (moved_on we t c0) (going_on we t c0) (reconcile_retry co t c)"
  unfolding reconcile_retry_def
proof (rule settled_ok [OF settle_retry_ok [OF assms]])
  fix c1
  assume c1: "steady we t c0 c1"
  have "act_ok P (\<lambda>_. True) (reject_competing_graft co i)" for P i
    unfolding reject_competing_graft_def by (intro step_ok branch_ok reject_graft_ok last_ok TrueI)
  note competing = seq_any [OF this]
  show "act_ok (moved_on we t c0) (going_on we t c0) (next_retry co t c1)"
    unfolding next_retry_def
    by (intro step_ok branch_ok seq_any [OF reject_graft_ok] competing accept_retry_ok [OF c1] last_ok)
      (use c1 in \<open>auto simp: going_on_def\<close>)
qed

lemma accept_graft_ok:
  assumes "steady we t c0 c" "hash_ok we" "co_env co = we"
    and "checked_add_word (cu_revision c) 1 = Some following" "g \<noteq> []" "\<not> cu_failed c"
  shows "act_ok (moved_on we t c0) (going_on we t c0) (accept_graft co t following i g c)"
proof (cases "validate_coordinator (co_env co)
    ((effective_workflow t c)\<lparr>ct_nodes := ct_nodes (effective_workflow t c) @ g\<rparr>)")
  case (Inl e)
  then show ?thesis
    by (cases e) (auto intro!: last_ok seq_any [OF reject_graft_ok] simp: accept_graft_def going_on_def)
next
  case (Inr u)
  then have "coordinator_ok we ((effective_workflow t c)\<lparr>ct_nodes := ct_nodes (effective_workflow t c) @ g\<rparr>)"
    using assms(2,3) validate_coordinator_iff by simp
  note moved = moved_grafted [OF assms(1,6,4,5) this]
  show ?thesis unfolding accept_graft_def Inr sum.case
    by (intro step_ok branch_ok seq_persist last_ok) (use moved in \<open>auto simp: going_on_def\<close>)
qed

lemma reconcile_graft_ok:
  assumes "steady we t c0 c" "hash_ok we" "co_env co = we"
  shows "act_ok (moved_on we t c0) (going_on we t c0) (reconcile_graft co t c)"
  unfolding reconcile_graft_def
proof (intro branch_ok give_up_ok, rule settled_ok [OF settle_graft_ok [OF assms(1)]])
  fix c1
  assume c1: "steady we t c0 c1"
  show "act_ok (moved_on we t c0) (going_on we t c0) (next_graft co t c1)"
    unfolding next_graft_def
    by (intro step_ok branch_ok seq_any [OF reject_graft_ok] accept_graft_ok [OF c1 assms(2,3)] last_ok)
      (use c1 in \<open>auto simp: going_on_def\<close>)
qed

lemma automatic_retry_ok:
  assumes "steady we t c0 c"
  shows "act_ok (moved_on we t c0) (steady we t c0) (enqueue_automatic_retry co t c)"
  unfolding enqueue_automatic_retry_def
  by (intro step_ok branch_ok seq_persist last_ok) (use assms steady_receipts in \<open>auto intro: steady_moved\<close>)

lemma conclude_failure_ok:
  assumes "steady we t c0 c"
  shows "act_ok (moved_on we t c0) (\<lambda>_. True) (conclude_failure co t c)"
proof -
  have fail: "moved_on we t c0 c2"
    if rec: "record_event ev None None (c\<lparr>cu_failed := f, cu_automatic_retry_pending := a\<rparr>) = Inr c2" for ev f a c2
  proof -
    have eff: "effective_workflow t (c\<lparr>cu_failed := f, cu_automatic_retry_pending := a, cu_events := evs\<rparr>) =
        effective_workflow t c" for evs by (rule effective_cong) simp
    obtain evs where "c2 = c\<lparr>cu_failed := f, cu_automatic_retry_pending := a, cu_events := evs\<rparr>"
      "history_ok (cu_events c) \<longrightarrow> history_ok evs"
      using record_event_fields [OF rec] by auto
    with assms eff [of evs] show ?thesis
      by (auto simp: moved_on_def steady_def cursor_ok_def same_plan_def grown_def)
  qed
  have "moved_on we t c0 c2"
    if "record_event ev None None (if b then (if d then c\<lparr>cu_failed := True\<rparr> else c)\<lparr>cu_automatic_retry_pending := True\<rparr>
      else if d then c\<lparr>cu_failed := True\<rparr> else c) = Inr c2" for ev b d c2
  proof -
    have "(if b then (if d then c\<lparr>cu_failed := True\<rparr> else c)\<lparr>cu_automatic_retry_pending := True\<rparr>
        else if d then c\<lparr>cu_failed := True\<rparr> else c) =
      c\<lparr>cu_failed := d \<or> cu_failed c, cu_automatic_retry_pending := b \<or> cu_automatic_retry_pending c\<rparr>"
      by simp
    from that [unfolded this] show ?thesis by (rule fail)
  qed
  then show ?thesis
    unfolding conclude_failure_def
    by (intro step_ok branch_ok seq_persist last_ok TrueI) blast
qed

lemma start_ok:
  assumes "cursor_ok we t c"
  shows "act_ok (moved_on we t c) (steady we t c) (start_history co c)"
  unfolding start_history_def
  by (intro step_ok branch_ok seq_persist last_ok)
    (use steady_event [OF steady_refl [OF assms]] steady_refl [OF assms] in \<open>auto intro: steady_moved\<close>)

lemma conclude_ok:
  assumes "case x of (r, c1) \<Rightarrow> steady we t c c1"
  shows "act_ok (moved_on we t c) (\<lambda>_. True) (conclude co poll t x)"
proof -
  obtain r c1 where x: "x = (r, c1)" by (cases x)
  with assms have c1: "steady we t c c1" by simp
  show ?thesis
  proof (cases r)
    case Succeeded
    have "act_ok (moved_on we t c) (\<lambda>_. True) (seq (of_sum (record_event ''workflow_succeeded'' None None c1)) (\<lambda>c2.
        seq (persist_workflow_cursor co c2) (\<lambda>_. give Completed)))"
      by (intro step_ok seq_persist last_ok TrueI) (rule steady_moved [OF steady_event [OF c1]])
    with x Succeeded show ?thesis by (simp add: conclude_def)
  qed (use x conclude_failure_ok [OF c1] in \<open>auto simp: conclude_def intro!: last_ok\<close>)
qed

lemma after_graft_ok:
  assumes "going_on we t c x"
  shows "act_ok (moved_on we t c) (\<lambda>_. True) (after_graft co poll t x)"
  using assms
  by (auto simp: after_graft_def going_on_def intro!: last_ok seq_ok [OF tick_ok] conclude_ok
      split: prod.splits option.splits)

lemma after_retry_ok:
  assumes "going_on we t c x" "hash_ok we" "co_env co = we"
  shows "act_ok (moved_on we t c) (\<lambda>_. True) (after_retry co poll t x)"
  using assms
  by (auto simp: after_retry_def going_on_def [of _ _ _ x] intro!: last_ok seq_ok [OF reconcile_graft_ok] after_graft_ok
      split: prod.splits option.splits)

lemma coordinate_ok:
  assumes "cursor_ok we t c" "hash_ok we" "co_env co = we" "durable_cursor co stored c"
  shows "act_ok (moved_on we t c) (\<lambda>_. True) (coordinate co poll t stored)"
proof -
  have first: "act_ok (moved_on we t c) (\<lambda>x. x = c)
      (case stored of None \<Rightarrow> give cursor_default | Some b \<Rightarrow> parsed [] (dec_cursor co b))"
    using assms(4) by (auto simp: durable_cursor_def parsed_def intro!: last_ok split: option.splits)
  have again: "act_ok (moved_on we t c) (steady we t c)
      (if cu_automatic_retry_pending c2 then enqueue_automatic_retry co t c2 else give c2)" if "steady we t c c2" for c2
    using that by (intro branch_ok automatic_retry_ok give_ok)
  show ?thesis
    unfolding coordinate_def
    by (rule seq_ok [OF first], rule seq_ok [of _ "steady we t c"], simp add: start_ok [OF assms(1)],
        rule seq_ok [OF again], assumption, rule seq_ok [OF reconcile_retry_ok], assumption,
        rule after_retry_ok [OF _ assms(2,3)])
qed

end

interpretation board_cursor: cursor_writer "board_coord bp" bo_cursor for bp
  by unfold_locales
    (auto simp: board_coord_def dest: on_store_step split: if_splits)

text \<open>C7. The coordinator's handler only ever moves its durable cursor forward. Whatever it returns, an
  error included, and at whatever point it stops, the cursor it leaves stored describes a graph that
  passes the coordinator's validation, keeps every completed node complete, keeps at most 256 events
  with consecutive sequence numbers, and belongs to the same revision or to the next one: by a graft
  that adds nodes to a workflow that has not failed, or by a retry of a failed one, which starts the
  next generation.\<close>

theorem cursor_moves_forward:
  assumes "coordinate (board_coord bp) poll t (bo_cursor s) s = (r, s')"
    and "durable_cursor (board_coord bp) (bo_cursor s) c" "cursor_ok (bp_env bp) t c"
    and "hash_ok (bp_env bp)" "\<forall>c p. bp_enc bp c = Inr p \<longrightarrow> bp_dec bp p = Inr c"
    and "durable_cursor (board_coord bp) (bo_cursor s') c'"
  shows "validate_coordinator (bp_env bp) (effective_workflow t c') = Inr () \<and>
    set (cu_completed c) \<inter> ns_name ` set (ct_nodes (effective_workflow t c)) \<subseteq> set (cu_completed c') \<and>
    history_ok (cu_events c') \<and> (same_plan c c' \<or> grafted c c' \<or> retried c c') \<and> cursor_ok (bp_env bp) t c'"
proof -
  note walk = board_cursor.coordinate_ok [OF assms(3,4) board_coord_sel(1) assms(2), of poll]
  from walk [unfolded board_cursor.act_ok_def, rule_format, OF assms(1)]
  have "bo_cursor s' = bo_cursor s \<or>
      (\<exists>c1 p. bp_enc bp c1 = Inr p \<and> bo_cursor s' = Some p \<and> moved_on (bp_env bp) t c c1)"
    by simp
  then have "moved_on (bp_env bp) t c c'"
  proof
    assume "bo_cursor s' = bo_cursor s"
    with assms(2,6) have "c' = c" by (auto simp: durable_cursor_def split: option.splits)
    with assms(3) show ?thesis by (simp add: steady_moved steady_refl)
  next
    assume "\<exists>c1 p. bp_enc bp c1 = Inr p \<and> bo_cursor s' = Some p \<and> moved_on (bp_env bp) t c c1"
    with assms(5,6) show ?thesis by (auto simp: durable_cursor_def)
  qed
  then show ?thesis
    using validate_coordinator_iff [OF assms(4)] by (simp add: moved_on_def cursor_ok_def grown_def)
qed

section \<open>Witness\<close>

text \<open>The first run of a coordinator: it writes its first event, then starts the first task.\<close>

definition demo_started :: workflow_cursor where
  "demo_started = cursor_default\<lparr>cu_events :=
     [\<lparr>we_sequence = 1, we_event = ''workflow_started'', we_node = None, we_revision = 1, we_generation = 1, we_at_ms = None\<rparr>]\<rparr>"

definition demo_codec :: board_params where
  "demo_codec = demo_params
     \<lparr>bp_enc := \<lambda>c. if c = demo_started then Inr ''s'' else Inl [],
      bp_dec := \<lambda>p. if p = ''s'' then Inr demo_started else Inl []\<rparr>"

definition demo_first :: board where
  "demo_first = demo_board\<lparr>bo_cursor := Some ''s'', bo_output := Some (1, ''s'')\<rparr>"

lemma demo_codec_sel [simp]:
  "bp_env demo_codec = demo_wf_env" "bp_enc demo_codec demo_started = Inr ''s''" "bp_dec demo_codec ''s'' = Inr demo_started"
  "bp_order demo_codec = id"
  by (simp_all add: demo_codec_def demo_params_def)

lemma demo_started_sel [simp]:
  "cu_events demo_started \<noteq> []" "cu_automatic_retry_pending demo_started = False" "cu_grafts demo_started = []"
  "cu_pending_retry_receipt demo_started = None" "cu_pending_graft_receipt demo_started = None"
  "cu_revision demo_started = 1" "cu_completed demo_started = []" "cu_completed_at_ms demo_started = Map.empty"
  by (simp_all add: demo_started_def cursor_default_def)

lemma demo_start: "start_history (board_coord demo_codec) cursor_default demo_board = (Inr demo_started, demo_first)"
proof -
  have "record_event ''workflow_started'' None None cursor_default = Inr demo_started"
    by (simp add: record_event_def demo_started_def cursor_default_def Let_def MAX_WORKFLOW_EVENTS_def)
  moreover have "persist_workflow_cursor (board_coord demo_codec) demo_started demo_board = (Inr (), demo_first)"
    by (simp add: persist_workflow_cursor_def seq_def boxed_def)
      (simp add: board_coord_def demo_codec_def demo_params_def demo_first_def seq_def boxed_def)
  moreover have "cu_events cursor_default = []" by (simp add: cursor_default_def)
  ultimately show ?thesis by (simp add: start_history_def seq_def)
qed

lemma demo_no_receipt:
  "next_retry (board_coord demo_codec) demo_task demo_started demo_first = (Inr (None, demo_started), demo_first)"
  "next_graft (board_coord demo_codec) demo_task demo_started demo_first = (Inr (None, demo_started), demo_first)"
proof -
  have "checked_add_word (1 :: u64) 1 = Some 2" by (simp add: checked_add_word_def)
  moreover have "get_job (board_coord demo_codec) i b demo_first = Inr None" if "i \<noteq> ''w:a''" "i \<noteq> ''w:b''" for i b
    using that by (simp add: board_coord_def sq_get_job_def demo_first_def)
  moreover have "retry_receipt_id ''w'' 2 \<notin> {''w:a'', ''w:b''}" "graft_receipt_id ''w'' 2 \<notin> {''w:a'', ''w:b''}"
    by (simp_all add: retry_receipt_id_def graft_receipt_id_def)
  moreover have "ct_workflow_id demo_task = ''w''" by (simp add: demo_task_def)
  ultimately show
    "next_retry (board_coord demo_codec) demo_task demo_started demo_first = (Inr (None, demo_started), demo_first)"
    "next_graft (board_coord demo_codec) demo_task demo_started demo_first = (Inr (None, demo_started), demo_first)"
    by (simp_all add: next_retry_def next_graft_def seq_def expect_def query_def Let_def)
qed

lemma demo_tick:
  "tick_with_evidence (board_coord demo_codec) demo_task True demo_started demo_first =
     (Inr (Waiting, demo_started), snd (on_store (\<lambda>now. sq_promote_job now ''w:a'') demo_first))"
proof -
  let ?co = "board_coord demo_codec"
  let ?ja = "sq_summary False (demo_pending ''w:a'')" and ?jb = "sq_summary False (demo_pending ''w:b'')"
  let ?state = "[''b'' \<mapsto> ?jb, ''a'' \<mapsto> ?ja]"
  have st: "js_state ?ja = ''pending''" "js_state ?jb = ''pending''" by (simp_all add: sq_summary_def Let_def)
  have g: "gather ?co demo_task True demo_started demo_first = (Inr (?state, {}, demo_started), demo_first)"
    by (rule demo_gather) (simp_all add: board_coord_def sq_get_job_def st demo_first_def)
  have f: "failed_set demo_task ?state {} = {}" by (rule demo_no_failure) (simp_all add: st)
  have p: "scan_nodes (judge demo_wf_env demo_task demo_started ?state {} {}) [] (ct_nodes demo_task)
      = Inr (Mutations [(''w:a'', False)])"
    by (simp add: judge_def effective_state_def st virtual_def)
  have a: "jobs (bo_store demo_first) ''w:a'' = Some (demo_pending ''w:a'')" by (simp add: demo_first_def)
  then have "fst (on_store (\<lambda>now. sq_promote_job now ''w:a'') demo_first) = Inr ()"
    by (simp add: on_store_def case_prod_beta sq_promote_job_def simple_transition_def Let_def)
  then have m: "run_mutations ?co [(''w:a'', False)] demo_first =
      (Inr (), snd (on_store (\<lambda>now. sq_promote_job now ''w:a'') demo_first))"
    by (cases "on_store (\<lambda>now. sq_promote_job now ''w:a'') demo_first")
      (simp add: seq_def call_def board_coord_def)
  show ?thesis
    unfolding tick_with_evidence_def
    by (simp add: seq_def demo_accepted g f p m del: demo_task_sel run_mutations.simps)
qed

lemma demo_coordinate:
  "coordinate (board_coord demo_codec) 1000 demo_task None demo_board =
     (Inr (Snoozed 1000), snd (on_store (\<lambda>now. sq_promote_job now ''w:a'') demo_first))"
proof -
  have "effective_workflow demo_task demo_started = demo_task" by (simp add: effective_workflow_def)
  then show ?thesis
    by (simp add: coordinate_def seq_def demo_start reconcile_retry_def settle_retry_def demo_no_receipt after_retry_def
        reconcile_graft_def settle_graft_def after_graft_def demo_tick conclude_def del: demo_task_sel)
qed

theorem cursor_moves_forward_witness:
  "\<exists>s'. coordinate (board_coord demo_codec) 1000 demo_task (bo_cursor demo_board) demo_board = (Inr (Snoozed 1000), s') \<and>
     bo_cursor s' = Some ''s'' \<and> validate_coordinator demo_wf_env (effective_workflow demo_task demo_started) = Inr () \<and>
     (same_plan cursor_default demo_started \<or> grafted cursor_default demo_started \<or> retried cursor_default demo_started)"
proof -
  let ?s = "snd (on_store (\<lambda>now. sq_promote_job now ''w:a'') demo_first)"
  have c: "bo_cursor ?s = Some ''s''" by (simp add: on_store_def case_prod_beta demo_first_def)
  have run: "coordinate (board_coord demo_codec) 1000 demo_task (bo_cursor demo_board) demo_board = (Inr (Snoozed 1000), ?s)"
    using demo_coordinate by simp
  have "effective_workflow demo_task cursor_default = demo_task" by (simp add: effective_workflow_def cursor_default_def)
  then have "cursor_ok (bp_env demo_codec) demo_task cursor_default"
    using demo_accepted validate_coordinator_iff [OF demo_hash_ok]
    by (simp add: cursor_ok_def history_ok_def) (simp add: cursor_default_def)
  moreover have "durable_cursor (board_coord demo_codec) (bo_cursor demo_board) cursor_default"
    "durable_cursor (board_coord demo_codec) (bo_cursor ?s) demo_started"
    by (simp_all add: durable_cursor_def c)
  moreover have "\<forall>c p. bp_enc demo_codec c = Inr p \<longrightarrow> bp_dec demo_codec p = Inr c"
    by (simp add: demo_codec_def)
  ultimately show ?thesis
    using cursor_moves_forward [OF run] c run demo_hash_ok by simp
qed

end
