(* ===== verification/WorkflowControl.thy ===== *)
theory WorkflowControl
  imports WorkflowOps
begin

text \<open>
  What a cancellation and a signal emission of \<open>WorkflowOps\<close> do to the store of \<open>WorkflowRun\<close>, run
  to the end without interference: a cancellation stops exactly the unfinished jobs of the
  workflows it reaches and of their coordinators; an emission records the signal once per key
  and releases exactly the jobs that wait for it, and repeating it changes nothing.
\<close>

section \<open>Reading the store\<close>

definition task_at :: "board_params \<Rightarrow> board \<Rightarrow> string \<Rightarrow> coordinator_task option" where
  "task_at bp s w =
     (case jobs (bo_store s) (coordinator_id w) of
        None \<Rightarrow> None
      | Some j \<Rightarrow> (case dec_coordinator (bp_env bp) (payload (env j)) of Inl _ \<Rightarrow> None | Inr t \<Rightarrow> Some t))"

definition jobs_of :: "board_params \<Rightarrow> board \<Rightarrow> string \<Rightarrow> string set" where
  "jobs_of bp s w = (case task_at bp s w of None \<Rightarrow> {} | Some t \<Rightarrow> set (workflow_jobs w t))"

definition cancellable_at :: "board \<Rightarrow> string \<Rightarrow> bool" where
  "cancellable_at s i = (case board_state s i of None \<Rightarrow> False | Some st \<Rightarrow> cancellable st)"

text \<open>\<open>s'\<close> is \<open>s\<close> with the unfinished jobs of \<open>J\<close> cancelled.\<close>

definition cancelled_in :: "board_params \<Rightarrow> string set \<Rightarrow> board \<Rightarrow> board \<Rightarrow> bool" where
  "cancelled_in bp J s s' \<longleftrightarrow>
     (\<forall>i. board_state s' i = (if i \<in> J \<and> cancellable_at s i then Some ''cancelled'' else board_state s i)) \<and>
     (\<forall>w. task_at bp s' w = task_at bp s w)"

lemma get_job_board [simp]:
  "get_job (board_coord bp) i p s = Inr (map_option (sq_summary p) (jobs (bo_store s) i))"
  by (simp add: board_coord_def sq_get_job_def)

lemma summary_sel [simp]: "js_state (sq_summary p j) = jstate j" "js_payload (sq_summary True j) = Some (payload (env j))"
  by (simp_all add: sq_summary_def Let_def)

lemma fetch_board:
  assumes "fetch_coordinator (board_coord bp) w s = (r, s')"
  shows "s' = s" "\<And>job t. r = Inr (job, t) \<Longrightarrow> task_at bp s w = Some t" "\<And>e. r = Inl e \<Longrightarrow> task_at bp s w = None"
proof -
  have "s' = s \<and> (\<forall>job t. r = Inr (job, t) \<longrightarrow> task_at bp s w = Some t) \<and> (\<forall>e. r = Inl e \<longrightarrow> task_at bp s w = None)"
  proof (cases "jobs (bo_store s) (coordinator_id w)")
    case None
    with assms show ?thesis by (auto simp: fetch_coordinator_def seq_def query_def expect_def task_at_def)
  next
    case (Some j)
    with assms show ?thesis
      by (cases "dec_coordinator (bp_env bp) (payload (env j))")
        (auto simp: fetch_coordinator_def seq_def query_def expect_def parsed_def task_at_def)
  qed
  then show "s' = s" "\<And>job t. r = Inr (job, t) \<Longrightarrow> task_at bp s w = Some t" "\<And>e. r = Inl e \<Longrightarrow> task_at bp s w = None"
    by auto
qed

section \<open>Cancellation\<close>

lemma cancelled_in_empty: "cancelled_in bp {} s s"
  by (simp add: cancelled_in_def)

lemma cancelled_in_at: "cancelled_in bp J s s' \<Longrightarrow> cancellable_at s' i \<longleftrightarrow> cancellable_at s i \<and> i \<notin> J"
  by (auto simp: cancelled_in_def cancellable_at_def cancellable_def split: option.splits)

lemma cancelled_in_trans:
  assumes "cancelled_in bp A s s1" "cancelled_in bp B s1 s2"
  shows "cancelled_in bp (A \<union> B) s s2"
  using assms cancelled_in_at [OF assms(1)] by (auto simp: cancelled_in_def)

lemma cancelled_in_jobs: "cancelled_in bp J s s' \<Longrightarrow> jobs_of bp s' w = jobs_of bp s w"
  by (simp add: cancelled_in_def jobs_of_def)

lemma cancel_one:
  assumes "cancellable_at s i" "operator_cancel (board_coord bp) i s = (r, s')"
  shows "r = Inr () \<and> cancelled_in bp {i} s s'"
proof -
  from assms(1) obtain j where j: "jobs (bo_store s) i = Some j" "cancellable (jstate j)"
    by (auto simp: cancellable_at_def board_state_def split: option.splits)
  let ?j = "j\<lparr>jstate := ''cancelled'', finalized_at := bo_now s, lease_id := [], lease_expires := 0\<rparr>"
  have "live ''cancelled'' = False" by (simp add: live_def is_terminal_def)
  with assms(2) j have r: "r = Inr ()"
    and s': "s' = s\<lparr>bo_store := put_row i ?j (release_unique i (bo_store s))\<rparr>"
    by (auto simp: board_coord_def on_store_def sq_operator_cancel_def simple_transition_def cancellable_def Let_def)
  have jobs': "jobs (bo_store s') = (jobs (bo_store s))(i \<mapsto> ?j)" by (simp add: s' put_row_state)
  have "board_state s' k = (if k = i then Some ''cancelled'' else board_state s k)" for k
    by (simp add: board_state_def jobs')
  moreover have "task_at bp s' w = task_at bp s w" for w
    using j(1) by (simp add: task_at_def jobs')
  ultimately show ?thesis using r assms(1) by (simp add: cancelled_in_def)
qed

lemma cancel_each_board:
  assumes "cancel_each (board_coord bp) is n s = (r, s')"
  shows "r = Inr (n + card {i \<in> set is. cancellable_at s i}) \<and> cancelled_in bp (set is) s s'"
  using assms
proof (induction "is" arbitrary: n s)
  case Nil
  then show ?case by (simp add: cancelled_in_empty)
next
  case (Cons i "is")
  show ?case
  proof (cases "cancellable_at s i")
    case False
    then have "cancel_each (board_coord bp) (i # is) n s = cancel_each (board_coord bp) is n s"
      by (cases "jobs (bo_store s) i") (simp_all add: seq_def query_def cancellable_at_def board_state_def)
    with Cons False have "r = Inr (n + card {k \<in> set is. cancellable_at s k}) \<and> cancelled_in bp (set is) s s'" by simp
    moreover have "{k \<in> set (i # is). cancellable_at s k} = {k \<in> set is. cancellable_at s k}" using False by auto
    ultimately show ?thesis using False by (auto simp: cancelled_in_def)
  next
    case True
    obtain q s1 where o: "operator_cancel (board_coord bp) i s = (q, s1)" by (meson surj_pair)
    from cancel_one [OF True o] have c: "q = Inr ()" "cancelled_in bp {i} s s1" by simp_all
    from True obtain j where "jobs (bo_store s) i = Some j" "cancellable (jstate j)"
      by (auto simp: cancellable_at_def board_state_def split: option.splits)
    with Cons.prems o c(1) have "cancel_each (board_coord bp) is (n + 1) s1 = (r, s')"
      by (simp add: seq_def query_def call_def)
    from Cons.IH [OF this] have ih: "r = Inr (n + 1 + card {k \<in> set is. cancellable_at s1 k})"
      "cancelled_in bp (set is) s1 s'" by simp_all
    have "{k \<in> set (i # is). cancellable_at s k} = insert i {k \<in> set is. cancellable_at s1 k}"
      using True cancelled_in_at [OF c(2)] by auto
    moreover have "i \<notin> {k \<in> set is. cancellable_at s1 k}" using cancelled_in_at [OF c(2)] by simp
    ultimately have "card {k \<in> set (i # is). cancellable_at s k} = 1 + card {k \<in> set is. cancellable_at s1 k}" by simp
    with ih cancelled_in_trans [OF c(2) ih(2)] show ?thesis by simp
  qed
qed

text \<open>The workflows a cancellation reaches.\<close>

definition children :: "board_params \<Rightarrow> board \<Rightarrow> bool \<Rightarrow> string \<Rightarrow> string set" where
  "children bp s propagate w =
     (case task_at bp s w of None \<Rightarrow> {} | Some t \<Rightarrow> if propagate then set (child_ids t) else {})"

inductive_set reached :: "board_params \<Rightarrow> board \<Rightarrow> bool \<Rightarrow> string set \<Rightarrow> string set"
  for bp s propagate A where
  reached_start: "w \<in> A \<Longrightarrow> w \<in> reached bp s propagate A"
| reached_child: "w \<in> reached bp s propagate A \<Longrightarrow> v \<in> children bp s propagate w \<Longrightarrow> v \<in> reached bp s propagate A"

lemma reached_mono: "A \<subseteq> reached bp s p B \<Longrightarrow> reached bp s p A \<subseteq> reached bp s p B"
proof
  fix w
  assume "w \<in> reached bp s p A" and A: "A \<subseteq> reached bp s p B"
  then show "w \<in> reached bp s p B" by induction (auto intro: reached_child)
qed

lemma reached_cong:
  assumes "\<And>w. task_at bp s' w = task_at bp s w"
  shows "children bp s' = children bp s" "reached bp s' = reached bp s"
proof -
  show c: "children bp s' = children bp s" by (simp add: children_def fun_eq_iff assms)
  have "reached bp s' p A = reached bp s p A" for p A
  proof
    show "reached bp s' p A \<subseteq> reached bp s p A"
    proof
      fix w assume "w \<in> reached bp s' p A"
      then show "w \<in> reached bp s p A" by induction (auto intro: reached.intros simp: c)
    qed
    show "reached bp s p A \<subseteq> reached bp s' p A"
    proof
      fix w assume "w \<in> reached bp s p A"
      then show "w \<in> reached bp s' p A" by induction (auto intro: reached.intros simp: c)
    qed
  qed
  then show "reached bp s' = reached bp s" by (simp add: fun_eq_iff)
qed

lemma reached_closed:
  assumes "A \<subseteq> V" "\<And>w. w \<in> V \<Longrightarrow> children bp s p w \<subseteq> V"
  shows "reached bp s p A \<subseteq> V"
proof
  fix w
  assume "w \<in> reached bp s p A"
  then show "w \<in> V" by induction (use assms in auto)
qed

text \<open>
  The traversal from \<open>todo\<close> with \<open>visited\<close> behind it: \<open>V\<close> is what it visits in all. It succeeds
  with the counts, or it fails because a workflow is missing or there are too many.
\<close>

definition swept ::
  "board_params \<Rightarrow> bool \<Rightarrow> string list \<Rightarrow> string list \<Rightarrow> nat \<Rightarrow> board \<Rightarrow> wf_error + cancel_receipt \<Rightarrow> board
    \<Rightarrow> string list \<Rightarrow> bool" where
  "swept bp p todo visited n s r s' V \<longleftrightarrow>
     distinct V \<and> length V \<le> MAX_WORKFLOW_NODES \<and> set visited \<subseteq> set V \<and> set todo \<subseteq> set V \<and>
     set V \<subseteq> set visited \<union> reached bp s p (set todo) \<and>
     (\<forall>w \<in> set V - set visited. task_at bp s w \<noteq> None \<and> children bp s p w \<subseteq> set V) \<and>
     r = Inr \<lparr>cr_workflows = length V,
       cr_jobs = n + card {i \<in> \<Union>(jobs_of bp s ` (set V - set visited)). cancellable_at s i}\<rparr> \<and>
     cancelled_in bp (\<Union>(jobs_of bp s ` (set V - set visited))) s s'"

definition blocked_sweep :: "board_params \<Rightarrow> bool \<Rightarrow> string list \<Rightarrow> string list \<Rightarrow> board \<Rightarrow> bool" where
  "blocked_sweep bp p todo visited s \<longleftrightarrow>
     (\<exists>w \<in> reached bp s p (set todo). task_at bp s w = None) \<or>
     (\<exists>V. distinct V \<and> length V > MAX_WORKFLOW_NODES \<and> set V \<subseteq> set visited \<union> reached bp s p (set todo))"

lemma swept_skip: "swept bp p todo visited n s r s' V \<Longrightarrow> w \<in> set visited \<Longrightarrow> swept bp p (w # todo) visited n s r s' V"
  using reached_mono [of "set todo" bp s p "set (w # todo)"] unfolding swept_def by (auto intro: reached_start)

lemma blocked_wider:
  assumes "blocked_sweep bp p todo visited s" "set visited \<subseteq> set visited' \<union> reached bp s p (set todo')"
    and "set todo \<subseteq> reached bp s p (set todo')"
  shows "blocked_sweep bp p todo' visited' s"
proof -
  note wider = reached_mono [OF assms(3)]
  from assms(1) consider w where "w \<in> reached bp s p (set todo)" "task_at bp s w = None"
    | V where "distinct V" "length V > MAX_WORKFLOW_NODES" "set V \<subseteq> set visited \<union> reached bp s p (set todo)"
    unfolding blocked_sweep_def by blast
  then show ?thesis
  proof cases
    case 1
    with wider show ?thesis unfolding blocked_sweep_def by blast
  next
    case 2
    from 2(3) assms(2) wider have "set V \<subseteq> set visited' \<union> reached bp s p (set todo')" by blast
    with 2 show ?thesis unfolding blocked_sweep_def by blast
  qed
qed

lemma finite_jobs_of: "finite (jobs_of bp s w)"
  by (simp add: jobs_of_def split: option.split)

lemma card_cancelled:
  assumes "cancelled_in bp A s s1" "finite A" "finite B"
  shows "card {i \<in> A \<union> B. cancellable_at s i} = card {i \<in> A. cancellable_at s i} + card {i \<in> B. cancellable_at s1 i}"
proof -
  have "{i \<in> A \<union> B. cancellable_at s i} = {i \<in> A. cancellable_at s i} \<union> {i \<in> B. cancellable_at s1 i}"
    using cancelled_in_at [OF assms(1)] by auto
  moreover have "{i \<in> A. cancellable_at s i} \<inter> {i \<in> B. cancellable_at s1 i} = {}"
    using cancelled_in_at [OF assms(1)] by auto
  ultimately show ?thesis using assms(2,3) by (simp add: card_Un_disjoint)
qed

lemma swept_step:
  assumes "swept bp p (todo @ (if p then child_ids t else [])) (w # visited) (n + card {i \<in> jobs_of bp s w. cancellable_at s i}) s1 r s' V"
    and "w \<notin> set visited" "task_at bp s w = Some t" "cancelled_in bp (jobs_of bp s w) s s1"
  shows "swept bp p (w # todo) visited n s r s' V"
proof -
  let ?B = "\<Union>(jobs_of bp s ` (set V - set (w # visited)))"
  have tasks: "task_at bp s1 = task_at bp s" "jobs_of bp s1 = jobs_of bp s"
    using assms(4) by (simp_all add: fun_eq_iff cancelled_in_def jobs_of_def)
  then have reach: "children bp s1 = children bp s" "reached bp s1 = reached bp s"
    using reached_cong [of bp s1 s] by simp_all
  have kids: "children bp s p w = (if p then set (child_ids t) else {})" using assms(3) by (simp add: children_def)
  have wider: "reached bp s p (set (todo @ (if p then child_ids t else []))) \<subseteq> reached bp s p (set (w # todo))"
    by (rule reached_mono) (use kids in \<open>auto intro: reached_start reached_child [of w] split: if_splits\<close>)
  note sw = assms(1) [unfolded swept_def tasks reach]
  have V: "distinct V" "length V \<le> MAX_WORKFLOW_NODES" "insert w (set visited) \<subseteq> set V" "set todo \<subseteq> set V"
    "children bp s p w \<subseteq> set V"
    "set V \<subseteq> insert w (set visited) \<union> reached bp s p (set (todo @ (if p then child_ids t else [])))"
    and k: "\<And>v. v \<in> set V - set (w # visited) \<Longrightarrow> task_at bp s v \<noteq> None \<and> children bp s p v \<subseteq> set V"
    and r: "r = Inr \<lparr>cr_workflows = length V, cr_jobs = n + card {i \<in> jobs_of bp s w. cancellable_at s i} +
      card {i \<in> ?B. cancellable_at s1 i}\<rparr>"
    and c: "cancelled_in bp ?B s1 s'"
    using sw kids by auto
  have split: "set V - set visited = insert w (set V - set (w # visited))" using V(3) assms(2) by auto
  have "finite ?B" by (simp add: finite_jobs_of)
  note count = card_cancelled [OF assms(4) finite_jobs_of this]
  have jobs: "\<Union>(jobs_of bp s ` (set V - set visited)) = jobs_of bp s w \<union> ?B" by (simp add: split)
  have "task_at bp s v \<noteq> None \<and> children bp s p v \<subseteq> set V" if "v \<in> set V - set visited" for v
    using that k V(5) assms(3) by (cases "v = w") auto
  moreover have "set V \<subseteq> set visited \<union> reached bp s p (set (w # todo))"
    using V(6) wider reached_start [of w "set (w # todo)" bp s p] by auto
  moreover have "r = Inr \<lparr>cr_workflows = length V, cr_jobs = n + card {i \<in> jobs_of bp s w \<union> ?B. cancellable_at s i}\<rparr>"
    using r count by (simp only: add.assoc)
  ultimately show ?thesis
    unfolding swept_def jobs using V cancelled_in_trans [OF assms(4) c] by simp
qed

lemma cancel_loop_board:
  assumes "cancel_loop (board_coord bp) p todo visited n s = (r, s')" "distinct visited"
    and "length visited \<le> MAX_WORKFLOW_NODES"
  shows "(\<exists>V. swept bp p todo visited n s r s' V) \<or> (\<exists>e. r = Inl e) \<and> blocked_sweep bp p todo visited s"
  using assms
proof (induction "board_coord bp" p todo visited n s rule: cancel_loop.induct)
  case (1 p visited n s)
  then show ?case by (intro disjI1 exI [of _ visited]) (simp add: swept_def cancelled_in_empty)
next
  case (2 p w todo visited n s)
  note prems = "2.prems" and ih = "2.hyps"
  have start: "w \<in> reached bp s p (set (w # todo))" "set todo \<subseteq> reached bp s p (set (w # todo))"
    by (auto intro: reached_start)
  consider (seen) "w \<in> set visited" | (many) "w \<notin> set visited" "length visited + 1 > MAX_WORKFLOW_NODES"
    | (visit) "w \<notin> set visited" "\<not> length visited + 1 > MAX_WORKFLOW_NODES" by blast
  then show ?case
  proof cases
    case seen
    with ih(1) prems have "(\<exists>V. swept bp p todo visited n s r s' V) \<or> (\<exists>e. r = Inl e) \<and> blocked_sweep bp p todo visited s"
      by simp
    with swept_skip [OF _ seen] blocked_wider [OF _ _ start(2), of visited visited] show ?thesis by blast
  next
    case many
    then have "blocked_sweep bp p (w # todo) visited s"
      using prems(2) start(1) unfolding blocked_sweep_def by (intro disjI2 exI [of _ "w # visited"]) auto
    with many prems(1) show ?thesis by auto
  next
    case visit
    obtain f s1 where f: "fetch_coordinator (board_coord bp) w s = (f, s1)" by (meson surj_pair)
    note fetched = fetch_board [OF f]
    show ?thesis
    proof (cases f)
      case (Inl e)
      with prems(1) visit f fetched start(1) show ?thesis by (auto simp: blocked_sweep_def)
    next
      case (Inr x)
      then obtain job t where x: "f = Inr (job, t)" by (cases x) auto
      with fetched have t: "task_at bp s w = Some t" and s1: "s1 = s" by simp_all
      obtain q s2 where c: "cancel_each (board_coord bp) (workflow_jobs w t) n s = (q, s2)" by (meson surj_pair)
      have js: "set (workflow_jobs w t) = jobs_of bp s w" using t by (simp add: jobs_of_def)
      let ?n = "n + card {i \<in> jobs_of bp s w. cancellable_at s i}"
      let ?todo = "todo @ (if p then child_ids t else [])"
      from cancel_each_board [OF c] have q: "q = Inr ?n" and s2: "cancelled_in bp (jobs_of bp s w) s s2"
        by (simp_all add: js)
      have "cancel_loop (board_coord bp) p ?todo (w # visited) ?n s2 = (r, s')"
        using prems(1) visit f x s1 c q by simp
      from ih(2) [OF visit f [symmetric] x refl c [unfolded s1 [symmetric], symmetric] q this] prems(2) visit
      have "(\<exists>V. swept bp p ?todo (w # visited) ?n s2 r s' V) \<or>
          (\<exists>e. r = Inl e) \<and> blocked_sweep bp p ?todo (w # visited) s2" by simp
      then show ?thesis
      proof
        assume "\<exists>V. swept bp p ?todo (w # visited) ?n s2 r s' V"
        with swept_step [OF _ visit(1) t s2] show ?thesis by blast
      next
        assume "(\<exists>e. r = Inl e) \<and> blocked_sweep bp p ?todo (w # visited) s2"
        moreover have "task_at bp s2 = task_at bp s" using s2 by (simp add: fun_eq_iff cancelled_in_def)
        then have "blocked_sweep bp p ?todo (w # visited) s2 = blocked_sweep bp p ?todo (w # visited) s"
          using reached_cong(2) [of bp s2 s] by (simp add: blocked_sweep_def)
        moreover have "children bp s p w = (if p then set (child_ids t) else {})" using t by (simp add: children_def)
        then have "set ?todo \<subseteq> reached bp s p (set (w # todo))"
          using start reached_child [OF start(1)] by auto
        ultimately show ?thesis using blocked_wider [of bp p ?todo "w # visited" s visited "w # todo"] start by auto
      qed
    qed
  qed
qed

text \<open>C29. A cancellation that succeeds has stopped the whole tree: with the workflows reached through the
  child links of the stored coordinators (or only the named one), exactly the unfinished jobs among
  their nodes and coordinators are now cancelled, every other job is as it was, and the receipt
  counts both. It succeeds if and only if every workflow reached is stored and readable and there
  are at most 999 of them; the traversal always ends. The nodes are those of the stored payload: a
  node that a later graft added is not among them.\<close>

theorem cancel_exact:
  assumes "wid \<noteq> []" "cancel_workflow (board_coord bp) wid propagate s = (r, s')"
  defines "W \<equiv> reached bp s propagate {wid}"
  defines "J \<equiv> {i \<in> (\<Union>w \<in> W. jobs_of bp s w). cancellable_at s i}"
  shows "((\<exists>rec. r = Inr rec) \<longleftrightarrow> finite W \<and> card W \<le> MAX_WORKFLOW_NODES \<and> (\<forall>w \<in> W. task_at bp s w \<noteq> None)) \<and>
    (\<forall>rec. r = Inr rec \<longrightarrow>
      cr_workflows rec = card W \<and> cr_jobs rec = card J \<and>
      (\<forall>i. board_state s' i = (if i \<in> J then Some ''cancelled'' else board_state s i)))"
proof -
  from assms(1,2) have "cancel_loop (board_coord bp) propagate [wid] [] 0 s = (r, s')"
    by (simp add: cancel_workflow_def)
  from cancel_loop_board [OF this] consider V where "swept bp propagate [wid] [] 0 s r s' V"
    | e where "r = Inl e" "blocked_sweep bp propagate [wid] [] s" by auto
  then show ?thesis
  proof cases
    case 1
    then have "set V \<subseteq> W" "wid \<in> set V" "\<forall>w \<in> set V. children bp s propagate w \<subseteq> set V"
      by (auto simp: swept_def W_def)
    then have "set V = W" using reached_closed [of "{wid}" "set V" bp s propagate] by (auto simp: W_def)
    with 1 [unfolded swept_def] have V: "distinct V" "length V \<le> MAX_WORKFLOW_NODES" "\<forall>w \<in> W. task_at bp s w \<noteq> None"
      and r: "r = Inr \<lparr>cr_workflows = length V, cr_jobs = card {i \<in> \<Union>(jobs_of bp s ` W). cancellable_at s i}\<rparr>"
      and c: "cancelled_in bp (\<Union>(jobs_of bp s ` W)) s s'" by simp_all
    have "card W = length V" "finite W" using distinct_card [OF V(1)] \<open>set V = W\<close> by auto
    moreover have "board_state s' i = (if i \<in> J then Some ''cancelled'' else board_state s i)" for i
      using c by (simp add: cancelled_in_def J_def)
    ultimately show ?thesis using V r by (simp add: J_def)
  next
    case 2
    have "\<not> (finite W \<and> card W \<le> MAX_WORKFLOW_NODES \<and> (\<forall>w \<in> W. task_at bp s w \<noteq> None))"
    proof
      assume W: "finite W \<and> card W \<le> MAX_WORKFLOW_NODES \<and> (\<forall>w \<in> W. task_at bp s w \<noteq> None)"
      with 2(2) obtain V where "distinct V" "length V > MAX_WORKFLOW_NODES" "set V \<subseteq> W"
        unfolding blocked_sweep_def W_def by auto
      with W card_mono [of W "set V"] distinct_card [of V] show False by simp
    qed
    with 2(1) show ?thesis by simp
  qed
qed

section \<open>The event log\<close>

definition log_ok :: "durable_event list \<times> u64 \<Rightarrow> bool" where
  "log_ok = (\<lambda>(evs, k).
     sorted_wrt (\<lambda>a b. unat (de_event_id a) < unat (de_event_id b)) evs \<and>
     (\<forall>e \<in> set evs. unat (de_event_id e) \<le> unat k) \<and> unat k < 2 ^ 63 \<and>
     (\<forall>sc. length (filter (\<lambda>d. de_scope d = sc) evs) \<le> 100))"

definition same_key_event :: "durable_event \<Rightarrow> durable_event \<Rightarrow> bool" where
  "same_key_event e d \<longleftrightarrow> de_scope d = de_scope e \<and> de_idempotency_key d = de_idempotency_key e"

lemma sorted_distinct_ids:
  "sorted_wrt (\<lambda>a b. unat (de_event_id a) < unat (de_event_id b)) evs \<Longrightarrow> distinct (map de_event_id evs)"
  by (induction evs) force+

lemma filter_drop:
  assumes "distinct (map f xs)"
  shows "filter (\<lambda>x. f x \<in> f ` set (drop m xs)) xs = drop m xs"
proof -
  have xs: "xs = take m xs @ drop m xs" by simp
  have "distinct (map f (take m xs) @ map f (drop m xs))" using assms by (metis map_append xs)
  then have "f ` set (take m xs) \<inter> f ` set (drop m xs) = {}" by simp
  then have "filter (\<lambda>x. f x \<in> f ` set (drop m xs)) (take m xs) = []" by (auto simp: filter_empty_conv)
  then show ?thesis by (subst xs, simp only: filter_append) simp
qed

text \<open>Trimming a scope keeps its hundred newest events and leaves the other scopes alone.\<close>

definition trimmed :: "string \<Rightarrow> durable_event list \<Rightarrow> durable_event list" where
  "trimmed sc evs =
     (let mine = filter (\<lambda>d. de_scope d = sc) evs
      in filter (\<lambda>d. de_scope d = sc \<longrightarrow> de_event_id d \<in> de_event_id ` set (drop (length mine - 100) mine)) evs)"

lemma trimmed_short: "length (filter (\<lambda>d. de_scope d = sc) evs) \<le> 100 \<Longrightarrow> trimmed sc evs = evs"
  by (auto simp: trimmed_def Let_def intro!: filter_True)

lemma trimmed_length:
  assumes "distinct (map de_event_id evs)"
  shows "length (filter (\<lambda>d. de_scope d = sc') (trimmed sc evs)) \<le>
    (if sc' = sc then 100 else length (filter (\<lambda>d. de_scope d = sc') evs))"
proof (cases "sc' = sc")
  case True
  let ?mine = "filter (\<lambda>d. de_scope d = sc) evs"
  have "filter (\<lambda>d. de_scope d = sc) (trimmed sc evs) =
      filter (\<lambda>d. de_event_id d \<in> de_event_id ` set (drop (length ?mine - 100) ?mine)) ?mine"
    unfolding trimmed_def Let_def filter_filter by (rule filter_cong) auto
  also have "\<dots> = drop (length ?mine - 100) ?mine"
    using assms by (intro filter_drop) (simp add: distinct_map_filter)
  finally show ?thesis using True by simp
next
  case False
  then have "filter (\<lambda>d. de_scope d = sc') (trimmed sc evs) = filter (\<lambda>d. de_scope d = sc') evs"
    unfolding trimmed_def Let_def filter_filter by (intro filter_cong) auto
  with False show ?thesis by simp
qed

lemma trimmed_last:
  assumes "de_scope d = sc"
  shows "d \<in> set (trimmed sc (evs @ [d]))"
proof -
  let ?mine = "filter (\<lambda>d. de_scope d = sc) (evs @ [d])"
  have "d \<in> set (drop (length ?mine - 100) ?mine)" using assms by simp
  then show ?thesis by (auto simp: trimmed_def Let_def)
qed

lemma append_found:
  assumes "length (filter (\<lambda>d. de_scope d = de_scope e) evs) \<le> 100" "find (same_key_event e) evs = Some d"
    and "sq_append_durable_event json_ok now e (evs, k) = (Inr (stored, inserted), log')"
  shows "stored = d \<and> \<not> inserted \<and> log' = (evs, k)"
proof -
  have "trimmed (de_scope e) evs = evs" using assms(1) by (rule trimmed_short)
  then have "filter (\<lambda>d. de_scope d = de_scope e \<longrightarrow> de_event_id d \<in> set (map de_event_id
      (drop (length (filter (\<lambda>d. de_scope d = de_scope e) evs) - 100) (filter (\<lambda>d. de_scope d = de_scope e) evs)))) evs = evs"
    by (simp add: trimmed_def Let_def)
  moreover have "find (\<lambda>d. de_scope d = de_scope e \<and> de_idempotency_key d = de_idempotency_key e) evs = Some d"
    using assms(2) by (simp add: same_key_event_def [abs_def])
  ultimately show ?thesis
    using assms(3) by (auto simp: sq_append_durable_event_def Let_def split: if_splits)
qed

lemma append_fresh:
  assumes "find (same_key_event e) evs = None"
    and "sq_append_durable_event json_ok now e (evs, k) = (Inr (stored, inserted), log')"
  defines "d \<equiv> e\<lparr>de_event_id := k + 1, de_recorded_at_ms := now\<rparr>"
  shows "stored = d \<and> inserted \<and> log' = (trimmed (de_scope e) (evs @ [d]), k + 1)"
proof -
  have "find (\<lambda>d. de_scope d = de_scope e \<and> de_idempotency_key d = de_idempotency_key e) evs = None"
    using assms(1) by (simp add: same_key_event_def [abs_def])
  then show ?thesis
    using assms(2) by (auto simp: sq_append_durable_event_def Let_def trimmed_def d_def split: if_splits)
qed

lemma trimmed_find:
  assumes "find (same_key_event e) evs = None" "de_scope d = de_scope e" "same_key_event e d"
  shows "find (same_key_event e) (trimmed (de_scope e) (evs @ [d])) = Some d"
proof -
  have "set (trimmed (de_scope e) (evs @ [d])) \<subseteq> insert d (set evs)" by (auto simp: trimmed_def Let_def)
  with assms(1) have only: "x = d" if "x \<in> set (trimmed (de_scope e) (evs @ [d]))" "same_key_event e x" for x
    using that by (auto simp: find_None_iff)
  have "find (same_key_event e) (trimmed (de_scope e) (evs @ [d])) \<noteq> None"
    using trimmed_last [OF assms(2)] assms(3) by (auto simp: find_None_iff)
  then obtain x where x: "find (same_key_event e) (trimmed (de_scope e) (evs @ [d])) = Some x" by blast
  then have "x \<in> set (trimmed (de_scope e) (evs @ [d]))" "same_key_event e x" by (auto simp: find_Some_iff)
  with only x show ?thesis by simp
qed

text \<open>An append stores the event or finds the one of its key, and the next append of that key finds it.\<close>

lemma append_settles:
  assumes "log_ok log" "sq_append_durable_event json_ok now e log = (Inr (stored, inserted), log')"
  shows "find (same_key_event e) (fst log') = Some stored"
    and "inserted \<longleftrightarrow> find (same_key_event e) (fst log) = None"
    and "inserted \<Longrightarrow> stored = e\<lparr>de_event_id := snd log + 1, de_recorded_at_ms := now\<rparr>"
    and "length (filter (\<lambda>d. de_scope d = de_scope e) (fst log')) \<le> 100"
proof -
  obtain evs k where log: "log = (evs, k)" by (cases log)
  let ?d = "e\<lparr>de_event_id := k + 1, de_recorded_at_ms := now\<rparr>"
  have short: "length (filter (\<lambda>d. de_scope d = de_scope e) evs) \<le> 100" using assms(1) by (simp add: log log_ok_def)
  have all: "find (same_key_event e) (fst log') = Some stored \<and> (inserted \<longleftrightarrow> find (same_key_event e) evs = None) \<and>
      (inserted \<longrightarrow> stored = ?d) \<and> length (filter (\<lambda>d. de_scope d = de_scope e) (fst log')) \<le> 100"
  proof (cases "find (same_key_event e) evs")
    case (Some d)
    with append_found [OF short Some assms(2) [unfolded log]] short show ?thesis by simp
  next
    case None
    note a = append_fresh [OF None assms(2) [unfolded log]]
    have "unat (k + 1) = unat k + 1" "\<forall>x \<in> set evs. unat (de_event_id x) < unat k + 1"
      using assms(1) unat_add_lem [of k 1] by (auto simp: log log_ok_def less_Suc_eq_le)
    then have "sorted_wrt (\<lambda>a b. unat (de_event_id a) < unat (de_event_id b)) (evs @ [?d])"
      using assms(1) by (simp add: log log_ok_def sorted_wrt_append)
    from trimmed_length [OF sorted_distinct_ids [OF this], of "de_scope e" "de_scope e"]
    have "length (filter (\<lambda>d. de_scope d = de_scope e) (trimmed (de_scope e) (evs @ [?d]))) \<le> 100" by simp
    with a None trimmed_find [OF None, of ?d] show ?thesis by (simp add: same_key_event_def)
  qed
  then show "find (same_key_event e) (fst log') = Some stored" "inserted \<longleftrightarrow> find (same_key_event e) (fst log) = None"
    "inserted \<Longrightarrow> stored = e\<lparr>de_event_id := snd log + 1, de_recorded_at_ms := now\<rparr>"
    "length (filter (\<lambda>d. de_scope d = de_scope e) (fst log')) \<le> 100"
    by (simp_all add: log)
qed

section \<open>Emission\<close>

definition released_in :: "board_params \<Rightarrow> string set \<Rightarrow> board \<Rightarrow> board \<Rightarrow> bool" where
  "released_in bp J s s' \<longleftrightarrow>
     (\<forall>i. board_state s' i = (if i \<in> J \<and> board_state s i = Some ''pending'' then Some ''available'' else board_state s i)) \<and>
     (\<forall>w. task_at bp s' w = task_at bp s w) \<and> bo_events s' = bo_events s \<and> bo_now s' = bo_now s"

lemma released_in_trans:
  assumes "released_in bp A s s1" "released_in bp B s1 s2"
  shows "released_in bp (A \<union> B) s s2"
  using assms by (auto simp: released_in_def)

lemma promote_one:
  assumes "board_state s i = Some ''pending''" "promote_job (board_coord bp) i s = (r, s')"
  shows "r = Inr () \<and> released_in bp {i} s s'"
proof -
  from assms(1) obtain j where j: "jobs (bo_store s) i = Some j" "jstate j = ''pending''" by (auto simp: board_state_def)
  let ?j = "j\<lparr>jstate := ''available'', env := (env j)\<lparr>scheduled_at_ms := bo_now s\<rparr>, finalized_at := 0, lease_id := [], lease_expires := 0\<rparr>"
  have "live ''available''" by (simp add: live_def is_terminal_def)
  with assms(2) j have r: "r = Inr ()" and s': "s' = s\<lparr>bo_store := put_row i ?j (bo_store s)\<rparr>"
    by (auto simp: board_coord_def on_store_def sq_promote_job_def simple_transition_def Let_def)
  have jobs': "jobs (bo_store s') = (jobs (bo_store s))(i \<mapsto> ?j)" by (simp add: s' put_row_state)
  have "board_state s' k = (if k = i then Some ''available'' else board_state s k)" for k
    by (simp add: board_state_def jobs')
  moreover have "task_at bp s' w = task_at bp s w" for w
    using j(1) by (simp add: task_at_def jobs')
  ultimately show ?thesis using r assms(1) s' by (simp add: released_in_def)
qed

lemma promote_signals_board:
  assumes "promote_signals (board_coord bp) is n s = (Inr m, s')"
  shows "m = n + card {i \<in> set is. board_state s i = Some ''pending''} \<and> released_in bp (set is) s s' \<and>
    (\<forall>i \<in> set is. \<exists>st. board_state s' i = Some st \<and> released_state st)"
  using assms
proof (induction "is" arbitrary: n s)
  case Nil
  then show ?case by (simp add: released_in_def)
next
  case (Cons i "is")
  then obtain st where st: "board_state s i = Some st"
    by (cases "jobs (bo_store s) i") (auto simp: board_state_def seq_def query_def expect_def)
  show ?case
  proof (cases "st = ''pending''")
    case True
    obtain q s1 where o: "promote_job (board_coord bp) i s = (q, s1)" by (meson surj_pair)
    from promote_one [OF _ o] st True have p: "q = Inr ()" "released_in bp {i} s s1" by simp_all
    have "promote_signals (board_coord bp) is (n + 1) s1 = (Inr m, s')"
      using Cons.prems st True o p(1) by (auto simp: board_state_def seq_def query_def expect_def)
    from Cons.IH [OF this] have ih: "m = n + 1 + card {k \<in> set is. board_state s1 k = Some ''pending''}"
      "released_in bp (set is) s1 s'" "\<forall>k \<in> set is. \<exists>st. board_state s' k = Some st \<and> released_state st" by simp_all
    have "{k \<in> set (i # is). board_state s k = Some ''pending''} = insert i {k \<in> set is. board_state s1 k = Some ''pending''}"
      using p(2) st True by (auto simp: released_in_def)
    moreover have "i \<notin> {k \<in> set is. board_state s1 k = Some ''pending''}" using p(2) st True by (simp add: released_in_def)
    moreover have "board_state s' i = Some ''available''" using p(2) ih(2) st True by (auto simp: released_in_def)
    ultimately show ?thesis using ih released_in_trans [OF p(2) ih(2)] by (simp add: released_state_def)
  next
    case False
    have "promote_signals (board_coord bp) is n s = (Inr m, s')" and rel: "released_state st"
      using Cons.prems st False by (auto simp: board_state_def seq_def query_def expect_def split: if_splits)
    from Cons.IH [OF this(1)] have ih: "m = n + card {k \<in> set is. board_state s k = Some ''pending''}"
      "released_in bp (set is) s s'" "\<forall>k \<in> set is. \<exists>st. board_state s' k = Some st \<and> released_state st" by simp_all
    moreover have "{k \<in> set (i # is). board_state s k = Some ''pending''} = {k \<in> set is. board_state s k = Some ''pending''}"
      using st False by auto
    moreover have "board_state s' i = Some st" using ih(2) st False by (simp add: released_in_def)
    ultimately show ?thesis using st False rel by (auto simp: released_in_def)
  qed
qed

lemma promote_signals_idle:
  assumes "\<forall>i \<in> set is. \<exists>st. board_state s i = Some st \<and> released_state st"
  shows "promote_signals (board_coord bp) is n s = (Inr n, s)"
  using assms
proof (induction "is")
  case (Cons i "is")
  then obtain j where "jobs (bo_store s) i = Some j" "released_state (jstate j)" by (auto simp: board_state_def)
  with Cons show ?case by (simp add: seq_def query_def expect_def released_state_def) auto
qed simp

lemma fetch_task:
  assumes "task_at bp s w = Some t"
  obtains job where "fetch_coordinator (board_coord bp) w s = (Inr (job, t), s)"
proof -
  obtain f s1 where f: "fetch_coordinator (board_coord bp) w s = (f, s1)" by (meson surj_pair)
  from fetch_board [OF f] assms obtain job t' where "f = Inr (job, t')" "s1 = s" "t' = t" by (cases f) fastforce+
  with f that show ?thesis by simp
qed

definition emission_event :: "string \<Rightarrow> 'j signal_emission \<Rightarrow> bytes \<Rightarrow> bytes \<Rightarrow> durable_event" where
  "emission_event wid em p src =
     \<lparr>de_event_id = 0, de_scope = workflow_signal_scope wid, de_topic = em_signal em,
      de_idempotency_key = em_idempotency_key em, de_payload = p, de_source = src, de_recorded_at_ms = 0\<rparr>"

definition reads_as :: "'j json_codec \<Rightarrow> durable_event \<Rightarrow> 'j workflow_signal_record \<Rightarrow> bool" where
  "reads_as js d w \<longleftrightarrow>
     ws_id w = de_event_id d \<and> ws_signal w = de_topic d \<and> ws_idempotency_key w = de_idempotency_key d \<and>
     dec_json js (de_payload d) = Inr (ws_payload w) \<and> dec_json js (de_source d) = Inr (ws_source w) \<and>
     ws_recorded_at_ms w = de_recorded_at_ms d"

lemma workflow_signal_Inr: "workflow_signal js d s = (Inr w, s') \<longleftrightarrow> s' = s \<and> reads_as js d w"
  by (cases w; cases "dec_json js (de_payload d)"; cases "dec_json js (de_source d)")
    (auto simp: workflow_signal_def seq_def parsed_def reads_as_def)

text \<open>The checks before anything is written.\<close>

definition emission_ready :: "board_params \<Rightarrow> 'j json_codec \<Rightarrow> string \<Rightarrow> 'j signal_emission \<Rightarrow> coordinator_task \<Rightarrow> durable_event \<Rightarrow> bool" where
  "emission_ready bp js wid em t e \<longleftrightarrow>
     wid \<noteq> [] \<and> em_signal em \<noteq> [] \<and> signal_jobs t (em_signal em) \<noteq> [] \<and> em_idempotency_key em \<noteq> [] \<and>
     enc_json js (em_payload em) = Inr (de_payload e) \<and> enc_json js (em_source em) = Inr (de_source e) \<and>
     length (de_payload e) \<le> MAX_SIGNAL_PAYLOAD_BYTES \<and> length (de_source e) \<le> MAX_SIGNAL_SOURCE_BYTES \<and>
     e = emission_event wid em (de_payload e) (de_source e)"

lemma emit_ready:
  assumes "emission_ready bp js wid em t e" "task_at bp s wid = Some t"
  shows "emit_signal_with (board_coord bp) js wid em s =
    seq (call (append_durable_event (board_coord bp) e)) (\<lambda>(stored, inserted).
    seq (promote_signals (board_coord bp) (signal_jobs t (em_signal em)) 0) (\<lambda>n.
    seq (workflow_signal js stored) (\<lambda>w.
      give \<lparr>sr_matched = length (signal_jobs t (em_signal em)), sr_promoted = n, sr_inserted = inserted, sr_emission = w\<rparr>))) s"
proof -
  obtain job where "fetch_coordinator (board_coord bp) wid s = (Inr (job, t), s)" using fetch_task [OF assms(2)] .
  moreover from assms(1) obtain p src where "e = emission_event wid em p src"
    "enc_json js (em_payload em) = Inr p" "enc_json js (em_source em) = Inr src"
    "length p \<le> MAX_SIGNAL_PAYLOAD_BYTES" "length src \<le> MAX_SIGNAL_SOURCE_BYTES"
    unfolding emission_ready_def by blast
  ultimately show ?thesis
    using assms(1) unfolding emission_ready_def emit_signal_with_def emission_event_def
    by (simp add: seq_def [of "fetch_coordinator c w" for c w] seq_def [of "of_sum x" for x] seq_def [of "Pair x" for x]
        parsed_def Let_def)
qed

lemma emit_success:
  assumes "emit_signal_with (board_coord bp) js wid em s = (Inr rec, s')"
  obtains t e where "emission_ready bp js wid em t e" "task_at bp s wid = Some t"
proof -
  from assms obtain f s1 where f: "fetch_coordinator (board_coord bp) wid s = (Inr f, s1)"
    by (auto simp: emit_signal_with_def Let_def seq_Inr split: if_splits)
  obtain job t where ft: "f = (job, t)" by (cases f)
  with fetch_board [OF f] have t: "task_at bp s wid = Some t" by simp
  from assms f ft obtain p src where "enc_json js (em_payload em) = Inr p" "enc_json js (em_source em) = Inr src"
    "wid \<noteq> []" "em_signal em \<noteq> []" "signal_jobs t (em_signal em) \<noteq> []" "em_idempotency_key em \<noteq> []"
    "length p \<le> MAX_SIGNAL_PAYLOAD_BYTES" "length src \<le> MAX_SIGNAL_SOURCE_BYTES"
    by (cases "enc_json js (em_payload em)"; cases "enc_json js (em_source em)")
      (auto simp: emit_signal_with_def Let_def seq_Inr parsed_def split: if_splits)
  then have "emission_ready bp js wid em t (emission_event wid em p src)"
    by (simp add: emission_ready_def emission_event_def)
  with t that show ?thesis by blast
qed

lemma append_replay:
  assumes "sq_append_durable_event json_ok now e log = (Inr x, log1)"
    and "length (filter (\<lambda>d. de_scope d = de_scope e) (fst log2)) \<le> 100"
    and "find (same_key_event e) (fst log2) = Some d"
  shows "sq_append_durable_event json_ok now2 e log2 = (Inr (d, False), log2)"
proof -
  obtain evs k where log2: "log2 = (evs, k)" by (cases log2)
  obtain r log3 where r: "sq_append_durable_event json_ok now2 e (evs, k) = (r, log3)" by (meson surj_pair)
  have "\<exists>y. r = Inr y"
    using assms(1) r by (auto simp: sq_append_durable_event_def Let_def split: if_splits prod.splits)
  then obtain stored ins where "r = Inr (stored, ins)" by fastforce
  with append_found [of e evs d json_ok now2 k stored ins log3] assms(2,3) r show ?thesis by (simp add: log2)
qed

lemma append_call:
  "call (append_durable_event (board_coord bp) e) s = (Inr x, s1) \<longleftrightarrow>
     (\<exists>log'. sq_append_durable_event (bp_json_ok bp) (bo_now s) e (bo_events s) = (Inr x, log') \<and> s1 = s\<lparr>bo_events := log'\<rparr>)"
  by (auto simp: call_Inr board_coord_def split: prod.splits)

text \<open>C31. An emission that succeeds releases exactly the jobs of the workflow that wait for the signal and
  leaves every other job alone, and reports how many it released. If the store already held an event
  for its scope and key, the emission returns that event, with payload and source read back, whatever
  signal and payload that one carries, says that it inserted nothing, and leaves the log as it was.
  If it held none, the emission adds one event, under the next event id and the current time, that
  carries its own signal, payload and source, drops from that scope all but the hundred newest,
  and returns what it wrote. Repeating the emission succeeds again, returns the same event, releases
  nothing and changes nothing. The event table is one its inserts can have left: ids ascend, no scope
  has more than a hundred events, and fewer than 2 ^ 63 ids have been used.\<close>

theorem emission_exact:
  assumes "emit_signal_with (board_coord bp) js wid em s = (Inr rec, s')" "log_ok (bo_events s)"
    and "task_at bp s wid = Some t"
  defines "J \<equiv> set (signal_jobs t (em_signal em))"
  defines "mine \<equiv> (\<lambda>d. de_scope d = workflow_signal_scope wid \<and> de_idempotency_key d = em_idempotency_key em)"
  shows "(\<forall>i. board_state s' i =
        (if i \<in> J \<and> board_state s i = Some ''pending'' then Some ''available'' else board_state s i)) \<and>
    sr_promoted rec = card {i \<in> J. board_state s i = Some ''pending''} \<and>
    (case find mine (fst (bo_events s)) of
       Some d \<Rightarrow> \<not> sr_inserted rec \<and> bo_events s' = bo_events s \<and> reads_as js d (sr_emission rec)
     | None \<Rightarrow> sr_inserted rec \<and>
         (\<exists>p src d. enc_json js (em_payload em) = Inr p \<and> enc_json js (em_source em) = Inr src \<and>
            d = \<lparr>de_event_id = snd (bo_events s) + 1, de_scope = workflow_signal_scope wid, de_topic = em_signal em,
                 de_idempotency_key = em_idempotency_key em, de_payload = p, de_source = src,
                 de_recorded_at_ms = bo_now s\<rparr> \<and>
            bo_events s' = (trimmed (workflow_signal_scope wid) (fst (bo_events s) @ [d]), snd (bo_events s) + 1) \<and>
            reads_as js d (sr_emission rec))) \<and>
    emit_signal_with (board_coord bp) js wid em s' = (Inr (rec\<lparr>sr_promoted := 0, sr_inserted := False\<rparr>), s')"
proof -
  obtain e where ready: "emission_ready bp js wid em t e" using emit_success [OF assms(1)] assms(3) by force
  note run = assms(1) [unfolded emit_ready [OF ready assms(3)]]
  from run obtain stored log' where
    a: "sq_append_durable_event (bp_json_ok bp) (bo_now s) e (bo_events s) = (Inr (stored, sr_inserted rec), log')"
    and p: "promote_signals (board_coord bp) (signal_jobs t (em_signal em)) 0 (s\<lparr>bo_events := log'\<rparr>) = (Inr (sr_promoted rec), s')"
    and w: "reads_as js stored (sr_emission rec)" and m: "sr_matched rec = length (signal_jobs t (em_signal em))"
    by (auto simp: seq_Inr append_call workflow_signal_Inr)
  note log = append_settles [OF assms(2) a]
  from ready have e: "e = emission_event wid em (de_payload e) (de_source e)"
    "enc_json js (em_payload em) = Inr (de_payload e)" "enc_json js (em_source em) = Inr (de_source e)"
    by (simp_all add: emission_ready_def)
  have scope: "de_scope e = workflow_signal_scope wid" and mine: "mine = same_key_event e"
    by (subst e(1), simp add: emission_event_def mine_def same_key_event_def fun_eq_iff)+
  have view: "board_state (s\<lparr>bo_events := log'\<rparr>) = board_state s" "task_at bp (s\<lparr>bo_events := log'\<rparr>) = task_at bp s"
    by (simp_all add: board_state_def task_at_def fun_eq_iff)
  note out = promote_signals_board [OF p, unfolded view]
  then have states: "\<forall>i. board_state s' i =
        (if i \<in> J \<and> board_state s i = Some ''pending'' then Some ''available'' else board_state s i)"
    and s': "bo_events s' = log'" "task_at bp s' wid = Some t" "bo_now s' = bo_now s"
    and count: "sr_promoted rec = card {i \<in> J. board_state s i = Some ''pending''}"
    using assms(3) by (simp_all add: released_in_def view J_def)
  have again: "emit_signal_with (board_coord bp) js wid em s' = (Inr (rec\<lparr>sr_promoted := 0, sr_inserted := False\<rparr>), s')"
    unfolding emit_ready [OF ready s'(2)] seq_Inr append_call
    using append_replay [OF a log(4,1), of "bo_now s'"] promote_signals_idle [of "signal_jobs t (em_signal em)" s' bp 0] out w m s'
    by (cases rec) (auto simp: workflow_signal_Inr seq_Inr)
  obtain evs k where ek: "bo_events s = (evs, k)" by (cases "bo_events s")
  have short: "length (filter (\<lambda>d. de_scope d = de_scope e) evs) \<le> 100" using assms(2) by (simp add: ek log_ok_def)
  show ?thesis
  proof (cases "find mine evs")
    case (Some d)
    with append_found [OF short _ a [unfolded ek]] mine have "stored = d" "\<not> sr_inserted rec" "log' = (evs, k)" by simp_all
    with states count again w s'(1) Some show ?thesis by (simp add: ek)
  next
    case None
    let ?d = "e\<lparr>de_event_id := k + 1, de_recorded_at_ms := bo_now s\<rparr>"
    have "?d = \<lparr>de_event_id = k + 1, de_scope = workflow_signal_scope wid, de_topic = em_signal em,
        de_idempotency_key = em_idempotency_key em, de_payload = de_payload e, de_source = de_source e,
        de_recorded_at_ms = bo_now s\<rparr>"
      by (subst (1) e(1)) (simp add: emission_event_def)
    moreover from None append_fresh [OF _ a [unfolded ek]] mine
    have "stored = ?d" "sr_inserted rec" "log' = (trimmed (de_scope e) (evs @ [?d]), k + 1)" by simp_all
    ultimately show ?thesis using states count again w s'(1) None e(2,3) scope by (simp add: ek)
  qed
qed

section \<open>Witnesses\<close>

text \<open>A workflow of one signal, whose job waits, and its coordinator.\<close>

definition demo_signal_task :: coordinator_task where
  "demo_signal_task =
     \<lparr>ct_workflow_id = ''w'', ct_nodes = [(spec_of ''g'' ''w:g'' [] (plain_detail NSignal))\<lparr>ns_signal := Some ''go''\<rparr>],
      ct_failed_subgraph_retry = False, ct_retry_policy = None\<rparr>"

definition demo_signals :: board_params where
  "demo_signals = demo_params\<lparr>bp_env := demo_wf_env\<lparr>dec_coordinator := \<lambda>_. Inr demo_signal_task\<rparr>\<rparr>"

definition demo_waiting :: board where
  "demo_waiting = demo_board\<lparr>bo_store := (bo_store demo_board)
     \<lparr>jobs := [''w:coordinator'' \<mapsto> demo_pending ''w:coordinator'', ''w:g'' \<mapsto> demo_pending ''w:g'']\<rparr>\<rparr>"

definition demo_json :: "unit json_codec" where
  "demo_json = \<lparr>enc_json = \<lambda>_. Inr ''null'', dec_json = \<lambda>_. Inr (), json_null = (), json_object = ()\<rparr>"

definition demo_emission :: "unit signal_emission" where
  "demo_emission = \<lparr>em_signal = ''go'', em_idempotency_key = ''k'', em_payload = (), em_source = ()\<rparr>"

lemma demo_waiting_jobs:
  "jobs (bo_store demo_waiting) = [''w:coordinator'' \<mapsto> demo_pending ''w:coordinator'', ''w:g'' \<mapsto> demo_pending ''w:g'']"
  by (simp add: demo_waiting_def)

lemma demo_task_at: "task_at demo_signals demo_waiting w = (if w = ''w'' then Some demo_signal_task else None)"
proof (cases "w = ''w''")
  case False
  have "''w:coordinator'' = ''w'' @ '':coordinator''" by simp
  with False have "coordinator_id w \<noteq> ''w:coordinator''"
    unfolding coordinator_id_def by (metis append_same_eq)
  moreover have "last (coordinator_id w) = CHR ''r''" by (simp add: coordinator_id_def)
  then have "coordinator_id w \<noteq> ''w:g''" by auto
  ultimately show ?thesis using False by (simp add: task_at_def demo_waiting_jobs)
qed (simp add: task_at_def demo_waiting_jobs coordinator_id_def demo_signals_def demo_params_def)

lemma demo_log_ok: "log_ok (bo_events demo_waiting)"
  by (simp add: log_ok_def demo_waiting_def demo_board_def)

lemma demo_signal_jobs: "signal_jobs demo_signal_task ''go'' = [''w:g'']"
  by (simp add: signal_jobs_def demo_signal_task_def spec_of_def plain_detail_def)

lemma demo_emits:
  "\<exists>rec s'. emit_signal_with (board_coord demo_signals) demo_json ''w'' demo_emission demo_waiting = (Inr rec, s')"
proof -
  let ?e = "emission_event ''w'' demo_emission ''null'' ''null''"
  have ready: "emission_ready demo_signals demo_json ''w'' demo_emission demo_signal_task ?e"
    by (simp add: emission_ready_def emission_event_def demo_emission_def demo_json_def demo_signal_jobs
        MAX_SIGNAL_PAYLOAD_BYTES_def MAX_SIGNAL_SOURCE_BYTES_def)
  have "\<exists>x log'. sq_append_durable_event (bp_json_ok demo_signals) (bo_now demo_waiting) ?e (bo_events demo_waiting) = (Inr x, log')"
    by (simp add: sq_append_durable_event_def emission_event_def demo_emission_def demo_signals_def demo_params_def
        demo_waiting_def demo_board_def workflow_signal_scope_def MAX_DURABLE_EVENT_PAYLOAD_BYTES_def
        MAX_DURABLE_EVENT_SOURCE_BYTES_def Let_def) blast
  then obtain stored ins s1 where a: "call (append_durable_event (board_coord demo_signals) ?e) demo_waiting = (Inr (stored, ins), s1)"
    and s1: "bo_store s1 = bo_store demo_waiting" by (fastforce simp: append_call)
  obtain q s2 where p: "promote_job (board_coord demo_signals) ''w:g'' s1 = (q, s2)" by (meson surj_pair)
  have g: "jobs (bo_store s1) ''w:g'' = Some (demo_pending ''w:g'')" by (simp add: s1 demo_waiting_jobs)
  have "q = Inr ()" using promote_one [OF _ p] g by (simp add: board_state_def)
  with p g have "promote_signals (board_coord demo_signals) [''w:g''] 0 s1 = (Inr 1, s2)"
    by (simp add: seq_def query_def expect_def)
  moreover have "em_signal demo_emission = ''go''" by (simp add: demo_emission_def)
  moreover have "\<exists>w. workflow_signal demo_json stored s2 = (Inr w, s2)"
    by (simp add: workflow_signal_def demo_json_def parsed_def seq_def)
  ultimately show ?thesis
    unfolding emit_ready [OF ready demo_task_at [of "''w''", simplified]]
    using a by (auto simp: seq_def demo_signal_jobs)
qed

theorem emission_exact_witness:
  "\<exists>rec s'. emit_signal_with (board_coord demo_signals) demo_json ''w'' demo_emission demo_waiting = (Inr rec, s') \<and>
     board_state s' ''w:g'' = Some ''available'' \<and> sr_inserted rec \<and>
     emit_signal_with (board_coord demo_signals) demo_json ''w'' demo_emission s' =
       (Inr (rec\<lparr>sr_promoted := 0, sr_inserted := False\<rparr>), s')"
proof -
  from demo_emits obtain rec s' where
    e: "emit_signal_with (board_coord demo_signals) demo_json ''w'' demo_emission demo_waiting = (Inr rec, s')" by blast
  have g: "em_signal demo_emission = ''go''" "board_state demo_waiting ''w:g'' = Some ''pending''" "fst (bo_events demo_waiting) = []"
    by (simp_all add: demo_emission_def board_state_def demo_waiting_jobs) (simp add: demo_waiting_def demo_board_def)
  have "task_at demo_signals demo_waiting ''w'' = Some demo_signal_task" by (simp add: demo_task_at)
  from emission_exact [OF e demo_log_ok this] g e show ?thesis by (fastforce simp: demo_signal_jobs)
qed

theorem cancel_exact_witness:
  "\<exists>rec s'. cancel_workflow (board_coord demo_signals) ''w'' True demo_waiting = (Inr rec, s') \<and>
     cr_workflows rec = 1 \<and> board_state s' ''w:g'' = Some ''cancelled''"
proof -
  obtain r s' where c: "cancel_workflow (board_coord demo_signals) ''w'' True demo_waiting = (r, s')" by (meson surj_pair)
  have kids: "children demo_signals demo_waiting True w = {}" for w
    by (simp add: children_def demo_task_at child_ids_def List.map_filter_def demo_signal_task_def spec_of_def plain_detail_def)
  have W: "reached demo_signals demo_waiting True {''w''} = {''w''}"
    using reached_closed [of "{''w''}" "{''w''}" demo_signals demo_waiting True] kids
    by (auto intro: reached_start)
  have "''w:g'' \<in> jobs_of demo_signals demo_waiting ''w''" "cancellable_at demo_waiting ''w:g''"
    by (simp_all add: jobs_of_def demo_task_at workflow_jobs_def demo_signal_task_def spec_of_def cancellable_at_def
        board_state_def demo_waiting_jobs cancellable_def)
  with cancel_exact [OF _ c] c show ?thesis
    by (auto simp: W demo_task_at MAX_WORKFLOW_NODES_def MAX_ENQUEUE_BATCH_SIZE_def)
qed

end
