(* ===== verification/JobLog.thy ===== *)
theory JobLog
  imports Prelude
begin

text \<open>
  The log lines an attempt collects (headgate-shared/src/log.rs and headgate/src/log.rs). Strings
  are their UTF-8 bytes, so every limit is a number of bytes and a cut falls on a character
  boundary. A structured record is a JSON object behind a prefix; \<open>serde_json\<close> is a printer and a
  parser of JSON values that the definitions take as arguments. The loop that shrinks a record until
  it fits may run forever for a printer whose empty record is too long, so it is a partial function.
\<close>

section \<open>Text and values\<close>

definition LOG_PREFIX :: string where "LOG_PREFIX = CHR 0x1E # ''headgate-log-v1:''"
definition MAX_LOG_BYTES :: nat where "MAX_LOG_BYTES = 2048"
definition MAX_LOG_FIELDS :: nat where "MAX_LOG_FIELDS = 32"
definition LOG_CAP_MESSAGE :: string where "LOG_CAP_MESSAGE = ''... log cap reached (100 lines/attempt)''"

datatype log_level = Level_Debug | Level_Info | Level_Warn | Level_Error

definition level_as_str :: "log_level \<Rightarrow> string" where
  "level_as_str l =
     (case l of Level_Debug \<Rightarrow> ''debug'' | Level_Info \<Rightarrow> ''info'' | Level_Warn \<Rightarrow> ''warn'' | Level_Error \<Rightarrow> ''error'')"

definition level_parse :: "string \<Rightarrow> log_level option" where
  "level_parse s =
     (if s = ''debug'' then Some Level_Debug
      else if s = ''info'' then Some Level_Info
      else if s = ''warn'' then Some Level_Warn
      else if s = ''error'' then Some Level_Error
      else None)"

datatype json =
    Json_Null
  | Json_Bool bool
  | Json_Int int
  | Json_Real string
  | Json_String string
  | Json_Array "json list"
  | Json_Object "(string \<times> json) list"

text \<open>The map behind a JSON object is ordered by key.\<close>

fun bytes_less :: "string \<Rightarrow> string \<Rightarrow> bool" where
  "bytes_less _ [] = False"
| "bytes_less [] (_ # _) = True"
| "bytes_less (a # as) (b # bs) =
     (of_char a < (of_char b :: nat) \<or> (of_char a = (of_char b :: nat) \<and> bytes_less as bs))"

fun map_insert :: "string \<Rightarrow> 'v \<Rightarrow> (string \<times> 'v) list \<Rightarrow> (string \<times> 'v) list" where
  "map_insert k v [] = [(k, v)]"
| "map_insert k v ((l, w) # m) =
     (if k = l then (k, v) # m else if bytes_less k l then (k, v) # (l, w) # m else (l, w) # map_insert k v m)"

definition is_char_boundary :: "string \<Rightarrow> nat \<Rightarrow> bool" where
  "is_char_boundary text n \<longleftrightarrow>
     n = 0 \<or> n = length text \<or>
     (n < length text \<and> \<not> (128 \<le> (of_char (text ! n) :: nat) \<and> (of_char (text ! n) :: nat) < 192))"

fun floor_boundary :: "string \<Rightarrow> nat \<Rightarrow> nat" where
  "floor_boundary text 0 = 0"
| "floor_boundary text (Suc n) = (if is_char_boundary text (Suc n) then Suc n else floor_boundary text n)"

definition log_text :: "string \<Rightarrow> nat \<Rightarrow> string" where
  "log_text text limit = take (floor_boundary text (min (length text) limit)) text"

section \<open>Records\<close>

record log_entry =
  le_level :: log_level
  le_at_ms :: "i64 option"
  le_message :: string
  le_fields :: "(string \<times> json) list"
  le_truncated :: bool

definition log_entry_new :: "log_level \<Rightarrow> i64 option \<Rightarrow> string \<Rightarrow> log_entry" where
  "log_entry_new level at_ms message =
     \<lparr>le_level = level, le_at_ms = at_ms, le_message = log_text message MAX_LOG_BYTES, le_fields = [],
      le_truncated = (length message > MAX_LOG_BYTES)\<rparr>"

definition field_value :: "json \<Rightarrow> json" where
  "field_value v =
     (case v of
        Json_String s \<Rightarrow> Json_String (log_text s 1024)
      | Json_Array _ \<Rightarrow> Json_String ''[unsupported log value]''
      | Json_Object _ \<Rightarrow> Json_String ''[unsupported log value]''
      | _ \<Rightarrow> v)"

definition long_string :: "json \<Rightarrow> bool" where
  "long_string v = (case v of Json_String s \<Rightarrow> length s > 1024 | _ \<Rightarrow> False)"

definition insert_field :: "string \<Rightarrow> json \<Rightarrow> log_entry \<Rightarrow> log_entry" where
  "insert_field key v e =
     (if length (le_fields e) \<ge> MAX_LOG_FIELDS then e\<lparr>le_truncated := True\<rparr>
      else e\<lparr>le_truncated := (le_truncated e \<or> length key > 128 \<or> long_string v),
             le_fields := map_insert (log_text key 128) (field_value v) (le_fields e)\<rparr>)"

definition log_normalize :: "log_entry \<Rightarrow> log_entry" where
  "log_normalize e =
     (let e1 = foldl (\<lambda>e (k, v). insert_field k v e) (e\<lparr>le_fields := []\<rparr>) (le_fields e)
      in e1\<lparr>le_truncated := (le_truncated e1 \<or> length (le_message e1) > MAX_LOG_BYTES),
            le_message := log_text (le_message e1) MAX_LOG_BYTES\<rparr>)"

definition log_json :: "log_entry \<Rightarrow> json" where
  "log_json e =
     (let m0 = map_insert ''message'' (Json_String (le_message e))
                 [(''level'', Json_String (level_as_str (le_level e)))];
          m1 = (case le_at_ms e of None \<Rightarrow> m0 | Some at \<Rightarrow> map_insert ''at_ms'' (Json_Int at) m0);
          m2 = (if le_fields e = [] then m1 else map_insert ''fields'' (Json_Object (le_fields e)) m1)
      in Json_Object (if le_truncated e then map_insert ''truncated'' (Json_Bool True) m2 else m2))"

definition log_shrink :: "log_entry \<Rightarrow> log_entry" where
  "log_shrink e =
     (if le_fields e = []
      then e\<lparr>le_truncated := True, le_message := log_text (le_message e) (length (le_message e) div 2)\<rparr>
      else e\<lparr>le_truncated := True, le_fields := butlast (le_fields e)\<rparr>)"

partial_function (option) encode_loop :: "(json \<Rightarrow> string) \<Rightarrow> log_entry \<Rightarrow> string option" where
  "encode_loop render e =
     (let encoded = LOG_PREFIX @ render (log_json e)
      in if length encoded \<le> MAX_LOG_BYTES then Some encoded else encode_loop render (log_shrink e))"

definition log_encode :: "(json \<Rightarrow> string) \<Rightarrow> log_entry \<Rightarrow> string option" where
  "log_encode render e = encode_loop render (log_normalize e)"

definition json_get :: "string \<Rightarrow> json \<Rightarrow> json option" where
  "json_get k v = (case v of Json_Object m \<Rightarrow> map_of m k | _ \<Rightarrow> None)"

definition json_string :: "json \<Rightarrow> string option" where
  "json_string v = (case v of Json_String s \<Rightarrow> Some s | _ \<Rightarrow> None)"

definition json_scalar :: "json \<Rightarrow> bool" where
  "json_scalar v = (case v of Json_Array _ \<Rightarrow> False | Json_Object _ \<Rightarrow> False | _ \<Rightarrow> True)"

definition fields_valid :: "json option \<Rightarrow> bool" where
  "fields_valid f = (case f of
     None \<Rightarrow> True
   | Some (Json_Object m) \<Rightarrow> list_all (\<lambda>(k, v). json_scalar v) m
   | Some _ \<Rightarrow> False)"

definition at_valid :: "json option \<Rightarrow> bool" where
  "at_valid a = (case a of None \<Rightarrow> True | Some (Json_Int n) \<Rightarrow> in_i64 n | Some _ \<Rightarrow> False)"

definition flag_valid :: "json option \<Rightarrow> bool" where
  "flag_valid t = (case t of None \<Rightarrow> True | Some (Json_Bool _) \<Rightarrow> True | Some _ \<Rightarrow> False)"

definition log_plain :: "string \<Rightarrow> log_entry" where
  "log_plain line =
     \<lparr>le_level = Level_Info, le_at_ms = None, le_message = line, le_fields = [], le_truncated = False\<rparr>"

definition read_record :: "string \<Rightarrow> json \<Rightarrow> log_entry" where
  "read_record line v =
     (case (Option.bind (Option.bind (json_get ''level'' v) json_string) level_parse,
            Option.bind (json_get ''message'' v) json_string) of
        (Some level, Some message) \<Rightarrow>
          if \<not> fields_valid (json_get ''fields'' v) \<or> \<not> at_valid (json_get ''at_ms'' v)
             \<or> \<not> flag_valid (json_get ''truncated'' v)
          then log_plain line
          else \<lparr>le_level = level,
                le_at_ms = (case json_get ''at_ms'' v of Some (Json_Int n) \<Rightarrow> Some n | _ \<Rightarrow> None),
                le_message = message,
                le_fields = (case json_get ''fields'' v of Some (Json_Object m) \<Rightarrow> m | _ \<Rightarrow> []),
                le_truncated = (case json_get ''truncated'' v of Some (Json_Bool b) \<Rightarrow> b | _ \<Rightarrow> False)\<rparr>
      | _ \<Rightarrow> log_plain line)"

definition log_decode :: "(string \<Rightarrow> json option) \<Rightarrow> string \<Rightarrow> log_entry" where
  "log_decode parse line =
     (if length line \<le> MAX_LOG_BYTES then
        (case strip_prefix LOG_PREFIX line of
           None \<Rightarrow> log_plain line
         | Some body \<Rightarrow> (case parse body of None \<Rightarrow> log_plain line | Some v \<Rightarrow> read_record line v))
      else log_plain line)"

section \<open>The buffer of an attempt\<close>

record log_buffer =
  lb_lines :: "string list"
  lb_closed :: bool

definition log_buffer_new :: log_buffer where
  "log_buffer_new = \<lparr>lb_lines = [], lb_closed = False\<rparr>"

definition log_push :: "string \<Rightarrow> log_buffer \<Rightarrow> log_buffer" where
  "log_push line b =
     (if lb_closed b then b
      else if length (lb_lines b) < 100 then b\<lparr>lb_lines := lb_lines b @ [line]\<rparr>
      else if length (lb_lines b) = 100 then b\<lparr>lb_lines := lb_lines b @ [LOG_CAP_MESSAGE]\<rparr>
      else b)"

definition log_take :: "log_buffer \<Rightarrow> string list \<times> log_buffer" where
  "log_take b = (lb_lines b, b\<lparr>lb_closed := True, lb_lines := []\<rparr>)"

text \<open>\<open>JobLogger::plain\<close> and \<open>LogEvent::emit\<close>.\<close>

definition log_plain_line :: "(json \<Rightarrow> string) \<Rightarrow> i64 \<Rightarrow> string \<Rightarrow> log_buffer \<Rightarrow> log_buffer option" where
  "log_plain_line render now message b =
     (if strip_prefix LOG_PREFIX message \<noteq> None
      then map_option (\<lambda>line. log_push line b) (log_encode render (log_entry_new Level_Info (Some now) message))
      else Some (log_push (log_text message MAX_LOG_BYTES) b))"

definition log_emit :: "(json \<Rightarrow> string) \<Rightarrow> log_entry \<Rightarrow> log_buffer \<Rightarrow> log_buffer option" where
  "log_emit render e b = map_option (\<lambda>line. log_push line b) (log_encode render e)"

section \<open>Cuts and inserts\<close>

lemma floor_boundary_le: "floor_boundary text n \<le> n"
  by (induction n) (auto simp: le_Suc_eq)

lemma floor_boundary_ok: "is_char_boundary text (floor_boundary text n)"
  by (induction n) (auto simp: is_char_boundary_def)

lemma log_text_length: "length (log_text text n) \<le> n"
  using floor_boundary_le [of "text" "min (length text) n"] by (simp add: log_text_def)

lemma log_text_prefix: "\<exists>zs. text = log_text text n @ zs"
  by (metis append_take_drop_id log_text_def)

lemma log_text_id: "length text \<le> n \<Longrightarrow> log_text text n = text"
  by (cases "length text") (simp_all add: log_text_def is_char_boundary_def)

lemma map_of_map_insert: "map_of (map_insert k v m) = (map_of m)(k \<mapsto> v)"
  by (induction m) auto

lemma map_insert_all: "list_all P m \<Longrightarrow> P (k, v) \<Longrightarrow> list_all P (map_insert k v m)"
  by (induction m) auto

lemma level_roundtrip: "level_parse (level_as_str l) = Some l"
  by (cases l) (simp_all add: level_parse_def level_as_str_def)

lemma strip_own_prefix: "strip_prefix p (p @ s) = Some s"
  by (induction p) auto

section \<open>Encoding ends and fits\<close>

definition scalar_fields :: "log_entry \<Rightarrow> bool" where
  "scalar_fields e \<longleftrightarrow> list_all (\<lambda>(k, v). json_scalar v) (le_fields e)"

lemma insert_field_scalar: "scalar_fields e \<Longrightarrow> scalar_fields (insert_field k v e)"
  by (auto simp: scalar_fields_def insert_field_def field_value_def json_scalar_def intro!: map_insert_all
      split: json.split)

lemma insert_fields_keep:
  "scalar_fields e \<Longrightarrow> scalar_fields (foldl (\<lambda>e (k, v). insert_field k v e) e fs) \<and>
     le_level (foldl (\<lambda>e (k, v). insert_field k v e) e fs) = le_level e \<and>
     le_at_ms (foldl (\<lambda>e (k, v). insert_field k v e) e fs) = le_at_ms e \<and>
     le_message (foldl (\<lambda>e (k, v). insert_field k v e) e fs) = le_message e"
proof (induction fs arbitrary: e)
  case (Cons f fs)
  have "le_level (insert_field k v e) = le_level e" "le_at_ms (insert_field k v e) = le_at_ms e"
    "le_message (insert_field k v e) = le_message e" for k v
    by (simp_all add: insert_field_def)
  with Cons insert_field_scalar show ?case by (cases f) simp
qed simp

lemma log_normalize_keeps:
  "scalar_fields (log_normalize e)" "le_level (log_normalize e) = le_level e" "le_at_ms (log_normalize e) = le_at_ms e"
  "le_message (log_normalize e) = log_text (le_message e) MAX_LOG_BYTES"
  using insert_fields_keep [of "e\<lparr>le_fields := []\<rparr>" "le_fields e"]
  by (simp_all add: log_normalize_def Let_def scalar_fields_def)

text \<open>What serde_json's compact printing gives: a record with nothing in it is short.\<close>

definition render_small :: "(json \<Rightarrow> string) \<Rightarrow> bool" where
  "render_small render \<longleftrightarrow>
     (\<forall>e. le_message e = [] \<and> le_fields e = [] \<and> pred_option in_i64 (le_at_ms e) \<longrightarrow>
        length (LOG_PREFIX @ render (log_json e)) \<le> MAX_LOG_BYTES)"

text \<open>What a record may lose: fields and the end of its message, and then it says so.\<close>

definition shortened :: "log_entry \<Rightarrow> log_entry \<Rightarrow> bool" where
  "shortened e e' \<longleftrightarrow> le_level e' = le_level e \<and> le_at_ms e' = le_at_ms e \<and>
     (\<exists>zs. le_message e = le_message e' @ zs) \<and> (\<exists>gs. le_fields e = le_fields e' @ gs) \<and>
     (e' = e \<or> le_truncated e')"

lemma shortened_refl: "shortened e e"
  by (simp add: shortened_def)

lemma shortened_shrink: "shortened e (log_shrink e)"
  using log_text_prefix [of "le_message e" "length (le_message e) div 2"]
    append_butlast_last_id [of "le_fields e"]
  by (cases "le_fields e = []") (auto simp: shortened_def log_shrink_def intro: exI [of _ "[last (le_fields e)]"])

lemma shortened_trans: "shortened e d \<Longrightarrow> shortened d c \<Longrightarrow> le_truncated d \<Longrightarrow> shortened e c"
  by (auto simp: shortened_def)

lemma encode_loop_ends:
  assumes "render_small render" "pred_option in_i64 (le_at_ms e)"
  shows "\<exists>e'. encode_loop render e = Some (LOG_PREFIX @ render (log_json e')) \<and>
    length (LOG_PREFIX @ render (log_json e')) \<le> MAX_LOG_BYTES \<and> shortened e e'"
  using assms(2)
proof (induction "length (le_fields e) + length (le_message e)" arbitrary: e rule: less_induct)
  case less
  show ?case
  proof (cases "length (LOG_PREFIX @ render (log_json e)) \<le> MAX_LOG_BYTES")
    case True
    then show ?thesis by (subst encode_loop.simps) (auto simp: Let_def intro: shortened_refl)
  next
    case False
    with assms(1) less.prems have "le_message e \<noteq> [] \<or> le_fields e \<noteq> []" by (auto simp: render_small_def)
    moreover have "length (log_text (le_message e) (length (le_message e) div 2)) \<le> length (le_message e) div 2"
      by (rule log_text_length)
    ultimately have "length (le_fields (log_shrink e)) + length (le_message (log_shrink e))
        < length (le_fields e) + length (le_message e)"
      by (cases "le_message e") (auto simp: log_shrink_def neq_Nil_conv)
    moreover have "pred_option in_i64 (le_at_ms (log_shrink e))" "le_truncated (log_shrink e)"
      using less.prems by (auto simp: log_shrink_def)
    moreover have "encode_loop render e = encode_loop render (log_shrink e)"
      using False by (subst encode_loop.simps) (simp add: Let_def)
    ultimately obtain e' where "encode_loop render e = Some (LOG_PREFIX @ render (log_json e'))"
      "length (LOG_PREFIX @ render (log_json e')) \<le> MAX_LOG_BYTES" "shortened (log_shrink e) e'" "le_truncated (log_shrink e)"
      using less.hyps [of "log_shrink e"] by auto
    then show ?thesis by (blast intro: shortened_trans [OF shortened_shrink])
  qed
qed

lemma log_json_gets:
  "json_get ''level'' (log_json e) = Some (Json_String (level_as_str (le_level e)))"
  "json_get ''message'' (log_json e) = Some (Json_String (le_message e))"
  "json_get ''at_ms'' (log_json e) = map_option Json_Int (le_at_ms e)"
  "json_get ''fields'' (log_json e) = (if le_fields e = [] then None else Some (Json_Object (le_fields e)))"
  "json_get ''truncated'' (log_json e) = (if le_truncated e then Some (Json_Bool True) else None)"
  by (simp_all add: json_get_def log_json_def Let_def map_of_map_insert del: map_insert.simps split: option.split)

lemma read_own_record:
  assumes "pred_option in_i64 (le_at_ms e)" "scalar_fields e"
  shows "read_record line (log_json e) = e"
proof -
  have "fields_valid (json_get ''fields'' (log_json e))" "at_valid (json_get ''at_ms'' (log_json e))"
    "flag_valid (json_get ''truncated'' (log_json e))"
    using assms by (auto simp: log_json_gets fields_valid_def at_valid_def flag_valid_def scalar_fields_def
        split: option.split)
  then show ?thesis
    by (cases e) (auto simp: read_record_def log_json_gets json_string_def level_roundtrip split: option.split)
qed

lemma shortened_scalar: "scalar_fields e \<Longrightarrow> shortened e e' \<Longrightarrow> scalar_fields e'"
  by (auto simp: scalar_fields_def shortened_def)

text \<open>C30. Encoding a log record ends, for every message and every set of fields, with a line of at most
  2048 bytes. The line is a record of the same level and time whose message is the beginning of the
  normalised message and whose fields are its first fields, marked as truncated unless it is the
  normalised record itself; a parser that reads back what the printer wrote decodes the line to
  exactly that record.\<close>

theorem log_lines_bounded_and_readable:
  assumes "render_small render" "pred_option in_i64 (le_at_ms e)"
  shows "\<exists>line e'. log_encode render e = Some line \<and> length line \<le> MAX_LOG_BYTES \<and>
    shortened (log_normalize e) e' \<and> line = LOG_PREFIX @ render (log_json e') \<and>
    (\<forall>parse. parse (render (log_json e')) = Some (log_json e') \<longrightarrow> log_decode parse line = e')"
proof -
  from encode_loop_ends [OF assms(1), of "log_normalize e"] assms(2) obtain e' where
    e': "log_encode render e = Some (LOG_PREFIX @ render (log_json e'))"
      "length (LOG_PREFIX @ render (log_json e')) \<le> MAX_LOG_BYTES" "shortened (log_normalize e) e'"
    by (auto simp: log_encode_def log_normalize_keeps)
  have "pred_option in_i64 (le_at_ms e')" using assms(2) e'(3) by (simp add: shortened_def log_normalize_keeps)
  from read_own_record [OF this shortened_scalar [OF log_normalize_keeps(1) e'(3)]] e'(2)
  have "\<forall>parse. parse (render (log_json e')) = Some (log_json e') \<longrightarrow>
      log_decode parse (LOG_PREFIX @ render (log_json e')) = e'"
    by (simp add: log_decode_def strip_own_prefix)
  with e' show ?thesis by blast
qed

section \<open>The buffer is bounded and closes\<close>

lemma log_push_bound: "length (lb_lines b) \<le> 101 \<Longrightarrow> length (lb_lines (log_push line b)) \<le> 101"
  by (simp add: log_push_def)

text \<open>The first hundred lines are kept as written, the next leaves one notice, and nothing enters a
  buffer whose lines went out with the acknowledgement.\<close>

lemma log_pushes:
  "lb_lines (fold log_push lines log_buffer_new) =
     (if length lines \<le> 100 then lines else take 100 lines @ [LOG_CAP_MESSAGE])"
proof (induction lines rule: rev_induct)
  case (snoc x xs)
  have "\<not> lb_closed (fold log_push xs log_buffer_new)"
    by (induction xs rule: rev_induct) (simp_all add: log_buffer_new_def log_push_def)
  with snoc show ?case by (auto simp: log_push_def [of x])
qed (simp add: log_buffer_new_def)

lemma closed_buffer_stays_empty: "lb_lines (log_push line (snd (log_take b))) = []"
  by (simp add: log_push_def log_take_def)

text \<open>A printer that writes the message, on a message that has to be cut.\<close>

definition message_render :: "json \<Rightarrow> string" where
  "message_render v = (case json_get ''message'' v of Some (Json_String s) \<Rightarrow> s | _ \<Rightarrow> [])"

definition long_entry :: log_entry where
  "long_entry = log_entry_new Level_Warn (Some 5) (replicate 3000 CHR ''x'')"

theorem log_lines_bounded_and_readable_witness:
  "\<exists>line e'. log_encode message_render long_entry = Some line \<and> length line \<le> MAX_LOG_BYTES \<and>
     shortened (log_normalize long_entry) e' \<and> line = LOG_PREFIX @ message_render (log_json e') \<and>
     log_decode (\<lambda>_. Some (log_json e')) line = e'"
proof -
  have "render_small message_render"
    by (simp add: render_small_def message_render_def log_json_gets LOG_PREFIX_def MAX_LOG_BYTES_def)
  moreover have "pred_option in_i64 (le_at_ms long_entry)"
    by (simp add: long_entry_def log_entry_new_def in_i64_def)
  ultimately obtain line e' where "log_encode message_render long_entry = Some line" "length line \<le> MAX_LOG_BYTES"
    "shortened (log_normalize long_entry) e'" "line = LOG_PREFIX @ message_render (log_json e')"
    "\<forall>parse. parse (message_render (log_json e')) = Some (log_json e') \<longrightarrow> log_decode parse line = e'"
    using log_lines_bounded_and_readable [of message_render long_entry] by blast
  then show ?thesis by (intro exI [of _ line] exI [of _ e']) simp
qed

end
