(* ===== verification/JobSteps.thy ===== *)
theory JobSteps
  imports Trace MemAck JobLog
begin

text \<open>
  The job context a handler receives, and its durable steps (headgate/src/ctx.rs). The store
  behind the context is a trait object: a record of operations on a world of any type, with the
  capabilities a store may decline as options. A body is a function on what it may touch: the
  context for a plain step, the open transaction for \<open>once\<close> and \<open>step_once\<close>. The digest behind
  the fingerprint of the completed sequence is a parameter.
\<close>

section \<open>The store as the context sees it\<close>

text \<open>\<open>Transactional\<close>: the handle of the open transaction is part of the world, since the calls on
  one handle are made one after the other.\<close>

record 'w tx_ops =
  begin_tx :: "'w \<Rightarrow> unit result \<times> 'w"
  commit_tx :: "'w \<Rightarrow> unit result \<times> 'w"
  rollback_tx :: "'w \<Rightarrow> unit result \<times> 'w"
  claim_effect :: "string \<Rightarrow> 'w \<Rightarrow> bool result \<times> 'w"
  complete_tx_with_actual_weight :: "lease_ref \<Rightarrow> u32 option \<Rightarrow> 'w \<Rightarrow> unit result \<times> 'w"
  checkpoint_tx :: "lease_ref \<Rightarrow> checkpoint \<Rightarrow> 'w \<Rightarrow> unit result \<times> 'w"

record 'w store_ops =
  so_renew :: "lease_ref list \<Rightarrow> duration \<Rightarrow> 'w \<Rightarrow> string list result \<times> 'w"
  so_ack_attempt :: "lease_ref \<Rightarrow> outcome \<Rightarrow> string option \<Rightarrow> i64 option \<Rightarrow> string list \<Rightarrow> u32 option
                      \<Rightarrow> 'w \<Rightarrow> unit result \<times> 'w"
  so_checkpoint :: "lease_ref \<Rightarrow> checkpoint \<Rightarrow> 'w \<Rightarrow> unit result \<times> 'w"
  as_result_store :: "(lease_ref \<Rightarrow> string list \<Rightarrow> u32 option \<Rightarrow> job_result \<Rightarrow> 'w \<Rightarrow> unit result \<times> 'w) option"
  as_output_store :: "(lease_ref \<Rightarrow> job_result \<Rightarrow> 'w \<Rightarrow> job_output result \<times> 'w) option"
  as_progress_store :: "(lease_ref \<Rightarrow> progress_update \<Rightarrow> 'w \<Rightarrow> job_progress result \<times> 'w) option"
  as_transactional :: "'w tx_ops option"

section \<open>The context\<close>

datatype step_error =
    Lease_Lost
  | Stale_Checkpoint (stale_expected: string) (stale_got: string)
  | Step_Store store_error
  | Step_Message string

record step_state =
  st_completed :: "string list"
  st_position :: nat
  st_executed :: "string set"
  st_in_progress :: "string option"
  st_cursor_step :: "string option"
  st_cursor :: "bytes option"
  st_schema_version :: u32
  st_crashes_by_step :: "(string \<times> u32) list"

definition last_opt :: "'a list \<Rightarrow> 'a option" where
  "last_opt xs = (if xs = [] then None else Some (last xs))"

definition step_snapshot :: "(bytes \<Rightarrow> bytes) \<Rightarrow> step_state \<Rightarrow> checkpoint" where
  "step_snapshot sha256 s =
     \<lparr>last_completed_step = last_opt (st_completed s), completed_steps = st_completed s,
      in_progress_step = st_in_progress s, cursor_step = st_cursor_step s, cursor = st_cursor s,
      cp_schema_version = st_schema_version s,
      step_set_hash = fingerprint_of sha256 ''steps'' (join_with [CHR 0x00] (st_completed s)),
      crashes_by_step = st_crashes_by_step s\<rparr>"

record 'w job_ctx =
  jc_lease :: lease_ref
  jc_job_id :: string
  jc_queue :: string
  jc_attempt :: u32
  jc_crash_attempt :: u32
  jc_max_attempts :: u32
  jc_weight :: u32
  jc_canceled :: bool
  jc_finished :: bool
  jc_steps :: step_state
  jc_logs :: log_buffer
  jc_actual_weight :: "u32 option"
  jc_result :: "job_result option"
  jc_trace :: "trace_context option"
  jc_world :: 'w

type_synonym ('w, 'a) ctx_act = "'w job_ctx \<Rightarrow> (step_error + 'a) \<times> 'w job_ctx"

definition from_claim :: "claim \<Rightarrow> 'w \<Rightarrow> 'w job_ctx" where
  "from_claim c w =
     (let e = cl_envelope c; cp = cl_checkpoint c
      in \<lparr>jc_lease = claim_lease_ref c, jc_job_id = env_id e, jc_queue = queue e,
          jc_attempt = attempt e, jc_crash_attempt = crash_attempt e,
          jc_max_attempts = max_attempts e, jc_weight = effective_weight (weight e),
          jc_canceled = False, jc_finished = False,
          jc_steps = \<lparr>st_completed = completed_steps cp, st_position = 0, st_executed = {},
            st_in_progress = None, st_cursor_step = cursor_step cp, st_cursor = cursor cp,
            st_schema_version = schema_version e, st_crashes_by_step = crashes_by_step cp\<rparr>,
          jc_logs = log_buffer_new, jc_actual_weight = None, jc_result = None, jc_trace = trace_context_of (headers e),
          jc_world = w\<rparr>)"

definition report_actual_weight :: "u32 \<Rightarrow> 'w job_ctx \<Rightarrow> 'w job_ctx" where
  "report_actual_weight actual c = c\<lparr>jc_actual_weight := Some actual\<rparr>"

definition take_logs :: "'w job_ctx \<Rightarrow> string list \<times> 'w job_ctx" where
  "take_logs c = (case log_take (jc_logs c) of (lines, b) \<Rightarrow> (lines, c\<lparr>jc_logs := b\<rparr>))"

definition cancel_ctx :: "'w job_ctx \<Rightarrow> 'w job_ctx" where
  "cancel_ctx c = c\<lparr>jc_canceled := True\<rparr>"

text \<open>A call on the store, and the \<open>?\<close> on a result of the context.\<close>

definition on_world :: "('w \<Rightarrow> 'r \<times> 'w) \<Rightarrow> 'w job_ctx \<Rightarrow> 'r \<times> 'w job_ctx" where
  "on_world f c = (case f (jc_world c) of (r, w) \<Rightarrow> (r, c\<lparr>jc_world := w\<rparr>))"

definition boxed :: "'a result \<Rightarrow> step_error + 'a" where
  "boxed r = (case r of Inl e \<Rightarrow> Inl (Step_Store e) | Inr a \<Rightarrow> Inr a)"

definition ctx_call :: "('w \<Rightarrow> 'a result \<times> 'w) \<Rightarrow> ('w, 'a) ctx_act" where
  "ctx_call f c = (case on_world f c of (r, c1) \<Rightarrow> (boxed r, c1))"

definition ctx_seq :: "('w, 'a) ctx_act \<Rightarrow> ('a \<Rightarrow> ('w, 'b) ctx_act) \<Rightarrow> ('w, 'b) ctx_act" where
  "ctx_seq m k c = (case m c of (Inl e, c1) \<Rightarrow> (Inl e, c1) | (Inr a, c1) \<Rightarrow> k a c1)"

section \<open>Results, output, progress and the lease\<close>

definition MAX_RESULT_BYTES :: nat where "MAX_RESULT_BYTES = 32 * 1024 * 1024"

definition check_opaque :: "string \<Rightarrow> u32 \<Rightarrow> bytes \<Rightarrow> step_error + job_result" where
  "check_opaque subject version b =
     (if version = 0 then
        Inl (Step_Message (subject @ '' schema_version must be greater than zero''))
      else if version > MAX_OPAQUE_SCHEMA_VERSION then
        Inl (Step_Message (subject @ '' schema_version exceeds the portable signed-integer limit''))
      else if length b > MAX_RESULT_BYTES then
        Inl (Step_Message (subject @ '' exceeds the 32 MiB limit''))
      else Inr \<lparr>res_schema_version = version, res_bytes = b\<rparr>)"

definition record_result :: "u32 \<Rightarrow> bytes \<Rightarrow> ('w, unit) ctx_act" where
  "record_result version b c =
     (case check_opaque ''result'' version b of
        Inl e \<Rightarrow> (Inl e, c)
      | Inr v \<Rightarrow> (Inr (), c\<lparr>jc_result := Some v\<rparr>))"

definition persist_output :: "'w store_ops \<Rightarrow> u32 \<Rightarrow> bytes \<Rightarrow> ('w, job_output) ctx_act" where
  "persist_output st version b c =
     (case check_opaque ''output'' version b of
        Inl e \<Rightarrow> (Inl e, c)
      | Inr v \<Rightarrow>
          (case as_output_store st of
             None \<Rightarrow> (Inl (Step_Message ''mid-run output requires a store with OutputStore support''), c)
           | Some write \<Rightarrow> ctx_call (write (jc_lease c) v) c))"

definition report_progress ::
  "'w store_ops \<Rightarrow> u64 \<Rightarrow> u64 \<Rightarrow> string option \<Rightarrow> ('w, job_progress) ctx_act" where
  "report_progress st now_at out_of message c =
     (let update = \<lparr>pu_current = now_at, pu_total = out_of, pu_message = message\<rparr>
      in case validate_progress update of
           Inl e \<Rightarrow> (Inl (Step_Store e), c)
         | Inr _ \<Rightarrow>
             (case as_progress_store st of
                None \<Rightarrow> (Inl (Step_Message ''job progress requires a store with ProgressStore support''), c)
              | Some write \<Rightarrow> ctx_call (write (jc_lease c) update) c))"

definition extend_lease :: "'w store_ops \<Rightarrow> duration \<Rightarrow> ('w, unit) ctx_act" where
  "extend_lease st d c =
     (case on_world (so_renew st [jc_lease c] d) c of
        (Inl e, c1) \<Rightarrow> (Inl (Step_Store e), c1)
      | (Inr lost, c1) \<Rightarrow>
          if jc_job_id c1 \<in> set lost then (Inl Lease_Lost, cancel_ctx c1) else (Inr (), c1))"

definition release_job :: "'w store_ops \<Rightarrow> ('w, unit) ctx_act" where
  "release_job st c =
     (case on_world (so_ack_attempt st (jc_lease c) Outcome_RateLimited (Some ''released by handler'')
              None [] (jc_actual_weight c)) c of
        (Inl e, c1) \<Rightarrow> (Inl (Step_Store e), c1)
      | (Inr _, c1) \<Rightarrow> (Inr (), c1\<lparr>jc_finished := True\<rparr>))"

section \<open>Step boundaries\<close>

datatype boundary = Boundary_Skip | Boundary_Run checkpoint

definition enter :: "(bytes \<Rightarrow> bytes) \<Rightarrow> string \<Rightarrow> bool \<Rightarrow> ('w, boundary) ctx_act" where
  "enter sha256 name is_cursor c =
     (let s = jc_steps c
      in if jc_canceled c then (Inl Lease_Lost, c)
         else if name \<in> st_executed s then
           (Inl (Step_Message (''step `'' @ name @ ''` ran twice in one attempt; step names must be unique'')), c)
         else
           let s1 = s\<lparr>st_executed := insert name (st_executed s)\<rparr>
           in if st_position s1 < length (st_completed s1) then
                let expected = st_completed s1 ! st_position s1
                in if expected = name
                   then (Inr Boundary_Skip, c\<lparr>jc_steps := s1\<lparr>st_position := st_position s1 + 1\<rparr>\<rparr>)
                   else (Inl (Stale_Checkpoint expected name), c\<lparr>jc_steps := s1\<rparr>)
              else
                let s2 = s1\<lparr>st_in_progress := Some name\<rparr>;
                    s3 = (if is_cursor
                          then (if st_cursor_step s2 \<noteq> Some name then s2\<lparr>st_cursor := None\<rparr> else s2)
                                 \<lparr>st_cursor_step := Some name\<rparr>
                          else s2)
                in (Inr (Boundary_Run (step_snapshot sha256 s3)), c\<lparr>jc_steps := s3\<rparr>))"

definition mark_complete :: "string \<Rightarrow> step_state \<Rightarrow> step_state" where
  "mark_complete name s =
     s\<lparr>st_completed := st_completed s @ [name], st_position := length (st_completed s) + 1,
       st_in_progress := None\<rparr>"

definition complete_step :: "(bytes \<Rightarrow> bytes) \<Rightarrow> string \<Rightarrow> 'w job_ctx \<Rightarrow> checkpoint \<times> 'w job_ctx" where
  "complete_step sha256 name c =
     (let s = mark_complete name (jc_steps c) in (step_snapshot sha256 s, c\<lparr>jc_steps := s\<rparr>))"

text \<open>What a refused fence does to the attempt: it is cancelled before the next side effect.\<close>

definition fenced :: "unit result \<Rightarrow> ('w, unit) ctx_act" where
  "fenced r c =
     (case r of
        Inr _ \<Rightarrow> (Inr (), c)
      | Inl (LeaseRejected _) \<Rightarrow> (Inl Lease_Lost, cancel_ctx c)
      | Inl e \<Rightarrow> (Inl (Step_Store e), c))"

definition persist_checkpoint :: "'w store_ops \<Rightarrow> checkpoint \<Rightarrow> ('w, unit) ctx_act" where
  "persist_checkpoint st cp c =
     (case on_world (so_checkpoint st (jc_lease c) cp) c of (r, c1) \<Rightarrow> fenced r c1)"

section \<open>Steps\<close>

definition job_step ::
  "(bytes \<Rightarrow> bytes) \<Rightarrow> 'w store_ops \<Rightarrow> string \<Rightarrow> ('w, unit) ctx_act \<Rightarrow> ('w, unit) ctx_act" where
  "job_step sha256 st name f =
     ctx_seq (enter sha256 name False) (\<lambda>b. case b of
       Boundary_Skip \<Rightarrow> (\<lambda>c. (Inr (), c))
     | Boundary_Run cp \<Rightarrow>
         ctx_seq (persist_checkpoint st cp) (\<lambda>_.
         ctx_seq f (\<lambda>_ c. case complete_step sha256 name c of (dn, c1) \<Rightarrow> persist_checkpoint st dn c1)))"

definition step_cursor ::
  "(bytes \<Rightarrow> bytes) \<Rightarrow> 'w store_ops \<Rightarrow> string \<Rightarrow> (bytes option \<Rightarrow> ('w, unit) ctx_act) \<Rightarrow> ('w, unit) ctx_act" where
  "step_cursor sha256 st name f =
     ctx_seq (enter sha256 name True) (\<lambda>b. case b of
       Boundary_Skip \<Rightarrow> (\<lambda>c. (Inr (), c))
     | Boundary_Run cp \<Rightarrow>
         ctx_seq (persist_checkpoint st cp) (\<lambda>_.
         ctx_seq (f (cursor cp)) (\<lambda>_ c.
           let c1 = snd (complete_step sha256 name c);
               s = (jc_steps c1)\<lparr>st_cursor_step := None, st_cursor := None\<rparr>
           in persist_checkpoint st (step_snapshot sha256 s) (c1\<lparr>jc_steps := s\<rparr>))))"

definition set_cursor :: "(bytes \<Rightarrow> bytes) \<Rightarrow> 'w store_ops \<Rightarrow> bytes \<Rightarrow> ('w, unit) ctx_act" where
  "set_cursor sha256 st b c =
     (let s = (jc_steps c)\<lparr>st_cursor := Some b\<rparr>
      in persist_checkpoint st (step_snapshot sha256 s) (c\<lparr>jc_steps := s\<rparr>))"

section \<open>Effects that commit with the job\<close>

definition roll_back :: "'w tx_ops \<Rightarrow> 'w job_ctx \<Rightarrow> 'w job_ctx" where
  "roll_back t c = snd (on_world (rollback_tx t) c)"

text \<open>The last part of \<open>once\<close> and \<open>step_once\<close>: commit what the fence accepted, roll back what it
  refused.\<close>

definition settle_tx :: "'w tx_ops \<Rightarrow> unit result \<Rightarrow> ('w, unit) ctx_act" where
  "settle_tx t r c =
     (case r of
        Inr _ \<Rightarrow> ctx_call (commit_tx t) c
      | Inl e \<Rightarrow> fenced (Inl e) (roll_back t c))"

definition once_commit :: "'w tx_ops \<Rightarrow> ('w \<Rightarrow> (step_error + unit) \<times> 'w) \<Rightarrow> ('w, bool) ctx_act" where
  "once_commit t f c =
     (case on_world f c of
        (Inl e, c1) \<Rightarrow> (Inl e, roll_back t c1)
      | (Inr _, c1) \<Rightarrow>
          (case on_world (complete_tx_with_actual_weight t (jc_lease c1) (jc_actual_weight c1)) c1 of
             (r, c2) \<Rightarrow> ctx_seq (settle_tx t r) (\<lambda>_ c3. (Inr True, c3\<lparr>jc_finished := True\<rparr>)) c2))"

definition once :: "'w store_ops \<Rightarrow> ('w \<Rightarrow> (step_error + unit) \<times> 'w) \<Rightarrow> ('w, bool) ctx_act" where
  "once st f c =
     (case as_transactional st of
        None \<Rightarrow> (Inl (Step_Message ''Once requires a transactional store; this backend declines (runtime capability boundary)''), c)
      | Some t \<Rightarrow>
          ctx_seq (ctx_call (begin_tx t)) (\<lambda>_ c1.
            case on_world (claim_effect t (jc_job_id c1)) c1 of
              (Inl e, c2) \<Rightarrow> (Inl (Step_Store e), roll_back t c2)
            | (Inr claimed, c2) \<Rightarrow> if claimed then once_commit t f c2 else (Inr False, roll_back t c2)) c)"

definition step_effect_key :: "string \<Rightarrow> string \<Rightarrow> string" where
  "step_effect_key i name = i @ ''/'' @ name"

text \<open>From the body to the end of the transaction, and from its beginning.\<close>

definition step_commit ::
  "(bytes \<Rightarrow> bytes) \<Rightarrow> 'w tx_ops \<Rightarrow> string \<Rightarrow> ('w \<Rightarrow> (step_error + unit) \<times> 'w) \<Rightarrow> ('w, unit) ctx_act" where
  "step_commit sha256 t name f c =
     (case on_world f c of
        (Inl e, c1) \<Rightarrow> (Inl e, roll_back t c1)
      | (Inr _, c1) \<Rightarrow>
          (case complete_step sha256 name c1 of (dn, c2) \<Rightarrow>
             (case on_world (checkpoint_tx t (jc_lease c2) dn) c2 of (r, c3) \<Rightarrow> settle_tx t r c3)))"

definition step_effect ::
  "(bytes \<Rightarrow> bytes) \<Rightarrow> 'w store_ops \<Rightarrow> 'w tx_ops \<Rightarrow> string \<Rightarrow> ('w \<Rightarrow> (step_error + unit) \<times> 'w)
    \<Rightarrow> ('w, unit) ctx_act" where
  "step_effect sha256 st t name f =
     ctx_seq (ctx_call (begin_tx t)) (\<lambda>_ c.
       case on_world (claim_effect t (step_effect_key (jc_job_id c) name)) c of
         (Inl e, c1) \<Rightarrow> (Inl (Step_Store e), roll_back t c1)
       | (Inr claimed, c1) \<Rightarrow>
           if claimed then step_commit sha256 t name f c1
           else (case complete_step sha256 name (roll_back t c1) of (dn, c2) \<Rightarrow> persist_checkpoint st dn c2))"

definition step_once ::
  "(bytes \<Rightarrow> bytes) \<Rightarrow> 'w store_ops \<Rightarrow> string \<Rightarrow> ('w \<Rightarrow> (step_error + unit) \<times> 'w) \<Rightarrow> ('w, unit) ctx_act" where
  "step_once sha256 st name f c =
     (case as_transactional st of
        None \<Rightarrow> (Inl (Step_Message ''step_once requires a transactional store; this backend declines (runtime capability boundary)''), c)
      | Some t \<Rightarrow>
          ctx_seq (enter sha256 name False) (\<lambda>b. case b of
            Boundary_Skip \<Rightarrow> (\<lambda>c. (Inr (), c))
          | Boundary_Run cp \<Rightarrow>
              ctx_seq (persist_checkpoint st cp) (\<lambda>_. step_effect sha256 st t name f)) c)"

section \<open>What a boundary does\<close>

lemma snapshot_completed [simp]: "completed_steps (step_snapshot sha256 s) = st_completed s"
  by (simp add: step_snapshot_def)

lemma snapshot_in_progress [simp]: "in_progress_step (step_snapshot sha256 s) = st_in_progress s"
  by (simp add: step_snapshot_def)

lemma enter_keeps:
  assumes "enter sha256 name cur c = (r, c1)"
  shows "jc_world c1 = jc_world c" "jc_lease c1 = jc_lease c" "jc_job_id c1 = jc_job_id c"
    "st_completed (jc_steps c1) = st_completed (jc_steps c)"
  using assms by (auto simp: enter_def Let_def split: if_splits)

lemma enter_run:
  assumes "enter sha256 name cur c = (Inr (Boundary_Run cp), c1)"
  shows "cp = step_snapshot sha256 (jc_steps c1)" "st_in_progress (jc_steps c1) = Some name"
    "st_position (jc_steps c) \<ge> length (st_completed (jc_steps c))" "\<not> jc_canceled c"
  using assms by (auto simp: enter_def Let_def split: if_splits)

lemma enter_skip:
  assumes "enter sha256 name cur c = (Inr Boundary_Skip, c1)"
  shows "name \<in> set (st_completed (jc_steps c))"
  using assms by (auto simp: enter_def Let_def split: if_splits)

lemma on_world_eq: "on_world f c = (fst (f (jc_world c)), c\<lparr>jc_world := snd (f (jc_world c))\<rparr>)"
  by (simp add: on_world_def case_prod_unfold)

lemma roll_back_eq: "roll_back t c = c\<lparr>jc_world := snd (rollback_tx t (jc_world c))\<rparr>"
  by (simp add: roll_back_def on_world_eq)

lemma fenced_world [simp]: "jc_world (snd (fenced r c)) = jc_world c"
  by (simp add: fenced_def cancel_ctx_def split: sum.split store_error.split)

lemma fenced_Inr: "fst (fenced r c) = Inr () \<longleftrightarrow> r = Inr ()"
  by (simp add: fenced_def split: sum.split store_error.split)

lemma ctx_call_Inr:
  assumes "ctx_call f c = (Inr a, c1)"
  obtains w where "f (jc_world c) = (Inr a, w)" "c1 = c\<lparr>jc_world := w\<rparr>"
  using assms by (cases "f (jc_world c)") (auto simp: ctx_call_def on_world_eq boxed_def split: sum.splits)

lemma ctx_call_Inl:
  assumes "ctx_call f c = (Inl e, c1)"
  obtains e' w where "f (jc_world c) = (Inl e', w)" "c1 = c\<lparr>jc_world := w\<rparr>"
  using assms by (cases "f (jc_world c)") (auto simp: ctx_call_def on_world_eq boxed_def split: sum.splits)

lemma ctx_seq_cases:
  assumes "ctx_seq m k c = (r, c')"
  obtains (stop) e where "m c = (Inl e, c')" "r = Inl e"
  | (go) a c1 where "m c = (Inr a, c1)" "k a c1 = (r, c')"
  using assms by (auto simp: ctx_seq_def split: prod.splits sum.splits)

section \<open>The contract of a transactional store\<close>

text \<open>
  \<open>dur\<close> is what survives a crash, \<open>cur\<close> what the open transaction sees, \<open>obs\<close> the part of it that
  checkpoints do not write. A failed call may leave the transaction open: nothing that follows
  makes it durable.
\<close>

locale transactions =
  fixes st :: "'w store_ops" and t :: "'w tx_ops" and dur cur :: "'w \<Rightarrow> 'v" and in_tx :: "'w \<Rightarrow> bool"
    and effs :: "'v \<Rightarrow> string set" and mark :: "string \<Rightarrow> 'v \<Rightarrow> 'v"
    and ckp :: "lease_ref \<Rightarrow> checkpoint \<Rightarrow> 'v \<Rightarrow> unit result \<times> 'v"
    and fin :: "lease_ref \<Rightarrow> u32 option \<Rightarrow> 'v \<Rightarrow> unit result \<times> 'v" and obs :: "'v \<Rightarrow> 'o"
  assumes offered: "as_transactional st = Some t"
    and begin_law: "begin_tx t w = (r, w') \<Longrightarrow> dur w' = dur w \<and>
      (r = Inr () \<longrightarrow> \<not> in_tx w \<and> in_tx w' \<and> cur w' = dur w)"
    and commit_law: "in_tx w \<Longrightarrow> commit_tx t w = (r, w') \<Longrightarrow>
      (r = Inr () \<longrightarrow> dur w' = cur w) \<and> (r \<noteq> Inr () \<longrightarrow> dur w' = dur w)"
    and rollback_law: "in_tx w \<Longrightarrow> dur (snd (rollback_tx t w)) = dur w"
    and claim_law: "in_tx w \<Longrightarrow> claim_effect t key w = (q, w') \<Longrightarrow> in_tx w' \<and> dur w' = dur w \<and>
      (\<forall>b. q = Inr b \<longrightarrow> b = (key \<notin> effs (cur w)) \<and> cur w' = mark key (cur w))"
    and checkpoint_tx_law: "in_tx w \<Longrightarrow> checkpoint_tx t l cp w = (r, w') \<Longrightarrow> in_tx w' \<and> dur w' = dur w \<and>
      (r = Inr () \<longrightarrow> ckp l cp (cur w) = (Inr (), cur w'))"
    and complete_tx_law: "in_tx w \<Longrightarrow> complete_tx_with_actual_weight t l aw w = (r, w') \<Longrightarrow>
      in_tx w' \<and> dur w' = dur w \<and> (r = Inr () \<longrightarrow> fin l aw (cur w) = (Inr (), cur w'))"
    and checkpoint_law: "so_checkpoint st l cp w = (r, w') \<Longrightarrow> in_tx w' = in_tx w \<and>
      (in_tx w \<or> r \<noteq> Inr () \<longrightarrow> dur w' = dur w) \<and>
      (\<not> in_tx w \<and> r = Inr () \<longrightarrow> ckp l cp (dur w) = (Inr (), dur w'))"
    and ckp_keeps: "ckp l cp v = (r, v') \<Longrightarrow> effs v' = effs v \<and> obs v' = obs v"
    and effs_mark: "effs (mark key v) = insert key (effs v)"
begin

text \<open>A body that works on the open transaction only.\<close>

definition runs_as :: "('w \<Rightarrow> (step_error + unit) \<times> 'w) \<Rightarrow> ('v \<Rightarrow> (step_error + unit) \<times> 'v) \<Rightarrow> bool" where
  "runs_as f g \<longleftrightarrow> (\<forall>w. in_tx w \<longrightarrow> in_tx (snd (f w)) \<and> dur (snd (f w)) = dur w \<and>
     g (cur w) = (fst (f w), cur (snd (f w))))"

lemma runs_asD:
  assumes "runs_as f g" "in_tx w" "f w = (r, w')"
  shows "in_tx w'" "dur w' = dur w" "g (cur w) = (r, cur w')"
  using assms unfolding runs_as_def by (metis fst_conv snd_conv)+

lemma persist_obs:
  assumes "persist_checkpoint st cp c = (r, c')"
  shows "obs (dur (jc_world c')) = obs (dur (jc_world c))" "effs (dur (jc_world c')) = effs (dur (jc_world c))"
proof -
  obtain q w where *: "so_checkpoint st (jc_lease c) cp (jc_world c) = (q, w)" by fastforce
  with assms have "jc_world c' = w"
    by (auto simp: persist_checkpoint_def on_world_eq dest: arg_cong [where f = "\<lambda>p. jc_world (snd p)"])
  with checkpoint_law [OF *] show "obs (dur (jc_world c')) = obs (dur (jc_world c))"
      "effs (dur (jc_world c')) = effs (dur (jc_world c))"
    by (metis ckp_keeps)+
qed

lemma persist_ctx:
  assumes "persist_checkpoint st cp c = (Inr (), c')"
  shows "jc_lease c' = jc_lease c" "jc_job_id c' = jc_job_id c" "jc_steps c' = jc_steps c"
  using assms
  by (auto simp: persist_checkpoint_def on_world_eq fenced_def split: sum.splits store_error.splits)

lemma settle_tx_world:
  assumes "in_tx (jc_world c)" "settle_tx t q c = (r, c')"
  shows "(q = Inr () \<and> r = Inr () \<and> dur (jc_world c') = cur (jc_world c)) \<or>
         (r \<noteq> Inr () \<and> dur (jc_world c') = dur (jc_world c))"
proof (cases q)
  case (Inl e)
  with assms(2) have "r \<noteq> Inr ()" "jc_world c' = snd (rollback_tx t (jc_world c))"
    using fenced_Inr [of "Inl e" "roll_back t c"] fenced_world [of "Inl e" "roll_back t c"]
    by (auto simp: settle_tx_def roll_back_eq)
  with rollback_law [OF assms(1)] show ?thesis by simp
next
  case (Inr u)
  obtain q' w where "commit_tx t (jc_world c) = (q', w)" by fastforce
  with Inr assms commit_law [OF assms(1) this] show ?thesis
    by (cases q') (auto simp: settle_tx_def ctx_call_def on_world_eq boxed_def)
qed

end

context transactions
begin

text \<open>\<open>committed l cp key v g v'\<close>: the body \<open>g\<close> has run on \<open>v\<close> with the key claimed, and its writes and
  the checkpoint are what is durable.\<close>

definition committed ::
  "lease_ref \<Rightarrow> checkpoint \<Rightarrow> string \<Rightarrow> 'v \<Rightarrow> ('v \<Rightarrow> (step_error + unit) \<times> 'v) \<Rightarrow> 'v \<Rightarrow> bool" where
  "committed l cp key v g v' \<longleftrightarrow> key \<notin> effs v \<and>
     (\<exists>v2. g (mark key v) = (Inr (), v2) \<and> ckp l cp v2 = (Inr (), v'))"

lemma step_commit_effect:
  assumes "step_commit sha256 t name f c = (r, c')" "in_tx (jc_world c)" "runs_as f g"
  shows "dur (jc_world c') = dur (jc_world c) \<or>
    (\<exists>v2. r = Inr () \<and> g (cur (jc_world c)) = (Inr (), v2) \<and>
       ckp (jc_lease c) (step_snapshot sha256 (mark_complete name (jc_steps c))) v2 = (Inr (), dur (jc_world c')))"
proof -
  obtain q w where f: "f (jc_world c) = (q, w)" by fastforce
  note body = runs_asD [OF assms(3,2) f]
  show ?thesis
  proof (cases q)
    case (Inl e)
    with assms(1) f body rollback_law [OF body(1)] show ?thesis
      by (auto simp: step_commit_def on_world_eq roll_back_eq)
  next
    case (Inr u)
    let ?cp = "step_snapshot sha256 (mark_complete name (jc_steps c))"
    obtain q2 w2 where cp: "checkpoint_tx t (jc_lease c) ?cp w = (q2, w2)" by fastforce
    let ?c5 = "c\<lparr>jc_steps := mark_complete name (jc_steps c), jc_world := w2\<rparr>"
    have "settle_tx t q2 ?c5 = (r, c')"
      using assms(1) f cp Inr by (simp add: step_commit_def on_world_eq complete_step_def Let_def)
    from settle_tx_world [OF _ this] checkpoint_tx_law [OF body(1) cp] body Inr
    show ?thesis by auto
  qed
qed

lemma persist_same:
  assumes "persist_checkpoint st cp c = (r, c')" "dur (jc_world c) = v"
  shows "obs (dur (jc_world c')) = obs v \<and> effs (dur (jc_world c')) = effs v"
  using persist_obs [OF assms(1)] assms(2) by simp

lemma step_effect_effect:
  assumes "step_effect sha256 st t name f c = (r, c')" "runs_as f g"
  defines "v \<equiv> dur (jc_world c)" and "v' \<equiv> dur (jc_world c')"
  shows "(obs v' = obs v \<and> effs v' = effs v) \<or>
    (r = Inr () \<and> committed (jc_lease c) (step_snapshot sha256 (mark_complete name (jc_steps c)))
       (step_effect_key (jc_job_id c) name) v g v')"
  using assms(1) unfolding step_effect_def
proof (cases rule: ctx_seq_cases)
  case (stop e)
  obtain e' w where "begin_tx t (jc_world c) = (Inl e', w)" "c' = c\<lparr>jc_world := w\<rparr>"
    by (rule ctx_call_Inl [OF stop(1)])
  with begin_law [of "jc_world c"] show ?thesis by (simp add: v_def v'_def)
next
  case (go u c1)
  obtain w where b: "begin_tx t (jc_world c) = (Inr (), w)" and c1: "c1 = c\<lparr>jc_world := w\<rparr>"
    using ctx_call_Inr [OF go(1)] by auto
  let ?key = "step_effect_key (jc_job_id c) name"
  obtain q w2 where cl: "claim_effect t ?key w = (q, w2)" by fastforce
  have tx: "in_tx w" "dur w = v" "cur w = v" using begin_law [OF b] by (auto simp: v_def)
  note cw = claim_law [OF tx(1) cl]
  note rest = go(2) [unfolded c1 on_world_eq]
  show ?thesis
  proof (cases q)
    case (Inl e)
    with rest cl have "v' = dur (snd (rollback_tx t w2))" by (auto simp: roll_back_eq v'_def)
    with rollback_law [of w2] cw tx show ?thesis by simp
  next
    case q: (Inr claimed)
    show ?thesis
    proof (cases claimed)
      case True
      with rest cl q have "step_commit sha256 t name f (c\<lparr>jc_world := w2\<rparr>) = (r, c')" by simp
      from step_commit_effect [OF this _ assms(2)] cw q tx True
      show ?thesis by (auto simp: committed_def v'_def v_def)
    next
      case False
      with rest cl q obtain c2 cp where p: "persist_checkpoint st cp c2 = (r, c')"
        and "jc_world c2 = snd (rollback_tx t w2)"
        by (auto simp: complete_step_def Let_def roll_back_eq)
      with rollback_law [of w2] cw tx have "dur (jc_world c2) = v" by simp
      from persist_same [OF p this] show ?thesis by (simp add: v'_def)
    qed
  qed
qed

lemma step_once_effect:
  assumes "step_once sha256 st name f c = (r, c')" "runs_as f g"
  defines "v \<equiv> dur (jc_world c)" and "v' \<equiv> dur (jc_world c')"
  shows "(obs v' = obs v \<and> effs v' = effs v) \<or>
    (\<exists>v1 cp. r = Inr () \<and> obs v1 = obs v \<and> effs v1 = effs v \<and>
       completed_steps cp = st_completed (jc_steps c) @ [name] \<and>
       committed (jc_lease c) cp (step_effect_key (jc_job_id c) name) v1 g v')"
  using assms(1) unfolding step_once_def offered option.case
proof (cases rule: ctx_seq_cases)
  case (stop e)
  then show ?thesis using enter_keeps(1) by (metis v_def v'_def)
next
  case (go b c1)
  note e = enter_keeps [OF go(1)]
  show ?thesis
  proof (cases b)
    case Boundary_Skip
    with go e show ?thesis by (simp add: v_def v'_def)
  next
    case (Boundary_Run cp)
    with go(2) have "ctx_seq (persist_checkpoint st cp) (\<lambda>_. step_effect sha256 st t name f) c1 = (r, c')"
      by simp
    then show ?thesis
    proof (cases rule: ctx_seq_cases)
      case (stop e')
      with persist_obs [OF stop(1)] e show ?thesis by (simp add: v_def v'_def)
    next
      case (go u c2)
      then have p: "persist_checkpoint st cp c1 = (Inr (), c2)" by simp
      from step_effect_effect [OF go(2) assms(2)] persist_obs [OF p] persist_ctx [OF p] e
      show ?thesis unfolding v_def v'_def by (force simp: mark_complete_def)
    qed
  qed
qed

end

context transactions
begin

definition finished ::
  "lease_ref \<Rightarrow> u32 option \<Rightarrow> string \<Rightarrow> 'v \<Rightarrow> ('v \<Rightarrow> (step_error + unit) \<times> 'v) \<Rightarrow> 'v \<Rightarrow> bool" where
  "finished l aw key v g v' \<longleftrightarrow> key \<notin> effs v \<and>
     (\<exists>v2. g (mark key v) = (Inr (), v2) \<and> fin l aw v2 = (Inr (), v'))"

lemma once_commit_effect:
  assumes "once_commit t f c = (r, c')" "in_tx (jc_world c)" "runs_as f g"
  shows "dur (jc_world c') = dur (jc_world c) \<and> (\<forall>b. r \<noteq> Inr b) \<or>
    (\<exists>v2. r = Inr True \<and> jc_finished c' \<and> g (cur (jc_world c)) = (Inr (), v2) \<and>
       fin (jc_lease c) (jc_actual_weight c) v2 = (Inr (), dur (jc_world c')))"
proof -
  obtain q w where f: "f (jc_world c) = (q, w)" by fastforce
  note body = runs_asD [OF assms(3,2) f]
  show ?thesis
  proof (cases q)
    case (Inl e)
    with assms(1) f body rollback_law [OF body(1)] show ?thesis
      by (auto simp: once_commit_def on_world_eq roll_back_eq)
  next
    case (Inr u)
    obtain q2 w2 where cp: "complete_tx_with_actual_weight t (jc_lease c) (jc_actual_weight c) w = (q2, w2)"
      by fastforce
    have "ctx_seq (settle_tx t q2) (\<lambda>_ c3. (Inr True, c3\<lparr>jc_finished := True\<rparr>)) (c\<lparr>jc_world := w2\<rparr>) = (r, c')"
      using assms(1) f cp Inr by (simp add: once_commit_def on_world_eq)
    then show ?thesis
    proof (cases rule: ctx_seq_cases)
      case (stop e)
      from settle_tx_world [OF _ stop(1)] complete_tx_law [OF body(1) cp] body Inr stop(2)
      show ?thesis by auto
    next
      case (go a c1)
      from settle_tx_world [OF _ go(1)] complete_tx_law [OF body(1) cp] body Inr go(2)
      show ?thesis by auto
    qed
  qed
qed

lemma once_effect:
  assumes "once st f c = (r, c')" "runs_as f g"
  defines "v \<equiv> dur (jc_world c)" and "v' \<equiv> dur (jc_world c')"
  shows "v' = v \<and> r \<noteq> Inr True \<or>
    (r = Inr True \<and> jc_finished c' \<and> finished (jc_lease c) (jc_actual_weight c) (jc_job_id c) v g v')"
  using assms(1) unfolding once_def offered option.case
proof (cases rule: ctx_seq_cases)
  case (stop e)
  obtain e' w where "begin_tx t (jc_world c) = (Inl e', w)" "c' = c\<lparr>jc_world := w\<rparr>"
    by (rule ctx_call_Inl [OF stop(1)])
  with begin_law [of "jc_world c"] stop(2) show ?thesis by (simp add: v_def v'_def)
next
  case (go u c1)
  obtain w where b: "begin_tx t (jc_world c) = (Inr (), w)" and c1: "c1 = c\<lparr>jc_world := w\<rparr>"
    using ctx_call_Inr [OF go(1)] by auto
  obtain q w2 where cl: "claim_effect t (jc_job_id c) w = (q, w2)" by fastforce
  have tx: "in_tx w" "dur w = v" "cur w = v" using begin_law [OF b] by (auto simp: v_def)
  note cw = claim_law [OF tx(1) cl]
  note rest = go(2) [unfolded c1 on_world_eq]
  have rolled: "dur (snd (rollback_tx t w2)) = v" using rollback_law [of w2] cw tx by simp
  show ?thesis
  proof (cases q)
    case (Inl e)
    with rest cl rolled show ?thesis by (auto simp: roll_back_eq v'_def)
  next
    case q: (Inr claimed)
    show ?thesis
    proof (cases claimed)
      case True
      with rest cl q have "once_commit t f (c\<lparr>jc_world := w2\<rparr>) = (r, c')" by simp
      from once_commit_effect [OF this _ assms(2)] cw q tx True
      show ?thesis by (auto simp: finished_def v'_def v_def)
    next
      case False
      with rest cl q rolled show ?thesis by (auto simp: roll_back_eq v'_def)
    qed
  qed
qed

end

end
