(* ===== verification/SqliteTx.thy ===== *)
theory SqliteTx
  imports JobSteps
begin

text \<open>
  The transactions of the SQLite store (\<open>Transactional\<close> in headgate-sqlite/src/lib.rs) under the
  durable steps. The store has one connection: outside a transaction every statement is durable at
  once, inside one it is seen by the connection and becomes durable at the commit. The gate the
  store holds from \<open>begin_tx\<close> to the end of the transaction makes one call of the context one step
  of the connection. Every call can fail with an error of the database, given by a list of the
  faults to come. The locale \<open>transactions\<close> states what \<open>once\<close> and \<open>step_once\<close> rely on and proves
  their atomicity from it; the connection interprets it.
\<close>

section \<open>The connection\<close>

text \<open>The rows a job's completion and its checkpoints touch, the claimed effect keys, and
  everything else the statements of a body may write.\<close>

record 'd sq_db =
  sd_jobs :: "string \<rightharpoonup> mem_job"
  sd_rate :: "string \<rightharpoonup> rate_bucket"
  sd_counter :: "string \<times> i64 \<rightharpoonup> i64 \<times> i64"
  sd_effects :: "string set"
  sd_app :: 'd

datatype sq_fault = Fault_Busy string | Fault_Other string

record 'd sq_conn =
  cn_data :: "'d sq_db"
  cn_saved :: "'d sq_db option"
  cn_faults :: "sq_fault option list"

definition from_sqlite :: "sq_fault \<Rightarrow> store_error" where
  "from_sqlite e =
     (case e of Fault_Busy m \<Rightarrow> Unavailable (''SQLite: '' @ m) | Fault_Other m \<Rightarrow> Backend (''SQLite: '' @ m))"

text \<open>What a crash of the process leaves.\<close>

definition durable :: "'d sq_conn \<Rightarrow> 'd sq_db" where
  "durable w = (case cn_saved w of None \<Rightarrow> cn_data w | Some d \<Rightarrow> d)"

definition sq_io :: "('d sq_conn \<Rightarrow> 'r result \<times> 'd sq_conn) \<Rightarrow> 'd sq_conn \<Rightarrow> 'r result \<times> 'd sq_conn" where
  "sq_io f w =
     (case cn_faults w of
        [] \<Rightarrow> f w
      | None # fs \<Rightarrow> f (w\<lparr>cn_faults := fs\<rparr>)
      | Some e # fs \<Rightarrow> (Inl (from_sqlite e), w\<lparr>cn_faults := fs\<rparr>))"

definition on_data :: "('d sq_db \<Rightarrow> 'r \<times> 'd sq_db) \<Rightarrow> 'd sq_conn \<Rightarrow> 'r \<times> 'd sq_conn" where
  "on_data f w = (case f (cn_data w) of (r, d) \<Rightarrow> (r, w\<lparr>cn_data := d\<rparr>))"

definition sq_fenced :: "lease_ref \<Rightarrow> (mem_job \<Rightarrow> 'd sq_db \<Rightarrow> 'd sq_db) \<Rightarrow> 'd sq_db \<Rightarrow> unit result \<times> 'd sq_db" where
  "sq_fenced lease f d =
     (case sd_jobs d (lr_job_id lease) of
        Some j \<Rightarrow> if holds_lease lease j then (Inr (), f j d) else (Inl (LeaseRejected (lr_job_id lease)), d)
      | None \<Rightarrow> (Inl (LeaseRejected (lr_job_id lease)), d))"

definition put_job :: "string \<Rightarrow> mem_job \<Rightarrow> 'd sq_db \<Rightarrow> 'd sq_db" where
  "put_job i j d = d\<lparr>sd_jobs := (sd_jobs d)(i \<mapsto> j)\<rparr>"

definition write_checkpoint :: "lease_ref \<Rightarrow> checkpoint \<Rightarrow> 'd sq_db \<Rightarrow> unit result \<times> 'd sq_db" where
  "write_checkpoint lease cp =
     sq_fenced lease (\<lambda>j. put_job (lr_job_id lease) (j\<lparr>jcheckpoint := cp\<rparr>))"

section \<open>The operations\<close>

definition sq_checkpoint :: "lease_ref \<Rightarrow> checkpoint \<Rightarrow> 'd sq_conn \<Rightarrow> unit result \<times> 'd sq_conn" where
  "sq_checkpoint lease cp = sq_io (on_data (write_checkpoint lease cp))"

definition sq_begin_tx :: "'d sq_conn \<Rightarrow> unit result \<times> 'd sq_conn" where
  "sq_begin_tx =
     sq_io (\<lambda>w. case cn_saved w of
       None \<Rightarrow> (Inr (), w\<lparr>cn_saved := Some (cn_data w)\<rparr>)
     | Some _ \<Rightarrow> (Inl (from_sqlite (Fault_Other ''cannot start a transaction within a transaction'')), w))"

definition sq_commit_tx :: "'d sq_conn \<Rightarrow> unit result \<times> 'd sq_conn" where
  "sq_commit_tx =
     sq_io (\<lambda>w. case cn_saved w of
       None \<Rightarrow> (Inl (from_sqlite (Fault_Other ''cannot commit - no transaction is active'')), w)
     | Some _ \<Rightarrow> (Inr (), w\<lparr>cn_saved := None\<rparr>))"

definition sq_rollback_tx :: "'d sq_conn \<Rightarrow> unit result \<times> 'd sq_conn" where
  "sq_rollback_tx =
     sq_io (\<lambda>w. case cn_saved w of
       None \<Rightarrow> (Inl (from_sqlite (Fault_Other ''cannot rollback - no transaction is active'')), w)
     | Some d \<Rightarrow> (Inr (), w\<lparr>cn_data := d, cn_saved := None\<rparr>))"

definition mark_effect :: "string \<Rightarrow> 'd sq_db \<Rightarrow> 'd sq_db" where
  "mark_effect key d = d\<lparr>sd_effects := insert key (sd_effects d)\<rparr>"

definition sq_claim_effect :: "string \<Rightarrow> 'd sq_conn \<Rightarrow> bool result \<times> 'd sq_conn" where
  "sq_claim_effect key w =
     (if key = [] then (Inl (Invalid ''effect key must not be empty''), w)
      else sq_io (on_data (\<lambda>d. (Inr (key \<notin> sd_effects d), mark_effect key d))) w)"

text \<open>The refill and the correction of a rate bucket, within the integers SQLite stores.\<close>

definition reconcile_actual_weight :: "mem_job \<Rightarrow> u32 \<Rightarrow> i64 \<Rightarrow> 'd sq_db \<Rightarrow> 'd sq_db" where
  "reconcile_actual_weight j actual now d =
     (if rate_charge j = 0 then d
      else case sd_rate d (rate_class (env j)) of
             None \<Rightarrow> d
           | Some b \<Rightarrow>
               let avail = min (rb_burst b) (rb_tokens b + (max 0 (now - rb_refilled b) * rb_limit b) sdiv rb_window b)
               in d\<lparr>sd_rate := (sd_rate d)(rate_class (env j) \<mapsto>
                      b\<lparr>rb_tokens := min (rb_burst b) (avail + rate_charge j - uint actual),
                        rb_refilled := now\<rparr>)\<rparr>)"

definition count_completed :: "string \<Rightarrow> i64 \<Rightarrow> 'd sq_db \<Rightarrow> 'd sq_db" where
  "count_completed q now d =
     (let k = (q, now sdiv 60000 * 60000)
      in d\<lparr>sd_counter := (sd_counter d)(k \<mapsto>
             (case sd_counter d k of None \<Rightarrow> (0, 1) | Some (arrived, n) \<Rightarrow> (arrived, n + 1)))\<rparr>)"

definition finish_job :: "i64 \<Rightarrow> lease_ref \<Rightarrow> u32 option \<Rightarrow> 'd sq_db \<Rightarrow> unit result \<times> 'd sq_db" where
  "finish_job now lease actual_weight =
     sq_fenced lease (\<lambda>j d.
       let d1 = (case actual_weight of None \<Rightarrow> d | Some actual \<Rightarrow> reconcile_actual_weight j actual now d);
           d2 = (if retention_ms (env j) = 0
                 then d1\<lparr>sd_jobs := (sd_jobs d1)(lr_job_id lease := None)\<rparr>
                 else put_job (lr_job_id lease)
                        (j\<lparr>jstate := ''completed'', finalized_at := now,
                           rate_charge := (if actual_weight = None then rate_charge j else 0),
                           lease_id := [], lease_expires := 0\<rparr>) d1)
       in count_completed (queue (env j)) now d2)"

definition sq_complete_tx :: "i64 \<Rightarrow> lease_ref \<Rightarrow> u32 option \<Rightarrow> 'd sq_conn \<Rightarrow> unit result \<times> 'd sq_conn" where
  "sq_complete_tx now lease actual_weight = sq_io (on_data (finish_job now lease actual_weight))"

definition sq_tx_ops :: "i64 \<Rightarrow> 'd sq_conn tx_ops" where
  "sq_tx_ops now =
     \<lparr>begin_tx = sq_begin_tx, commit_tx = sq_commit_tx, rollback_tx = sq_rollback_tx,
      claim_effect = sq_claim_effect, complete_tx_with_actual_weight = sq_complete_tx now,
      checkpoint_tx = sq_checkpoint\<rparr>"

text \<open>The store of the context; its operations that steps do not use are arbitrary.\<close>

definition sqlite_store :: "'d sq_conn store_ops \<Rightarrow> i64 \<Rightarrow> 'd sq_conn store_ops" where
  "sqlite_store base now =
     base\<lparr>so_checkpoint := sq_checkpoint, as_transactional := Some (sq_tx_ops now)\<rparr>"

section \<open>The connection keeps the contract\<close>

lemma sq_io_cases:
  assumes "sq_io f w = (r, w')"
  obtains (fault) e fs where "r = Inl (from_sqlite e)" "w' = w\<lparr>cn_faults := fs\<rparr>"
  | (run) fs where "f (w\<lparr>cn_faults := fs\<rparr>) = (r, w')"
proof (cases "cn_faults w")
  case Nil
  then have same: "w\<lparr>cn_faults := []\<rparr> = w" by (cases w) simp
  from Nil assms have "f w = (r, w')" by (simp add: sq_io_def)
  then have "f (w\<lparr>cn_faults := []\<rparr>) = (r, w')" by (simp only: same)
  then show thesis by (rule run)
next
  case (Cons x fs)
  with assms fault run show thesis by (cases x) (auto simp: sq_io_def)
qed

lemma durable_faults [simp]: "durable (w\<lparr>cn_faults := fs\<rparr>) = durable w"
  by (simp add: durable_def split: option.split)

lemma durable_idle [simp]: "cn_saved w = None \<Longrightarrow> durable w = cn_data w"
  by (simp add: durable_def)

lemma durable_in_tx: "cn_saved w = Some d \<Longrightarrow> durable w = d"
  by (simp add: durable_def)

lemma write_checkpoint_keeps:
  "write_checkpoint l cp d = (r, d') \<Longrightarrow> sd_effects d' = sd_effects d \<and> sd_app d' = sd_app d"
  by (auto simp: write_checkpoint_def sq_fenced_def put_job_def split: option.splits if_splits)

lemma write_checkpoint_refused: "write_checkpoint l cp d = (Inl e, d') \<Longrightarrow> d' = d"
  by (auto simp: write_checkpoint_def sq_fenced_def split: option.splits if_splits)

lemma on_data_tx:
  assumes "on_data f w = (r, w')"
  shows "cn_saved w' = cn_saved w" "f (cn_data w) = (r, cn_data w')"
  using assms by (auto simp: on_data_def split: prod.splits)

lemma stmt_in_tx:
  assumes "cn_saved w \<noteq> None" "sq_io (on_data f) w = (r, w')"
  shows "cn_saved w' \<noteq> None \<and> durable w' = durable w \<and> (\<forall>a. r = Inr a \<longrightarrow> f (cn_data w) = (Inr a, cn_data w'))"
  using assms(2)
proof (cases rule: sq_io_cases)
  case (fault e fs)
  with assms(1) show ?thesis by simp
next
  case (run fs)
  with on_data_tx [OF run] assms(1) show ?thesis by (auto simp: durable_def split: option.splits)
qed

lemma checkpoint_statement:
  assumes "sq_checkpoint l cp w = (r, w')"
  shows "(cn_saved w' \<noteq> None) = (cn_saved w \<noteq> None) \<and>
    (cn_saved w \<noteq> None \<or> r \<noteq> Inr () \<longrightarrow> durable w' = durable w) \<and>
    (\<not> cn_saved w \<noteq> None \<and> r = Inr () \<longrightarrow> write_checkpoint l cp (durable w) = (Inr (), durable w'))"
  using assms unfolding sq_checkpoint_def
proof (cases rule: sq_io_cases)
  case (fault e fs)
  then show ?thesis by simp
next
  case (run fs)
  from on_data_tx [OF run] show ?thesis
    by (cases r; cases "cn_saved w") (auto simp: durable_def dest: write_checkpoint_refused)
qed

interpretation sq: transactions "sqlite_store base now" "sq_tx_ops now" durable cn_data
    "\<lambda>w. cn_saved w \<noteq> None" sd_effects mark_effect write_checkpoint "finish_job now" sd_app
  for base :: "'d sq_conn store_ops" and now :: i64
proof (unfold_locales, goal_cases)
  case 1
  show ?case by (simp add: sqlite_store_def)
next
  case (2 w r w')
  then show ?case
    by (auto simp: sq_tx_ops_def sq_begin_tx_def durable_def elim!: sq_io_cases split: option.splits)
next
  case (3 w r w')
  then show ?case
    by (auto simp: sq_tx_ops_def sq_commit_tx_def durable_def elim!: sq_io_cases split: option.splits)
next
  case (4 w)
  then show ?case
    by (auto simp: sq_tx_ops_def sq_rollback_tx_def sq_io_def durable_def split: option.splits list.splits)
next
  case (5 w key q w')
  then show ?case
    using stmt_in_tx [OF 5(1), of "\<lambda>d. (Inr (key \<notin> sd_effects d), mark_effect key d)" q w']
    by (auto simp: sq_tx_ops_def sq_claim_effect_def split: if_splits)
next
  case (6 w l cp r w')
  then show ?case
    using stmt_in_tx [OF 6(1), of "write_checkpoint l cp" r w'] by (simp add: sq_tx_ops_def sq_checkpoint_def)
next
  case (7 w l aw r w')
  then show ?case
    using stmt_in_tx [OF 7(1), of "finish_job now l aw" r w'] by (simp add: sq_tx_ops_def sq_complete_tx_def)
next
  case (8 l cp w r w')
  then show ?case using checkpoint_statement [of l cp w r w'] by (simp add: sqlite_store_def)
next
  case (9 l cp v r v')
  then show ?case by (rule write_checkpoint_keeps)
next
  case (10 key v)
  show ?case by (simp add: mark_effect_def)
qed

lemma body_runs: "sq.runs_as (on_data g) g"
  unfolding sq.runs_as_def by (auto simp: on_data_def durable_def split: prod.split option.split)

lemmas step_once_cases = sq.step_once_effect [OF _ body_runs, unfolded sq.committed_def]
lemmas once_cases = sq.once_effect [OF _ body_runs, unfolded sq.finished_def]

section \<open>Effects are atomic with their markers\<close>

text \<open>C10. A body given to step_once or once either leaves no durable trace (no write of it and no
  claimed key survives, whatever error of the database interrupted the call), or everything of it is
  durable at once: the body returned Ok on a database where its key was not yet claimed, and the
  durable database is what the body left plus the step's completion marker (step_once) or the
  fence-verified completion of the job (once), both written under the lease of the attempt.\<close>

theorem effects_atomic:
  assumes "step_once sha256 (sqlite_store base now) name (on_data g) c = (r, c')"
    and "once (sqlite_store base now) (on_data h) b = (q, b')"
  shows "((sd_app (durable (jc_world c')) = sd_app (durable (jc_world c)) \<and>
          sd_effects (durable (jc_world c')) = sd_effects (durable (jc_world c))) \<or>
         (\<exists>d1 d2 cp. r = Inr () \<and> sd_app d1 = sd_app (durable (jc_world c)) \<and>
            sd_effects d1 = sd_effects (durable (jc_world c)) \<and>
            step_effect_key (jc_job_id c) name \<notin> sd_effects d1 \<and>
            g (mark_effect (step_effect_key (jc_job_id c) name) d1) = (Inr (), d2) \<and>
            completed_steps cp = st_completed (jc_steps c) @ [name] \<and>
            write_checkpoint (jc_lease c) cp d2 = (Inr (), durable (jc_world c')))) \<and>
         (durable (jc_world b') = durable (jc_world b) \<and> q \<noteq> Inr True \<or>
         (\<exists>d2. q = Inr True \<and> jc_finished b' \<and> jc_job_id b \<notin> sd_effects (durable (jc_world b)) \<and>
            h (mark_effect (jc_job_id b) (durable (jc_world b))) = (Inr (), d2) \<and>
            finish_job now (jc_lease b) (jc_actual_weight b) d2 = (Inr (), durable (jc_world b'))))"
  using step_once_cases [OF assms(1)] once_cases [OF assms(2)] by (intro conjI) blast+

section \<open>At most once\<close>

definition keeps_effects :: "('d sq_db \<Rightarrow> (step_error + unit) \<times> 'd sq_db) \<Rightarrow> bool" where
  "keeps_effects g \<longleftrightarrow> (\<forall>d. sd_effects d \<subseteq> sd_effects (snd (g d)))"

text \<open>
  What may happen to the database in the life of an effect key: calls of \<open>step_once\<close> and \<open>once\<close> with
  that key by any attempt, with any body and any faults, and anything else that keeps the claimed
  keys: other jobs, the sweeps, the application, a body abandoned in the middle, a restart of the
  process. The number counts the calls after which the application's data are not what they were.
\<close>

inductive effect_history :: "string \<Rightarrow> 'd sq_conn \<Rightarrow> nat \<Rightarrow> bool" for key where
  fresh: "key \<notin> sd_effects (durable w) \<Longrightarrow> effect_history key w 0"
| step: "effect_history key (jc_world c) n \<Longrightarrow> step_effect_key (jc_job_id c) name = key \<Longrightarrow> keeps_effects g \<Longrightarrow>
    step_once sha256 (sqlite_store base now) name (on_data g) c = (r, c') \<Longrightarrow>
    effect_history key (jc_world c')
      (if sd_app (durable (jc_world c')) = sd_app (durable (jc_world c)) then n else Suc n)"
| once: "effect_history key (jc_world c) n \<Longrightarrow> jc_job_id c = key \<Longrightarrow> keeps_effects g \<Longrightarrow>
    once (sqlite_store base now) (on_data g) c = (q, c') \<Longrightarrow>
    effect_history key (jc_world c')
      (if sd_app (durable (jc_world c')) = sd_app (durable (jc_world c)) then n else Suc n)"
| others: "effect_history key w n \<Longrightarrow> sd_effects (durable w) \<subseteq> sd_effects (durable w') \<Longrightarrow>
    effect_history key w' n"

lemma keeps_effectsD: "keeps_effects g \<Longrightarrow> g d = (r, d') \<Longrightarrow> sd_effects d \<subseteq> sd_effects d'"
  unfolding keeps_effects_def by (metis snd_conv)

lemma mark_effect_effects [simp]: "sd_effects (mark_effect key d) = insert key (sd_effects d)"
  by (simp add: mark_effect_def)

lemma finish_job_keeps:
  fixes d :: "'a sq_db"
  assumes "finish_job now l aw d = (r, d')"
  shows "sd_effects d' = sd_effects d"
proof -
  note assms
  moreover have "sd_effects (reconcile_actual_weight j a now d) = sd_effects d" for j a
    by (simp add: reconcile_actual_weight_def Let_def split: option.split)
  moreover have "sd_effects (count_completed q now e) = sd_effects e" for q and e :: "'a sq_db"
    by (simp add: count_completed_def Let_def)
  moreover have "sd_effects (put_job i j e) = sd_effects e" for i j and e :: "'a sq_db"
    by (simp add: put_job_def)
  ultimately show ?thesis
    by (auto simp: finish_job_def sq_fenced_def Let_def split: option.splits if_splits)
qed

lemma step_once_key:
  assumes "step_once sha256 (sqlite_store base now) name (on_data g) c = (r, c')" "keeps_effects g"
    and "key = step_effect_key (jc_job_id c) name"
  shows "sd_app (durable (jc_world c')) = sd_app (durable (jc_world c)) \<and>
      sd_effects (durable (jc_world c')) = sd_effects (durable (jc_world c)) \<or>
    key \<notin> sd_effects (durable (jc_world c)) \<and> key \<in> sd_effects (durable (jc_world c'))"
  using step_once_cases [OF assms(1)] unfolding assms(3) [symmetric]
proof (elim disjE exE conjE)
  fix d1 d2 cp
  assume d: "sd_effects d1 = sd_effects (durable (jc_world c))" "key \<notin> sd_effects d1"
    "g (mark_effect key d1) = (Inr (), d2)" "write_checkpoint (jc_lease c) cp d2 = (Inr (), durable (jc_world c'))"
  from keeps_effectsD [OF assms(2) d(3)] write_checkpoint_keeps [OF d(4)] d(1,2) show ?thesis by simp
qed simp

lemma once_key:
  assumes "once (sqlite_store base now) (on_data g) c = (r, c')" "keeps_effects g"
  shows "durable (jc_world c') = durable (jc_world c) \<or>
    jc_job_id c \<notin> sd_effects (durable (jc_world c)) \<and> jc_job_id c \<in> sd_effects (durable (jc_world c'))"
  using once_cases [OF assms(1)]
proof (elim disjE exE conjE)
  fix d2
  assume d: "jc_job_id c \<notin> sd_effects (durable (jc_world c))"
    "g (mark_effect (jc_job_id c) (durable (jc_world c))) = (Inr (), d2)"
    "finish_job now (jc_lease c) (jc_actual_weight c) d2 = (Inr (), durable (jc_world c'))"
  from keeps_effectsD [OF assms(2) d(2)] finish_job_keeps [OF d(3)] d(1) show ?thesis by simp
qed simp

text \<open>C9. Whatever the attempts of a job do, retried, superseded, interrupted by errors or by crashes,
  and whatever else happens to the database, the calls of step_once and once with one effect key
  change the application's durable data at most once, and once they have, the key is claimed for
  good.\<close>

theorem effect_at_most_once:
  assumes "effect_history key w n"
  shows "n \<le> 1 \<and> (n = 1 \<longrightarrow> key \<in> sd_effects (durable w))"
  using assms
proof induction
  case (step c n name g sha256 base now r c')
  from step_once_key [OF step(4,3) step(2) [symmetric]] step(2,5) show ?case by (auto simp: le_Suc_eq)
next
  case (once c n g base now q c')
  from once_key [OF once(4,3)] once(2,5) show ?case by (auto simp: le_Suc_eq)
qed auto

section \<open>A run\<close>

definition bare_store :: "'d sq_conn store_ops" where
  "bare_store =
     \<lparr>so_renew = (\<lambda>_ _ w. (Inr [], w)), so_ack_attempt = (\<lambda>_ _ _ _ _ _ w. (Inr (), w)),
      so_checkpoint = (\<lambda>_ _ w. (Inr (), w)), as_result_store = None, as_output_store = None, as_progress_store = None,
      as_transactional = None\<rparr>"

definition job_conn :: "string list sq_conn" where
  "job_conn =
     \<lparr>cn_data = \<lparr>sd_jobs = [''a'' \<mapsto> run_row], sd_rate = Map.empty, sd_counter = Map.empty, sd_effects = {},
        sd_app = []\<rparr>, cn_saved = None, cn_faults = []\<rparr>"

definition job_claim :: claim where
  "job_claim =
     \<lparr>cl_envelope = env run_row, cl_lease_id = ''L'', cl_fence = 1, cl_expires_at_ms = 50,
      cl_checkpoint = checkpoint_default\<rparr>"

definition charge :: "string list sq_db \<Rightarrow> (step_error + unit) \<times> string list sq_db" where
  "charge d = (Inr (), d\<lparr>sd_app := sd_app d @ [''charged'']\<rparr>)"

definition paid :: "(step_error + unit) \<times> string list sq_conn job_ctx" where
  "paid = step_once (\<lambda>_. []) (sqlite_store bare_store 9) ''pay'' (on_data charge) (from_claim job_claim job_conn)"

definition charged_once :: "(step_error + bool) \<times> string list sq_conn job_ctx" where
  "charged_once = once (sqlite_store bare_store 9) (on_data charge) (from_claim job_claim job_conn)"

lemmas run_conn_simps = from_claim_def claim_lease_ref_def job_claim_def job_conn_def charge_def on_world_eq
  ctx_seq_def ctx_call_def boxed_def enter_def persist_checkpoint_def fenced_def complete_step_def mark_complete_def
  settle_tx_def step_effect_key_def sqlite_store_def sq_tx_ops_def sq_checkpoint_def sq_begin_tx_def
  sq_commit_tx_def sq_rollback_tx_def sq_claim_effect_def sq_complete_tx_def sq_io_def on_data_def write_checkpoint_def sq_fenced_def
  put_job_def mark_effect_def durable_def checkpoint_default_def holds_lease_def run_row_def mem_job_default_def
  envelope_default_def Let_def roll_back_eq cancel_ctx_def finish_job_def count_completed_def

lemma paid_run:
  "fst paid = Inr ()" "sd_app (durable (jc_world (snd paid))) = [''charged'']"
  "sd_effects (durable (jc_world (snd paid))) = {''a/pay''}"
  by (simp_all add: paid_def step_once_def step_effect_def step_commit_def run_conn_simps)

lemma charged_once_run:
  "fst charged_once = Inr True" "sd_app (durable (jc_world (snd charged_once))) = [''charged'']"
  "sd_jobs (durable (jc_world (snd charged_once))) ''a'' = None"
  by (simp_all add: charged_once_def once_def once_commit_def run_conn_simps)

lemma job_conn_start:
  "jc_world (from_claim job_claim w) = w" "jc_job_id (from_claim job_claim w) = ''a''"
  "sd_effects (durable job_conn) = {}" "sd_app (durable job_conn) = []" "cn_saved job_conn = None"
  "sd_app (cn_data job_conn) = []"
  by (simp_all add: run_conn_simps)

theorem effects_atomic_witness:
  "\<exists>d1 d2 cp. fst paid = Inr () \<and> ''a/pay'' \<notin> sd_effects d1 \<and> charge (mark_effect ''a/pay'' d1) = (Inr (), d2) \<and>
     completed_steps cp = [''pay''] \<and>
     write_checkpoint (jc_lease (from_claim job_claim job_conn)) cp d2 = (Inr (), durable (jc_world (snd paid)))"
proof -
  have run: "step_once (\<lambda>_. []) (sqlite_store bare_store 9) ''pay'' (on_data charge) (from_claim job_claim job_conn)
      = (fst paid, snd paid)"
    "once (sqlite_store bare_store 9) (on_data charge) (from_claim job_claim job_conn) = (fst charged_once, snd charged_once)"
    by (simp_all add: paid_def charged_once_def)
  have new: "st_completed (jc_steps (from_claim job_claim job_conn)) = []" "step_effect_key ''a'' ''pay'' = ''a/pay''"
    by (simp_all add: run_conn_simps)
  from effects_atomic [OF run] show ?thesis
    unfolding job_conn_start new paid_run by auto
qed

theorem effect_at_most_once_witness:
  "effect_history ''a/pay'' (jc_world (snd paid)) 1 \<and> ''a/pay'' \<in> sd_effects (durable (jc_world (snd paid)))"
proof -
  have "keeps_effects charge" by (simp add: keeps_effects_def charge_def)
  moreover have "effect_history ''a/pay'' (jc_world (from_claim job_claim job_conn)) 0"
    by (rule effect_history.fresh) (simp only: job_conn_start empty_iff not_False_eq_True)
  moreover have "step_once (\<lambda>_. []) (sqlite_store bare_store 9) ''pay'' (on_data charge) (from_claim job_claim job_conn)
      = (fst paid, snd paid)" by (simp add: paid_def)
  moreover have "step_effect_key (jc_job_id (from_claim job_claim job_conn)) ''pay'' = ''a/pay''"
    by (simp add: job_conn_start step_effect_key_def)
  ultimately have "effect_history ''a/pay'' (jc_world (snd paid)) 1"
    using effect_history.step [of "''a/pay''" "from_claim job_claim job_conn" 0 "''pay''" charge "\<lambda>_. []" bare_store 9 "fst paid" "snd paid"]
    by (simp add: paid_run job_conn_start)
  with effect_at_most_once [OF this] show ?thesis by simp
qed

section \<open>Two ways a rolled back or abandoned transaction leaks\<close>

text \<open>Dropping the handle of an open transaction releases the gate and sends no statement.\<close>

definition drop_tx :: "'d sq_conn \<Rightarrow> 'd sq_conn" where
  "drop_tx w = w"

text \<open>A handler aborted inside the body of \<open>once\<close> (its lease was lost, it timed out, the worker shuts
  down) drops the handle. The connection stays in the transaction: no transaction can begin any more,
  and a checkpoint that reports success is not durable.\<close>

theorem abandoned_transaction_leaks:
  assumes "cn_saved w \<noteq> None"
  shows "fst (sq_begin_tx (drop_tx w)) \<noteq> Inr () \<and>
    durable (snd (sq_checkpoint lease cp (drop_tx w))) = durable w \<and>
    fst (sq_checkpoint run_lease cp (drop_tx (snd (sq_begin_tx job_conn)))) = Inr ()"
proof -
  have "fst (sq_begin_tx w) \<noteq> Inr ()"
    using assms by (auto simp: sq_begin_tx_def sq_io_def split: option.splits list.splits)
  moreover have "durable (snd (sq_checkpoint lease cp w)) = durable w"
    using checkpoint_statement [of lease cp w "fst (sq_checkpoint lease cp w)" "snd (sq_checkpoint lease cp w)"] assms
    by simp
  moreover have "fst (sq_checkpoint run_lease cp (snd (sq_begin_tx job_conn))) = Inr ()"
    by (simp add: run_conn_simps run_lease_def)
  ultimately show ?thesis unfolding drop_tx_def by simp
qed

text \<open>\<open>step_once\<close> marks its step complete in the context before the store has accepted the marker. When
  the transaction then fails and is rolled back, and the handler goes on to another step, that
  step's marker records the first one as completed: no later attempt runs it, and its effect is
  lost.\<close>

definition failing_conn :: "string list sq_conn" where
  "failing_conn = job_conn\<lparr>cn_faults := [None, None, None, Some (Fault_Other ''disk I/O error'')]\<rparr>"

theorem rolled_back_step_recorded:
  "\<exists>c1 c2 e j. step_once (\<lambda>_. []) (sqlite_store bare_store 9) ''pay'' (on_data charge) (from_claim job_claim failing_conn)
       = (Inl e, c1) \<and>
     job_step (\<lambda>_. []) (sqlite_store bare_store 9) ''mail'' (Pair (Inr ())) c1 = (Inr (), c2) \<and>
     sd_jobs (durable (jc_world c2)) ''a'' = Some j \<and> completed_steps (jcheckpoint j) = [''pay'', ''mail''] \<and>
     sd_app (durable (jc_world c2)) = [] \<and> sd_effects (durable (jc_world c2)) = {}"
  by (simp add: step_once_def step_effect_def step_commit_def job_step_def step_snapshot_def failing_conn_def run_conn_simps
      from_sqlite_def)

end
