(* ===== verification/StepReplay.thy ===== *)
theory StepReplay
  imports SqliteTx
begin

text \<open>
  Replay of durable steps over the attempts of a job. A handler awaits its steps in order and gives
  up at the first error; the application's data are a log of the bodies that ran. A body may let
  anything else happen to the database meanwhile, the loss of the lease included, as long as the
  recorded steps of the job stay: they are written by the holder of the lease only.
\<close>

section \<open>A handler made of steps\<close>

definition logged ::
  "(string \<Rightarrow> string list sq_conn \<Rightarrow> (step_error + unit) \<times> string list sq_conn) \<Rightarrow> string
    \<Rightarrow> (string list sq_conn, unit) ctx_act" where
  "logged h name =
     on_world (\<lambda>w. h name (w\<lparr>cn_data := (cn_data w)\<lparr>sd_app := sd_app (cn_data w) @ [name]\<rparr>\<rparr>))"

fun run_steps ::
  "(bytes \<Rightarrow> bytes) \<Rightarrow> 'w store_ops \<Rightarrow> (string \<Rightarrow> ('w, unit) ctx_act) \<Rightarrow> string list \<Rightarrow> ('w, unit) ctx_act" where
  "run_steps sha256 st body [] c = (Inr (), c)"
| "run_steps sha256 st body (name # names) c =
     ctx_seq (job_step sha256 st name (body name)) (\<lambda>_. run_steps sha256 st body names) c"

definition recorded :: "string \<Rightarrow> 'd sq_conn \<Rightarrow> string list option" where
  "recorded i w = map_option (\<lambda>j. completed_steps (jcheckpoint j)) (sd_jobs (durable w) i)"

definition ran :: "'d sq_conn job_ctx \<Rightarrow> 'd" where
  "ran c = sd_app (cn_data (jc_world c))"

definition quiet ::
  "(string \<Rightarrow> 'd sq_conn \<Rightarrow> (step_error + unit) \<times> 'd sq_conn) \<Rightarrow> string \<Rightarrow> bool" where
  "quiet h i \<longleftrightarrow> (\<forall>name w. cn_saved w = None \<longrightarrow> cn_saved (snd (h name w)) = None \<and>
     sd_app (cn_data (snd (h name w))) = sd_app (cn_data w) \<and> recorded i (snd (h name w)) = recorded i w)"

section \<open>One step\<close>

definition at_rest :: "string \<Rightarrow> 'd sq_conn job_ctx \<Rightarrow> string list \<Rightarrow> bool" where
  "at_rest i c names \<longleftrightarrow> cn_saved (jc_world c) = None \<and> recorded i (jc_world c) = Some names"

definition in_step :: "string \<Rightarrow> 'd sq_conn job_ctx \<Rightarrow> string list \<Rightarrow> bool" where
  "in_step i c names \<longleftrightarrow> lr_job_id (jc_lease c) = i \<and> st_completed (jc_steps c) = names"

lemma write_checkpoint_Inr:
  assumes "write_checkpoint l cp d = (Inr (), d')"
  shows "\<exists>j. sd_jobs d' (lr_job_id l) = Some j \<and> jcheckpoint j = cp" "sd_app d' = sd_app d"
  using assms by (auto simp: write_checkpoint_def sq_fenced_def put_job_def split: option.splits if_splits)

lemma persist_at_rest:
  assumes "persist_checkpoint (sqlite_store base now) cp c = (r, c')" "at_rest i c names"
    and "lr_job_id (jc_lease c) = i"
  shows "at_rest i c' (if r = Inr () then completed_steps cp else names)" "ran c' = ran c"
    "jc_steps c' = jc_steps c" "jc_lease c' = jc_lease c"
proof -
  obtain q w where q: "sq_checkpoint (jc_lease c) cp (jc_world c) = (q, w)" by fastforce
  then have f: "fenced q (c\<lparr>jc_world := w\<rparr>) = (r, c')"
    using assms(1) by (simp add: persist_checkpoint_def on_world_eq sqlite_store_def)
  then show "jc_steps c' = jc_steps c" "jc_lease c' = jc_lease c"
    by (auto simp: fenced_def cancel_ctx_def split: sum.splits store_error.splits)
  from f have w: "jc_world c' = w" using fenced_world [of q "c\<lparr>jc_world := w\<rparr>"] by simp
  from f have r: "r = Inr () \<longleftrightarrow> q = Inr ()" using fenced_Inr [of q "c\<lparr>jc_world := w\<rparr>"] by simp
  note ck = checkpoint_statement [OF q]
  have idle: "cn_saved (jc_world c) = None" "cn_saved w = None" using assms(2) ck by (auto simp: at_rest_def)
  show "at_rest i c' (if r = Inr () then completed_steps cp else names)" "ran c' = ran c"
    using ck idle assms(2,3) w r write_checkpoint_Inr [of "jc_lease c" cp "cn_data (jc_world c)" "cn_data w"]
    by (auto simp: at_rest_def recorded_def ran_def)
qed

lemma logged_at_rest:
  assumes "logged h name c = (r, c')" "at_rest i c names" "quiet h i"
  shows "at_rest i c' names" "ran c' = ran c @ [name]" "jc_steps c' = jc_steps c" "jc_lease c' = jc_lease c"
proof -
  let ?w = "(jc_world c)\<lparr>cn_data := (cn_data (jc_world c))\<lparr>sd_app := ran c @ [name]\<rparr>\<rparr>"
  have c': "c' = c\<lparr>jc_world := snd (h name ?w)\<rparr>"
    using assms(1) by (auto simp: logged_def on_world_eq ran_def)
  have "cn_saved ?w = None" "recorded i ?w = Some names"
    using assms(2) by (auto simp: at_rest_def recorded_def)
  with assms(3) show "at_rest i c' names" "ran c' = ran c @ [name]"
    unfolding quiet_def by (simp_all add: c' at_rest_def ran_def)
  show "jc_steps c' = jc_steps c" "jc_lease c' = jc_lease c" by (simp_all add: c')
qed

text \<open>A step that no earlier attempt has recorded: its marker is durable, then its body, then its
  record.\<close>

lemma job_step_new:
  assumes "job_step sha256 (sqlite_store base now) name (logged h name) c = (r, c')"
    and "at_rest i c names" "in_step i c names" "st_position (jc_steps c) = length names" "quiet h i"
  shows "r = Inr () \<and> at_rest i c' (names @ [name]) \<and> in_step i c' (names @ [name]) \<and>
       st_position (jc_steps c') = length (names @ [name]) \<and> ran c' = ran c @ [name] \<or>
     r \<noteq> Inr () \<and> at_rest i c' names \<and> (ran c' = ran c \<or> ran c' = ran c @ [name])"
  using assms(1) unfolding job_step_def
proof (cases rule: ctx_seq_cases)
  case (stop e)
  from enter_keeps [OF stop(1)] stop(2) assms(2) show ?thesis by (simp add: at_rest_def ran_def)
next
  case (go b c1)
  note e = enter_keeps [OF go(1)]
  from go(1) assms(3,4) obtain cp where b: "b = Boundary_Run cp"
    by (auto simp: enter_def in_step_def Let_def split: if_splits)
  have cp: "completed_steps cp = names" using enter_run(1) [OF go(1) [unfolded b]] e assms(3) by (simp add: in_step_def)
  have c1: "at_rest i c1 names" "ran c1 = ran c" "lr_job_id (jc_lease c1) = i" "st_completed (jc_steps c1) = names"
    using e assms(2,3) by (simp_all add: at_rest_def ran_def in_step_def)
  from go(2) [unfolded b boundary.case] show ?thesis
  proof (cases rule: ctx_seq_cases)
    case (stop e)
    with persist_at_rest [OF stop(1) c1(1,3)] c1 show ?thesis by simp
  next
    case (go u c2)
    note p = persist_at_rest [OF go(1) c1(1,3)]
    have c2: "at_rest i c2 names" using p(1) cp by simp
    from go(2) show ?thesis
    proof (cases rule: ctx_seq_cases)
      case (stop e)
      with logged_at_rest [OF stop(1) c2 assms(5)] p c1 show ?thesis by simp
    next
      case (go u c3)
      note l = logged_at_rest [OF go(1) c2 assms(5)]
      let ?c4 = "c3\<lparr>jc_steps := mark_complete name (jc_steps c3)\<rparr>"
      have fin: "persist_checkpoint (sqlite_store base now) (step_snapshot sha256 (jc_steps ?c4)) ?c4 = (r, c')"
        using go(2) by (simp add: complete_step_def Let_def)
      have "at_rest i ?c4 names" "lr_job_id (jc_lease ?c4) = i" "ran ?c4 = ran c @ [name]"
        using l p c1 by (simp_all add: at_rest_def ran_def)
      with persist_at_rest [OF fin] l p c1 show ?thesis
        by (cases "r = Inr ()") (simp_all add: in_step_def mark_complete_def)
    qed
  qed
qed

section \<open>A whole attempt\<close>

lemma run_new:
  assumes "run_steps sha256 (sqlite_store base now) (logged h) ns c = (r, c')"
    and "at_rest i c names" "in_step i c names" "st_position (jc_steps c) = length names" "quiet h i"
  shows "\<exists>m k. m \<le> k \<and> k \<le> Suc m \<and> k \<le> length ns \<and> at_rest i c' (names @ take m ns) \<and>
    ran c' = ran c @ take k ns \<and> (r = Inr () \<longrightarrow> m = length ns)"
  using assms
proof (induction ns arbitrary: c names)
  case Nil
  then show ?case by auto
next
  case (Cons name ns)
  from Cons.prems(1) [unfolded run_steps.simps] show ?case
  proof (cases rule: ctx_seq_cases)
    case (stop e)
    from job_step_new [OF stop(1) Cons.prems(2-5)] stop(2)
    have "at_rest i c' names" "ran c' = ran c @ take 0 (name # ns) \<or> ran c' = ran c @ take 1 (name # ns)" by auto
    then obtain k where "k \<le> 1" "at_rest i c' names" "ran c' = ran c @ take k (name # ns)" by force
    then show ?thesis using stop(2) by (intro exI [of _ 0] exI [of _ k]) auto
  next
    case (go u c1)
    from job_step_new [OF go(1) Cons.prems(2-5)]
    have new: "at_rest i c1 (names @ [name])" "in_step i c1 (names @ [name])"
      "st_position (jc_steps c1) = length (names @ [name])" "ran c1 = ran c @ [name]" by auto
    from Cons.IH [OF go(2) new(1-3) Cons.prems(5)] obtain m k where
      "m \<le> k" "k \<le> Suc m" "k \<le> length ns" "at_rest i c' (names @ take (Suc m) (name # ns))"
      "ran c' = ran c @ take (Suc k) (name # ns)" "r = Inr () \<longrightarrow> m = length ns"
      using new(4) by auto
    then show ?thesis by (intro exI [of _ "Suc m"] exI [of _ "Suc k"]) simp
  qed
qed

lemma job_step_skip:
  assumes "job_step sha256 st name f c = (r, c')" "st_position (jc_steps c) < length (st_completed (jc_steps c))"
    and "st_completed (jc_steps c) ! st_position (jc_steps c) = name"
  shows "jc_world c' = jc_world c \<and> jc_lease c' = jc_lease c \<and> st_completed (jc_steps c') = st_completed (jc_steps c) \<and>
    (r = Inr () \<longrightarrow> st_position (jc_steps c') = Suc (st_position (jc_steps c)))"
  using assms by (auto simp: job_step_def ctx_seq_def enter_def Let_def split: if_splits)

lemma run_skip:
  assumes "run_steps sha256 st body (qs @ ns) c = (r, c')" "st_completed (jc_steps c) = pre"
    and "qs = drop (st_position (jc_steps c)) pre" "st_position (jc_steps c) \<le> length pre"
  shows "r \<noteq> Inr () \<and> jc_world c' = jc_world c \<or>
    (\<exists>c1. run_steps sha256 st body ns c1 = (r, c') \<and> jc_world c1 = jc_world c \<and> jc_lease c1 = jc_lease c \<and>
       st_completed (jc_steps c1) = pre \<and> st_position (jc_steps c1) = length pre)"
  using assms
proof (induction qs arbitrary: c)
  case Nil
  then show ?case by (intro disjI2 exI [of _ c]) simp
next
  case (Cons name qs)
  let ?p = "st_position (jc_steps c)"
  have less: "?p < length pre" using Cons.prems(3) by (rule_tac ccontr) simp
  have p: "?p < length pre" "pre ! ?p = name" "qs = drop (Suc ?p) pre"
    using less trans [OF Cons.prems(3) Cons_nth_drop_Suc [OF less, symmetric]] by simp_all
  from Cons.prems(1) [unfolded append_Cons run_steps.simps] show ?case
  proof (cases rule: ctx_seq_cases)
    case (stop e)
    from job_step_skip [OF stop(1)] Cons.prems(2) p stop(2) show ?thesis by simp
  next
    case (go u c1)
    from job_step_skip [OF go(1)] Cons.prems(2) p
    have s: "jc_world c1 = jc_world c" "jc_lease c1 = jc_lease c" "st_completed (jc_steps c1) = pre"
      "st_position (jc_steps c1) = Suc ?p" by simp_all
    from Cons.IH [OF go(2) s(3)] s p show ?thesis by simp
  qed
qed

text \<open>C11. An attempt of a handler that awaits named steps in order resumes where the durable checkpoint
  stops. With the first m steps recorded, it runs the bodies of the following steps in order, each
  once, never one of the recorded ones; whatever faults of the database, errors of bodies or loss of
  the lease end it, the recorded steps are again a prefix of the program that has not shrunk, at most
  one body has run without being recorded, and an attempt that returns Ok has run and recorded every
  step.\<close>

theorem steps_resume:
  assumes "run_steps sha256 (sqlite_store base now) (logged h) names (from_claim cl w) = (r, c')"
    and "completed_steps (cl_checkpoint cl) = take m names" "m \<le> length names"
    and "recorded (env_id (cl_envelope cl)) w = Some (take m names)" "cn_saved w = None"
    and "quiet h (env_id (cl_envelope cl))"
  shows "\<exists>m' k. m \<le> m' \<and> m' \<le> m + k \<and> m + k \<le> Suc m' \<and> m + k \<le> length names \<and>
    recorded (env_id (cl_envelope cl)) (jc_world c') = Some (take m' names) \<and>
    sd_app (durable (jc_world c')) = sd_app (durable w) @ take k (drop m names) \<and>
    (r = Inr () \<longrightarrow> m' = length names)"
proof -
  let ?i = "env_id (cl_envelope cl)" and ?c = "from_claim cl w"
  have c: "jc_world ?c = w" "lr_job_id (jc_lease ?c) = ?i" "st_completed (jc_steps ?c) = take m names"
      "st_position (jc_steps ?c) = 0"
    using assms(2) by (simp_all add: from_claim_def claim_lease_ref_def Let_def)
  have "run_steps sha256 (sqlite_store base now) (logged h) (take m names @ drop m names) ?c = (r, c')"
    using assms(1) by simp
  from run_skip [OF this c(3)] c(4) have "r \<noteq> Inr () \<and> jc_world c' = jc_world ?c \<or>
    (\<exists>c1. run_steps sha256 (sqlite_store base now) (logged h) (drop m names) c1 = (r, c') \<and>
       jc_world c1 = jc_world ?c \<and> jc_lease c1 = jc_lease ?c \<and> st_completed (jc_steps c1) = take m names \<and>
       st_position (jc_steps c1) = length (take m names))" by simp
  then show ?thesis
  proof (elim disjE exE conjE)
    assume "r \<noteq> Inr ()" "jc_world c' = jc_world ?c"
    with assms(3,4,5) c show ?thesis by (intro exI [of _ m] exI [of _ 0]) simp
  next
    fix c1
    assume c1: "run_steps sha256 (sqlite_store base now) (logged h) (drop m names) c1 = (r, c')"
      "jc_world c1 = jc_world ?c" "jc_lease c1 = jc_lease ?c" "st_completed (jc_steps c1) = take m names"
      "st_position (jc_steps c1) = length (take m names)"
    have "at_rest ?i c1 (take m names)" "in_step ?i c1 (take m names)" "ran c1 = sd_app (durable w)"
      using c c1 assms(4,5) by (simp_all add: at_rest_def in_step_def ran_def)
    with run_new [OF c1(1) _ _ c1(5) assms(6)] obtain n k where
      "n \<le> k" "k \<le> Suc n" "k \<le> length (drop m names)" "at_rest ?i c' (take m names @ take n (drop m names))"
      "ran c' = sd_app (durable w) @ take k (drop m names)" "r = Inr () \<longrightarrow> n = length (drop m names)" by auto
    with assms(3) show ?thesis
      by (intro exI [of _ "m + n"] exI [of _ k]) (auto simp: at_rest_def ran_def take_add)
  qed
qed

text \<open>A job whose first attempt recorded one step of three, resumed while the body of the last step
  fails.\<close>

definition resumed_row :: mem_job where
  "resumed_row = run_row\<lparr>jcheckpoint := checkpoint_default\<lparr>completed_steps := [''pay'']\<rparr>\<rparr>"

definition resumed_conn :: "string list sq_conn" where
  "resumed_conn = job_conn\<lparr>cn_data := (cn_data job_conn)\<lparr>sd_jobs := [''a'' \<mapsto> resumed_row], sd_app := [''pay'']\<rparr>\<rparr>"

definition resumed_claim :: claim where
  "resumed_claim = job_claim\<lparr>cl_checkpoint := jcheckpoint resumed_row\<rparr>"

definition last_fails :: "string \<Rightarrow> string list sq_conn \<Rightarrow> (step_error + unit) \<times> string list sq_conn" where
  "last_fails name w = (if name = ''ship'' then Inl (Step_Message ''no stock'') else Inr (), w)"

definition resumed :: "(step_error + unit) \<times> string list sq_conn job_ctx" where
  "resumed = run_steps (\<lambda>_. []) (sqlite_store bare_store 9) (logged last_fails) [''pay'', ''mail'', ''ship'']
     (from_claim resumed_claim resumed_conn)"

theorem steps_resume_witness:
  "\<exists>m' k. 1 \<le> m' \<and> m' \<le> 1 + k \<and> 1 + k \<le> Suc m' \<and> 1 + k \<le> length [''pay'', ''mail'', ''ship''] \<and>
    recorded ''a'' (jc_world (snd resumed)) = Some (take m' [''pay'', ''mail'', ''ship'']) \<and>
    sd_app (durable (jc_world (snd resumed))) = [''pay''] @ take k (drop 1 [''pay'', ''mail'', ''ship'']) \<and>
    (fst resumed = Inr () \<longrightarrow> m' = length [''pay'', ''mail'', ''ship''])"
proof -
  let ?ns = "[''pay'', ''mail'', ''ship'']"
  have i: "env_id (cl_envelope resumed_claim) = ''a''" "sd_app (durable resumed_conn) = [''pay'']"
    by (simp_all add: resumed_claim_def resumed_conn_def run_conn_simps)
  have run: "run_steps (\<lambda>_. []) (sqlite_store bare_store 9) (logged last_fails) ?ns (from_claim resumed_claim resumed_conn)
      = (fst resumed, snd resumed)" by (simp add: resumed_def)
  have start: "completed_steps (cl_checkpoint resumed_claim) = take 1 ?ns" "1 \<le> length ?ns" "cn_saved resumed_conn = None"
    by (simp_all add: resumed_claim_def resumed_row_def resumed_conn_def run_conn_simps)
  have stored: "recorded (env_id (cl_envelope resumed_claim)) resumed_conn = Some (take 1 ?ns)"
    by (simp add: i(1)) (simp add: recorded_def resumed_conn_def resumed_row_def run_conn_simps)
  have "quiet last_fails (env_id (cl_envelope resumed_claim))" by (simp add: quiet_def last_fails_def)
  from steps_resume [OF run start(1,2) stored start(3) this] show ?thesis unfolding i .
qed

end
