(* ===== verification/Attempt.thy ===== *)
theory Attempt
  imports JobSteps Lifecycle
begin

text \<open>
  One attempt of a job in the worker: dispatch to the registered handler, the deadline, the result
  of the handler and of its tracked futures, the acknowledgement, and what the application is told
  (\<open>process_one\<close> in headgate/src/worker.rs, tracked.rs, death_handler.rs, subscription.rs). A
  handler is a function from the context it receives to how it ended and the context it leaves.
  What is emitted to telemetry, to the event bus and to the death handlers is a list, in order; the
  times in those records are left out.
\<close>

section \<open>Errors of a handler\<close>

datatype control = Control_Snooze duration | Control_Skip | Control_Revoke | Control_RateLimited

datatype codec_error = Malformed string | UnknownVersion u32

text \<open>The error types the runtime tells apart behind a boxed error.\<close>

datatype handler_error =
    Control_Error control
  | Codec_Error codec_error
  | Step_Error step_error

definition store_error_text :: "store_error \<Rightarrow> string" where
  "store_error_text e =
     (case e of
        Duplicate i _ \<Rightarrow> ''duplicate unique key; existing job '' @ i
      | IdConflict i \<Rightarrow> ''id conflict: job '' @ i
      | Quarantined f \<Rightarrow> ''fingerprint '' @ f @ '' is quarantined''
      | Backpressure q limit current incoming \<Rightarrow>
          ''enqueue backpressure: queue '' @ q @ '' has '' @ show_nat (unat current) @
          '' unfinished jobs, limit '' @ show_nat (unat limit) @ '', incoming '' @ show_nat (unat incoming)
      | LeaseRejected i \<Rightarrow> ''lease no longer held for job '' @ i @ ''; stop work immediately''
      | Unavailable m \<Rightarrow> ''store unavailable: '' @ m
      | NotFound m \<Rightarrow> ''not found: '' @ m
      | Invalid m \<Rightarrow> ''invalid request: '' @ m
      | Backend m \<Rightarrow> m)"

definition codec_error_text :: "codec_error \<Rightarrow> string" where
  "codec_error_text e =
     (case e of
        Malformed m \<Rightarrow> ''malformed payload: '' @ m
      | UnknownVersion v \<Rightarrow> ''no upcast path for schema version '' @ show_nat (unat v))"

definition control_text :: "(duration \<Rightarrow> string) \<Rightarrow> control \<Rightarrow> string" where
  "control_text show_duration ctl =
     (case ctl of
        Control_Snooze d \<Rightarrow> ''snooze for '' @ show_duration d
      | Control_Skip \<Rightarrow> ''skip: archive without retrying''
      | Control_Revoke \<Rightarrow> ''revoke: drop entirely''
      | Control_RateLimited \<Rightarrow> ''rate limited upstream'')"

definition step_error_text :: "string \<Rightarrow> step_error \<Rightarrow> string" where
  "step_error_text dash e =
     (case e of
        Lease_Lost \<Rightarrow> ''lease lost; stop work immediately''
      | Stale_Checkpoint expected got \<Rightarrow>
          ''checkpoint records step `'' @ expected @ ''` at this position but the code ran `'' @ got @ ''` '' @ dash @
          '' the step set changed under the checkpoint''
      | Step_Store e \<Rightarrow> store_error_text e
      | Step_Message m \<Rightarrow> m)"

text \<open>The printed form of a duration is a parameter; the dash is the UTF-8 text of U+2014.\<close>

definition em_dash :: string where "em_dash = [CHR 0xE2, CHR 0x80, CHR 0x94]"

definition handler_error_text :: "(duration \<Rightarrow> string) \<Rightarrow> handler_error \<Rightarrow> string" where
  "handler_error_text show_duration e =
     (case e of
        Control_Error ctl \<Rightarrow> control_text show_duration ctl
      | Codec_Error ce \<Rightarrow> codec_error_text ce
      | Step_Error se \<Rightarrow> step_error_text em_dash se)"

section \<open>Tracked futures\<close>

datatype joined = Join_Ok | Join_Err handler_error | Join_Panic "string option" | Join_Cancelled string

datatype tracked_failure = Tracked_Error handler_error | Tracked_Panic "string option"

fun finish_loop :: "tracked_failure option \<Rightarrow> bool \<Rightarrow> joined list \<Rightarrow> tracked_failure option" where
  "finish_loop first aborting [] = first"
| "finish_loop first aborting (j # js) =
     (let failure = (case j of
            Join_Ok \<Rightarrow> None
          | Join_Err e \<Rightarrow> Some (Tracked_Error e)
          | Join_Panic p \<Rightarrow> Some (Tracked_Panic p)
          | Join_Cancelled m \<Rightarrow>
              if aborting then None
              else Some (Tracked_Error (Step_Error (Step_Message (''tracked task was cancelled unexpectedly: '' @ m)))))
      in if first = None \<and> failure \<noteq> None then finish_loop failure True js
         else finish_loop first aborting js)"

definition finish_tracked :: "joined list \<Rightarrow> tracked_failure + unit" where
  "finish_tracked js = (case finish_loop None False js of None \<Rightarrow> Inr () | Some f \<Rightarrow> Inl f)"

section \<open>What the application is told\<close>

datatype job_event_kind = Event_Completed | Event_Failed | Event_Cancelled

record job_event =
  je_kind :: job_event_kind
  je_job_id :: string
  je_job_kind :: string
  je_queue :: string
  je_attempt :: u32
  je_state :: string
  je_error :: "string option"

datatype death_reason = AttemptsExhausted | Skipped | DeadlineExceeded

record death_event =
  de_envelope :: envelope
  de_reason :: death_reason
  de_error :: string

record job_span =
  sp_job_id :: string
  sp_kind :: string
  sp_queue :: string
  sp_attempt :: u32
  sp_outcome :: string
  sp_trace :: "trace_context option"

datatype emission =
    Tel_Completed string
  | Tel_Rejected string string nat
  | Tel_Span job_span
  | Bus_Event job_event
  | Death_Call string death_event

section \<open>The parts of an attempt\<close>

datatype handler_end = Returned "handler_error + unit" | Panicked "string option" | Task_Cancelled

record 'w handled =
  hd_late :: bool
  hd_end :: handler_end
  hd_joins :: "joined list"
  hd_ctx :: "'w job_ctx"

text \<open>The arguments of \<open>process_one\<close>; the death handlers are named, and the bus is there or not.\<close>

record 'w processor =
  pr_store :: "'w store_ops"
  pr_registry :: "string \<rightharpoonup> ('w job_ctx \<Rightarrow> envelope \<Rightarrow> 'w handled)"
  pr_catch_panics :: bool
  pr_is_failure :: "handler_error \<Rightarrow> bool"
  pr_death_handlers :: "string list"
  pr_event_bus :: bool
  pr_wall_ms :: i64
  pr_show_duration :: "duration \<Rightarrow> string"

definition publish_job_event ::
  "'w processor \<Rightarrow> job_event_kind \<Rightarrow> envelope \<Rightarrow> string \<Rightarrow> string option \<Rightarrow> emission list" where
  "publish_job_event pr k e state err =
     (if pr_event_bus pr
      then [Bus_Event \<lparr>je_kind = k, je_job_id = env_id e, je_job_kind = kind e, je_queue = queue e,
              je_attempt = attempt e, je_state = state, je_error = err\<rparr>]
      else [])"

definition emit_death :: "'w processor \<Rightarrow> envelope \<Rightarrow> death_reason \<Rightarrow> string \<Rightarrow> emission list" where
  "emit_death pr e reason err =
     map (\<lambda>h. Death_Call h \<lparr>de_envelope = e, de_reason = reason, de_error = err\<rparr>) (pr_death_handlers pr)"

definition rejected :: "envelope \<Rightarrow> emission list" where
  "rejected e = [Tel_Rejected (queue e) ''rate_class'' 1]"

definition ack_logged ::
  "'w processor \<Rightarrow> lease_ref \<Rightarrow> outcome \<Rightarrow> string option \<Rightarrow> i64 option \<Rightarrow> string list \<Rightarrow> u32 option
    \<Rightarrow> 'w job_ctx \<Rightarrow> bool \<times> 'w job_ctx" where
  "ack_logged pr lease out err delay_ms logs aw c =
     (case on_world (so_ack_attempt (pr_store pr) lease out err delay_ms logs aw) c of
        (Inl _, c1) \<Rightarrow> (False, c1)
      | (Inr _, c1) \<Rightarrow> (True, c1))"

definition ack_success_with_result_logged ::
  "'w processor \<Rightarrow> lease_ref \<Rightarrow> string list \<Rightarrow> u32 option \<Rightarrow> job_result \<Rightarrow> 'w job_ctx \<Rightarrow> bool \<times> 'w job_ctx" where
  "ack_success_with_result_logged pr lease logs aw res c =
     (case as_result_store (pr_store pr) of
        None \<Rightarrow> (False, c)
      | Some ack \<Rightarrow>
          (case on_world (ack lease logs aw res) c of
             (Inl _, c1) \<Rightarrow> (False, c1)
           | (Inr _, c1) \<Rightarrow> (True, c1)))"

type_synonym 'w arm = "string \<times> emission list \<times> 'w job_ctx"

definition exhausted :: "envelope \<Rightarrow> bool" where
  "exhausted e \<longleftrightarrow> saturating_add (attempt e) 1 \<ge> max_attempts e"

definition finish_success :: "'w processor \<Rightarrow> lease_ref \<Rightarrow> envelope \<Rightarrow> string list \<Rightarrow> 'w job_ctx \<Rightarrow> 'w arm" where
  "finish_success pr lease e logs c =
     (case (if jc_finished c then (jc_result c = None, c)
            else case jc_result c of
                   Some res \<Rightarrow> ack_success_with_result_logged pr lease logs (jc_actual_weight c) res c
                 | None \<Rightarrow> ack_logged pr lease Outcome_Success None None logs (jc_actual_weight c) c) of
        (persisted, c1) \<Rightarrow>
          (''success'',
           if persisted
           then Tel_Completed (kind e) #
                publish_job_event pr Event_Completed e (if retention_ms e = 0 then ''deleted'' else ''completed'') None
           else [], c1))"

definition finish_retry ::
  "'w processor \<Rightarrow> lease_ref \<Rightarrow> envelope \<Rightarrow> string list \<Rightarrow> string \<Rightarrow> 'w job_ctx \<Rightarrow> 'w arm" where
  "finish_retry pr lease e logs message c =
     (case ack_logged pr lease Outcome_Retry (Some message) None logs (jc_actual_weight c) c of
        (archived, c1) \<Rightarrow>
          (''retry'',
           (if archived
            then publish_job_event pr Event_Failed e (if exhausted e then ''archived'' else ''retryable'') (Some message)
            else []) @
           (if archived \<and> exhausted e then emit_death pr e AttemptsExhausted message else []), c1))"

definition finish_skip ::
  "'w processor \<Rightarrow> lease_ref \<Rightarrow> envelope \<Rightarrow> string list \<Rightarrow> u32 option \<Rightarrow> death_reason \<Rightarrow> string \<Rightarrow> 'w job_ctx \<Rightarrow> 'w arm" where
  "finish_skip pr lease e logs aw reason message c =
     (case ack_logged pr lease Outcome_Skip (Some message) None logs aw c of
        (archived, c1) \<Rightarrow>
          (''skip'',
           if archived
           then publish_job_event pr Event_Failed e ''archived'' (Some message) @ emit_death pr e reason message
           else [], c1))"

definition finish_control ::
  "'w processor \<Rightarrow> lease_ref \<Rightarrow> envelope \<Rightarrow> string list \<Rightarrow> control \<Rightarrow> 'w job_ctx \<Rightarrow> 'w arm" where
  "finish_control pr lease e logs ctl c =
     (let aw = jc_actual_weight c
      in case ctl of
           Control_Snooze d \<Rightarrow>
             let ms = wrap64 (int (as_millis d))
             in if ms = 0 then finish_retry pr lease e logs ''handler bug: snooze duration rounds to zero'' c
                else (''snooze'', [], snd (ack_logged pr lease Outcome_Snooze None (Some ms) [] aw c))
         | Control_Skip \<Rightarrow>
             finish_skip pr lease e logs aw Skipped (control_text (pr_show_duration pr) Control_Skip) c
         | Control_Revoke \<Rightarrow>
             (case ack_logged pr lease Outcome_Revoke None None [] aw c of
                (cancelled, c1) \<Rightarrow>
                  (''revoke'',
                   if cancelled
                   then publish_job_event pr Event_Cancelled e ''deleted'' (Some ''revoked by handler'') else [], c1))
         | Control_RateLimited \<Rightarrow>
             (''rate_limited'', rejected e, snd (ack_logged pr lease Outcome_RateLimited None None [] aw c)))"

definition finish_undecodable ::
  "'w processor \<Rightarrow> lease_ref \<Rightarrow> envelope \<Rightarrow> string list \<Rightarrow> string \<Rightarrow> 'w job_ctx \<Rightarrow> 'w arm" where
  "finish_undecodable pr lease e logs message c =
     (case ack_logged pr lease Outcome_Undecodable (Some message) None logs (jc_actual_weight c) c of
        (persisted, c1) \<Rightarrow>
          (''undecodable'',
           if persisted then publish_job_event pr Event_Failed e ''undecodable'' (Some message) else [], c1))"

definition finish_failure ::
  "'w processor \<Rightarrow> lease_ref \<Rightarrow> envelope \<Rightarrow> string list \<Rightarrow> handler_error \<Rightarrow> 'w job_ctx \<Rightarrow> 'w arm" where
  "finish_failure pr lease e logs err c =
     (let message = handler_error_text (pr_show_duration pr) err
      in if pr_is_failure pr err then finish_retry pr lease e logs message c
         else (''rate_limited'', rejected e,
               snd (ack_logged pr lease Outcome_RateLimited (Some message) None [] (jc_actual_weight c) c)))"

definition finish_error ::
  "'w processor \<Rightarrow> lease_ref \<Rightarrow> envelope \<Rightarrow> string list \<Rightarrow> handler_error \<Rightarrow> 'w job_ctx \<Rightarrow> 'w arm" where
  "finish_error pr lease e logs err c =
     (let message = handler_error_text (pr_show_duration pr) err
      in case err of
           Control_Error ctl \<Rightarrow> finish_control pr lease e logs ctl c
         | Codec_Error _ \<Rightarrow> finish_undecodable pr lease e logs message c
         | Step_Error Lease_Lost \<Rightarrow> (''lease_lost'', [], c)
         | Step_Error (Stale_Checkpoint _ _) \<Rightarrow> finish_undecodable pr lease e logs message c
         | Step_Error _ \<Rightarrow> finish_failure pr lease e logs err c)"

section \<open>Running the handler\<close>

definition panic_message :: "string option \<Rightarrow> string" where
  "panic_message p = (case p of None \<Rightarrow> ''<non-string panic payload>'' | Some s \<Rightarrow> s)"

definition timed :: "i64 \<Rightarrow> bool \<Rightarrow> handler_end \<Rightarrow> handler_end" where
  "timed limit late r =
     (if limit > 0 \<and> late
      then Returned (Inl (Step_Error (Step_Message (''attempt timed out after '' @ show_int limit @ ''ms''))))
      else r)"

datatype attempt_end = Attempt_Result "handler_error + unit" | Attempt_Panic | Attempt_Aborted

definition attempt_result :: "bool \<Rightarrow> handler_end \<Rightarrow> joined list \<Rightarrow> attempt_end" where
  "attempt_result catch_panics r js =
     (case r of
        Returned (Inl e) \<Rightarrow> Attempt_Result (Inl e)
      | Panicked p \<Rightarrow>
          if catch_panics then Attempt_Result (Inl (Step_Error (Step_Message (''panic: '' @ panic_message p))))
          else Attempt_Panic
      | Task_Cancelled \<Rightarrow> Attempt_Aborted
      | Returned (Inr _) \<Rightarrow>
          (case finish_tracked js of
             Inr _ \<Rightarrow> Attempt_Result (Inr ())
           | Inl (Tracked_Error e) \<Rightarrow> Attempt_Result (Inl e)
           | Inl (Tracked_Panic p) \<Rightarrow>
               if catch_panics
               then Attempt_Result (Inl (Step_Error (Step_Message (''panic in tracked task: '' @ panic_message p))))
               else Attempt_Panic))"

definition finish_attempt ::
  "'w processor \<Rightarrow> lease_ref \<Rightarrow> envelope \<Rightarrow> handler_error + unit \<Rightarrow> 'w job_ctx \<Rightarrow> 'w arm" where
  "finish_attempt pr lease e res c =
     (case take_logs c of (logs, c1) \<Rightarrow>
        (case res of
           Inr _ \<Rightarrow> finish_success pr lease e logs c1
         | Inl err \<Rightarrow> finish_error pr lease e logs err c1))"

definition span :: "envelope \<Rightarrow> lease_ref \<Rightarrow> 'w job_ctx \<Rightarrow> string \<Rightarrow> emission" where
  "span e lease c name =
     Tel_Span \<lparr>sp_job_id = lr_job_id lease, sp_kind = kind e, sp_queue = queue e, sp_attempt = attempt e,
       sp_outcome = name, sp_trace = jc_trace c\<rparr>"

definition with_span :: "envelope \<Rightarrow> lease_ref \<Rightarrow> 'w job_ctx \<Rightarrow> 'w arm \<Rightarrow> string option \<times> emission list \<times> 'w job_ctx" where
  "with_span e lease c0 a = (case a of (name, ems, c) \<Rightarrow> (Some name, ems @ [span e lease c0 name], c))"

text \<open>\<open>None\<close> for the name is the panic that is raised again.\<close>

definition process_one :: "'w processor \<Rightarrow> claim \<Rightarrow> 'w job_ctx \<Rightarrow> string option \<times> emission list \<times> 'w job_ctx" where
  "process_one pr cl c =
     (let lease = claim_lease_ref cl; e = cl_envelope cl
      in case pr_registry pr (kind e) of
           None \<Rightarrow>
             with_span e lease c
               (''snooze'', [], snd (ack_logged pr lease Outcome_Snooze (Some ''no handler registered'') (Some 30000) [] None c))
         | Some handler \<Rightarrow>
             if deadline_ms e > 0 \<and> pr_wall_ms pr > deadline_ms e
             then with_span e lease c (finish_skip pr lease e [] None DeadlineExceeded ''deadline exceeded'' c)
             else let h = handler c e
                  in case attempt_result (pr_catch_panics pr) (timed (timeout_ms e) (hd_late h) (hd_end h)) (hd_joins h) of
                       Attempt_Panic \<Rightarrow> (None, [], hd_ctx h)
                     | Attempt_Aborted \<Rightarrow> (Some ''aborted'', [], hd_ctx h)
                     | Attempt_Result res \<Rightarrow> with_span e lease c (finish_attempt pr lease e res (hd_ctx h)))"

end
