(* ===== verification/AttemptTruth.thy ===== *)
theory AttemptTruth
  imports Attempt
begin

text \<open>
  An attempt against the store of \<open>MemStore\<close>: what the event bus and the death handlers are told is
  what the store holds once the attempt is acknowledged.
\<close>

section \<open>The in-memory store behind a context\<close>

definition mem_store_ops :: "mem_config \<Rightarrow> i64 \<Rightarrow> inner store_ops" where
  "mem_store_ops cfg now =
     \<lparr>so_renew = mem_renew now,
      so_ack_attempt = (\<lambda>lease out err delay_ms logs aw. mem_ack cfg now out err delay_ms logs aw lease),
      so_checkpoint = (\<lambda>lease cp. mem_checkpoint cp lease),
      as_result_store = Some (\<lambda>lease logs aw res. ack_success_with_result now logs aw res lease),
      as_output_store = Some (\<lambda>lease res. write_job_output now res lease),
      as_progress_store = Some (\<lambda>lease update. write_job_progress now update lease),
      as_transactional = None\<rparr>"

text \<open>The context the acknowledgement starts from.\<close>

definition ack_ctx :: "'w processor \<Rightarrow> claim \<Rightarrow> 'w job_ctx \<Rightarrow> 'w job_ctx" where
  "ack_ctx pr cl c =
     (let e = cl_envelope cl
      in case pr_registry pr (kind e) of
           None \<Rightarrow> c
         | Some handler \<Rightarrow>
             if deadline_ms e > 0 \<and> pr_wall_ms pr > deadline_ms e then c else hd_ctx (handler c e))"

text \<open>While the lease is held, the row is the one that was claimed.\<close>

definition claimed_as :: "claim \<Rightarrow> inner \<Rightarrow> bool" where
  "claimed_as cl s \<longleftrightarrow>
     (\<forall>j. jobs s (env_id (cl_envelope cl)) = Some j \<and> holds_lease (claim_lease_ref cl) j \<longrightarrow>
        attempt (env j) = attempt (cl_envelope cl) \<and> max_attempts (env j) = max_attempts (cl_envelope cl) \<and>
        retention_ms (env j) = retention_ms (cl_envelope cl))"

definition state_label :: "state \<Rightarrow> string" where
  "state_label st =
     (case st of
        State_Pending \<Rightarrow> ''pending'' | State_Scheduled \<Rightarrow> ''scheduled'' | State_Available \<Rightarrow> ''available''
      | State_Running \<Rightarrow> ''running'' | State_Retryable \<Rightarrow> ''retryable'' | State_Completed \<Rightarrow> ''completed''
      | State_Archived \<Rightarrow> ''archived'' | State_Cancelled \<Rightarrow> ''cancelled'' | State_Quarantined \<Rightarrow> ''quarantined''
      | State_Undecodable \<Rightarrow> ''undecodable'' | State_Deleted \<Rightarrow> ''deleted'')"

section \<open>What an acknowledgement leaves\<close>

lemma acked_state:
  assumes "store_ok s" "mem_ack cfg now out err delay_ms logs aw lease s = (Inr (), s')"
  shows "\<exists>j. jobs s (lr_job_id lease) = Some j \<and> holds_lease lease j \<and>
    abs_state s' (lr_job_id lease) = transition State_Running out (ctx_of cfg j)"
  using assms(2)
proof (rule mem_ack_Inr)
  let ?i = "lr_job_id lease"
  fix j j1
  assume j: "jobs s ?i = Some j" "holds_lease lease j" "env j1 = env j" and out: "out \<noteq> Outcome_LeaseLost"
    and s': "jobs s' ?i = acked_row cfg now out err delay_ms logs j1"
    and rec: "jobs (reconcile now ?i aw s) ?i = Some j1"
  have ok: "row_ok ?i j1" using store_ok_row [OF reconcile_ok [OF assms(1)] rec] .
  have "abs_state s' ?i = transition State_Running out (ctx_of cfg j1)"
    unfolding acked_row_transition [OF ok out, symmetric, of cfg now err delay_ms logs]
    using s' acked_row_props(9) [of cfg now out err delay_ms logs j1] out
    by (auto simp: abs_state_def split: option.splits)
  with j show ?thesis by (intro exI [of _ j]) (simp add: ctx_of_def)
qed

lemma unacked_state:
  assumes "mem_ack cfg now out err delay_ms logs aw lease s = (Inl e, s')"
  shows "abs_state s' (lr_job_id lease) = abs_state s (lr_job_id lease)"
proof (cases "identity s lease = Inr ()")
  case False
  with mem_ack_stale [OF this] assms show ?thesis by simp
next
  case True
  then show ?thesis
  proof (rule mem_ack_held [where cfg = cfg and now = now and out = out and err = err and
        delay_ms = delay_ms and logs = logs and actual = aw])
    fix j j1
    assume j: "jobs s (lr_job_id lease) = Some j" "holds_lease lease j"
      and j1: "jobs (reconcile now (lr_job_id lease) aw s) (lr_job_id lease) = Some j1" "jstate j1 = ''running''"
      and eq: "mem_ack cfg now out err delay_ms logs aw lease s =
        ack_outcome cfg now (lr_job_id lease) out err delay_ms logs j1 (reconcile now (lr_job_id lease) aw s)"
    have "s' = reconcile now (lr_job_id lease) aw s"
      using assms eq ack_outcome_Inl by metis
    with j j1 show ?thesis by (simp add: abs_state_def holds_lease_def)
  qed
qed

lemma result_acked_state:
  assumes "store_ok s" "ack_success_with_result now logs aw res lease s = (q, s')"
  shows "(\<exists>e. q = Inl e) \<and> s' = s \<or>
    (\<exists>j. q = Inr () \<and> jobs s (lr_job_id lease) = Some j \<and> holds_lease lease j \<and>
       abs_state s' (lr_job_id lease) = transition State_Running Outcome_Success (ctx_of cfg j))"
proof (cases rule: result_ack_cases [of now logs aw res lease s])
  case (1 e)
  with assms(2) show ?thesis by auto
next
  case (2 j j1)
  have "0 \<le> retention_ms (env j)" using store_ok_row [OF assms(1) 2(3)] by (simp add: row_ok_def)
  moreover have "holds_lease lease j" using 2(1,3) by (auto simp: identity_Inr)
  ultimately show ?thesis using 2 assms(2)
    by (intro disjI2 exI [of _ j])
      (auto simp: abs_state_def transition_def ctx_of_def Let_def result_row_props put_row_def del_row_def split: if_splits)
qed

lemma held_running: "identity s lease = Inr () \<Longrightarrow> abs_state s (lr_job_id lease) = State_Running"
  by (auto simp: identity_Inr abs_state_def holds_lease_def)

section \<open>Telling the truth\<close>

text \<open>\<open>told\<close>: everything said about the job agrees with its state; \<open>heard\<close>: a state the application has to
  hear about has been announced.\<close>

definition told :: "envelope \<Rightarrow> state \<Rightarrow> emission list \<Rightarrow> bool" where
  "told e st ems \<longleftrightarrow>
     (\<forall>ev. Bus_Event ev \<in> set ems \<longrightarrow> je_job_id ev = env_id e \<and> je_state ev = state_label st) \<and>
     (\<forall>h d. Death_Call h d \<in> set ems \<longrightarrow> de_envelope d = e \<and> st = State_Archived) \<and>
     (\<forall>sp. Tel_Span sp \<notin> set ems)"

definition heard :: "'w processor \<Rightarrow> state \<Rightarrow> emission list \<Rightarrow> bool" where
  "heard pr st ems \<longleftrightarrow>
     (st = State_Archived \<longrightarrow> (\<forall>h \<in> set (pr_death_handlers pr). \<exists>d. Death_Call h d \<in> set ems)) \<and>
     (pr_event_bus pr \<and> st \<notin> {State_Running, State_Scheduled, State_Available} \<longrightarrow> (\<exists>ev. Bus_Event ev \<in> set ems))"

definition honest :: "inner processor \<Rightarrow> claim \<Rightarrow> inner job_ctx \<Rightarrow> inner arm \<Rightarrow> bool" where
  "honest pr cl c a \<longleftrightarrow>
     (let st = abs_state (jc_world (snd (snd a))) (env_id (cl_envelope cl))
      in told (cl_envelope cl) st (fst (snd a)) \<and>
         (identity (jc_world c) (claim_lease_ref cl) = Inr () \<longrightarrow> heard pr st (fst (snd a))))"

lemma told_Nil [simp]: "told e st []"
  by (simp add: told_def)

lemma told_append [simp]: "told e st (xs @ ys) \<longleftrightarrow> told e st xs \<and> told e st ys"
  by (auto simp: told_def)

lemma told_publish [simp]: "told e st (publish_job_event pr k e state err) \<longleftrightarrow> pr_event_bus pr \<longrightarrow> state = state_label st"
  by (auto simp: told_def publish_job_event_def)

lemma told_death [simp]: "told e st (emit_death pr e reason err) \<longleftrightarrow> pr_death_handlers pr \<noteq> [] \<longrightarrow> st = State_Archived"
  by (cases "pr_death_handlers pr") (auto simp: told_def emit_death_def)

lemma told_rejected [simp]: "told e st (rejected e)"
  by (simp add: told_def rejected_def)

lemma told_completed [simp]: "told e st (Tel_Completed k # ems) \<longleftrightarrow> told e st ems"
  by (auto simp: told_def)

lemma heard_quiet: "st \<in> {State_Running, State_Scheduled, State_Available} \<Longrightarrow> heard pr st ems"
  by (auto simp: heard_def)

lemma heard_publish: "st \<noteq> State_Archived \<Longrightarrow> heard pr st (Tel_Completed x # publish_job_event pr k e state err)"
  "st \<noteq> State_Archived \<Longrightarrow> heard pr st (publish_job_event pr k e state err)"
  by (auto simp: heard_def publish_job_event_def)

lemma heard_death: "heard pr st (publish_job_event pr k e state err @ emit_death pr e reason m)"
  by (auto simp: heard_def publish_job_event_def emit_death_def)

text \<open>The state an accepted acknowledgement leaves, in terms of the claimed envelope.\<close>

definition next_state :: "outcome \<Rightarrow> envelope \<Rightarrow> state" where
  "next_state out e =
     (case out of
        Outcome_Success \<Rightarrow> if retention_ms e = 0 then State_Deleted else State_Completed
      | Outcome_Retry \<Rightarrow> if exhausted e then State_Archived else State_Retryable
      | Outcome_Skip \<Rightarrow> State_Archived
      | Outcome_Revoke \<Rightarrow> State_Deleted
      | Outcome_Snooze \<Rightarrow> State_Scheduled
      | Outcome_LeaseLost \<Rightarrow> State_Running
      | Outcome_Undecodable \<Rightarrow> State_Undecodable
      | Outcome_RateLimited \<Rightarrow> State_Available)"

definition attempts_counted :: "envelope \<Rightarrow> bool" where
  "attempts_counted e \<longleftrightarrow> unat (attempt e) + 1 < 2 ^ 32"

lemma next_state_transition:
  assumes "row_ok i j" "attempt (env j) = attempt e" "max_attempts (env j) = max_attempts e"
    "retention_ms (env j) = retention_ms e" "attempts_counted e" "out \<noteq> Outcome_LeaseLost"
  shows "transition State_Running out (ctx_of cfg j) = next_state out e"
proof -
  have "unat (saturating_add (attempt e) 1) = unat (attempt e + 1)"
    using assms(5) by (simp add: attempts_counted_def unat_saturating_add unat_word_ariths)
  then have "saturating_add (attempt e) 1 = attempt e + 1" by (rule unsigned_word_eqI)
  with assms show ?thesis
    by (cases out) (auto simp: transition_def ctx_of_def next_state_def exhausted_def row_ok_def not_less)
qed

lemma ack_logged_mem:
  assumes "pr_store pr = mem_store_ops cfg now" "store_ok (jc_world c)" "claimed_as cl (jc_world c)"
    "attempts_counted (cl_envelope cl)" "out \<noteq> Outcome_LeaseLost"
    "ack_logged pr (claim_lease_ref cl) out err delay_ms logs aw c = (p, c')"
  shows "abs_state (jc_world c') (env_id (cl_envelope cl)) =
    (if p then next_state out (cl_envelope cl) else abs_state (jc_world c) (env_id (cl_envelope cl)))"
proof -
  let ?i = "lr_job_id (claim_lease_ref cl)"
  have i: "?i = env_id (cl_envelope cl)" by (simp add: claim_lease_ref_def)
  obtain q s' where q: "mem_ack cfg now out err delay_ms logs aw (claim_lease_ref cl) (jc_world c) = (q, s')"
    by fastforce
  then have c': "p = (q = Inr ())" "jc_world c' = s'"
    using assms(6) by (auto simp: ack_logged_def on_world_eq assms(1) mem_store_ops_def split: sum.splits)
  show ?thesis
  proof (cases q)
    case (Inl e)
    with q c' unacked_state [of cfg now out err delay_ms logs aw "claim_lease_ref cl" "jc_world c" e s'] i
    show ?thesis by simp
  next
    case (Inr u)
    with q acked_state [OF assms(2), of cfg now out err delay_ms logs aw "claim_lease_ref cl" s'] obtain j where
      j: "jobs (jc_world c) ?i = Some j" "holds_lease (claim_lease_ref cl) j"
        "abs_state s' ?i = transition State_Running out (ctx_of cfg j)" by auto
    have "row_ok ?i j" by (rule store_ok_row [OF assms(2) j(1)])
    from next_state_transition [OF this, of "cl_envelope cl" out cfg] assms(3,4,5) j i
    show ?thesis using c' Inr by (simp add: claimed_as_def)
  qed
qed

section \<open>Every way an attempt ends\<close>

definition ready :: "inner processor \<Rightarrow> mem_config \<Rightarrow> i64 \<Rightarrow> claim \<Rightarrow> inner job_ctx \<Rightarrow> bool" where
  "ready pr cfg now cl c \<longleftrightarrow> pr_store pr = mem_store_ops cfg now \<and> store_ok (jc_world c) \<and>
     claimed_as cl (jc_world c) \<and> attempts_counted (cl_envelope cl)"

lemma honestI:
  assumes "ready pr cfg now cl c" "out \<noteq> Outcome_LeaseLost"
    "ack_logged pr (claim_lease_ref cl) out err delay_ms logs aw c = (p, c')"
    "told (cl_envelope cl) (next_state out (cl_envelope cl)) yes" "heard pr (next_state out (cl_envelope cl)) yes"
    "\<And>st. told (cl_envelope cl) st no"
  shows "honest pr cl c (name, if p then yes else no, c')"
proof -
  have st: "abs_state (jc_world c') (env_id (cl_envelope cl)) =
    (if p then next_state out (cl_envelope cl) else abs_state (jc_world c) (env_id (cl_envelope cl)))"
    using ack_logged_mem [OF _ _ _ _ assms(2,3)] assms(1) by (simp add: ready_def)
  have "abs_state (jc_world c) (env_id (cl_envelope cl)) = State_Running"
    if "identity (jc_world c) (claim_lease_ref cl) = Inr ()"
    using held_running [OF that] by (simp add: claim_lease_ref_def)
  with assms(4-6) st heard_quiet [of State_Running pr no] show ?thesis by (simp add: honest_def Let_def)
qed

lemma honest_quiet:
  assumes "ready pr cfg now cl c" "out \<in> {Outcome_Snooze, Outcome_RateLimited}" "\<And>st. told (cl_envelope cl) st ems"
  shows "honest pr cl c (name, ems, snd (ack_logged pr (claim_lease_ref cl) out err delay_ms logs aw c))"
proof -
  obtain p c' where a: "ack_logged pr (claim_lease_ref cl) out err delay_ms logs aw c = (p, c')" by fastforce
  have "heard pr (next_state out (cl_envelope cl)) ems"
    using assms(2) by (intro heard_quiet) (auto simp: next_state_def)
  moreover have "out \<noteq> Outcome_LeaseLost" using assms(2) by auto
  ultimately show ?thesis using honestI [OF assms(1) _ a assms(3) _ assms(3), of name] by (simp add: a)
qed

lemma finish_retry_honest:
  assumes "ready pr cfg now cl c"
  shows "honest pr cl c (finish_retry pr (claim_lease_ref cl) (cl_envelope cl) logs message c)"
proof -
  let ?e = "cl_envelope cl"
  obtain p c' where a: "ack_logged pr (claim_lease_ref cl) Outcome_Retry (Some message) None logs (jc_actual_weight c) c = (p, c')"
    by fastforce
  let ?yes = "publish_job_event pr Event_Failed ?e (if exhausted ?e then ''archived'' else ''retryable'') (Some message) @
    (if exhausted ?e then emit_death pr ?e AttemptsExhausted message else [])"
  have "heard pr (next_state Outcome_Retry ?e) ?yes"
    by (simp add: next_state_def heard_death heard_publish)
  from honestI [OF assms _ a, of ?yes "[]" "''retry''"] this
  show ?thesis by (cases p) (simp_all add: finish_retry_def a next_state_def state_label_def)
qed

lemma finish_skip_honest:
  assumes "ready pr cfg now cl c"
  shows "honest pr cl c (finish_skip pr (claim_lease_ref cl) (cl_envelope cl) logs aw reason message c)"
proof -
  obtain p c' where a: "ack_logged pr (claim_lease_ref cl) Outcome_Skip (Some message) None logs aw c = (p, c')"
    by fastforce
  from honestI [OF assms _ a, of "publish_job_event pr Event_Failed (cl_envelope cl) ''archived'' (Some message) @
      emit_death pr (cl_envelope cl) reason message" "[]" "''skip''"]
  show ?thesis by (simp add: finish_skip_def a next_state_def state_label_def heard_death)
qed

lemma finish_undecodable_honest:
  assumes "ready pr cfg now cl c"
  shows "honest pr cl c (finish_undecodable pr (claim_lease_ref cl) (cl_envelope cl) logs message c)"
proof -
  obtain p c' where
    a: "ack_logged pr (claim_lease_ref cl) Outcome_Undecodable (Some message) None logs (jc_actual_weight c) c = (p, c')"
    by fastforce
  from honestI [OF assms _ a, of "publish_job_event pr Event_Failed (cl_envelope cl) ''undecodable'' (Some message)"
      "[]" "''undecodable''"]
  show ?thesis by (simp add: finish_undecodable_def a next_state_def state_label_def heard_publish)
qed

lemma finish_control_honest:
  assumes "ready pr cfg now cl c"
  shows "honest pr cl c (finish_control pr (claim_lease_ref cl) (cl_envelope cl) logs ctl c)"
proof (cases ctl)
  case (Control_Snooze d)
  then show ?thesis
    using finish_retry_honest [OF assms] honest_quiet [OF assms, of Outcome_Snooze "[]"]
    by (simp add: finish_control_def Let_def)
next
  case Control_Skip
  then show ?thesis using finish_skip_honest [OF assms] by (simp add: finish_control_def Let_def)
next
  case Control_Revoke
  obtain p c' where a: "ack_logged pr (claim_lease_ref cl) Outcome_Revoke None None [] (jc_actual_weight c) c = (p, c')"
    by fastforce
  from honestI [OF assms _ a, of "publish_job_event pr Event_Cancelled (cl_envelope cl) ''deleted'' (Some ''revoked by handler'')"
      "[]" "''revoke''"]
  show ?thesis
    by (simp add: Control_Revoke finish_control_def a next_state_def state_label_def heard_publish Let_def)
next
  case Control_RateLimited
  then show ?thesis
    using honest_quiet [OF assms, of Outcome_RateLimited "rejected (cl_envelope cl)"] by (simp add: finish_control_def Let_def)
qed

lemma finish_error_honest:
  assumes "ready pr cfg now cl c"
  shows "honest pr cl c (finish_error pr (claim_lease_ref cl) (cl_envelope cl) logs err c)"
proof -
  have "honest pr cl c (''lease_lost'', [], c)"
    using held_running [of "jc_world c" "claim_lease_ref cl"]
    by (auto simp: honest_def Let_def claim_lease_ref_def intro: heard_quiet)
  moreover have "honest pr cl c (finish_failure pr (claim_lease_ref cl) (cl_envelope cl) logs err c)"
    using finish_retry_honest [OF assms] honest_quiet [OF assms, of Outcome_RateLimited "rejected (cl_envelope cl)"]
    by (simp add: finish_failure_def Let_def)
  ultimately show ?thesis
    using finish_control_honest [OF assms] finish_undecodable_honest [OF assms]
    by (auto simp: finish_error_def Let_def split: handler_error.split step_error.split)
qed

lemma finish_success_honest:
  assumes "ready pr cfg now cl c" "\<not> jc_finished c"
  shows "honest pr cl c (finish_success pr (claim_lease_ref cl) (cl_envelope cl) logs c)"
proof -
  let ?e = "cl_envelope cl" and ?l = "claim_lease_ref cl"
  let ?yes = "Tel_Completed (kind ?e) #
    publish_job_event pr Event_Completed ?e (if retention_ms ?e = 0 then ''deleted'' else ''completed'') None"
  have yes: "told ?e (next_state Outcome_Success ?e) ?yes" "heard pr (next_state Outcome_Success ?e) ?yes"
    by (simp_all add: next_state_def state_label_def heard_publish)
  show ?thesis
  proof (cases "jc_result c")
    case None
    obtain p c' where a: "ack_logged pr ?l Outcome_Success None None logs (jc_actual_weight c) c = (p, c')" by fastforce
    from honestI [OF assms(1) _ a yes, of "[]" "''success''"] None assms(2) show ?thesis
      by (simp add: finish_success_def a)
  next
    case (Some res)
    obtain q s' where q: "ack_success_with_result now logs (jc_actual_weight c) res ?l (jc_world c) = (q, s')" by fastforce
    have fin: "finish_success pr ?l ?e logs c = (''success'', if q = Inr () then ?yes else [], c\<lparr>jc_world := s'\<rparr>)"
      using assms q Some by (auto simp: finish_success_def ack_success_with_result_logged_def ready_def mem_store_ops_def
          on_world_eq split: sum.split)
    have i: "lr_job_id ?l = env_id ?e" by (simp add: claim_lease_ref_def)
    have "store_ok (jc_world c)" using assms(1) by (simp add: ready_def)
    from result_acked_state [OF this q, of cfg] show ?thesis
    proof (elim disjE exE conjE)
      fix x assume "q = Inl x" "s' = jc_world c"
      with held_running [of "jc_world c" ?l] i show ?thesis by (auto simp: fin honest_def Let_def intro: heard_quiet)
    next
      fix j
      assume j: "q = Inr ()" "jobs (jc_world c) (lr_job_id ?l) = Some j" "holds_lease ?l j"
        "abs_state s' (lr_job_id ?l) = transition State_Running Outcome_Success (ctx_of cfg j)"
      have "row_ok (lr_job_id ?l) j" using store_ok_row [OF _ j(2)] assms(1) by (simp add: ready_def)
      from next_state_transition [OF this, of ?e Outcome_Success cfg] j i assms(1)
      have "abs_state s' (env_id ?e) = next_state Outcome_Success ?e" by (simp add: ready_def claimed_as_def)
      with yes j show ?thesis by (simp add: fin honest_def Let_def)
    qed
  qed
qed

lemma take_logs_ctx:
  assumes "take_logs c = (logs, c1)"
  shows "jc_world c1 = jc_world c" "jc_finished c1 = jc_finished c"
  using assms by (auto simp: take_logs_def log_take_def)

lemma finish_attempt_honest:
  assumes "ready pr cfg now cl c" "\<not> jc_finished c"
  shows "honest pr cl c (finish_attempt pr (claim_lease_ref cl) (cl_envelope cl) res c)"
proof -
  obtain logs c1 where t: "take_logs c = (logs, c1)" by fastforce
  have "ready pr cfg now cl c1" "\<not> jc_finished c1" using assms take_logs_ctx [OF t] by (simp_all add: ready_def)
  then have "honest pr cl c1 (finish_attempt pr (claim_lease_ref cl) (cl_envelope cl) res c)"
    by (cases res) (simp_all add: finish_attempt_def t finish_success_honest finish_error_honest)
  then show ?thesis using take_logs_ctx [OF t] by (simp add: honest_def)
qed

lemma with_span_told:
  assumes "with_span e lease c0 a = (r, ems, c')"
  shows "\<exists>sp. ems = fst (snd a) @ [Tel_Span sp] \<and> r = Some (sp_outcome sp) \<and> c' = snd (snd a)"
  using assms by (auto simp: with_span_def span_def split: prod.splits)

lemma attempt_honest:
  assumes "process_one pr cl c = (Some name, ems, c')" "ems \<noteq> []"
    and "pr_store pr = mem_store_ops cfg now" "store_ok (jc_world (ack_ctx pr cl c))"
    and "claimed_as cl (jc_world (ack_ctx pr cl c))" "\<not> jc_finished (ack_ctx pr cl c)"
    and "attempts_counted (cl_envelope cl)"
  defines "st \<equiv> abs_state (jc_world c') (env_id (cl_envelope cl))"
  shows "\<exists>said sp. ems = said @ [Tel_Span sp] \<and> sp_outcome sp = name \<and> told (cl_envelope cl) st said \<and>
    (identity (jc_world (ack_ctx pr cl c)) (claim_lease_ref cl) = Inr () \<longrightarrow> heard pr st said)"
proof -
  let ?c = "ack_ctx pr cl c" and ?e = "cl_envelope cl" and ?l = "claim_lease_ref cl"
  have ready: "ready pr cfg now cl ?c" using assms by (simp add: ready_def)
  have "\<exists>a. with_span ?e ?l c a = (Some name, ems, c') \<and> honest pr cl ?c a"
  proof (cases "pr_registry pr (kind ?e)")
    case None
    then have "with_span ?e ?l c (''snooze'', [], snd (ack_logged pr ?l Outcome_Snooze
        (Some ''no handler registered'') (Some 30000) [] None ?c)) = (Some name, ems, c')"
      using assms(1) by (simp add: process_one_def ack_ctx_def Let_def)
    moreover have "honest pr cl ?c (''snooze'', [], snd (ack_logged pr ?l Outcome_Snooze
        (Some ''no handler registered'') (Some 30000) [] None ?c))"
      by (rule honest_quiet [OF ready]) simp_all
    ultimately show ?thesis by blast
  next
    case (Some handler)
    show ?thesis
    proof (cases "deadline_ms ?e > 0 \<and> pr_wall_ms pr > deadline_ms ?e")
      case True
      with assms(1) Some have
        "with_span ?e ?l c (finish_skip pr ?l ?e [] None DeadlineExceeded ''deadline exceeded'' ?c) = (Some name, ems, c')"
        by (simp add: process_one_def ack_ctx_def Let_def)
      with finish_skip_honest [OF ready] show ?thesis by blast
    next
      case False
      with assms(1,2) Some obtain res where "with_span ?e ?l c (finish_attempt pr ?l ?e res ?c) = (Some name, ems, c')"
        by (auto simp: process_one_def ack_ctx_def Let_def split: attempt_end.splits)
      with finish_attempt_honest [OF ready assms(6)] show ?thesis by blast
    qed
  qed
  then obtain a where "with_span ?e ?l c a = (Some name, ems, c')" "honest pr cl ?c a" by blast
  with with_span_told [of ?e ?l c a "Some name" ems c'] show ?thesis by (auto simp: honest_def Let_def st_def)
qed

text \<open>A panic that is raised again and a task that was aborted end the attempt before it is settled.\<close>

lemma unsettled_attempt:
  assumes "process_one pr cl c = (res, ems, c')" "res = None \<or> ems = []"
  shows "ems = [] \<and> c' = ack_ctx pr cl c \<and> (res = None \<and> \<not> pr_catch_panics pr \<or> res = Some ''aborted'')"
proof -
  let ?e = "cl_envelope cl" and ?l = "claim_lease_ref cl"
  have span: "with_span ?e ?l c a \<noteq> (res, ems, c')" for a
    using assms(2) by (auto simp: with_span_def split: prod.splits)
  from assms(1) span obtain handler where h: "pr_registry pr (kind ?e) = Some handler"
    "\<not> (deadline_ms ?e > 0 \<and> pr_wall_ms pr > deadline_ms ?e)"
    by (auto simp: process_one_def Let_def split: option.splits if_splits)
  have loud: "\<not> cp" if "attempt_result cp r js = Attempt_Panic" for cp r js
    using that by (auto simp: attempt_result_def split: handler_end.splits sum.splits tracked_failure.splits if_splits)
  from assms(1) h span show ?thesis
    by (auto simp: process_one_def ack_ctx_def Let_def dest: loud split: attempt_end.splits)
qed

text \<open>C12. What an attempt tells the application is true of the store. Whatever the handler returned,
  panicked, timed out or left in tracked futures, the attempt ends in one of two ways. Either it is
  settled: every event published for the job carries the state the job is in after the acknowledgement
  (deleted when the row is gone), a death handler is called only for a job that is archived; when the
  attempt still held its lease, an archived job is announced to every death handler and a job that
  completed, failed, was archived or dropped is announced on the bus; and the attempt's span is emitted
  exactly once, last, with the name of the outcome. Or the handler's panic is raised again, which takes
  a worker that does not catch panics, or its task was aborted: then nothing is emitted and the attempt
  leaves the job to the reclaimer, as the handler left it. The handler has not completed or released the
  job itself, the job's row, if the lease is still held, has the attempt count, attempt limit and
  retention it was claimed with, and its attempt count is below the 32-bit maximum.\<close>

theorem attempt_tells_the_truth:
  assumes "process_one pr cl c = (res, ems, c')"
    and "pr_store pr = mem_store_ops cfg now" "store_ok (jc_world (ack_ctx pr cl c))"
    and "claimed_as cl (jc_world (ack_ctx pr cl c))" "\<not> jc_finished (ack_ctx pr cl c)"
    and "attempts_counted (cl_envelope cl)"
  defines "st \<equiv> abs_state (jc_world c') (env_id (cl_envelope cl))"
  shows "(\<exists>name said sp. res = Some name \<and> ems = said @ [Tel_Span sp] \<and> sp_outcome sp = name \<and>
      told (cl_envelope cl) st said \<and>
      (identity (jc_world (ack_ctx pr cl c)) (claim_lease_ref cl) = Inr () \<longrightarrow> heard pr st said)) \<or>
    ems = [] \<and> c' = ack_ctx pr cl c \<and> (res = None \<and> \<not> pr_catch_panics pr \<or> res = Some ''aborted'')"
proof (cases "res = None \<or> ems = []")
  case True
  with unsettled_attempt [OF assms(1)] show ?thesis by blast
next
  case False
  then obtain name where "res = Some name" "ems \<noteq> []" by auto
  with attempt_honest [of pr cl c name ems c', OF _ _ assms(2-6)] assms(1) show ?thesis unfolding st_def by blast
qed

section \<open>A run\<close>

definition run_claim :: claim where
  "run_claim = \<lparr>cl_envelope = env run_row, cl_lease_id = ''L'', cl_fence = 1, cl_expires_at_ms = 50,
     cl_checkpoint = checkpoint_default\<rparr>"

definition failing_handler :: "'w job_ctx \<Rightarrow> envelope \<Rightarrow> 'w handled" where
  "failing_handler c e =
     \<lparr>hd_late = False, hd_end = Returned (Inl (Control_Error Control_Skip)), hd_joins = [], hd_ctx = c\<rparr>"

definition run_processor :: "(inner job_ctx \<Rightarrow> envelope \<Rightarrow> inner handled) \<Rightarrow> inner processor" where
  "run_processor handler =
     \<lparr>pr_store = mem_store_ops mem_config_new 9, pr_registry = [''mail'' \<mapsto> handler], pr_catch_panics = True,
      pr_is_failure = (\<lambda>_. True), pr_death_handlers = [''pager''], pr_event_bus = True, pr_wall_ms = 9,
      pr_show_duration = (\<lambda>_. [])\<rparr>"

definition skipped_run :: "string option \<times> emission list \<times> inner job_ctx" where
  "skipped_run = process_one (run_processor failing_handler) run_claim (from_claim run_claim run_store)"

lemma run_claim_sel:
  "jc_world (from_claim cl w) = w" "\<not> jc_finished (from_claim cl w)" "cl_envelope run_claim = env run_row"
  "kind (env run_row) = ''mail''" "deadline_ms (env run_row) = 0" "env_id (env run_row) = ''a''"
  "claim_lease_ref run_claim = run_lease" "attempt (env run_row) = 0" "jc_finished (from_claim cl w) = False"
  by (simp_all add: from_claim_def Let_def run_claim_def run_row_def envelope_default_def claim_lease_ref_def run_lease_def)

lemma skipped_name: "fst skipped_run = Some ''skip''"
  by (simp add: skipped_run_def process_one_def run_processor_def run_claim_sel failing_handler_def timed_def
      attempt_result_def finish_attempt_def finish_error_def finish_control_def finish_skip_def with_span_def Let_def
      split: prod.split)

theorem attempt_tells_the_truth_witness:
  "\<exists>said sp. fst (snd skipped_run) = said @ [Tel_Span sp] \<and> sp_outcome sp = ''skip'' \<and>
     told (env run_row) (abs_state (jc_world (snd (snd skipped_run))) ''a'') said \<and>
     heard (run_processor failing_handler) (abs_state (jc_world (snd (snd skipped_run))) ''a'') said"
proof -
  let ?pr = "run_processor failing_handler" and ?c = "from_claim run_claim run_store"
  have ctx: "ack_ctx ?pr run_claim ?c = ?c"
    by (simp add: ack_ctx_def run_processor_def run_claim_sel failing_handler_def Let_def)
  have run: "process_one ?pr run_claim ?c = (Some ''skip'', fst (snd skipped_run), snd (snd skipped_run))"
    using skipped_name by (simp add: skipped_run_def prod_eq_iff)
  have "claimed_as run_claim run_store" by (simp add: claimed_as_def run_claim_sel run_store_sel)
  moreover have "identity run_store run_lease = Inr ()" by (simp add: identity_Inr run_store_sel)
  moreover have "attempts_counted (env run_row)" by (simp add: attempts_counted_def run_claim_sel)
  moreover have "pr_store ?pr = mem_store_ops mem_config_new 9" by (simp add: run_processor_def)
  ultimately show ?thesis
    using attempt_tells_the_truth [OF run, of mem_config_new 9] run_store_ok
    by (simp add: ctx run_claim_sel)
qed

section \<open>A released job is reported as completed\<close>

text \<open>\<open>release\<close> gives the job back to the queue and marks the context as finished, the mark that \<open>once\<close>
  leaves after it has completed the job. The runtime cannot tell the two apart: when the handler
  returns Ok after a release, it announces the job as completed and deleted, while the store holds it
  as available.\<close>

definition releasing_handler :: "mem_config \<Rightarrow> i64 \<Rightarrow> inner job_ctx \<Rightarrow> envelope \<Rightarrow> inner handled" where
  "releasing_handler cfg now c e =
     \<lparr>hd_late = False, hd_end = Returned (Inr ()), hd_joins = [],
      hd_ctx = snd (release_job (mem_store_ops cfg now) c)\<rparr>"

theorem released_job_reported_completed:
  "\<exists>ems c' ev. process_one (run_processor (releasing_handler mem_config_new 9)) run_claim (from_claim run_claim run_store)
       = (Some ''success'', ems, c') \<and> Bus_Event ev \<in> set ems \<and> je_kind ev = Event_Completed \<and>
     je_state ev = ''deleted'' \<and> abs_state (jc_world c') ''a'' = State_Available"
proof -
  let ?c = "from_claim run_claim run_store"
  obtain s' where ack: "mem_ack mem_config_new 9 Outcome_RateLimited (Some ''released by handler'') None [] None run_lease run_store
      = (Inr (), s')" and st: "abs_state s' ''a'' = State_Available"
    by (simp add: mem_ack_def identity_def run_store_sel reconcile_def ack_outcome_def abs_state_def put_row_def drop_lease_def)
  have lease: "jc_lease ?c = run_lease" "jc_actual_weight ?c = None" "jc_result ?c = None"
    by (simp_all add: from_claim_def Let_def run_claim_sel)
  have rel: "release_job (mem_store_ops mem_config_new 9) ?c = (Inr (), ?c\<lparr>jc_world := s', jc_finished := True\<rparr>)"
    using ack by (simp add: release_job_def on_world_eq mem_store_ops_def lease run_claim_sel)
  show ?thesis
    by (simp add: process_one_def run_processor_def run_claim_sel releasing_handler_def rel timed_def attempt_result_def
        finish_tracked_def finish_attempt_def take_logs_def log_take_def finish_success_def lease with_span_def
        publish_job_event_def span_def run_store_sel st Let_def)
qed

end
