(* ===== verification/Perform.thy ===== *)
theory Perform
  imports AttemptTruth MemSteps
begin

text \<open>
  One job from the queue to its acknowledgement (\<open>perform_job\<close> in headgate/src/testing.rs, which runs the
  worker's own path): promotion, admission of one job, the context, the attempt. The theorem here puts
  the gate, the handler's attempt and the store together.
\<close>

record 'w gate_ops =
  ga_promote :: "i64 \<Rightarrow> 'w \<Rightarrow> nat result \<times> 'w"
  ga_admit :: "admit_request \<Rightarrow> 'w \<Rightarrow> admission_unit list result \<times> 'w"

text \<open>A failing admission panics; a handler's panic that is raised again leaves no outcome.\<close>

datatype performed = Admit_Failed | Nothing_Admitted | Performed string string "string option"

definition perform_request :: "string list \<Rightarrow> i64 \<Rightarrow> string \<Rightarrow> admit_request" where
  "perform_request queues quantum pid =
     \<lparr>req_worker = ''test-perform'', req_lease_id = ''test-perform:'' @ pid, req_queues = queues, req_capacity = 1,
      req_lease = 30000000000, req_quantum = quantum\<rparr>"

definition perform_job ::
  "'w gate_ops \<Rightarrow> 'w processor \<Rightarrow> string list \<Rightarrow> i64 \<Rightarrow> string \<Rightarrow> 'w \<Rightarrow> performed \<times> emission list \<times> 'w" where
  "perform_job ops pr queues quantum pid w =
     (case ga_admit ops (perform_request queues quantum pid) (snd (ga_promote ops 10000 w)) of
        (Inl _, w2) \<Rightarrow> (Admit_Failed, [], w2)
      | (Inr units, w2) \<Rightarrow>
          (case concat units of
             [] \<Rightarrow> (Nothing_Admitted, [], w2)
           | cl # _ \<Rightarrow>
               (case process_one pr cl (from_claim cl w2) of
                  (name, ems, c) \<Rightarrow> (Performed (env_id (cl_envelope cl)) (kind (cl_envelope cl)) name, ems, jc_world c))))"

definition mem_gate_ops :: "i64 \<Rightarrow> string list \<Rightarrow> string list \<Rightarrow> inner gate_ops" where
  "mem_gate_ops now ord ord' = \<lparr>ga_promote = promote_due now ord, ga_admit = mem_admit now ord'\<rparr>"

section \<open>What the gate hands to an attempt\<close>

text \<open>A claim is the row as it is in the store after the admission.\<close>

lemma admitted_claim:
  assumes "mem_admit now ord req s = (Inr units, s')" "distinct ord" "cl \<in> set (concat units)" "store_ok s"
  obtains j where "jobs s (env_id (cl_envelope cl)) = Some j" "eligible now req s (env_id (cl_envelope cl))"
    "cl_envelope cl = env j" "claimed_as cl s'" "identity s' (claim_lease_ref cl) = Inr ()"
proof -
  from mem_admit_drawn [OF assms(1,2)] obtain "is" st where d: "drawn now req s is st" "units = ad_units st"
    "s' = spend (ad_taken st) (ad_inner st)" by blast
  then have units: "units = map (claim_for now req s) is" and el: "\<forall>i \<in> set is. eligible now req s i"
    and jobs: "jobs (ad_inner st) = (\<lambda>i. if i \<in> set is then map_option (claimed_row now req s) (jobs s i) else jobs s i)"
    unfolding drawn_def by blast+
  from assms(3) units obtain i where i: "i \<in> set is" "cl \<in> set (claim_for now req s i)" by auto
  then obtain j where j: "jobs s i = Some j" "cl = claim_of req (claimed_row now req s j)"
    by (cases "jobs s i") (simp_all add: claim_for_def)
  have id: "env_id (env j) = i" using store_ok_row [OF assms(4) j(1)] by (simp add: row_ok_def)
  have row: "jobs s' i = Some (claimed_row now req s j)" using d(3) jobs i(1) j(1) by simp
  have env: "cl_envelope cl = env j" by (simp add: j(2) claim_of_def)
  have lease: "holds_lease (claim_lease_ref cl) (claimed_row now req s j)"
    by (simp add: holds_lease_def claim_lease_ref_def j(2) claim_of_def claimed_row_def)
  show thesis
  proof (rule that [of j])
    show "jobs s (env_id (cl_envelope cl)) = Some j" "eligible now req s (env_id (cl_envelope cl))" "cl_envelope cl = env j"
      using j(1) i(1) el by (simp_all add: env id)
    show "claimed_as cl s'" using row by (simp add: claimed_as_def env id)
    show "identity s' (claim_lease_ref cl) = Inr ()"
      using row lease by (simp add: identity_Inr) (simp add: claim_lease_ref_def env id)
  qed
qed

section \<open>From the queue to the acknowledgement\<close>

text \<open>Handlers may do anything to the store that keeps its invariant and leaves the job's own row and its
  completion to the runtime.\<close>

definition well_behaved :: "inner processor \<Rightarrow> bool" where
  "well_behaved pr \<longleftrightarrow>
     (\<forall>k h c e. pr_registry pr k = Some h \<longrightarrow>
        (store_ok (jc_world c) \<longrightarrow> store_ok (jc_world (hd_ctx (h c e)))) \<and>
        jobs (jc_world (hd_ctx (h c e))) (env_id e) = jobs (jc_world c) (env_id e) \<and>
        (\<not> jc_finished c \<longrightarrow> \<not> jc_finished (hd_ctx (h c e))))"

lemma well_behaved_ack:
  assumes "well_behaved pr" "store_ok (jc_world c)" "\<not> jc_finished c"
  shows "store_ok (jc_world (ack_ctx pr cl c))" "\<not> jc_finished (ack_ctx pr cl c)"
    "jobs (jc_world (ack_ctx pr cl c)) (env_id (cl_envelope cl)) = jobs (jc_world c) (env_id (cl_envelope cl))"
proof -
  have "store_ok (jc_world (ack_ctx pr cl c)) \<and> \<not> jc_finished (ack_ctx pr cl c) \<and>
      jobs (jc_world (ack_ctx pr cl c)) (env_id (cl_envelope cl)) = jobs (jc_world c) (env_id (cl_envelope cl))"
  proof (cases "pr_registry pr (kind (cl_envelope cl))")
    case None
    then show ?thesis using assms by (simp add: ack_ctx_def Let_def)
  next
    case (Some h)
    with assms show ?thesis unfolding well_behaved_def by (simp add: ack_ctx_def Let_def)
  qed
  then show "store_ok (jc_world (ack_ctx pr cl c))" "\<not> jc_finished (ack_ctx pr cl c)"
    "jobs (jc_world (ack_ctx pr cl c)) (env_id (cl_envelope cl)) = jobs (jc_world c) (env_id (cl_envelope cl))" by simp_all
qed

lemma promoted_row:
  assumes "distinct ord" "jobs (snd (promote_due now ord n s)) i = Some j'" "jstate j' = ''available''"
  shows "\<exists>j. jobs s i = Some j \<and> env j = env j' \<and> (jstate j = ''available'' \<or> due now j)"
proof (cases "i \<in> set (take (nat n) (due_ids now ord s))")
  case True
  then obtain j where j: "jobs s i = Some j" "due now j" using due_ids_row by blast
  with True assms(2) show ?thesis by (auto simp: promote_due_eq(2) [OF assms(1)])
next
  case False
  with assms(2,3) show ?thesis by (simp add: promote_due_eq(2) [OF assms(1)])
qed

text \<open>C8. From the queue to the acknowledgement: a job that is performed waited in one of the queues, its time
  had come, and its registered kind is the one reported; for handlers that leave the job's own row to the
  runtime, whatever else they did and however they ended, everything the application is told about the
  job is its state in the store afterwards, every state it has to hear about is announced, and the span
  with the reported outcome comes once, last.\<close>

theorem performed_job_end_to_end:
  assumes "machine_ok s" "distinct ord" "distinct ord'" "well_behaved pr" "pr_store pr = mem_store_ops cfg now"
    and "\<forall>i j. jobs s i = Some j \<longrightarrow> attempts_counted (env j)"
    and "perform_job (mem_gate_ops now ord ord') pr queues quantum pid s = (Performed i k (Some name), ems, s')"
    and "name \<noteq> ''aborted''"
  shows "\<exists>j said sp. jobs s i = Some j \<and> kind (env j) = k \<and> queue (env j) \<in> set queues \<and>
    scheduled_at_ms (env j) \<le> now \<and> jstate j \<in> {''available'', ''scheduled'', ''retryable''} \<and>
    ems = said @ [Tel_Span sp] \<and> sp_outcome sp = name \<and> told (env j) (abs_state s' i) said \<and>
    heard pr (abs_state s' i) said"
proof -
  define s1 where "s1 = snd (promote_due now ord 10000 s)"
  let ?req = "perform_request queues quantum pid"
  have ok1: "store_ok s1" "bursts_ok s1"
    using assms(1) promote_due_invs(1) foldl_promote_rest [of now 10000 0 s ord]
    by (simp_all add: s1_def machine_ok_def bursts_ok_def promote_due_def case_prod_beta)
  obtain units s2 where adm: "mem_admit now ord' ?req s1 = (Inr units, s2)"
    and job: "(case concat units of [] \<Rightarrow> (Nothing_Admitted, [], s2) | cl # _ \<Rightarrow>
       (case process_one pr cl (from_claim cl s2) of (name, ems, c) \<Rightarrow>
          (Performed (env_id (cl_envelope cl)) (kind (cl_envelope cl)) name, ems, jc_world c))) =
      (Performed i k (Some name), ems, s')"
    using assms(7) by (cases "mem_admit now ord' ?req s1") (auto simp: perform_job_def mem_gate_ops_def s1_def split: sum.splits)
  from job obtain cl rest where cl: "concat units = cl # rest" by (cases "concat units") simp_all
  with job obtain c' where run: "process_one pr cl (from_claim cl s2) = (Some name, ems, c')"
    and i: "i = env_id (cl_envelope cl)" "k = kind (cl_envelope cl)" "s' = jc_world c'"
    by (auto split: prod.splits)
  from cl have "cl \<in> set (concat units)" by simp
  from admitted_claim [OF adm assms(3) this ok1(1)] obtain j1 where j1: "jobs s1 i = Some j1" "eligible now ?req s1 i"
    "cl_envelope cl = env j1" "claimed_as cl s2" "identity s2 (claim_lease_ref cl) = Inr ()" unfolding i by blast
  have el: "queue (env j1) \<in> set queues" "scheduled_at_ms (env j1) \<le> now" "jstate j1 = ''available''"
    using j1(1,2) by (simp_all add: eligible_def perform_request_def)
  from promoted_row [OF assms(2), of now 10000 s i j1] j1(1) el(3) obtain j where
    j: "jobs s i = Some j" "env j = env j1" "jstate j = ''available'' \<or> due now j" by (auto simp: s1_def)
  have ok2: "store_ok s2" using admit_rest(1) [OF assms(3) ok1, of now ?req] adm by simp
  let ?c = "ack_ctx pr cl (from_claim cl s2)"
  have ctx: "jc_world (from_claim cl s2) = s2" "\<not> jc_finished (from_claim cl s2)" by (simp_all add: run_claim_sel)
  note ack = well_behaved_ack [OF assms(4), of "from_claim cl s2" cl, unfolded ctx(1), OF ok2 ctx(2)]
  have "claimed_as cl (jc_world ?c)" using j1(4) by (simp only: claimed_as_def ack(3))
  moreover have "identity (jc_world ?c) (claim_lease_ref cl) = Inr ()"
    using j1(5) by (simp add: identity_Inr) (simp add: claim_lease_ref_def ack(3))
  moreover have "attempts_counted (cl_envelope cl)" using assms(6) j(1,2) j1(3) by metis
  moreover have "ems \<noteq> []" using unsettled_attempt [OF run] assms(8) by auto
  ultimately obtain said sp where "ems = said @ [Tel_Span sp]" "sp_outcome sp = name" "told (env j1) (abs_state s' i) said"
    "heard pr (abs_state s' i) said"
    using attempt_honest [OF run _ assms(5) ack(1) _ ack(2)] by (auto simp: i j1(3))
  with j el i(2) j1(3) show ?thesis by (auto simp: due_def)
qed

section \<open>A run\<close>

text \<open>One job waits; its handler skips it.\<close>

lemma waiting_ok: "machine_ok poison1"
proof -
  have "exec poison_cfg 5 (Op_Enqueue [poison_env ''a'']) inner_default = poison1"
    by (subst poison_enqueue) (simp_all add: poison_row_def poison1_def inner_default_def)
  with exec_machine_ok [OF machine_ok_default, of "Op_Enqueue [poison_env ''a'']" poison_cfg 5] show ?thesis by simp
qed

lemma nothing_promoted: "snd (promote_due now [''a''] n poison1) = poison1"
  by (simp add: promote_due_def promote_step_def poison_jobs due_def poison_row_sel)

lemma perform_admits:
  "fst (mem_admit 9 [''a''] (perform_request [''default''] 1 ''7'') poison1) =
     Inr [[claim_of (perform_request [''default''] 1 ''7'')
       (claimed_row 9 (perform_request [''default''] 1 ''7'') poison1 (poison_row ''a''))]]"
proof -
  have "sort_key (rank_of poison1) [''a''] = [''a'']" by (simp add: sort_key_def)
  then show ?thesis
    by (simp add: mem_admit_def perform_request_def admit_queue_def Let_def candidate_def poison1_def
        inner_default_def poison_row_sel part_of_def sort_dedup_def rotated_def
        admit_rounds.simps draw_round_def visit_def admissible_def blocked_fingerprint_def claim_job_def
        charged_def spend_def claim_of_def claimed_row_def)
qed

lemma skipping_name:
  assumes "kind (cl_envelope cl) = ''mail''" "deadline_ms (cl_envelope cl) = 0"
  shows "fst (process_one (run_processor failing_handler) cl c) = Some ''skip''"
  using assms by (simp add: process_one_def run_processor_def failing_handler_def timed_def attempt_result_def
      finish_attempt_def finish_error_def finish_control_def finish_skip_def with_span_def Let_def split: prod.split)

lemma waiting_env: "kind (env (poison_row i)) = ''mail''" "deadline_ms (env (poison_row i)) = 0" "attempt (env (poison_row i)) = 0"
  "env_id (env (poison_row i)) = i"
  by (simp_all add: poison_row_def new_row_def fill_defaults_def poison_env_def envelope_default_def)

theorem performed_job_end_to_end_witness:
  "\<exists>ems s' said sp. perform_job (mem_gate_ops 9 [''a''] [''a'']) (run_processor failing_handler) [''default''] 1 ''7'' poison1 =
      (Performed ''a'' ''mail'' (Some ''skip''), ems, s') \<and>
     ems = said @ [Tel_Span sp] \<and> heard (run_processor failing_handler) (abs_state s' ''a'') said"
proof -
  let ?req = "perform_request [''default''] 1 ''7''" and ?pr = "run_processor failing_handler"
  let ?cl = "claim_of ?req (claimed_row 9 ?req poison1 (poison_row ''a''))"
  obtain s2 where adm: "mem_admit 9 [''a''] ?req poison1 = (Inr [[?cl]], s2)"
    using perform_admits by (cases "mem_admit 9 [''a''] ?req poison1") simp
  have e: "cl_envelope ?cl = env (poison_row ''a'')" by (simp add: claim_of_def)
  obtain ems c where run: "process_one ?pr ?cl (from_claim ?cl s2) = (Some ''skip'', ems, c)"
    using skipping_name [of ?cl "from_claim ?cl s2"] by (cases "process_one ?pr ?cl (from_claim ?cl s2)") (simp add: e waiting_env)
  have perf: "perform_job (mem_gate_ops 9 [''a''] [''a'']) ?pr [''default''] 1 ''7'' poison1 =
      (Performed ''a'' ''mail'' (Some ''skip''), ems, jc_world c)"
    by (simp add: perform_job_def mem_gate_ops_def nothing_promoted adm run e waiting_env)
  have "well_behaved ?pr" by (auto simp: well_behaved_def run_processor_def failing_handler_def split: if_splits)
  moreover have "\<forall>i j. jobs poison1 i = Some j \<longrightarrow> attempts_counted (env j)"
    by (auto simp: poison_jobs attempts_counted_def waiting_env)
  moreover have "pr_store ?pr = mem_store_ops mem_config_new 9" by (simp add: run_processor_def)
  ultimately show ?thesis
    using performed_job_end_to_end [OF waiting_ok _ _ _ _ _ perf] perf by fastforce
qed

end
