(* ===== verification/WorkerLoop.thy ===== *)
theory WorkerLoop
  imports MemGate MemSweep "HOL-Library.Multiset"
begin

text \<open>
  The worker's main loop (\<open>Worker::run\<close> in headgate/src/worker.rs): polling for admissions, the
  heartbeat with lease renewal and the operator's commands, the end of a task, the memory guard,
  shutdown and draining. The loop waits for whichever of its arms is ready, so it is a step relation:
  one rule per arm, and one for everything the rest of the system does to the store meanwhile. Task
  ids are numbers in the order of spawning. The two products with a floating-point factor in the
  backoff are parameters; what the loop reports to telemetry is left out.
\<close>

section \<open>Polling\<close>

definition POLL_WINDOW :: nat where "POLL_WINDOW = 128"

definition poll_record :: "nat \<Rightarrow> bool list \<Rightarrow> bool list" where
  "poll_record admitted ring = (if length ring = POLL_WINDOW then tl ring else ring) @ [admitted = 0]"

definition polls :: "bool list \<Rightarrow> nat" where "polls ring = length ring"

definition empty_polls :: "bool list \<Rightarrow> nat" where "empty_polls ring = length (filter id ring)"

unbundle bit_operations_syntax

definition xorshift :: "u64 \<Rightarrow> u64" where
  "xorshift s =
     (let s1 = s XOR push_bit 13 s; s2 = s1 XOR drop_bit 7 s1 in s2 XOR push_bit 17 s2)"

record backoff =
  bo_floor :: duration
  bo_ceiling :: duration
  bo_grow :: "duration \<Rightarrow> duration"
  bo_jitter :: "u64 \<Rightarrow> duration \<Rightarrow> duration"

definition next_backoff :: "backoff \<Rightarrow> duration \<Rightarrow> u64 \<Rightarrow> duration \<times> u64" where
  "next_backoff cfg cur seed =
     (let seed' = xorshift seed; base = min (bo_grow cfg cur) (bo_ceiling cfg)
      in (min (base + bo_jitter cfg (seed' mod 1000) base) (bo_ceiling cfg), seed'))"

definition poll_delay_after :: "nat \<Rightarrow> bool \<Rightarrow> duration \<Rightarrow> backoff \<Rightarrow> u64 \<Rightarrow> duration \<times> u64" where
  "poll_delay_after admitted woke cur cfg seed =
     (if admitted > 0 \<or> woke then (bo_floor cfg, seed) else next_backoff cfg cur seed)"

section \<open>The worker\<close>

record worker_config =
  wc_queues :: "string list"
  wc_capacity :: u32
  wc_lease :: duration
  wc_quantum :: i64
  wc_poll :: backoff
  wc_memory_limit :: "u64 option"
  wc_run_duties :: bool

record worker_meta =
  wm_worker_id :: string
  wm_queues :: "string list"
  wm_concurrency :: u32
  wm_inflight :: u32
  wm_polls :: nat
  wm_empty_polls :: nat
  wm_status :: string
  wm_duties_active :: bool
  wm_pending_command :: "string option"

record 'w inspect_ops =
  heartbeat_worker :: "worker_meta \<Rightarrow> 'w \<Rightarrow> string option result \<times> 'w"
  signal_worker :: "string \<Rightarrow> string option \<Rightarrow> 'w \<Rightarrow> unit result \<times> 'w"

record 'w worker_ops =
  wo_admit :: "admit_request \<Rightarrow> 'w \<Rightarrow> admission_unit list result \<times> 'w"
  wo_renew :: "lease_ref list \<Rightarrow> duration \<Rightarrow> 'w \<Rightarrow> string list result \<times> 'w"
  wo_ack :: "lease_ref \<Rightarrow> outcome \<Rightarrow> string option \<Rightarrow> i64 option \<Rightarrow> 'w \<Rightarrow> unit result \<times> 'w"
  wo_release_duty :: "string \<Rightarrow> string \<Rightarrow> 'w \<Rightarrow> unit result \<times> 'w"
  wo_inspect :: "'w inspect_ops option"

record inflight =
  in_job_id :: string
  in_lease :: lease_ref

record 'w worker =
  wk_world :: 'w
  wk_inflight :: "(nat \<times> inflight) list"
  wk_tasks :: "nat set"
  wk_aborted :: "nat set"
  wk_fresh :: nat
  wk_seq :: u64
  wk_admitting :: bool
  wk_rolling_restart :: bool
  wk_status :: string
  wk_duties_active :: bool
  wk_window :: "bool list"
  wk_delay :: duration
  wk_seed :: u64
  wk_shutdown_sent :: bool
  wk_stopped :: bool

definition worker_start :: "worker_config \<Rightarrow> u64 \<Rightarrow> 'w \<Rightarrow> 'w worker" where
  "worker_start cfg seed w =
     \<lparr>wk_world = w, wk_inflight = [], wk_tasks = {}, wk_aborted = {}, wk_fresh = 0, wk_seq = 0,
      wk_admitting = True, wk_rolling_restart = False, wk_status = ''running'',
      wk_duties_active = wc_run_duties cfg, wk_window = [], wk_delay = bo_floor (wc_poll cfg), wk_seed = seed,
      wk_shutdown_sent = False, wk_stopped = False\<rparr>"

section \<open>Admission\<close>

definition start_task :: "claim \<Rightarrow> 'w worker \<Rightarrow> 'w worker" where
  "start_task cl wk =
     wk\<lparr>wk_inflight := wk_inflight wk @ [(wk_fresh wk, \<lparr>in_job_id = env_id (cl_envelope cl), in_lease = claim_lease_ref cl\<rparr>)],
        wk_tasks := insert (wk_fresh wk) (wk_tasks wk), wk_fresh := wk_fresh wk + 1\<rparr>"

text \<open>The subtraction of the source is on machine integers; the arm that polls is guarded so that it
  does not underflow.\<close>

definition admit_once :: "'w worker_ops \<Rightarrow> worker_config \<Rightarrow> string \<Rightarrow> string \<Rightarrow> 'w worker \<Rightarrow> nat \<times> 'w worker" where
  "admit_once ops cfg worker_id lease wk =
     (let capacity = unat (wc_capacity cfg) - length (wk_inflight wk);
          req = \<lparr>req_worker = worker_id, req_lease_id = lease, req_queues = wc_queues cfg,
                 req_capacity = of_nat capacity, req_lease = wc_lease cfg, req_quantum = wc_quantum cfg\<rparr>
      in case wo_admit ops req (wk_world wk) of
           (Inl _, w) \<Rightarrow> (0, wk\<lparr>wk_world := w\<rparr>)
         | (Inr units, w) \<Rightarrow>
             let claims = concat (group_admission_claims (concat units) (of_nat capacity))
             in (length claims, fold start_task claims (wk\<lparr>wk_world := w\<rparr>)))"

definition poll_arm :: "'w worker_ops \<Rightarrow> worker_config \<Rightarrow> string \<Rightarrow> bool \<Rightarrow> 'w worker \<Rightarrow> 'w worker" where
  "poll_arm ops cfg worker_id woke wk =
     (let sq = wk_seq wk + 1
      in case admit_once ops cfg worker_id (worker_id @ '':'' @ show_nat (unat sq)) (wk\<lparr>wk_seq := sq\<rparr>) of
           (n, wk1) \<Rightarrow>
             (case poll_delay_after n woke (wk_delay wk1) (wc_poll cfg) (wk_seed wk1) of
                (delay, seed) \<Rightarrow>
                  wk1\<lparr>wk_window := poll_record n (wk_window wk1), wk_delay := delay, wk_seed := seed\<rparr>))"

section \<open>The heartbeat\<close>

definition renew_all :: "'w worker_ops \<Rightarrow> worker_config \<Rightarrow> 'w worker \<Rightarrow> 'w worker" where
  "renew_all ops cfg wk =
     (if wk_inflight wk = [] then wk
      else case wo_renew ops (map (\<lambda>(_, i). in_lease i) (wk_inflight wk)) (wc_lease cfg) (wk_world wk) of
             (Inl _, w) \<Rightarrow> wk\<lparr>wk_world := w\<rparr>
           | (Inr lost, w) \<Rightarrow>
               wk\<lparr>wk_world := w,
                  wk_inflight := filter (\<lambda>(_, i). in_job_id i \<notin> set lost) (wk_inflight wk),
                  wk_aborted := wk_aborted wk \<union> fst ` set (filter (\<lambda>(_, i). in_job_id i \<in> set lost) (wk_inflight wk))\<rparr>)"

definition DUTIES :: "string list" where
  "DUTIES = [''reclaimer'', ''promoter'', ''scheduler'', ''operations'', ''quarantine'', ''retention'']"

definition release_duties :: "'w worker_ops \<Rightarrow> string \<Rightarrow> 'w \<Rightarrow> 'w" where
  "release_duties ops holder w = fold (\<lambda>duty w. snd (wo_release_duty ops duty holder w)) DUTIES w"

definition worker_meta_of :: "worker_config \<Rightarrow> string \<Rightarrow> 'w worker \<Rightarrow> worker_meta" where
  "worker_meta_of cfg worker_id wk =
     \<lparr>wm_worker_id = worker_id, wm_queues = wc_queues cfg, wm_concurrency = wc_capacity cfg,
      wm_inflight = of_nat (length (wk_inflight wk)), wm_polls = polls (wk_window wk),
      wm_empty_polls = empty_polls (wk_window wk), wm_status = wk_status wk,
      wm_duties_active = wk_duties_active wk, wm_pending_command = None\<rparr>"

definition acknowledge_worker_command ::
  "'w inspect_ops \<Rightarrow> string \<Rightarrow> worker_meta \<Rightarrow> 'w worker \<Rightarrow> 'w worker" where
  "acknowledge_worker_command insp worker_id meta wk =
     (let w1 = snd (signal_worker insp worker_id None (wk_world wk));
          w2 = snd (heartbeat_worker insp
                 (meta\<lparr>wm_status := wk_status wk, wm_duties_active := wk_duties_active wk, wm_pending_command := None\<rparr>) w1)
      in wk\<lparr>wk_world := w2\<rparr>)"

text \<open>The commands of an operator. Stopping the duty loops is \<open>wk_duties_active\<close>; \<open>break\<close> is
  \<open>wk_stopped\<close>.\<close>

definition obey :: "'w worker_ops \<Rightarrow> 'w inspect_ops \<Rightarrow> string \<Rightarrow> worker_meta \<Rightarrow> string \<Rightarrow> 'w worker \<Rightarrow> 'w worker" where
  "obey ops insp worker_id meta cmd wk =
     (if cmd = ''quiet'' then
        acknowledge_worker_command insp worker_id meta (wk\<lparr>wk_admitting := False, wk_status := ''quiet''\<rparr>)
      else if cmd = ''resume'' then
        acknowledge_worker_command insp worker_id meta (wk\<lparr>wk_admitting := True, wk_status := ''running''\<rparr>)
      else if cmd = ''terminate'' then
        (acknowledge_worker_command insp worker_id meta
           (wk\<lparr>wk_status := ''terminating'', wk_duties_active := False, wk_world := release_duties ops worker_id (wk_world wk)\<rparr>))
          \<lparr>wk_shutdown_sent := True, wk_stopped := True\<rparr>
      else if cmd = ''restart'' then
        (acknowledge_worker_command insp worker_id meta
           (wk\<lparr>wk_status := ''restarting'', wk_duties_active := False, wk_world := release_duties ops worker_id (wk_world wk)\<rparr>))
          \<lparr>wk_rolling_restart := True, wk_stopped := True\<rparr>
      else if cmd = ''resign'' then
        acknowledge_worker_command insp worker_id meta
          (wk\<lparr>wk_duties_active := False, wk_world := release_duties ops worker_id (wk_world wk)\<rparr>)
      else wk)"

definition heartbeat_arm :: "'w worker_ops \<Rightarrow> worker_config \<Rightarrow> string \<Rightarrow> 'w worker \<Rightarrow> 'w worker" where
  "heartbeat_arm ops cfg worker_id wk =
     (let wk1 = renew_all ops cfg wk; meta = worker_meta_of cfg worker_id wk1
      in case wo_inspect ops of
           None \<Rightarrow> wk1
         | Some insp \<Rightarrow>
             (case heartbeat_worker insp meta (wk_world wk1) of
                (Inr (Some cmd), w) \<Rightarrow> obey ops insp worker_id meta cmd (wk1\<lparr>wk_world := w\<rparr>)
              | (_, w) \<Rightarrow> wk1\<lparr>wk_world := w\<rparr>))"

section \<open>The other arms\<close>

definition memory_arm :: "worker_config \<Rightarrow> u64 option \<Rightarrow> 'w worker \<Rightarrow> 'w worker" where
  "memory_arm cfg sample wk =
     (case (wc_memory_limit cfg, sample) of
        (Some limit, Some used) \<Rightarrow> if used \<ge> limit then wk\<lparr>wk_shutdown_sent := True, wk_stopped := True\<rparr> else wk
      | _ \<Rightarrow> wk)"

definition finish_task :: "nat \<Rightarrow> 'w worker \<Rightarrow> 'w worker" where
  "finish_task t wk =
     wk\<lparr>wk_inflight := filter (\<lambda>(i, _). i \<noteq> t) (wk_inflight wk), wk_tasks := wk_tasks wk - {t}\<rparr>"

definition release_one :: "'w worker_ops \<Rightarrow> nat \<times> inflight \<Rightarrow> 'w \<Rightarrow> 'w" where
  "release_one ops x w =
     snd (wo_ack ops (in_lease (snd x)) Outcome_RateLimited (Some ''released: worker shutdown'') None w)"

text \<open>The deadline of the drain: what is still in flight is cancelled, aborted and given back. The code
  aborts everything first and then awaits one acknowledgement after the other; here these make up one
  step, so other callers act on the store before and after them but not in between.\<close>

definition drain_timeout :: "'w worker_ops \<Rightarrow> 'w worker \<Rightarrow> 'w worker" where
  "drain_timeout ops wk =
     wk\<lparr>wk_aborted := wk_aborted wk \<union> fst ` set (wk_inflight wk), wk_inflight := [], wk_tasks := {},
        wk_world := fold (release_one ops) (wk_inflight wk) (wk_world wk)\<rparr>"

inductive worker_step :: "'w worker_ops \<Rightarrow> worker_config \<Rightarrow> string \<Rightarrow> 'w worker \<Rightarrow> 'w worker \<Rightarrow> bool"
  for ops cfg worker_id where
  shutdown: "\<not> wk_stopped wk \<Longrightarrow> worker_step ops cfg worker_id wk (wk\<lparr>wk_stopped := True\<rparr>)"
| memory: "\<not> wk_stopped wk \<Longrightarrow> worker_step ops cfg worker_id wk (memory_arm cfg sample wk)"
| heartbeat: "\<not> wk_stopped wk \<Longrightarrow> worker_step ops cfg worker_id wk (heartbeat_arm ops cfg worker_id wk)"
| joined: "t \<in> wk_tasks wk \<Longrightarrow> worker_step ops cfg worker_id wk (finish_task t wk)"
| poll: "\<not> wk_stopped wk \<Longrightarrow> wk_admitting wk \<Longrightarrow> length (wk_inflight wk) < unat (wc_capacity cfg) \<Longrightarrow>
    worker_step ops cfg worker_id wk (poll_arm ops cfg worker_id woke wk)"
| timeout: "wk_stopped wk \<Longrightarrow> \<not> wk_rolling_restart wk \<Longrightarrow> wk_tasks wk \<noteq> {} \<Longrightarrow>
    worker_step ops cfg worker_id wk (drain_timeout ops wk)"
| others: "worker_step ops cfg worker_id wk (wk\<lparr>wk_world := w\<rparr>)"

inductive worker_reachable :: "'w worker_ops \<Rightarrow> worker_config \<Rightarrow> string \<Rightarrow> 'w worker \<Rightarrow> bool"
  for ops cfg worker_id where
  start: "worker_reachable ops cfg worker_id (worker_start cfg seed w)"
| step: "worker_reachable ops cfg worker_id wk \<Longrightarrow> worker_step ops cfg worker_id wk wk' \<Longrightarrow>
    worker_reachable ops cfg worker_id wk'"

section \<open>What the worker relies on\<close>

lemma push_rev_mset: "push_rev mx c us = Some us' \<Longrightarrow> mset (concat us') = add_mset c (mset (concat us))"
  by (induction us arbitrary: us') (auto split: if_splits)

lemma mset_concat_rev: "mset (concat (rev us)) = mset (concat us)"
  by (induction us) auto

lemma group_step_mset: "mset (concat (group_step mx units c)) = add_mset c (mset (concat units))"
  using push_rev_mset [of mx c "rev units"]
  by (auto simp: group_step_def mset_concat_rev split: option.split)

lemma group_fold_mset: "mset (concat (foldl (group_step mx) units cs)) = mset (concat units) + mset cs"
  by (induction cs arbitrary: units) (simp_all add: group_step_mset)

lemma grouped_claims: "mset (concat (group_admission_claims cs m)) = mset cs"
  by (simp add: group_admission_claims_def group_fold_mset)

lemma grouped_length: "length (concat (group_admission_claims cs m)) = length cs"
  using arg_cong [OF grouped_claims [of cs m], where f = size] by (simp only: size_mset)

lemma grouped_set: "set (concat (group_admission_claims cs m)) = set cs"
  using arg_cong [OF grouped_claims [of cs m], where f = set_mset] by (simp only: set_mset_mset)

text \<open>An admission grants at most what was asked for, under the lease id of the request.\<close>

locale admission =
  fixes admit :: "admit_request \<Rightarrow> 'w \<Rightarrow> admission_unit list result \<times> 'w"
  assumes bounded: "admit req w = (Inr units, w') \<Longrightarrow> length (concat units) \<le> unat (req_capacity req)"
    and leased: "admit req w = (Inr units, w') \<Longrightarrow> cl \<in> set (concat units) \<Longrightarrow> cl_lease_id cl = req_lease_id req"

section \<open>The invariant of the loop\<close>

definition own_lease :: "string \<Rightarrow> string \<Rightarrow> bool" where
  "own_lease worker_id l \<longleftrightarrow> (\<exists>n. l = worker_id @ '':'' @ show_nat n)"

definition worker_ok :: "worker_config \<Rightarrow> string \<Rightarrow> 'w worker \<Rightarrow> bool" where
  "worker_ok cfg worker_id wk \<longleftrightarrow>
     length (wk_inflight wk) \<le> unat (wc_capacity cfg) \<and>
     distinct (map fst (wk_inflight wk)) \<and> fst ` set (wk_inflight wk) \<subseteq> wk_tasks wk \<and>
     (\<forall>t \<in> wk_tasks wk. t < wk_fresh wk) \<and>
     (\<forall>(t, i) \<in> set (wk_inflight wk). own_lease worker_id (lr_lease_id (in_lease i)) \<and> t \<notin> wk_aborted wk) \<and>
     (\<forall>t \<in> wk_aborted wk. t < wk_fresh wk) \<and>
     (\<not> wk_stopped wk \<longrightarrow> (wk_admitting wk \<longleftrightarrow> wk_status wk = ''running'')) \<and>
     length (wk_window wk) \<le> POLL_WINDOW \<and>
     wk_delay wk \<le> max (bo_floor (wc_poll cfg)) (bo_ceiling (wc_poll cfg))"

lemma start_tasks:
  assumes "distinct (map fst (wk_inflight wk))" "fst ` set (wk_inflight wk) \<subseteq> wk_tasks wk"
    "\<forall>t \<in> wk_tasks wk. t < wk_fresh wk" "\<forall>t \<in> wk_aborted wk. t < wk_fresh wk"
    "\<forall>(t, i) \<in> set (wk_inflight wk). own_lease worker_id (lr_lease_id (in_lease i)) \<and> t \<notin> wk_aborted wk"
    "\<forall>cl \<in> set cls. own_lease worker_id (cl_lease_id cl)"
  defines "wk' \<equiv> fold start_task cls wk"
  shows "length (wk_inflight wk') = length (wk_inflight wk) + length cls \<and>
    distinct (map fst (wk_inflight wk')) \<and> fst ` set (wk_inflight wk') \<subseteq> wk_tasks wk' \<and>
    (\<forall>t \<in> wk_tasks wk'. t < wk_fresh wk') \<and> (\<forall>t \<in> wk_aborted wk'. t < wk_fresh wk') \<and>
    (\<forall>(t, i) \<in> set (wk_inflight wk'). own_lease worker_id (lr_lease_id (in_lease i)) \<and> t \<notin> wk_aborted wk')"
  using assms(1-6) unfolding wk'_def
proof (induction cls arbitrary: wk)
  case (Cons cl cls)
  let ?wk = "start_task cl wk"
  have new: "wk_fresh wk \<notin> fst ` set (wk_inflight wk)" "wk_fresh wk \<notin> wk_aborted wk"
    using Cons.prems(2,3,4) by blast+
  have lease: "own_lease worker_id (lr_lease_id (claim_lease_ref cl))"
    using Cons.prems(6) by (simp add: claim_lease_ref_def)
  have "distinct (map fst (wk_inflight ?wk))" "fst ` set (wk_inflight ?wk) \<subseteq> wk_tasks ?wk"
    "\<forall>t \<in> wk_tasks ?wk. t < wk_fresh ?wk" "\<forall>t \<in> wk_aborted ?wk. t < wk_fresh ?wk"
    "\<forall>(t, i) \<in> set (wk_inflight ?wk). own_lease worker_id (lr_lease_id (in_lease i)) \<and> t \<notin> wk_aborted ?wk"
    using Cons.prems(1-5) new lease by (auto simp: start_task_def less_Suc_eq)
  from Cons.IH [OF this] Cons.prems(6) show ?case by (simp add: start_task_def)
qed simp

lemma start_tasks_rest:
  "wk_admitting (fold start_task cls wk) = wk_admitting wk" "wk_status (fold start_task cls wk) = wk_status wk"
  "wk_stopped (fold start_task cls wk) = wk_stopped wk" "wk_window (fold start_task cls wk) = wk_window wk"
  "wk_delay (fold start_task cls wk) = wk_delay wk"
  by (induction cls arbitrary: wk) (simp_all add: start_task_def)

lemma poll_record_bound: "length ring \<le> POLL_WINDOW \<Longrightarrow> length (poll_record n ring) \<le> POLL_WINDOW"
  by (auto simp: poll_record_def POLL_WINDOW_def)

lemma poll_delay_bound:
  "poll_delay_after n woke cur cfg seed = (delay, seed') \<Longrightarrow> delay \<le> max (bo_floor cfg) (bo_ceiling cfg)"
  by (auto simp: poll_delay_after_def next_backoff_def Let_def split: if_splits)

lemma world_ok: "worker_ok cfg worker_id wk \<Longrightarrow> worker_ok cfg worker_id (wk\<lparr>wk_world := w\<rparr>)"
  by (simp add: worker_ok_def)

lemma retain_ok:
  assumes "worker_ok cfg worker_id wk"
  shows "worker_ok cfg worker_id (wk\<lparr>wk_world := w, wk_inflight := filter (\<lambda>(_, i). in_job_id i \<notin> L) (wk_inflight wk),
    wk_aborted := wk_aborted wk \<union> fst ` set (filter (\<lambda>(_, i). in_job_id i \<in> L) (wk_inflight wk))\<rparr>)"
proof -
  let ?xs = "wk_inflight wk"
  have d: "distinct (map fst ?xs)" using assms by (simp add: worker_ok_def)
  have "i = i'" if "(t, i) \<in> set ?xs" "(t, i') \<in> set ?xs" for t i i'
    using eq_key_imp_eq_value [OF d that] .
  then have apart: "t \<notin> fst ` set (filter (\<lambda>(_, i). in_job_id i \<in> L) ?xs)"
    if "(t, i) \<in> set ?xs" "in_job_id i \<notin> L" for t i
    using that by (auto simp: image_iff)
  let ?keep = "filter (\<lambda>(_, i). in_job_id i \<notin> L) ?xs" and ?gone = "fst ` set (filter (\<lambda>(_, i). in_job_id i \<in> L) ?xs)"
  have parts: "fst ` set ?xs \<subseteq> wk_tasks wk" "\<forall>t \<in> wk_tasks wk. t < wk_fresh wk" "\<forall>t \<in> wk_aborted wk. t < wk_fresh wk"
    "\<forall>(t, i) \<in> set ?xs. own_lease worker_id (lr_lease_id (in_lease i)) \<and> t \<notin> wk_aborted wk"
    "length ?xs \<le> unat (wc_capacity cfg)"
    using assms by (simp_all add: worker_ok_def)
  have "length ?keep \<le> unat (wc_capacity cfg)" using parts(5) length_filter_le [of _ ?xs] order_trans by blast
  moreover have "fst ` set ?keep \<subseteq> wk_tasks wk" using parts(1) by auto
  moreover have "\<forall>(t, i) \<in> set ?keep. own_lease worker_id (lr_lease_id (in_lease i)) \<and> t \<notin> wk_aborted wk \<union> ?gone"
  proof (clarify)
    fix t i assume x: "(t, i) \<in> set ?keep"
    then have "(t, i) \<in> set ?xs" "in_job_id i \<notin> L" by simp_all
    with parts(4) apart show "own_lease worker_id (lr_lease_id (in_lease i)) \<and> t \<notin> wk_aborted wk \<union> ?gone"
      by (simp only: Un_iff) blast
  qed
  moreover have "\<forall>t \<in> wk_aborted wk \<union> ?gone. t < wk_fresh wk" using parts(1-3) by auto
  ultimately show ?thesis using assms distinct_map_filter [OF d] by (simp add: worker_ok_def) blast
qed

lemma renew_all_ok:
  assumes "worker_ok cfg worker_id wk"
  shows "worker_ok cfg worker_id (renew_all ops cfg wk)"
  using assms world_ok [OF assms] retain_ok [OF assms]
  by (simp add: renew_all_def split: prod.split sum.split)

lemma memory_ok: "worker_ok cfg worker_id wk \<Longrightarrow> worker_ok cfg worker_id (memory_arm cfg sample wk)"
  by (simp add: memory_arm_def worker_ok_def split: option.split)

lemma stopped_ok: "worker_ok cfg worker_id wk \<Longrightarrow> worker_ok cfg worker_id (wk\<lparr>wk_stopped := True\<rparr>)"
  by (simp add: worker_ok_def)

lemma acknowledge_ok:
  "worker_ok cfg worker_id wk \<Longrightarrow> worker_ok cfg worker_id (acknowledge_worker_command insp worker_id meta wk)"
  by (simp add: worker_ok_def acknowledge_worker_command_def Let_def)

lemma obey_ok: "worker_ok cfg worker_id wk \<Longrightarrow> worker_ok cfg worker_id (obey ops insp worker_id meta cmd wk)"
  by (simp add: worker_ok_def obey_def acknowledge_worker_command_def Let_def)

lemma heartbeat_ok: "worker_ok cfg worker_id wk \<Longrightarrow> worker_ok cfg worker_id (heartbeat_arm ops cfg worker_id wk)"
proof -
  assume "worker_ok cfg worker_id wk"
  then have ok: "worker_ok cfg worker_id ((renew_all ops cfg wk)\<lparr>wk_world := w\<rparr>)" for w
    using renew_all_ok [of cfg worker_id wk ops] by (simp add: worker_ok_def)
  with renew_all_ok [OF \<open>worker_ok cfg worker_id wk\<close>] show ?thesis
    by (simp add: heartbeat_arm_def Let_def obey_ok split: option.split prod.split sum.split)
qed

lemma finish_task_ok: "worker_ok cfg worker_id wk \<Longrightarrow> worker_ok cfg worker_id (finish_task t wk)"
  by (auto simp: worker_ok_def finish_task_def distinct_map_filter intro: order_trans [OF length_filter_le])

lemma drain_timeout_ok: "worker_ok cfg worker_id wk \<Longrightarrow> worker_ok cfg worker_id (drain_timeout ops wk)"
  by (auto simp: worker_ok_def drain_timeout_def)

context admission
begin

lemma poll_ok:
  assumes "worker_ok cfg worker_id wk" "wo_admit ops = admit" "length (wk_inflight wk) < unat (wc_capacity cfg)"
    "wk_admitting wk"
  shows "worker_ok cfg worker_id (poll_arm ops cfg worker_id woke wk)"
proof -
  let ?sq = "wk_seq wk + 1"
  let ?lease = "worker_id @ '':'' @ show_nat (unat ?sq)" and ?cap = "unat (wc_capacity cfg) - length (wk_inflight wk)"
  let ?wk = "wk\<lparr>wk_seq := ?sq\<rparr>"
  obtain n wk1 where a: "admit_once ops cfg worker_id ?lease ?wk = (n, wk1)" by fastforce
  obtain delay seed where d: "poll_delay_after n woke (wk_delay wk1) (wc_poll cfg) (wk_seed wk1) = (delay, seed)"
    by fastforce
  have "worker_ok cfg worker_id wk1"
  proof -
    let ?req = "\<lparr>req_worker = worker_id, req_lease_id = ?lease, req_queues = wc_queues cfg,
                 req_capacity = of_nat ?cap, req_lease = wc_lease cfg, req_quantum = wc_quantum cfg\<rparr>"
    obtain r w where r: "admit ?req (wk_world wk) = (r, w)" by fastforce
    have cap: "unat (of_nat ?cap :: u32) = ?cap"
      using unsigned_less [of "wc_capacity cfg", where 'a = nat] by (simp add: unsigned_of_nat take_bit_nat_eq_self)
    show ?thesis
    proof (cases r)
      case (Inl e)
      with a r assms(2) have "wk1 = ?wk\<lparr>wk_world := w\<rparr>" by (simp add: admit_once_def Let_def)
      with assms(1) show ?thesis by (simp add: worker_ok_def)
    next
      case (Inr units)
      let ?cls = "concat (group_admission_claims (concat units) (of_nat ?cap))"
      have wk1: "wk1 = fold start_task ?cls (?wk\<lparr>wk_world := w\<rparr>)"
        using a r Inr assms(2) by (simp add: admit_once_def Let_def)
      have "length ?cls \<le> ?cap" using bounded [OF r [unfolded Inr]] cap by (simp only: grouped_length) simp
      moreover have "\<forall>cl \<in> set ?cls. own_lease worker_id (cl_lease_id cl)"
        using leased [OF r [unfolded Inr]] by (auto simp only: grouped_set own_lease_def) simp
      ultimately show ?thesis
        using assms(1,3) start_tasks [of "?wk\<lparr>wk_world := w\<rparr>" worker_id ?cls]
        by (simp add: worker_ok_def wk1 start_tasks_rest)
    qed
  qed
  moreover have "poll_arm ops cfg worker_id woke wk =
      wk1\<lparr>wk_window := poll_record n (wk_window wk1), wk_delay := delay, wk_seed := seed\<rparr>"
    by (simp only: poll_arm_def Let_def a d prod.case)
  ultimately show ?thesis using poll_record_bound poll_delay_bound [OF d] by (simp add: worker_ok_def)
qed

lemma reachable_ok:
  assumes "worker_reachable ops cfg worker_id wk" "wo_admit ops = admit"
  shows "worker_ok cfg worker_id wk"
  using assms(1)
proof induction
  case (start seed w)
  show ?case by (simp add: worker_ok_def worker_start_def)
next
  case (step wk wk')
  from step(2,3) show ?case
    by cases (simp_all add: heartbeat_ok finish_task_ok drain_timeout_ok poll_ok [OF _ assms(2)] memory_ok stopped_ok world_ok)
qed

end

section \<open>The loop against the in-memory store\<close>

text \<open>The world is the store's clock and the store; time passes with the rest of the world. A hash map
  yields each key once, in an order that may depend on the store.\<close>

definition at_clock :: "(i64 \<Rightarrow> inner \<Rightarrow> 'r \<times> inner) \<Rightarrow> i64 \<times> inner \<Rightarrow> 'r \<times> i64 \<times> inner" where
  "at_clock f w = (case w of (now, s) \<Rightarrow> case f now s of (r, s') \<Rightarrow> (r, now, s'))"

definition mem_worker_ops ::
  "mem_config \<Rightarrow> (inner \<Rightarrow> string list) \<Rightarrow> (i64 \<times> inner) inspect_ops option \<Rightarrow> (i64 \<times> inner) worker_ops" where
  "mem_worker_ops mc ord insp =
     \<lparr>wo_admit = (\<lambda>req. at_clock (\<lambda>now s. mem_admit now (remdups (ord s)) req s)),
      wo_renew = (\<lambda>leases d. at_clock (\<lambda>now. mem_renew now leases d)),
      wo_ack = (\<lambda>lease out err delay_ms. at_clock (\<lambda>now. mem_ack mc now out err delay_ms [] None lease)),
      wo_release_duty = (\<lambda>duty holder. at_clock (\<lambda>_. release_duty duty holder)),
      wo_inspect = insp\<rparr>"

lemma mem_admit_claims:
  assumes "mem_admit now (remdups xs) req s = (Inr units, s')"
  shows "length (concat units) \<le> unat (req_capacity req)" "\<forall>cl \<in> set (concat units). cl_lease_id cl = req_lease_id req"
proof -
  obtain "is" st where "drawn now req s is st" "units = ad_units st"
    using mem_admit_drawn [OF assms distinct_remdups] by metis
  then have u: "units = map (claim_for now req s) is" "length is \<le> unat (req_capacity req)" by (simp_all add: drawn_def)
  have "length (concat (map (claim_for now req s) is)) \<le> length is"
    by (induction "is") (auto simp: claim_for_def split: option.split)
  with u show "length (concat units) \<le> unat (req_capacity req)" by simp
  show "\<forall>cl \<in> set (concat units). cl_lease_id cl = req_lease_id req"
    using u(1) by (auto simp: claim_for_def claim_of_def split: option.splits)
qed

interpretation mem_adm: admission "wo_admit (mem_worker_ops mc ord insp)"
  for mc :: mem_config and ord :: "inner \<Rightarrow> string list" and insp :: "(i64 \<times> inner) inspect_ops option"
proof
  show "length (concat units) \<le> unat (req_capacity req)"
    if "wo_admit (mem_worker_ops mc ord insp) req w = (Inr units, w')" for req w units w'
    using that mem_admit_claims(1) by (auto simp: mem_worker_ops_def at_clock_def split: prod.splits)
  show "cl_lease_id cl = req_lease_id req"
    if "wo_admit (mem_worker_ops mc ord insp) req w = (Inr units, w')" "cl \<in> set (concat units)" for req w units w' cl
    using that mem_admit_claims(2) by (auto simp: mem_worker_ops_def at_clock_def split: prod.splits)
qed

text \<open>C13. However polls, heartbeats, operator commands, ends of tasks, the memory guard, shutdown, the
  drain and everything else in the system interleave, a worker never has more jobs in flight than its
  capacity (so the free capacity it computes does not underflow), each of them is a live task of its own
  that was not aborted and whose lease id carries the worker's id; while the loop runs it admits exactly when its status
  is running; the poll window holds at most 128 polls, and the poll delay stays below the ceiling or the
  floor.\<close>

theorem worker_loop_invariant:
  assumes "worker_reachable (mem_worker_ops mc ord insp) cfg worker_id wk"
  shows "worker_ok cfg worker_id wk"
  using mem_adm.reachable_ok [OF assms refl] .

section \<open>Draining\<close>

definition released :: "i64 \<Rightarrow> mem_job \<Rightarrow> mem_job" where
  "released now j =
     (drop_lease j)\<lparr>jstate := ''available'', env := (env j)\<lparr>scheduled_at_ms := min (scheduled_at_ms (env j)) now\<rparr>\<rparr>"

definition held :: "inner \<Rightarrow> inflight \<Rightarrow> string \<Rightarrow> bool" where
  "held s x i \<longleftrightarrow> lr_job_id (in_lease x) = i \<and> identity s (in_lease x) = Inr ()"

lemma release_one_mem:
  "release_one (mem_worker_ops mc ord insp) x (now, s) =
     (now, if identity s (in_lease (snd x)) = Inr ()
           then s\<lparr>jobs := (jobs s)(lr_job_id (in_lease (snd x)) :=
                  map_option (released now) (jobs s (lr_job_id (in_lease (snd x)))))\<rparr> else s)"
proof (cases "identity s (in_lease (snd x)) = Inr ()")
  case True
  then obtain j where "jobs s (lr_job_id (in_lease (snd x))) = Some j" by (auto simp: identity_Inr)
  with True show ?thesis
    by (simp add: release_one_def mem_worker_ops_def at_clock_def mem_ack_def reconcile_def Let_def ack_outcome_def
        put_row_def released_def)
next
  case False
  then show ?thesis by (simp add: release_one_def mem_worker_ops_def at_clock_def mem_ack_stale)
qed

lemma released_not_held: "\<not> holds_lease l (released now j)"
  by (simp add: holds_lease_def released_def)

lemma release_fold:
  "fold (release_one (mem_worker_ops mc ord insp)) xs (now, s) = (now, s') \<Longrightarrow>
   jobs s' i = (if \<exists>x \<in> set xs. held s (snd x) i then map_option (released now) (jobs s i) else jobs s i)"
proof (induction xs arbitrary: s)
  case (Cons x xs)
  let ?k = "lr_job_id (in_lease (snd x))"
  let ?s = "if identity s (in_lease (snd x)) = Inr ()
    then s\<lparr>jobs := (jobs s)(?k := map_option (released now) (jobs s ?k))\<rparr> else s"
  have h: "held ?s y i \<longleftrightarrow> held s y i \<and> \<not> held s (snd x) i" for y
    by (auto simp: held_def identity_Inr released_not_held split: if_splits)
  have j: "jobs ?s i = (if held s (snd x) i then map_option (released now) (jobs s i) else jobs s i)"
    by (auto simp: held_def)
  from Cons.IH [of ?s] Cons.prems show ?case by (simp add: release_one_mem h j)
qed simp

lemma release_fold_now: "fst (fold (release_one (mem_worker_ops mc ord insp)) xs (now, s)) = now"
  by (induction xs arbitrary: s) (simp_all add: release_one_mem)

text \<open>C15. When the drain runs out of time, nothing stays in flight, and every job that the worker still
  holds is given back at once: available, without a lease, with its attempts and its crashes as they
  were, so that a rolling deployment neither spends attempts nor quarantines a job. Jobs that the worker
  no longer holds, and all other jobs, are left alone.\<close>

theorem drain_gives_back:
  assumes "wk_world wk = (now, s)" "wk' = drain_timeout (mem_worker_ops mc ord insp) wk"
  shows "wk_inflight wk' = [] \<and> fst ` set (wk_inflight wk) \<subseteq> wk_aborted wk' \<and>
    (\<forall>i. jobs (snd (wk_world wk')) i =
       (if \<exists>x \<in> set (wk_inflight wk). held s (snd x) i then map_option (released now) (jobs s i) else jobs s i)) \<and>
    (\<forall>j. jstate (released now j) = ''available'' \<and> lease_id (released now j) = [] \<and>
       attempt (env (released now j)) = attempt (env j) \<and> crash_attempt (env (released now j)) = crash_attempt (env j) \<and>
       errs (released now j) = errs j)"
proof -
  have "fold (release_one (mem_worker_ops mc ord insp)) (wk_inflight wk) (now, s) = (now, snd (wk_world wk'))"
    unfolding assms(2) using release_fold_now [of mc ord insp "wk_inflight wk" now s]
    by (simp add: drain_timeout_def assms(1) prod_eq_iff)
  from release_fold [OF this] show ?thesis
    by (auto simp: assms(2) drain_timeout_def released_def drop_lease_def)
qed

section \<open>A run\<close>

definition run_config :: worker_config where
  "run_config =
     \<lparr>wc_queues = [''q''], wc_capacity = 2, wc_lease = 30000000000, wc_quantum = 100,
      wc_poll = \<lparr>bo_floor = 50000000, bo_ceiling = 2000000000, bo_grow = (\<lambda>d. 2 * d), bo_jitter = (\<lambda>_ _. 0)\<rparr>,
      wc_memory_limit = None, wc_run_duties = True\<rparr>"

definition run_ops :: "(i64 \<times> inner) worker_ops" where
  "run_ops = mem_worker_ops mem_config_new (\<lambda>_. [''a'', ''b'']) None"

definition polled_worker :: "(i64 \<times> inner) worker" where
  "polled_worker = poll_arm run_ops run_config ''w'' False (worker_start run_config 1 (5, gate_store))"

theorem worker_loop_invariant_witness: "worker_ok run_config ''w'' polled_worker"
proof -
  have "worker_reachable run_ops run_config ''w'' polled_worker"
    unfolding polled_worker_def
    by (rule worker_reachable.step [OF worker_reachable.start worker_step.poll])
      (simp_all add: worker_start_def run_config_def)
  then show ?thesis unfolding run_ops_def by (rule worker_loop_invariant)
qed

definition busy_worker :: "(i64 \<times> inner) worker" where
  "busy_worker = (worker_start run_config 1 (9, run_store))
     \<lparr>wk_inflight := [(0, \<lparr>in_job_id = ''a'', in_lease = run_lease\<rparr>)], wk_tasks := {0}, wk_fresh := 1\<rparr>"

theorem drain_gives_back_witness:
  "jobs (snd (wk_world (drain_timeout run_ops busy_worker))) ''a'' = Some (released 9 run_row)"
proof -
  have "wk_world busy_worker = (9, run_store)" by (simp add: busy_worker_def worker_start_def)
  from drain_gives_back [OF this run_ops_def [THEN arg_cong, where f = "\<lambda>ops. drain_timeout ops busy_worker"]]
  show ?thesis
    by (simp add: held_def busy_worker_def run_store_sel identity_Inr)
qed

section \<open>A renewal that aborts the wrong attempt\<close>

text \<open>A renewal reports lost leases by job id, and the worker drops every job in flight with that id. A
  worker that lost a job and then claimed it again has two attempts of it in flight; the next heartbeat
  aborts both, the new one with its valid lease as well. Nobody acknowledges that attempt, so it ends as a
  crash of the job.\<close>

definition reclaimed_row :: mem_job where
  "reclaimed_row = run_row\<lparr>lease_id := ''w:2'', fence := 2\<rparr>"

definition old_lease :: lease_ref where "old_lease = \<lparr>lr_job_id = ''a'', lr_lease_id = ''w:1'', lr_fence = 1\<rparr>"
definition new_lease :: lease_ref where "new_lease = \<lparr>lr_job_id = ''a'', lr_lease_id = ''w:2'', lr_fence = 2\<rparr>"

definition twice_worker :: "(i64 \<times> inner) worker" where
  "twice_worker = (worker_start run_config 1 (9, inner_default\<lparr>jobs := [''a'' \<mapsto> reclaimed_row]\<rparr>))
     \<lparr>wk_inflight := [(0, \<lparr>in_job_id = ''a'', in_lease = old_lease\<rparr>), (1, \<lparr>in_job_id = ''a'', in_lease = new_lease\<rparr>)],
      wk_tasks := {0, 1}, wk_fresh := 2\<rparr>"

theorem renewal_aborts_valid_attempt:
  "worker_ok run_config ''w'' twice_worker \<and> identity (snd (wk_world twice_worker)) new_lease = Inr () \<and>
   identity (snd (wk_world (renew_all run_ops run_config twice_worker))) new_lease = Inr () \<and>
   wk_inflight (renew_all run_ops run_config twice_worker) = [] \<and>
   1 \<in> wk_aborted (renew_all run_ops run_config twice_worker)"
proof -
  have row: "jstate reclaimed_row = ''running''" "lease_id reclaimed_row = ''w:2''" "fence reclaimed_row = 2"
    by (simp_all add: reclaimed_row_def run_row_def)
  have "own_lease ''w'' ''w:1''" "own_lease ''w'' ''w:2''"
    unfolding own_lease_def by (rule exI [of _ 1], code_simp) (rule exI [of _ 2], code_simp)
  then have "worker_ok run_config ''w'' twice_worker"
    by (simp add: worker_ok_def twice_worker_def worker_start_def run_config_def old_lease_def new_lease_def)
  moreover have "mem_renew 9 [old_lease, new_lease] 30000000000 (inner_default\<lparr>jobs := [''a'' \<mapsto> reclaimed_row]\<rparr>)
      = (Inr [''a''], inner_default\<lparr>jobs := [''a'' \<mapsto> reclaimed_row\<lparr>lease_expires := 30009\<rparr>]\<rparr>)"
    by (simp add: mem_renew_def renew_one_def old_lease_def new_lease_def holds_lease_def row put_row_def as_millis_def
        wrap64_id in_i64_def)
  ultimately show ?thesis
    by (simp add: renew_all_def twice_worker_def worker_start_def run_ops_def mem_worker_ops_def at_clock_def run_config_def
        identity_def holds_lease_def old_lease_def new_lease_def row)
qed

end
