(* ===== verification/Duties.thy ===== *)
theory Duties
  imports WorkerLoop
begin

text \<open>
  The singleton duties of the fleet (\<open>spawn_duties\<close> and \<open>run_duty\<close> in headgate/src/worker.rs): a tick
  claims the duty for two intervals and, when the claim succeeds, runs one sweep and reports what it
  destroyed or quarantined. The locale \<open>sweeps\<close> is what the duties rely on of the store's sweeps; it is
  interpreted on the in-memory store.
\<close>

section \<open>The duties\<close>

datatype sweep_event = Tel_Quarantined string u32 | Tel_Evicted string nat

text \<open>The inspection surface a backend may lack; the scheduler's sweep runs against it.\<close>

record 'w duty_inspect =
  di_scheduler_sweep :: "'w \<Rightarrow> unit result \<times> 'w"
  di_run_pending_operations :: "i64 \<Rightarrow> 'w \<Rightarrow> nat result \<times> 'w"
  di_quarantine_sweep :: "i64 \<Rightarrow> 'w \<Rightarrow> nat result \<times> 'w"

record 'w duty_ops =
  do_claim_duty :: "string \<Rightarrow> string \<Rightarrow> duration \<Rightarrow> 'w \<Rightarrow> bool result \<times> 'w"
  do_reclaim_expired :: "i64 \<Rightarrow> 'w \<Rightarrow> reclaimed list result \<times> 'w"
  do_promote_due :: "i64 \<Rightarrow> 'w \<Rightarrow> nat result \<times> 'w"
  do_evict_retained :: "i64 \<Rightarrow> 'w \<Rightarrow> nat result \<times> 'w"
  do_inspect :: "'w duty_inspect option"

definition quarantine_events :: "reclaimed list \<Rightarrow> sweep_event list" where
  "quarantine_events rs = map (\<lambda>r. Tel_Quarantined (rc_fingerprint r) (rc_crash_attempt r)) (filter rc_quarantined rs)"

definition run_duty :: "'w duty_ops \<Rightarrow> string \<Rightarrow> 'w \<Rightarrow> sweep_event list \<times> 'w" where
  "run_duty ops duty w =
     (if duty = ''reclaimer'' then
        (case do_reclaim_expired ops 1000 w of
           (Inr reclaimed, w1) \<Rightarrow> (quarantine_events reclaimed, w1)
         | (Inl _, w1) \<Rightarrow> ([], w1))
      else if duty = ''promoter'' then ([], snd (do_promote_due ops 10000 w))
      else if duty = ''retention'' then
        (case do_evict_retained ops 1000 w of
           (Inr n, w1) \<Rightarrow> (if n = 0 then [] else [Tel_Evicted [] n], w1)
         | (Inl _, w1) \<Rightarrow> ([], w1))
      else case do_inspect ops of
             None \<Rightarrow> ([], w)
           | Some insp \<Rightarrow>
               if duty = ''scheduler'' then ([], snd (di_scheduler_sweep insp w))
               else if duty = ''operations'' then ([], snd (di_run_pending_operations insp 1000 w))
               else if duty = ''quarantine'' then ([], snd (di_quarantine_sweep insp 1000 w))
               else ([], w))"

definition duty_tick :: "'w duty_ops \<Rightarrow> duration \<Rightarrow> string \<Rightarrow> string \<Rightarrow> 'w \<Rightarrow> sweep_event list \<times> 'w" where
  "duty_tick ops interval holder duty w =
     (case do_claim_duty ops duty holder (interval * 2) w of
        (Inr True, w1) \<Rightarrow> run_duty ops duty w1
      | (_, w1) \<Rightarrow> ([], w1))"

section \<open>What the events account for\<close>

definition evicted_total :: "sweep_event list \<Rightarrow> nat" where
  "evicted_total evs = sum_list (map (\<lambda>ev. case ev of Tel_Evicted _ n \<Rightarrow> n | Tel_Quarantined _ _ \<Rightarrow> 0) evs)"

definition quarantines_told :: "sweep_event list \<Rightarrow> (string \<times> u32) multiset" where
  "quarantines_told evs = mset (concat (map (\<lambda>ev. case ev of Tel_Quarantined f n \<Rightarrow> [(f, n)] | Tel_Evicted _ _ \<Rightarrow> []) evs))"

definition in_quarantine :: "(string \<rightharpoonup> mem_job) \<Rightarrow> string \<Rightarrow> bool" where
  "in_quarantine m i \<longleftrightarrow> (case m i of None \<Rightarrow> False | Some j \<Rightarrow> jstate j = ''quarantined'')"

definition mark_of :: "(string \<rightharpoonup> mem_job) \<Rightarrow> string \<Rightarrow> string \<times> u32" where
  "mark_of m i = (fingerprint (env (the (m i))), crash_attempt (env (the (m i))))"

text \<open>The rows that disappeared are counted, the rows that entered quarantine are named with their
  fingerprint and crashes, no row appeared, and a row in quarantine is as it was.\<close>

definition accounted :: "sweep_event list \<Rightarrow> (string \<rightharpoonup> mem_job) \<Rightarrow> (string \<rightharpoonup> mem_job) \<Rightarrow> bool" where
  "accounted evs m m' \<longleftrightarrow>
     dom m' \<subseteq> dom m \<and> evicted_total evs = card (dom m - dom m') \<and>
     quarantines_told evs = image_mset (mark_of m') (mset_set {i. in_quarantine m' i \<and> \<not> in_quarantine m i}) \<and>
     (\<forall>i. in_quarantine m i \<longrightarrow> m' i = m i)"

lemma told_quarantine_events:
  "evicted_total (quarantine_events rs) = 0"
  "quarantines_told (quarantine_events rs) = mset (map (\<lambda>r. (rc_fingerprint r, rc_crash_attempt r)) (filter rc_quarantined rs))"
  by (induction rs) (simp_all add: evicted_total_def quarantines_told_def quarantine_events_def)

lemma no_new_quarantine:
  assumes "\<And>i. in_quarantine m' i \<Longrightarrow> in_quarantine m i"
  shows "mset_set {i. in_quarantine m' i \<and> \<not> in_quarantine m i} = {#}"
proof -
  have "{i. in_quarantine m' i \<and> \<not> in_quarantine m i} = {}" using assms by blast
  then show ?thesis by (simp only: mset_set.empty)
qed

lemma accounted_quiet:
  assumes "dom m' = dom m" "\<And>i. in_quarantine m i \<or> in_quarantine m' i \<Longrightarrow> m' i = m i"
  shows "accounted [] m m'"
proof -
  have "in_quarantine m i" if "in_quarantine m' i" for i
    using that assms(2) [of i] by (simp add: in_quarantine_def)
  from no_new_quarantine [OF this] assms show ?thesis by (simp add: accounted_def evicted_total_def quarantines_told_def)
qed

section \<open>What the duties rely on\<close>

text \<open>Each sweep reports exactly what it did to the rows, and one that fails did nothing.\<close>

locale sweeps =
  fixes ops :: "'w duty_ops" and rows :: "'w \<Rightarrow> string \<rightharpoonup> mem_job"
  assumes claim: "do_claim_duty ops duty holder d w = (r, w') \<Longrightarrow> rows w' = rows w"
    and reclaim: "do_reclaim_expired ops n w = (Inr rs, w') \<Longrightarrow> accounted (quarantine_events rs) (rows w) (rows w')"
    and promote: "accounted [] (rows w) (rows (snd (do_promote_due ops n w)))"
    and evict: "do_evict_retained ops n w = (Inr k, w') \<Longrightarrow> accounted [Tel_Evicted [] k] (rows w) (rows w')"
    and reclaim_failed: "do_reclaim_expired ops n w = (Inl e, w') \<Longrightarrow> rows w' = rows w"
    and evict_failed: "do_evict_retained ops n w = (Inl e, w') \<Longrightarrow> rows w' = rows w"
begin

lemma evict_none: "accounted [Tel_Evicted [] 0] m m' \<Longrightarrow> accounted [] m m'"
  by (simp add: accounted_def evicted_total_def quarantines_told_def)

lemma nothing_done: "rows w' = rows w \<Longrightarrow> accounted [] (rows w) (rows w')"
  by (rule accounted_quiet) simp_all

lemma reclaimer_accounted: "run_duty ops ''reclaimer'' w = (evs, w') \<Longrightarrow> accounted evs (rows w) (rows w')"
  using reclaim [of 1000 w] nothing_done [OF reclaim_failed [of 1000 w]]
  by (cases "do_reclaim_expired ops 1000 w") (auto simp: run_duty_def split: sum.splits)

lemma retention_accounted: "run_duty ops ''retention'' w = (evs, w') \<Longrightarrow> accounted evs (rows w) (rows w')"
  using evict [of 1000 w] nothing_done [OF evict_failed [of 1000 w]] evict_none [of "rows w"]
  by (cases "do_evict_retained ops 1000 w") (auto simp: run_duty_def split: sum.splits if_splits)

lemma run_accounted:
  assumes "run_duty ops duty w = (evs, w')"
    and "duty \<in> {''reclaimer'', ''promoter'', ''retention''} \<or> do_inspect ops = None"
  shows "accounted evs (rows w) (rows w')"
proof -
  consider "duty = ''reclaimer''" | "duty = ''retention''" | "duty = ''promoter''"
    | "duty \<notin> {''reclaimer'', ''retention'', ''promoter''}" by blast
  then show ?thesis
  proof cases
    case 3
    with assms(1) promote [of w 10000] show ?thesis by (auto simp: run_duty_def)
  next
    case 4
    with assms nothing_done [of w w] show ?thesis by (auto simp: run_duty_def)
  qed (use assms(1) reclaimer_accounted retention_accounted in blast)+
qed

lemma tick_accounted:
  assumes "duty_tick ops d holder duty w = (evs, w')"
    and "duty \<in> {''reclaimer'', ''promoter'', ''retention''} \<or> do_inspect ops = None"
  shows "accounted evs (rows w) (rows w')"
proof -
  obtain r w1 where c: "do_claim_duty ops duty holder (d * 2) w = (r, w1)" by fastforce
  show ?thesis
  proof (cases "r = Inr True")
    case True
    with c assms(1) have "run_duty ops duty w1 = (evs, w')" by (simp add: duty_tick_def)
    from run_accounted [OF this assms(2)] claim [OF c] show ?thesis by simp
  next
    case False
    with c assms(1) have "evs = []" "w' = w1" by (auto simp: duty_tick_def split: sum.splits bool.splits)
    with nothing_done [OF claim [OF c]] show ?thesis by simp
  qed
qed

end

section \<open>The duties against the in-memory store\<close>

text \<open>The order is the one the store's hash map yields. The store of the test kit has no inspection surface;
  the one of another backend is a parameter here.\<close>

definition mem_duty_ops ::
  "mem_config \<Rightarrow> string list \<Rightarrow> (i64 \<times> inner) duty_inspect option \<Rightarrow> (i64 \<times> inner) duty_ops" where
  "mem_duty_ops mc ord insp =
     \<lparr>do_claim_duty = (\<lambda>duty holder d. at_clock (\<lambda>now. claim_duty now duty holder d)),
      do_reclaim_expired = (\<lambda>n. at_clock (\<lambda>now. reclaim_expired mc now ord n)),
      do_promote_due = (\<lambda>n. at_clock (\<lambda>now. promote_due now ord n)),
      do_evict_retained = (\<lambda>n. at_clock (\<lambda>now. evict_retained now ord n)),
      do_inspect = insp\<rparr>"

lemma claim_duty_jobs: "jobs (snd (claim_duty now duty holder d s)) = jobs s"
  by (simp add: claim_duty_def)

lemma reclaim_accounted:
  assumes "distinct ord" "reclaim_expired mc now ord n s = (Inr rs, s')"
  shows "accounted (quarantine_events rs) (jobs s) (jobs s')"
proof -
  define T where "T = take (nat n) (expired_ids now ord s)"
  define Q where "Q = (\<lambda>i. crash_limit mc \<le> crash_attempt (env (the (jobs s i))) + 1)"
  have rs: "rs = map (\<lambda>i. reclaim_entry mc i (the (jobs s i))) T"
    using reclaim_expired_eq(1) [OF assms(1), of mc now n s] assms(2) by (simp add: T_def)
  have s': "jobs s' i = (if i \<in> set T then map_option (crashed_row mc now) (jobs s i) else jobs s i)" for i
    using reclaim_expired_eq(2) [OF assms(1), of mc now n s i] assms(2) by (simp add: T_def)
  have T: "\<exists>j. jobs s i = Some j \<and> expired now j" if "i \<in> set T" for i using expired_ids_row that by (auto simp: T_def)
  have "distinct T" using distinct_ids(1) [OF assms(1)] by (simp add: T_def)
  have dom: "dom (jobs s') = dom (jobs s)" by (auto simp: dom_def s' split: if_splits)
  have "{i. in_quarantine (jobs s') i \<and> \<not> in_quarantine (jobs s) i} = set (filter Q T)"
    using T by (auto simp: in_quarantine_def s' Q_def expired_def split: option.splits if_splits) fastforce+
  then have new: "mset_set {i. in_quarantine (jobs s') i \<and> \<not> in_quarantine (jobs s) i} = mset (filter Q T)"
    using \<open>distinct T\<close> by (simp only: mset_set_set distinct_filter)
  have fil: "filter rc_quarantined rs = map (\<lambda>i. reclaim_entry mc i (the (jobs s i))) (filter Q T)"
    by (simp add: rs filter_map o_def reclaim_entry_def Q_def)
  have mark: "map (\<lambda>r. (rc_fingerprint r, rc_crash_attempt r)) (filter rc_quarantined rs) = map (mark_of (jobs s')) (filter Q T)"
    unfolding fil map_map using T by (intro map_cong) (fastforce simp: mark_of_def reclaim_entry_def s')+
  have "jobs s' i = jobs s i" if "in_quarantine (jobs s) i" for i
    using that T [of i] by (auto simp: in_quarantine_def s' expired_def)
  then show ?thesis by (simp add: accounted_def told_quarantine_events mark new dom)
qed

lemma promote_accounted:
  assumes "distinct ord"
  shows "accounted [] (jobs s) (jobs (snd (promote_due now ord n s)))"
proof (rule accounted_quiet)
  note s' = promote_due_eq(2) [OF assms, of now n s]
  show "dom (jobs (snd (promote_due now ord n s))) = dom (jobs s)" by (auto simp: dom_def s' split: if_splits)
  fix i
  assume "in_quarantine (jobs s) i \<or> in_quarantine (jobs (snd (promote_due now ord n s))) i"
  then show "jobs (snd (promote_due now ord n s)) i = jobs s i"
    using due_ids_row [of i "nat n" now ord s] by (auto simp: in_quarantine_def s' due_def)
qed

lemma evict_accounted:
  assumes "distinct ord" "evict_retained now ord n s = (Inr k, s')"
  shows "accounted [Tel_Evicted [] k] (jobs s) (jobs s')"
proof -
  define T where "T = take (nat (max n 0)) (lapsed_ids now ord s)"
  have k: "k = length T" and s': "jobs s' = (\<lambda>i. if i \<in> set T then None else jobs s i)"
    using assms(2) by (auto simp: evict_retained_eq T_def foldl_del_jobs)
  have T: "\<exists>j. jobs s i = Some j \<and> lapsed now j" if "i \<in> set T" for i using lapsed_ids_row that by (auto simp: T_def)
  have "distinct T" using distinct_ids(3) [OF assms(1)] by (simp add: T_def)
  moreover have "dom (jobs s) - dom (jobs s') = set T" using T by (auto simp: s' split: if_splits)
  ultimately have "card (dom (jobs s) - dom (jobs s')) = k" by (simp add: k distinct_card)
  moreover have "mset_set {i. in_quarantine (jobs s') i \<and> \<not> in_quarantine (jobs s) i} = {#}"
    by (rule no_new_quarantine) (auto simp: in_quarantine_def s' split: if_splits)
  moreover have "jobs s' i = jobs s i" if "in_quarantine (jobs s) i" for i
    using that T [of i] by (auto simp: in_quarantine_def s' lapsed_def)
  moreover have "dom (jobs s') \<subseteq> dom (jobs s)" by (auto simp: s' split: if_splits)
  ultimately show ?thesis by (simp add: accounted_def evicted_total_def quarantines_told_def)
qed

interpretation mem_sweeps: sweeps "mem_duty_ops mc (remdups ord) insp" "\<lambda>w. jobs (snd w)"
  for mc :: mem_config and ord :: "string list" and insp :: "(i64 \<times> inner) duty_inspect option"
proof
  show "jobs (snd w') = jobs (snd w)" if "do_claim_duty (mem_duty_ops mc (remdups ord) insp) duty holder d w = (r, w')"
    for duty holder d w r w'
    using that claim_duty_jobs [of "fst w" duty holder d "snd w"]
    by (auto simp: mem_duty_ops_def at_clock_def split: prod.splits)
  show "accounted (quarantine_events rs) (jobs (snd w)) (jobs (snd w'))"
    if "do_reclaim_expired (mem_duty_ops mc (remdups ord) insp) n w = (Inr rs, w')" for n w rs w'
    using that reclaim_accounted [OF distinct_remdups]
    by (auto simp: mem_duty_ops_def at_clock_def split: prod.splits)
  show "accounted [] (jobs (snd w)) (jobs (snd (snd (do_promote_due (mem_duty_ops mc (remdups ord) insp) n w))))" for n w
    using promote_accounted [OF distinct_remdups, of "snd w" "fst w" ord n]
    by (auto simp: mem_duty_ops_def at_clock_def split: prod.splits)
  show "accounted [Tel_Evicted [] k] (jobs (snd w)) (jobs (snd w'))"
    if "do_evict_retained (mem_duty_ops mc (remdups ord) insp) n w = (Inr k, w')" for n w k w'
    using that evict_accounted [OF distinct_remdups]
    by (auto simp: mem_duty_ops_def at_clock_def split: prod.splits)
  show "jobs (snd w') = jobs (snd w)" if "do_reclaim_expired (mem_duty_ops mc (remdups ord) insp) n w = (Inl e, w')" for n w e w'
    using that by (auto simp: mem_duty_ops_def at_clock_def reclaim_expired_def split: prod.splits)
  show "jobs (snd w') = jobs (snd w)" if "do_evict_retained (mem_duty_ops mc (remdups ord) insp) n w = (Inl e, w')" for n w e w'
    using that by (auto simp: mem_duty_ops_def at_clock_def evict_retained_def Let_def split: prod.splits)
qed

lemma inspection_quiet:
  assumes "duty_tick ops d holder duty w = (evs, w')" "duty \<notin> {''reclaimer'', ''promoter'', ''retention''}"
  shows "evs = []"
  using assms by (auto simp: duty_tick_def run_duty_def split: prod.splits sum.splits bool.splits option.splits if_splits)

text \<open>C16. No tick of the reclaimer, of the promoter or of the retention sweep is silent about what it
  takes away: whether or not it gets the duty, the evictions it reports add up to the number of rows
  that disappeared, the quarantines it reports are the rows that entered quarantine, each with its
  fingerprint and its crashes, no row appears, and a row in quarantine is neither deleted nor changed.
  On a backend with no inspection surface this is so of every duty. On one that has such a surface,
  the scheduler, the operations and the quarantine duty run whatever that surface does, and publish no
  event for it.\<close>

theorem sweeps_never_silent:
  assumes "duty_tick (mem_duty_ops mc (remdups ord) insp) interval holder duty (now, s) = (evs, now', s')"
  shows "(duty \<in> {''reclaimer'', ''promoter'', ''retention''} \<or> insp = None \<longrightarrow> accounted evs (jobs s) (jobs s')) \<and>
    (duty \<notin> {''reclaimer'', ''promoter'', ''retention''} \<longrightarrow> evs = [])"
proof -
  have "do_inspect (mem_duty_ops mc (remdups ord) insp) = insp" by (simp add: mem_duty_ops_def)
  with mem_sweeps.tick_accounted [OF assms] inspection_quiet [OF assms] show ?thesis by simp
qed

section \<open>A tick finishes the work\<close>

definition free_for :: "string \<Rightarrow> i64 \<Rightarrow> (string \<times> i64) option \<Rightarrow> bool" where
  "free_for holder now d \<longleftrightarrow> (case d of None \<Rightarrow> True | Some (h, expires) \<Rightarrow> expires \<le> now \<or> h = holder)"

definition rows_with :: "(mem_job \<Rightarrow> bool) \<Rightarrow> inner \<Rightarrow> string set" where
  "rows_with P s = {i. case jobs s i of None \<Rightarrow> False | Some j \<Rightarrow> P j}"

lemma claim_free:
  "d \<noteq> 0 \<Longrightarrow> free_for holder now (duties s duty) \<Longrightarrow>
   claim_duty now duty holder d s =
     (Inr True, s\<lparr>duties := (duties s)(duty \<mapsto> (holder, wrap64 (now + wrap64 (int (as_millis d)))))\<rparr>)"
  by (auto simp: claim_duty_def free_for_def split: option.splits)

lemma tick_free:
  assumes "interval \<noteq> 0" "free_for holder now (duties s duty)"
  shows "\<exists>s1. jobs s1 = jobs s \<and>
    duty_tick (mem_duty_ops mc ord insp) interval holder duty (now, s) = run_duty (mem_duty_ops mc ord insp) duty (now, s1)"
proof -
  let ?s = "s\<lparr>duties := (duties s)(duty \<mapsto> (holder, wrap64 (now + wrap64 (int (as_millis (interval * 2))))))\<rparr>"
  have "do_claim_duty (mem_duty_ops mc ord insp) duty holder (interval * 2) (now, s) = (Inr True, now, ?s)"
    using claim_free [of "interval * 2" holder now s duty] assms by (simp add: mem_duty_ops_def at_clock_def)
  then have "duty_tick (mem_duty_ops mc ord insp) interval holder duty (now, s) = run_duty (mem_duty_ops mc ord insp) duty (now, ?s)"
    by (simp add: duty_tick_def)
  then show ?thesis by (intro exI [of _ ?s]) simp
qed

lemma filter_all_taken:
  assumes "iter_order (jobs s) ord" "card (rows_with P s) \<le> n" "set xs = set ord" "distinct xs"
  shows "set (take n (filter (\<lambda>i. case jobs s i of None \<Rightarrow> False | Some j \<Rightarrow> P j) xs)) = rows_with P s"
proof -
  let ?f = "filter (\<lambda>i. case jobs s i of None \<Rightarrow> False | Some j \<Rightarrow> P j) xs"
  have "set ?f = rows_with P s"
    using assms(1,3) by (auto simp: rows_with_def iter_order_def split: option.splits)
  moreover from this have "length ?f \<le> n" using assms(2,4) distinct_card [of ?f] by simp
  ultimately show ?thesis by simp
qed

lemma reclaim_finishes:
  assumes "iter_order (jobs s) ord" "card (rows_with (expired now) s) \<le> n"
  shows "rows_with (expired now) (snd (reclaim_expired mc now ord (int n) s)) = {}"
proof -
  have d: "distinct ord" using assms(1) by (simp add: iter_order_def)
  have "set (take n (expired_ids now ord s)) = rows_with (expired now) s"
    using filter_all_taken [OF assms(1,2), of "sort ord"] d by (simp add: expired_ids_def)
  then show ?thesis
    by (auto simp: rows_with_def reclaim_expired_eq(2) [OF d] expired_def split: option.splits if_splits)
qed

lemma promote_finishes:
  assumes "iter_order (jobs s) ord" "card (rows_with (due now) s) \<le> n"
  shows "rows_with (due now) (snd (promote_due now ord (int n) s)) = {}"
proof -
  have d: "distinct ord" using assms(1) by (simp add: iter_order_def)
  have "set (take n (due_ids now ord s)) = rows_with (due now) s"
    using filter_all_taken [OF assms(1,2), of ord] d by (simp add: due_ids_def)
  then show ?thesis
    by (auto simp: rows_with_def promote_due_eq(2) [OF d] due_def split: option.splits if_splits)
qed

lemma evict_finishes:
  assumes "iter_order (jobs s) ord" "card (rows_with (lapsed now) s) \<le> n"
  shows "rows_with (lapsed now) (snd (evict_retained now ord (int n) s)) = {}"
proof -
  have d: "distinct ord" using assms(1) by (simp add: iter_order_def)
  have "set (take n (lapsed_ids now ord s)) = rows_with (lapsed now) s"
    using filter_all_taken [OF assms(1,2), of ord] d by (simp add: lapsed_ids_def)
  then show ?thesis
    by (auto simp: rows_with_def evict_retained_eq foldl_del_jobs split: option.splits if_splits)
qed

lemma mem_run_duty:
  "snd (run_duty (mem_duty_ops mc ord insp) ''reclaimer'' (now, s)) = (now, snd (reclaim_expired mc now ord 1000 s))"
  "snd (run_duty (mem_duty_ops mc ord insp) ''promoter'' (now, s)) = (now, snd (promote_due now ord 10000 s))"
  "snd (run_duty (mem_duty_ops mc ord insp) ''retention'' (now, s)) = (now, snd (evict_retained now ord 1000 s))"
  by (simp_all add: run_duty_def mem_duty_ops_def at_clock_def split: prod.splits sum.splits)

definition work_of :: "string \<Rightarrow> i64 \<Rightarrow> mem_job \<Rightarrow> bool" where
  "work_of duty now =
     (if duty = ''reclaimer'' then expired now else if duty = ''promoter'' then due now
      else if duty = ''retention'' then lapsed now else (\<lambda>_. False))"

definition sweep_limit :: "string \<Rightarrow> nat" where
  "sweep_limit duty = (if duty = ''promoter'' then 10000 else 1000)"

lemma rows_with_false: "rows_with (\<lambda>_. False) s = {}"
  by (auto simp: rows_with_def split: option.splits)

text \<open>C17. A duty is never stuck on a holder that is gone, and a tick finishes its work: when the duty is
  free, its lease has run out or the worker holds it itself, one tick of the reclaimer leaves no expired
  lease, one tick of the promoter no due job that still waits, one tick of the retention sweep no lapsed
  row, unless there was more of it than the sweep's limit.\<close>

theorem duty_tick_finishes:
  assumes "interval \<noteq> 0" "free_for holder now (duties s duty)" "iter_order (jobs s) ord"
    and "card (rows_with (work_of duty now) s) \<le> sweep_limit duty"
    and "duty_tick (mem_duty_ops mc ord insp) interval holder duty (now, s) = (evs, now', s')"
  shows "rows_with (work_of duty now) s' = {}"
proof -
  obtain s1 where s1: "jobs s1 = jobs s" "run_duty (mem_duty_ops mc ord insp) duty (now, s1) = (evs, now', s')"
    using tick_free [OF assms(1,2), of mc ord insp] assms(5) by auto
  have ord: "iter_order (jobs s1) ord" using assms(3) s1(1) by simp
  have card: "card (rows_with (work_of duty now) s1) \<le> sweep_limit duty" using assms(4) s1(1) by (simp add: rows_with_def)
  have s': "snd (run_duty (mem_duty_ops mc ord insp) duty (now, s1)) = (now', s')" using s1(2) by simp
  consider "duty = ''reclaimer''" | "duty = ''promoter''" | "duty = ''retention''"
    | "duty \<notin> {''reclaimer'', ''retention'', ''promoter''}" by blast
  then show ?thesis
  proof cases
    case 1
    with s' card reclaim_finishes [OF ord, of now 1000 mc] show ?thesis
      by (auto simp: mem_run_duty work_of_def sweep_limit_def)
  next
    case 2
    with s' card promote_finishes [OF ord, of now 10000] show ?thesis
      by (auto simp: mem_run_duty work_of_def sweep_limit_def)
  next
    case 3
    with s' card evict_finishes [OF ord, of now 1000] show ?thesis
      by (auto simp: mem_run_duty work_of_def sweep_limit_def)
  qed (simp add: work_of_def rows_with_false)
qed

section \<open>Witnesses\<close>

text \<open>A store with an expired lease, a due job and a lapsed row; the duty is free.\<close>

lemma sweep_store_free: "free_for holder now (duties sweep_store duty)"
  by (simp add: free_for_def sweep_store_def run_store_def inner_default_def)

lemma retention_tick:
  "\<exists>s'. duty_tick (mem_duty_ops mem_config_new [''a'', ''b'', ''c''] None) 1 ''w'' ''retention'' (60, sweep_store) =
     ([Tel_Evicted [] 1], 60, s')"
proof -
  obtain s1 where s1: "jobs s1 = jobs sweep_store"
    "duty_tick (mem_duty_ops mem_config_new [''a'', ''b'', ''c''] None) 1 ''w'' ''retention'' (60, sweep_store) =
     run_duty (mem_duty_ops mem_config_new [''a'', ''b'', ''c''] None) ''retention'' (60, s1)"
    using tick_free [of 1, OF _ sweep_store_free] by (metis one_neq_zero)
  have "lapsed_ids 60 [''a'', ''b'', ''c''] s1 = [''c'']"
    using sweep_ids(3) s1(1) by (simp add: lapsed_ids_def)
  with s1(2) show ?thesis by (simp add: run_duty_def mem_duty_ops_def at_clock_def evict_retained_eq)
qed

theorem sweeps_never_silent_witness:
  "\<exists>s'. duty_tick (mem_duty_ops mem_config_new (remdups [''a'', ''b'', ''c'']) None) 1 ''w'' ''retention'' (60, sweep_store) =
      ([Tel_Evicted [] 1], 60, s') \<and> accounted [Tel_Evicted [] 1] (jobs sweep_store) (jobs s')"
proof -
  have ord: "remdups [''a'', ''b'', ''c''] = [''a'', ''b'', ''c'']" by simp
  obtain s' where "duty_tick (mem_duty_ops mem_config_new (remdups [''a'', ''b'', ''c'']) None) 1 ''w'' ''retention'' (60, sweep_store) =
      ([Tel_Evicted [] 1], 60, s')" using retention_tick unfolding ord by blast
  with sweeps_never_silent [OF this] show ?thesis by blast
qed

lemma sweep_store_lapsed: "rows_with (work_of ''retention'' 60) sweep_store = {''c''}"
  by (auto simp: rows_with_def work_of_def sweep_store_jobs lapsed_def run_store_sel run_row_times wrap64_id in_i64_def
      split: if_splits)

theorem duty_tick_finishes_witness:
  "rows_with (work_of ''retention'' 60) sweep_store = {''c''} \<and>
   (\<exists>evs s'. duty_tick (mem_duty_ops mem_config_new [''a'', ''b'', ''c''] None) 1 ''w'' ''retention'' (60, sweep_store) =
      (evs, 60, s') \<and> rows_with (work_of ''retention'' 60) s' = {})"
proof -
  obtain s' where "duty_tick (mem_duty_ops mem_config_new [''a'', ''b'', ''c''] None) 1 ''w'' ''retention'' (60, sweep_store) =
      ([Tel_Evicted [] 1], 60, s')" using retention_tick by blast
  with duty_tick_finishes [OF _ sweep_store_free sweep_order _ this] sweep_store_lapsed show ?thesis
    by (auto simp: sweep_limit_def)
qed

end
