(* ===== verification/EventBus.thy ===== *)
theory EventBus
  imports Attempt "HOL-Library.Sublist"
begin

text \<open>
  The event bus of the application (headgate/src/subscription.rs): bounded, filtered streams of job
  events in one process. A bounded channel of the runtime is a capacity, a queue and a receiver that is
  there or gone; channels are a heap, since the bus and the subscription share one together with the
  counter of dropped events. Events carry everything but the wall clock.
\<close>

section \<open>Configuration and channels\<close>

record subscription_config =
  sc_capacity :: nat
  sc_kinds :: "job_event_kind set"

datatype subscription_config_error = SubscriptionConfigError

definition subscription_config_new :: "nat \<Rightarrow> subscription_config_error + subscription_config" where
  "subscription_config_new capacity =
     (if capacity = 0 then Inl SubscriptionConfigError else Inr \<lparr>sc_capacity = capacity, sc_kinds = {}\<rparr>)"

definition with_kinds :: "job_event_kind set \<Rightarrow> subscription_config \<Rightarrow> subscription_config" where
  "with_kinds ks cfg = cfg\<lparr>sc_kinds := sc_kinds cfg \<union> ks\<rparr>"

record channel =
  ch_capacity :: nat
  ch_queue :: "job_event list"
  ch_receiver :: bool
  ch_dropped :: u64

datatype try_send = Sent | Full | Closed

definition try_send :: "job_event \<Rightarrow> channel \<Rightarrow> try_send \<times> channel" where
  "try_send ev ch =
     (if \<not> ch_receiver ch then (Closed, ch)
      else if length (ch_queue ch) < ch_capacity ch then (Sent, ch\<lparr>ch_queue := ch_queue ch @ [ev]\<rparr>)
      else (Full, ch))"

section \<open>The bus\<close>

record subscriber =
  sb_kinds :: "job_event_kind set"
  sb_channel :: nat

record event_bus =
  bus_next_id :: u64
  bus_subscribers :: "u64 \<rightharpoonup> subscriber"
  bus_channels :: "nat \<rightharpoonup> channel"
  bus_fresh :: nat

record subscription =
  su_id :: u64
  su_channel :: nat

definition event_bus_new :: event_bus where
  "event_bus_new = \<lparr>bus_next_id = 0, bus_subscribers = Map.empty, bus_channels = Map.empty, bus_fresh = 0\<rparr>"

definition subscribe :: "subscription_config \<Rightarrow> event_bus \<Rightarrow> subscription \<times> event_bus" where
  "subscribe cfg b =
     (let c = bus_fresh b; i = max (bus_next_id b + 1) 1
      in (\<lparr>su_id = i, su_channel = c\<rparr>,
          \<lparr>bus_next_id = i, bus_subscribers = (bus_subscribers b)(i \<mapsto> \<lparr>sb_kinds = sc_kinds cfg, sb_channel = c\<rparr>),
           bus_channels = (bus_channels b)(c \<mapsto>
             \<lparr>ch_capacity = sc_capacity cfg, ch_queue = [], ch_receiver = True, ch_dropped = 0\<rparr>),
           bus_fresh = c + 1\<rparr>))"

definition wants :: "job_event_kind set \<Rightarrow> job_event \<Rightarrow> bool" where
  "wants ks ev \<longleftrightarrow> ks = {} \<or> je_kind ev \<in> ks"

definition offer :: "job_event \<Rightarrow> u64 list \<times> event_bus \<Rightarrow> u64 \<Rightarrow> u64 list \<times> event_bus" where
  "offer ev acc i =
     (case acc of (closed, b) \<Rightarrow>
        case bus_subscribers b i of
          None \<Rightarrow> acc
        | Some sb \<Rightarrow>
            if \<not> wants (sb_kinds sb) ev then acc
            else case bus_channels b (sb_channel sb) of
                   None \<Rightarrow> acc
                 | Some ch \<Rightarrow>
                     (case try_send ev ch of
                        (Sent, ch') \<Rightarrow> (closed, b\<lparr>bus_channels := (bus_channels b)(sb_channel sb \<mapsto> ch')\<rparr>)
                      | (Full, ch') \<Rightarrow>
                          (closed, b\<lparr>bus_channels := (bus_channels b)(sb_channel sb \<mapsto>
                             ch'\<lparr>ch_dropped := ch_dropped ch' + 1\<rparr>)\<rparr>)
                      | (Closed, ch') \<Rightarrow> (closed @ [i], b)))"

definition unsubscribe :: "u64 \<Rightarrow> event_bus \<Rightarrow> event_bus" where
  "unsubscribe i b = b\<lparr>bus_subscribers := (bus_subscribers b)(i := None)\<rparr>"

text \<open>The order is the one in which the hash map of subscribers yields its keys.\<close>

definition publish :: "u64 list \<Rightarrow> job_event \<Rightarrow> event_bus \<Rightarrow> event_bus" where
  "publish ord ev b = (case foldl (offer ev) ([], b) ord of (closed, b1) \<Rightarrow> fold unsubscribe closed b1)"

section \<open>The subscription\<close>

datatype received = Received job_event | Would_Wait | Disconnected

text \<open>The sender of a subscription lives in the bus. \<open>recv\<close> waits where \<open>try_recv\<close> says that the channel
  is empty.\<close>

definition try_recv :: "subscription \<Rightarrow> event_bus \<Rightarrow> received \<times> event_bus" where
  "try_recv sub b =
     (case bus_channels b (su_channel sub) of
        None \<Rightarrow> (Disconnected, b)
      | Some ch \<Rightarrow>
          (case ch_queue ch of
             ev # q \<Rightarrow> (Received ev, b\<lparr>bus_channels := (bus_channels b)(su_channel sub \<mapsto> ch\<lparr>ch_queue := q\<rparr>)\<rparr>)
           | [] \<Rightarrow>
               (case bus_subscribers b (su_id sub) of
                  Some sb \<Rightarrow> (if sb_channel sb = su_channel sub then Would_Wait else Disconnected, b)
                | None \<Rightarrow> (Disconnected, b))))"

definition sub_dropped :: "subscription \<Rightarrow> event_bus \<Rightarrow> u64" where
  "sub_dropped sub b = (case bus_channels b (su_channel sub) of None \<Rightarrow> 0 | Some ch \<Rightarrow> ch_dropped ch)"

text \<open>Dropping a subscription: the destructor runs first, then the receiver goes away with what is queued.\<close>

definition drop_subscription :: "subscription \<Rightarrow> event_bus \<Rightarrow> event_bus" where
  "drop_subscription sub b =
     (let b1 = unsubscribe (su_id sub) b
      in b1\<lparr>bus_channels := (case bus_channels b1 (su_channel sub) of
              None \<Rightarrow> bus_channels b1
            | Some ch \<Rightarrow> (bus_channels b1)(su_channel sub \<mapsto> ch\<lparr>ch_queue := [], ch_receiver := False\<rparr>))\<rparr>)"

section \<open>Histories\<close>

text \<open>A history keeps, for every open subscription, the matching events published since it was opened
  and the events it received.\<close>

record stream =
  st_sub :: subscription
  st_config :: subscription_config
  st_offered :: "job_event list"
  st_got :: "job_event list"

definition offered :: "job_event \<Rightarrow> stream \<Rightarrow> stream" where
  "offered ev st = (if wants (sc_kinds (st_config st)) ev then st\<lparr>st_offered := st_offered st @ [ev]\<rparr> else st)"

inductive bus_run :: "event_bus \<Rightarrow> (nat \<rightharpoonup> stream) \<Rightarrow> bool" where
  start: "bus_run event_bus_new Map.empty"
| subscribe: "bus_run b h \<Longrightarrow> sc_capacity cfg \<noteq> 0 \<Longrightarrow> subscribe cfg b = (sub, b') \<Longrightarrow>
    bus_run b' (h(su_channel sub \<mapsto> \<lparr>st_sub = sub, st_config = cfg, st_offered = [], st_got = []\<rparr>))"
| publish: "bus_run b h \<Longrightarrow> iter_order (bus_subscribers b) ord \<Longrightarrow>
    bus_run (publish ord ev b) (\<lambda>c. map_option (offered ev) (h c))"
| recv: "bus_run b h \<Longrightarrow> h c = Some st \<Longrightarrow> try_recv (st_sub st) b = (Received ev, b') \<Longrightarrow>
    bus_run b' (h(c \<mapsto> st\<lparr>st_got := st_got st @ [ev]\<rparr>))"
| dropped: "bus_run b h \<Longrightarrow> h c = Some st \<Longrightarrow> bus_run (drop_subscription (st_sub st) b) (h(c := None))"

section \<open>The streams of a bus\<close>

definition stream_ok :: "channel \<Rightarrow> stream \<Rightarrow> bool" where
  "stream_ok ch st \<longleftrightarrow>
     ch_receiver ch \<and> ch_capacity ch = sc_capacity (st_config st) \<and> length (ch_queue ch) \<le> ch_capacity ch \<and>
     subseq (st_got st @ ch_queue ch) (st_offered st) \<and>
     ch_dropped ch = of_nat (length (st_offered st) - length (st_got st @ ch_queue ch))"

text \<open>While fewer than \<open>2 ^ 64\<close> subscriptions were made, the id of a subscription is the number of its
  channel plus one, so ids do not collide.\<close>

definition bus_ok :: "event_bus \<Rightarrow> (nat \<rightharpoonup> stream) \<Rightarrow> bool" where
  "bus_ok b h \<longleftrightarrow>
     bus_next_id b = of_nat (bus_fresh b) \<and>
     (\<forall>i sb. bus_subscribers b i = Some sb \<longrightarrow>
        i = of_nat (sb_channel sb + 1) \<and> sb_channel sb < bus_fresh b \<and> h (sb_channel sb) \<noteq> None) \<and>
     (\<forall>c st. h c = Some st \<longrightarrow> c < bus_fresh b \<and> st_sub st = \<lparr>su_id = of_nat (c + 1), su_channel = c\<rparr> \<and>
        bus_subscribers b (of_nat (c + 1)) = Some \<lparr>sb_kinds = sc_kinds (st_config st), sb_channel = c\<rparr> \<and>
        (\<exists>ch. bus_channels b c = Some ch \<and> stream_ok ch st))"

definition served :: "job_event \<Rightarrow> channel \<Rightarrow> channel" where
  "served ev ch =
     (if length (ch_queue ch) < ch_capacity ch then ch\<lparr>ch_queue := ch_queue ch @ [ev]\<rparr>
      else ch\<lparr>ch_dropped := ch_dropped ch + 1\<rparr>)"

lemma subseq_snoc: "subseq xs ys \<Longrightarrow> subseq (xs @ [e]) (ys @ [e])" "subseq xs ys \<Longrightarrow> subseq xs (ys @ [e])"
  using list_emb_append_mono [of "(=)" xs ys "[e]" "[e]"] list_emb_append_mono [of "(=)" xs ys "[]" "[e]"] by simp_all

lemma served_ok:
  assumes "stream_ok ch st" "wants (sc_kinds (st_config st)) ev"
  shows "stream_ok (served ev ch) (offered ev st)"
proof -
  have sub: "subseq (st_got st @ ch_queue ch) (st_offered st)" using assms(1) by (simp add: stream_ok_def)
  then have "length (st_got st @ ch_queue ch) \<le> length (st_offered st)" by (rule list_emb_length)
  then have "Suc (length (st_offered st)) - length (st_got st @ ch_queue ch) =
      Suc (length (st_offered st) - length (st_got st @ ch_queue ch))" by simp
  with subseq_snoc [OF sub, of ev] assms show ?thesis
    by (simp add: stream_ok_def served_def offered_def)
qed

definition targets :: "(u64 \<rightharpoonup> subscriber) \<Rightarrow> job_event \<Rightarrow> u64 list \<Rightarrow> nat set" where
  "targets subs ev is = {c. \<exists>i sb. i \<in> set is \<and> subs i = Some sb \<and> wants (sb_kinds sb) ev \<and> sb_channel sb = c}"

definition serve :: "nat set \<Rightarrow> job_event \<Rightarrow> event_bus \<Rightarrow> event_bus" where
  "serve cs ev b = b\<lparr>bus_channels := (\<lambda>c. if c \<in> cs then map_option (served ev) (bus_channels b c) else bus_channels b c)\<rparr>"

definition well_wired :: "event_bus \<Rightarrow> bool" where
  "well_wired b \<longleftrightarrow>
     (\<forall>i sb. bus_subscribers b i = Some sb \<longrightarrow> (\<exists>ch. bus_channels b (sb_channel sb) = Some ch \<and> ch_receiver ch)) \<and>
     (\<forall>i j sb sb'. bus_subscribers b i = Some sb \<longrightarrow> bus_subscribers b j = Some sb' \<longrightarrow>
        sb_channel sb = sb_channel sb' \<longrightarrow> i = j)"

lemma serve_sel [simp]:
  "bus_subscribers (serve cs ev b) = bus_subscribers b" "bus_next_id (serve cs ev b) = bus_next_id b"
  "bus_fresh (serve cs ev b) = bus_fresh b"
  "bus_channels (serve cs ev b) c = (if c \<in> cs then map_option (served ev) (bus_channels b c) else bus_channels b c)"
  by (simp_all add: serve_def)

lemma served_receiver [simp]: "ch_receiver (served ev ch) = ch_receiver ch"
  by (simp add: served_def)

lemma serve_wired: "well_wired b \<Longrightarrow> well_wired (serve cs ev b)"
  by (fastforce simp: well_wired_def)

lemma serve_none: "serve {} ev b = b"
  by (simp add: serve_def)

lemma offer_wired:
  assumes "well_wired b"
  shows "offer ev (cl, b) i = (cl, serve (targets (bus_subscribers b) ev [i]) ev b)"
proof (cases "bus_subscribers b i")
  case None
  then show ?thesis by (simp add: offer_def targets_def serve_none)
next
  case (Some sb)
  with assms obtain ch where ch: "bus_channels b (sb_channel sb) = Some ch" "ch_receiver ch"
    unfolding well_wired_def by blast
  have "targets (bus_subscribers b) ev [i] = (if wants (sb_kinds sb) ev then {sb_channel sb} else {})"
    using Some by (auto simp: targets_def)
  with Some ch show ?thesis
    by (auto simp: offer_def try_send_def serve_def served_def fun_eq_iff)
qed

lemma targets_Cons:
  "targets subs ev (i # is) = targets subs ev [i] \<union> targets subs ev is"
  by (auto simp: targets_def)

lemma serve_union:
  assumes "cs \<inter> ds = {}"
  shows "serve ds ev (serve cs ev b) = serve (cs \<union> ds) ev b"
proof (rule event_bus.equality)
  show "bus_channels (serve ds ev (serve cs ev b)) = bus_channels (serve (cs \<union> ds) ev b)"
    using assms by (auto simp: fun_eq_iff)
qed (simp_all add: serve_def)

lemma targets_disjoint:
  "well_wired b \<Longrightarrow> i \<notin> set is \<Longrightarrow> targets (bus_subscribers b) ev [i] \<inter> targets (bus_subscribers b) ev is = {}"
  by (fastforce simp: targets_def well_wired_def)

lemma offers_wired:
  "well_wired b \<Longrightarrow> distinct is \<Longrightarrow>
   foldl (offer ev) (cl, b) is = (cl, serve (targets (bus_subscribers b) ev is) ev b)"
proof (induction "is" arbitrary: b)
  case Nil
  then show ?case by (simp add: targets_def serve_none)
next
  case (Cons i "is")
  have "foldl (offer ev) (cl, b) (i # is) = foldl (offer ev) (cl, serve (targets (bus_subscribers b) ev [i]) ev b) is"
    using offer_wired [OF Cons.prems(1)] by simp
  also have "\<dots> = (cl, serve (targets (bus_subscribers b) ev is) ev (serve (targets (bus_subscribers b) ev [i]) ev b))"
    using Cons.IH [OF serve_wired [OF Cons.prems(1)]] Cons.prems(2) by simp
  also have "\<dots> = (cl, serve (targets (bus_subscribers b) ev (i # is)) ev b)"
    using serve_union [OF targets_disjoint [OF Cons.prems(1)]] Cons.prems(2) targets_Cons [of _ ev i "is"] by simp
  finally show ?case .
qed

lemma publish_wired:
  assumes "well_wired b" "iter_order (bus_subscribers b) ord"
  shows "publish ord ev b =
    serve {c. \<exists>i sb. bus_subscribers b i = Some sb \<and> wants (sb_kinds sb) ev \<and> sb_channel sb = c} ev b"
proof -
  have "targets (bus_subscribers b) ev ord =
      {c. \<exists>i sb. bus_subscribers b i = Some sb \<and> wants (sb_kinds sb) ev \<and> sb_channel sb = c}"
    using assms(2) by (auto simp: targets_def iter_order_def)
  with offers_wired [OF assms(1), of ord ev "[]"] assms(2) show ?thesis
    by (simp add: publish_def iter_order_def)
qed

section \<open>The invariant\<close>

lemma bus_ok_sub:
  assumes "bus_ok b h" "bus_subscribers b i = Some sb"
  obtains st ch where "i = of_nat (sb_channel sb + 1)" "h (sb_channel sb) = Some st"
    "sb_kinds sb = sc_kinds (st_config st)" "bus_channels b (sb_channel sb) = Some ch" "stream_ok ch st"
proof -
  from assms have i: "i = of_nat (sb_channel sb + 1)" and "h (sb_channel sb) \<noteq> None"
    unfolding bus_ok_def by blast+
  then obtain st where st: "h (sb_channel sb) = Some st" by blast
  with assms(1) have "bus_subscribers b (of_nat (sb_channel sb + 1)) =
      Some \<lparr>sb_kinds = sc_kinds (st_config st), sb_channel = sb_channel sb\<rparr>"
    and ch: "\<exists>ch. bus_channels b (sb_channel sb) = Some ch \<and> stream_ok ch st"
    unfolding bus_ok_def by blast+
  with assms(2) i have "sb = \<lparr>sb_kinds = sc_kinds (st_config st), sb_channel = sb_channel sb\<rparr>" by simp
  then have "sb_kinds sb = sc_kinds (st_config st)" by (cases sb) simp
  with i st ch that show thesis by blast
qed

lemma bus_ok_stream:
  assumes "bus_ok b h" "h c = Some st"
  obtains ch where "c < bus_fresh b" "st_sub st = \<lparr>su_id = of_nat (c + 1), su_channel = c\<rparr>"
    "bus_subscribers b (of_nat (c + 1)) = Some \<lparr>sb_kinds = sc_kinds (st_config st), sb_channel = c\<rparr>"
    "bus_channels b c = Some ch" "stream_ok ch st"
  using assms that unfolding bus_ok_def by blast

lemma bus_ok_wired:
  assumes "bus_ok b h"
  shows "well_wired b"
proof -
  have "\<exists>ch. bus_channels b (sb_channel sb) = Some ch \<and> ch_receiver ch" if "bus_subscribers b i = Some sb" for i sb
    using bus_ok_sub [OF assms that] by (metis stream_ok_def)
  moreover have "i = j" if "bus_subscribers b i = Some sb" "bus_subscribers b j = Some sb'" "sb_channel sb = sb_channel sb'" for i j sb sb'
    using that assms unfolding bus_ok_def by metis
  ultimately show ?thesis unfolding well_wired_def by blast
qed

lemma next_id: "n + 1 < 2 ^ 64 \<Longrightarrow> max ((of_nat n :: u64) + 1) 1 = of_nat (n + 1)"
proof -
  assume "n + 1 < 2 ^ 64"
  then have "(of_nat (n + 1) :: u64) \<noteq> 0"
    by (simp add: word_of_nat_eq_0_iff nat_dvd_not_less del: of_nat_Suc of_nat_add)
  then have "1 \<le> (of_nat (n + 1) :: u64)" using inc_le [of 0 "of_nat (n + 1) :: u64"] by (simp only: word_gt_0 add_0)
  moreover have "(of_nat n :: u64) + 1 = of_nat (n + 1)" by simp
  ultimately show ?thesis by (simp only: max_absorb1)
qed

lemma subscribe_ok:
  assumes ok: "bus_ok b h" and cfg: "subscribe cfg b = (sub, b')" and fresh: "bus_fresh b' < 2 ^ 64"
  shows "bus_ok b' (h(su_channel sub \<mapsto> \<lparr>st_sub = sub, st_config = cfg, st_offered = [], st_got = []\<rparr>))"
proof -
  define c where "c = bus_fresh b"
  define i :: u64 where "i = of_nat (c + 1)"
  have lt: "c + 1 < 2 ^ 64" using cfg fresh by (auto simp: subscribe_def Let_def c_def)
  have "max (bus_next_id b + 1) 1 = i" using ok next_id [OF lt] by (simp add: bus_ok_def i_def c_def)
  then have sub: "sub = \<lparr>su_id = i, su_channel = c\<rparr>" and b': "bus_next_id b' = i" "bus_fresh b' = c + 1"
    "bus_subscribers b' = (bus_subscribers b)(i \<mapsto> \<lparr>sb_kinds = sc_kinds cfg, sb_channel = c\<rparr>)"
    "bus_channels b' = (bus_channels b)(c \<mapsto>
       \<lparr>ch_capacity = sc_capacity cfg, ch_queue = [], ch_receiver = True, ch_dropped = 0\<rparr>)"
    using cfg by (auto simp: subscribe_def Let_def c_def)
  have other: "of_nat (d + 1) \<noteq> i" if "d < c" for d using of_nat_u64_inj [of d c] lt that by (auto simp: i_def)
  show ?thesis
    unfolding bus_ok_def
  proof (intro conjI allI impI)
    show "bus_next_id b' = of_nat (bus_fresh b')" by (simp only: b' i_def)
  next
    fix k sb
    assume "bus_subscribers b' k = Some sb"
    then show "k = of_nat (sb_channel sb + 1)" "sb_channel sb < bus_fresh b'"
      "(h(su_channel sub \<mapsto> \<lparr>st_sub = sub, st_config = cfg, st_offered = [], st_got = []\<rparr>)) (sb_channel sb) \<noteq> None"
      using ok unfolding bus_ok_def b' sub i_def c_def by (auto split: if_splits simp: less_Suc_eq)
  next
    fix d st
    assume st: "(h(su_channel sub \<mapsto> \<lparr>st_sub = sub, st_config = cfg, st_offered = [], st_got = []\<rparr>)) d = Some st"
    let ?goal = "d < bus_fresh b' \<and> st_sub st = \<lparr>su_id = of_nat (d + 1), su_channel = d\<rparr> \<and>
      bus_subscribers b' (of_nat (d + 1)) = Some \<lparr>sb_kinds = sc_kinds (st_config st), sb_channel = d\<rparr> \<and>
      (\<exists>ch. bus_channels b' d = Some ch \<and> stream_ok ch st)"
    have ?goal
    proof (cases "d = c")
      case True
      with st show ?thesis by (auto simp: b' sub stream_ok_def i_def simp del: of_nat_add of_nat_Suc)
    next
      case False
      with st have "h d = Some st" by (simp add: sub)
      from bus_ok_stream [OF ok this] obtain ch where d: "d < c" "st_sub st = \<lparr>su_id = of_nat (d + 1), su_channel = d\<rparr>"
        "bus_subscribers b (of_nat (d + 1)) = Some \<lparr>sb_kinds = sc_kinds (st_config st), sb_channel = d\<rparr>"
        "bus_channels b d = Some ch" "stream_ok ch st" unfolding c_def by blast
      have "bus_subscribers b' (of_nat (d + 1)) = bus_subscribers b (of_nat (d + 1))"
        using other [OF d(1)] by (simp only: b' fun_upd_def if_False)
      moreover have "bus_channels b' d = bus_channels b d" using False by (simp add: b')
      ultimately show ?thesis using d by (simp only: b') auto
    qed
    then show "d < bus_fresh b'" "st_sub st = \<lparr>su_id = of_nat (d + 1), su_channel = d\<rparr>"
      "bus_subscribers b' (of_nat (d + 1)) = Some \<lparr>sb_kinds = sc_kinds (st_config st), sb_channel = d\<rparr>"
      "\<exists>ch. bus_channels b' d = Some ch \<and> stream_ok ch st" by blast+
  qed
qed

lemma bus_okI:
  assumes "bus_next_id b' = bus_next_id b" "bus_fresh b' = bus_fresh b" "bus_ok b h"
    and "\<And>i sb. bus_subscribers b' i = Some sb \<Longrightarrow> bus_subscribers b i = Some sb \<and> h' (sb_channel sb) \<noteq> None"
    and "\<And>c st'. h' c = Some st' \<Longrightarrow> \<exists>st ch. h c = Some st \<and> st_sub st' = st_sub st \<and> st_config st' = st_config st \<and>
      bus_subscribers b' (of_nat (c + 1)) = bus_subscribers b (of_nat (c + 1)) \<and>
      bus_channels b' c = Some ch \<and> stream_ok ch st'"
  shows "bus_ok b' h'"
  unfolding bus_ok_def
proof (intro conjI allI impI)
  show "bus_next_id b' = of_nat (bus_fresh b')" using assms(1-3) by (simp add: bus_ok_def)
next
  fix i sb
  assume "bus_subscribers b' i = Some sb"
  from assms(4) [OF this] have "bus_subscribers b i = Some sb" and h': "h' (sb_channel sb) \<noteq> None" by blast+
  with assms(3) have "i = of_nat (sb_channel sb + 1) \<and> sb_channel sb < bus_fresh b" unfolding bus_ok_def by blast
  with h' assms(2) show "i = of_nat (sb_channel sb + 1)" "sb_channel sb < bus_fresh b'" "h' (sb_channel sb) \<noteq> None" by simp_all
next
  fix c st'
  assume "h' c = Some st'"
  from assms(5) [OF this] obtain st ch where st: "h c = Some st" "st_sub st' = st_sub st" "st_config st' = st_config st"
    "bus_subscribers b' (of_nat (c + 1)) = bus_subscribers b (of_nat (c + 1))" "bus_channels b' c = Some ch" "stream_ok ch st'"
    by blast
  from bus_ok_stream [OF assms(3) st(1)] have "c < bus_fresh b" "st_sub st = \<lparr>su_id = of_nat (c + 1), su_channel = c\<rparr>"
    "bus_subscribers b (of_nat (c + 1)) = Some \<lparr>sb_kinds = sc_kinds (st_config st), sb_channel = c\<rparr>" by blast+
  with st assms(2) show "c < bus_fresh b'" "st_sub st' = \<lparr>su_id = of_nat (c + 1), su_channel = c\<rparr>"
    "bus_subscribers b' (of_nat (c + 1)) = Some \<lparr>sb_kinds = sc_kinds (st_config st'), sb_channel = c\<rparr>"
    "\<exists>ch. bus_channels b' c = Some ch \<and> stream_ok ch st'" by (simp_all only:) blast
qed

lemma offered_sel [simp]: "st_sub (offered ev st) = st_sub st" "st_config (offered ev st) = st_config st"
  by (simp_all add: offered_def)

lemma publish_ok:
  assumes ok: "bus_ok b h" and ord: "iter_order (bus_subscribers b) ord"
  shows "bus_ok (publish ord ev b) (\<lambda>c. map_option (offered ev) (h c))"
proof -
  let ?cs = "{c. \<exists>i sb. bus_subscribers b i = Some sb \<and> wants (sb_kinds sb) ev \<and> sb_channel sb = c}"
  have b': "publish ord ev b = serve ?cs ev b" by (rule publish_wired [OF bus_ok_wired [OF ok] ord])
  show ?thesis
    unfolding b'
  proof (rule bus_okI [OF _ _ ok])
    fix i sb
    assume "bus_subscribers (serve ?cs ev b) i = Some sb"
    then have sb: "bus_subscribers b i = Some sb" by simp
    from bus_ok_sub [OF ok this] show "bus_subscribers b i = Some sb \<and> map_option (offered ev) (h (sb_channel sb)) \<noteq> None"
      using sb by (metis option.map_disc_iff option.discI)
  next
    fix c st'
    assume "map_option (offered ev) (h c) = Some st'"
    then obtain st where st: "h c = Some st" "st' = offered ev st" by auto
    from bus_ok_stream [OF ok st(1)] obtain ch where
      c: "bus_subscribers b (of_nat (c + 1)) = Some \<lparr>sb_kinds = sc_kinds (st_config st), sb_channel = c\<rparr>"
        "bus_channels b c = Some ch" "stream_ok ch st" by blast
    have "c \<in> ?cs \<longleftrightarrow> wants (sc_kinds (st_config st)) ev"
    proof
      assume "c \<in> ?cs"
      then obtain i sb where "bus_subscribers b i = Some sb" "wants (sb_kinds sb) ev" "sb_channel sb = c" by blast
      then show "wants (sc_kinds (st_config st)) ev" using bus_ok_sub [OF ok] st(1) by (metis option.inject)
    next
      assume "wants (sc_kinds (st_config st)) ev"
      with c(1) show "c \<in> ?cs" by force
    qed
    then have "bus_channels (serve ?cs ev b) c = Some (if wants (sc_kinds (st_config st)) ev then served ev ch else ch)"
      using c(2) by (simp only: serve_sel option.map split: if_split) blast
    moreover have "stream_ok (if wants (sc_kinds (st_config st)) ev then served ev ch else ch) st'"
      using served_ok [OF c(3)] c(3) by (simp add: st(2) offered_def)
    ultimately show "\<exists>st ch. h c = Some st \<and> st_sub st' = st_sub st \<and> st_config st' = st_config st \<and>
        bus_subscribers (serve ?cs ev b) (of_nat (c + 1)) = bus_subscribers b (of_nat (c + 1)) \<and>
        bus_channels (serve ?cs ev b) c = Some ch \<and> stream_ok ch st'"
      using st by (intro exI [of _ st] exI conjI) (simp_all only: serve_sel offered_sel)
  qed simp_all
qed

lemma recv_ok:
  assumes ok: "bus_ok b h" and c: "h c = Some st" and r: "try_recv (st_sub st) b = (Received ev, b')"
  shows "bus_ok b' (h(c \<mapsto> st\<lparr>st_got := st_got st @ [ev]\<rparr>))"
proof -
  from bus_ok_stream [OF ok c] obtain ch where sub: "su_channel (st_sub st) = c" and ch: "bus_channels b c = Some ch" "stream_ok ch st"
    by (metis subscription.select_convs(2))
  obtain q where q: "ch_queue ch = ev # q" and b': "b' = b\<lparr>bus_channels := (bus_channels b)(c \<mapsto> ch\<lparr>ch_queue := q\<rparr>)\<rparr>"
    using r ch(1) by (auto simp: try_recv_def sub split: list.splits option.splits if_splits)
  show ?thesis
  proof (rule bus_okI [OF _ _ ok])
    fix i sb
    assume "bus_subscribers b' i = Some sb"
    then have "bus_subscribers b i = Some sb" by (simp add: b')
    with bus_ok_sub [OF ok this] show "bus_subscribers b i = Some sb \<and> (h(c \<mapsto> st\<lparr>st_got := st_got st @ [ev]\<rparr>)) (sb_channel sb) \<noteq> None"
      by (metis fun_upd_apply option.discI)
  next
    fix d st'
    assume st': "(h(c \<mapsto> st\<lparr>st_got := st_got st @ [ev]\<rparr>)) d = Some st'"
    show "\<exists>st ch. h d = Some st \<and> st_sub st' = st_sub st \<and> st_config st' = st_config st \<and>
        bus_subscribers b' (of_nat (d + 1)) = bus_subscribers b (of_nat (d + 1)) \<and> bus_channels b' d = Some ch \<and> stream_ok ch st'"
    proof (cases "d = c")
      case True
      have "stream_ok (ch\<lparr>ch_queue := q\<rparr>) (st\<lparr>st_got := st_got st @ [ev]\<rparr>)" using ch(2) q by (simp add: stream_ok_def)
      moreover have "st' = st\<lparr>st_got := st_got st @ [ev]\<rparr>" using True st' by simp
      ultimately show ?thesis using True c by (simp add: b')
    next
      case False
      with st' have "h d = Some st'" by simp
      with bus_ok_stream [OF ok this] False show ?thesis by (simp add: b') blast
    qed
  qed (simp_all add: b')
qed

lemma drop_subscription_ok:
  assumes ok: "bus_ok b h" and c: "h c = Some st" and fresh: "bus_fresh b < 2 ^ 64"
  shows "bus_ok (drop_subscription (st_sub st) b) (h(c := None))"
proof -
  from bus_ok_stream [OF ok c] obtain ch where sub: "st_sub st = \<lparr>su_id = of_nat (c + 1), su_channel = c\<rparr>"
    and ch: "bus_channels b c = Some ch" and lt: "c < bus_fresh b" by blast
  have b': "bus_subscribers (drop_subscription (st_sub st) b) = (bus_subscribers b)(of_nat (c + 1) := None)"
    "bus_channels (drop_subscription (st_sub st) b) = (bus_channels b)(c \<mapsto> ch\<lparr>ch_queue := [], ch_receiver := False\<rparr>)"
    using ch by (simp_all add: drop_subscription_def unsubscribe_def sub Let_def)
  show ?thesis
  proof (rule bus_okI [OF _ _ ok])
    fix i sb
    assume "bus_subscribers (drop_subscription (st_sub st) b) i = Some sb"
    then have i: "i \<noteq> of_nat (c + 1)" "bus_subscribers b i = Some sb" unfolding b' by (auto split: if_splits)
    from bus_ok_sub [OF ok i(2)] have "i = of_nat (sb_channel sb + 1)" "h (sb_channel sb) \<noteq> None" by blast+
    with i show "bus_subscribers b i = Some sb \<and> (h(c := None)) (sb_channel sb) \<noteq> None" by (metis fun_upd_apply)
  next
    fix d st'
    assume "(h(c := None)) d = Some st'"
    then have d: "d \<noteq> c" "h d = Some st'" by (auto split: if_splits)
    from bus_ok_stream [OF ok d(2)] obtain ch' where "d < bus_fresh b" "bus_channels b d = Some ch'" "stream_ok ch' st'" by blast
    moreover from this(1) have "(of_nat (d + 1) :: u64) \<noteq> of_nat (c + 1)" using of_nat_u64_inj [of d c] lt fresh d(1) by force
    ultimately show "\<exists>st1 ch1. h d = Some st1 \<and> st_sub st' = st_sub st1 \<and> st_config st' = st_config st1 \<and>
        bus_subscribers (drop_subscription (st_sub st) b) (of_nat (d + 1)) = bus_subscribers b (of_nat (d + 1)) \<and>
        bus_channels (drop_subscription (st_sub st) b) d = Some ch1 \<and> stream_ok ch1 st'"
      using d unfolding b' by (intro exI [of _ st'] exI [of _ ch']) (simp only: fun_upd_def if_False simp_thms)
  qed (simp_all add: drop_subscription_def unsubscribe_def Let_def)
qed

lemma offers_fresh: "bus_fresh (snd (foldl (offer ev) acc is)) = bus_fresh (snd acc)"
proof (induction "is" arbitrary: acc)
  case (Cons i "is")
  have "bus_fresh (snd (offer ev acc i)) = bus_fresh (snd acc)"
    by (cases acc) (auto simp: offer_def split: option.split prod.split try_send.split)
  with Cons show ?case by simp
qed simp

lemma unsubscribes_fresh: "bus_fresh (fold unsubscribe is b) = bus_fresh b"
  by (induction "is" arbitrary: b) (simp_all add: unsubscribe_def)

lemma steps_fresh:
  "bus_fresh (publish ord ev b) = bus_fresh b" "bus_fresh (drop_subscription sub b) = bus_fresh b"
  "bus_fresh (snd (try_recv sub b)) = bus_fresh b"
  using offers_fresh [of ev "([], b)" ord]
  by (simp_all add: publish_def case_prod_beta unsubscribes_fresh drop_subscription_def unsubscribe_def Let_def
      try_recv_def split: option.split list.split)

lemma bus_run_ok: "bus_run b h \<Longrightarrow> bus_fresh b < 2 ^ 64 \<Longrightarrow> bus_ok b h"
proof (induction rule: bus_run.induct)
  case start
  show ?case by (simp add: bus_ok_def event_bus_new_def)
next
  case (subscribe b h cfg sub b')
  then have "bus_fresh b < 2 ^ 64" by (auto simp: subscribe_def Let_def)
  with subscribe subscribe_ok show ?case by blast
next
  case (publish b h ord ev)
  with publish_ok steps_fresh(1) show ?case by metis
next
  case (recv b h c st ev b')
  then have "bus_fresh b = bus_fresh b'" using steps_fresh(3) [of "st_sub st" b] by simp
  with recv recv_ok show ?case by metis
next
  case (dropped b h c st)
  with drop_subscription_ok steps_fresh(2) show ?case by metis
qed

text \<open>C18. What a subscriber sees is the truth in order, and what it does not see is counted. However
  subscribing, publishing, receiving and dropping interleave, an open subscription has received, or still
  has queued, a subsequence of the matching events published since it was opened; the queue stays
  within its capacity; the counter is the number of events it lost (so a counter at zero means that it
  lost none, while fewer than \<open>2 ^ 64\<close> were published); it is never disconnected, and when its queue is empty
  it waits.\<close>

theorem subscriber_stream:
  assumes "bus_run b h" "bus_fresh b < 2 ^ 64" "h c = Some st"
  shows "\<exists>q. subseq (st_got st @ q) (st_offered st) \<and> length q \<le> sc_capacity (st_config st) \<and>
    sub_dropped (st_sub st) b = of_nat (length (st_offered st) - length (st_got st @ q)) \<and>
    (sub_dropped (st_sub st) b = 0 \<longrightarrow> length (st_offered st) < 2 ^ 64 \<longrightarrow> st_got st @ q = st_offered st) \<and>
    fst (try_recv (st_sub st) b) = (case q of [] \<Rightarrow> Would_Wait | ev # _ \<Rightarrow> Received ev)"
proof -
  from bus_ok_stream [OF bus_run_ok [OF assms(1,2)] assms(3)] obtain ch where
    sub: "st_sub st = \<lparr>su_id = of_nat (c + 1), su_channel = c\<rparr>"
      "bus_subscribers b (of_nat (c + 1)) = Some \<lparr>sb_kinds = sc_kinds (st_config st), sb_channel = c\<rparr>"
    and ch: "bus_channels b c = Some ch" "stream_ok ch st" by blast
  let ?lost = "length (st_offered st) - length (st_got st @ ch_queue ch)"
  have seq: "subseq (st_got st @ ch_queue ch) (st_offered st)" using ch(2) by (simp add: stream_ok_def)
  have lost: "sub_dropped (st_sub st) b = of_nat ?lost" using sub(1) ch by (simp add: sub_dropped_def stream_ok_def)
  have "st_got st @ ch_queue ch = st_offered st" if "sub_dropped (st_sub st) b = 0" "length (st_offered st) < 2 ^ 64"
  proof -
    have "(of_nat ?lost :: u64) = of_nat 0" "?lost < 2 ^ 64" using that lost by simp_all
    then have "?lost = 0" by (simp only: word_of_nat_eq_iff) (simp add: take_bit_nat_eq_self)
    with list_emb_length [OF seq] subseq_same_length [OF seq] show ?thesis by simp
  qed
  moreover have "fst (try_recv (st_sub st) b) = (case ch_queue ch of [] \<Rightarrow> Would_Wait | ev # _ \<Rightarrow> Received ev)"
    using sub ch(1) by (simp add: try_recv_def split: list.split)
  moreover have "length (ch_queue ch) \<le> sc_capacity (st_config st)" using ch(2) by (simp add: stream_ok_def)
  ultimately show ?thesis using seq lost by (intro exI [of _ "ch_queue ch"]) simp
qed

section \<open>Witness\<close>

text \<open>A subscription of capacity one that misses the second of two events.\<close>

definition one_event :: job_event where
  "one_event = \<lparr>je_kind = Event_Completed, je_job_id = ''a'', je_job_kind = ''k'', je_queue = ''q'', je_attempt = 0,
     je_state = ''completed'', je_error = None\<rparr>"

definition narrow :: subscription_config where "narrow = \<lparr>sc_capacity = 1, sc_kinds = {}\<rparr>"

definition narrow_sub :: subscription where "narrow_sub = \<lparr>su_id = 1, su_channel = 0\<rparr>"

definition narrow_bus :: "channel \<Rightarrow> event_bus" where
  "narrow_bus ch = \<lparr>bus_next_id = 1, bus_subscribers = [1 \<mapsto> \<lparr>sb_kinds = {}, sb_channel = 0\<rparr>],
     bus_channels = [0 \<mapsto> ch], bus_fresh = 1\<rparr>"

definition narrow_channel :: "job_event list \<Rightarrow> u64 \<Rightarrow> channel" where
  "narrow_channel q n = \<lparr>ch_capacity = 1, ch_queue = q, ch_receiver = True, ch_dropped = n\<rparr>"

lemma narrow_steps:
  "subscribe narrow event_bus_new = (narrow_sub, narrow_bus (narrow_channel [] 0))"
  "publish [1] one_event (narrow_bus (narrow_channel [] 0)) = narrow_bus (narrow_channel [one_event] 0)"
  "publish [1] one_event (narrow_bus (narrow_channel [one_event] 0)) = narrow_bus (narrow_channel [one_event] 1)"
  by (simp_all add: subscribe_def publish_def offer_def wants_def try_send_def narrow_def narrow_sub_def narrow_bus_def
      narrow_channel_def event_bus_new_def one_event_def Let_def)

lemma narrow_run:
  "bus_run (narrow_bus (narrow_channel [one_event] 1))
     [0 \<mapsto> \<lparr>st_sub = narrow_sub, st_config = narrow, st_offered = [one_event, one_event], st_got = []\<rparr>]"
proof -
  let ?st = "\<lambda>evs. \<lparr>st_sub = narrow_sub, st_config = narrow, st_offered = evs, st_got = []\<rparr>"
  have ord: "iter_order (bus_subscribers (narrow_bus ch)) [1]" for ch by (simp add: narrow_bus_def iter_order_def)
  have next_st: "(\<lambda>c. map_option (offered one_event) ([0 \<mapsto> ?st evs] c)) = [0 \<mapsto> ?st (evs @ [one_event])]" for evs
    by (auto simp: fun_eq_iff offered_def wants_def narrow_def)
  have "bus_run (narrow_bus (narrow_channel [] 0)) [0 \<mapsto> ?st []]"
    using bus_run.subscribe [OF bus_run.start _ narrow_steps(1)] by (simp add: narrow_def narrow_sub_def)
  from bus_run.publish [OF this ord, of one_event] have
    "bus_run (narrow_bus (narrow_channel [one_event] 0)) [0 \<mapsto> ?st [one_event]]"
    unfolding next_st narrow_steps(2) by simp
  from bus_run.publish [OF this ord, of one_event] show ?thesis
    unfolding next_st narrow_steps(3) by simp
qed

theorem subscriber_stream_witness:
  "\<exists>q. subseq q [one_event, one_event] \<and> length q \<le> 1 \<and>
     sub_dropped narrow_sub (narrow_bus (narrow_channel [one_event] 1)) = of_nat (2 - length q)"
proof -
  let ?st = "\<lparr>st_sub = narrow_sub, st_config = narrow, st_offered = [one_event, one_event], st_got = []\<rparr>"
  have few: "bus_fresh (narrow_bus (narrow_channel [one_event] 1)) < 2 ^ 64" by (simp add: narrow_bus_def)
  have "[0 \<mapsto> ?st] 0 = Some ?st" by simp
  from subscriber_stream [OF narrow_run few this] obtain q where q: "subseq ([] @ q) [one_event, one_event]" "length q \<le> sc_capacity narrow"
    "sub_dropped narrow_sub (narrow_bus (narrow_channel [one_event] 1)) =
       of_nat (length [one_event, one_event] - length ([] @ q))"
    unfolding stream.select_convs by (elim exE conjE) (rule that)
  have "length [one_event, one_event] = 2" by simp
  with q show ?thesis by (intro exI [of _ q]) (simp only: append_Nil narrow_def subscription_config.select_convs simp_thms)
qed

end
