(* ===== verification/Dispatch.thy ===== *)
theory Dispatch
  imports Attempt Boundary "HOL-Library.Multiset"
begin

text \<open>
  Dispatch in headgate/src/lib.rs: the registry of handlers, the typed handlers that decode before the
  user's function runs, and the batch handler, which lets attempts of one kind wait for each other and
  answers each with its own result. A batch handler is shared by concurrent attempts, so it is a step
  relation: one rule for each piece of code that runs under its lock or in a task of its own.
\<close>

section \<open>The registry\<close>

type_synonym 'h registry = "string \<rightharpoonup> 'h"

fun check_kinds :: "string list \<Rightarrow> 'h registry \<Rightarrow> string + unit" where
  "check_kinds [] reg = Inr ()"
| "check_kinds (k # ks) reg =
     (case validate_kind k of
        Inl e \<Rightarrow> Inl e
      | Inr _ \<Rightarrow>
          if reg k \<noteq> None then Inl (''kind `'' @ k @ ''` is registered more than once'')
          else check_kinds ks reg)"

definition insert_handler :: "string \<Rightarrow> string list \<Rightarrow> 'h \<Rightarrow> 'h registry \<Rightarrow> (string + unit) \<times> 'h registry" where
  "insert_handler ty aliases h reg =
     (case check_kinds (ty # aliases) reg of
        Inl e \<Rightarrow> (Inl e, reg)
      | Inr _ \<Rightarrow> (Inr (), fold (\<lambda>k r. r(k \<mapsto> h)) (ty # aliases) reg))"

definition register_batch ::
  "nat \<Rightarrow> duration \<Rightarrow> string \<Rightarrow> string list \<Rightarrow> 'h \<Rightarrow> 'h registry \<Rightarrow> (string + unit) \<times> 'h registry" where
  "register_batch max_size max_delay ty aliases h reg =
     (if max_size = 0 then (Inl ''batch max_size must be greater than zero'', reg)
      else if as_millis max_delay = 0 then (Inl ''batch max_delay must be at least 1ms'', reg)
      else insert_handler ty aliases h reg)"

lemma check_kinds_Inr: "check_kinds ks reg = Inr () \<longleftrightarrow> (\<forall>k \<in> set ks. kind_ok k \<and> reg k = None)"
  by (induction ks) (auto simp: validate_kind_def)

lemma fold_upd: "fold (\<lambda>k r. r(k \<mapsto> h)) ks reg = (\<lambda>k. if k \<in> set ks then Some h else reg k)"
  by (induction ks arbitrary: reg) (auto simp: fun_eq_iff)

text \<open>A registration takes all its names or none, and takes over none of another handler.\<close>

lemma insert_handler_all_or_nothing:
  "insert_handler ty aliases h reg =
   (if \<forall>k \<in> set (ty # aliases). kind_ok k \<and> reg k = None
    then (Inr (), \<lambda>k. if k \<in> set (ty # aliases) then Some h else reg k)
    else (Inl (projl (check_kinds (ty # aliases) reg)), reg))"
proof (cases "check_kinds (ty # aliases) reg")
  case (Inl e)
  then have "\<not> (\<forall>k \<in> set (ty # aliases). kind_ok k \<and> reg k = None)"
    using check_kinds_Inr [of "ty # aliases" reg] by (simp only: sum.distinct simp_thms)
  with Inl show ?thesis by (simp only: insert_handler_def sum.case if_False sum.sel)
next
  case (Inr u)
  then have free: "\<forall>k \<in> set (ty # aliases). kind_ok k \<and> reg k = None"
    using check_kinds_Inr [of "ty # aliases" reg] by (cases u) (simp only: simp_thms)
  from Inr show ?thesis by (simp only: insert_handler_def sum.case if_P [OF free] fold_upd)
qed

section \<open>Typed handlers\<close>

definition returned :: "handler_error + unit \<Rightarrow> 'w job_ctx \<Rightarrow> 'w handled" where
  "returned r c = \<lparr>hd_late = False, hd_end = Returned r, hd_joins = [], hd_ctx = c\<rparr>"

definition typed_call ::
  "(u32 \<Rightarrow> string \<Rightarrow> codec_error + 'a) \<Rightarrow> ('w job_ctx \<Rightarrow> 'a \<Rightarrow> 'w handled) \<Rightarrow> 'w job_ctx \<Rightarrow> envelope \<Rightarrow> 'w handled" where
  "typed_call upcast f c e =
     (case upcast (schema_version e) (payload e) of
        Inr args \<Rightarrow> f c args
      | Inl err \<Rightarrow> returned (Inl (Codec_Error err)) c)"

text \<open>An extractor fails with an error of its own, of which the runtime reads the text only.\<close>

definition extracted_call ::
  "(u32 \<Rightarrow> string \<Rightarrow> codec_error + 'a) \<Rightarrow> ('w job_ctx \<Rightarrow> envelope \<Rightarrow> string + 'e) \<Rightarrow>
   ('w job_ctx \<Rightarrow> 'a \<Rightarrow> 'e \<Rightarrow> 'w handled) \<Rightarrow> 'w job_ctx \<Rightarrow> envelope \<Rightarrow> 'w handled" where
  "extracted_call upcast extract f c e =
     (case upcast (schema_version e) (payload e) of
        Inl err \<Rightarrow> returned (Inl (Codec_Error err)) c
      | Inr args \<Rightarrow>
          (case extract c e of
             Inl msg \<Rightarrow> returned (Inl (Step_Error (Step_Message msg))) c
           | Inr x \<Rightarrow> f c args x))"

section \<open>The batch handler\<close>

text \<open>Members are numbered in the order of their arrival. A timer is the generation it was started for;
  timers that were aborted stay in the list and may still run. \<open>ba_guards\<close> are the armed guards,
  \<open>ba_removals\<close> the tasks that guards spawned, \<open>ba_gone\<close> the members whose attempt no longer waits.\<close>

datatype batch_end =
    Batch_Results "(handler_error + unit) list"
  | Batch_Panicked
  | Batch_Cancelled
  | Batch_Dropped

record batch =
  ba_generation :: u64
  ba_next_id :: u64
  ba_pending :: "(u64 \<times> nat) list"
  ba_timer :: "u64 option"
  ba_timers :: "u64 list"
  ba_arrived :: nat
  ba_guards :: "nat \<rightharpoonup> u64"
  ba_cancelled :: "nat set"
  ba_gone :: "nat set"
  ba_removals :: "u64 list"
  ba_dispatched :: "nat list list"
  ba_running :: "nat list list"
  ba_calls :: "(nat list \<times> batch_end) list"
  ba_answers :: "nat \<rightharpoonup> handler_error + unit"

definition batch_new :: batch where
  "batch_new =
     \<lparr>ba_generation = 0, ba_next_id = 0, ba_pending = [], ba_timer = None, ba_timers = [], ba_arrived = 0,
      ba_guards = Map.empty, ba_cancelled = {}, ba_gone = {}, ba_removals = [], ba_dispatched = [], ba_running = [],
      ba_calls = [], ba_answers = Map.empty\<rparr>"

definition take_pending :: "batch \<Rightarrow> batch" where
  "take_pending b =
     b\<lparr>ba_generation := ba_generation b + 1, ba_timer := None, ba_pending := [],
       ba_dispatched := ba_dispatched b @ [map snd (ba_pending b)]\<rparr>"

definition start_timer :: "batch \<Rightarrow> batch" where
  "start_timer b =
     (let g = ba_generation b + 1
      in b\<lparr>ba_generation := g, ba_timer := Some g, ba_timers := ba_timers b @ [g]\<rparr>)"

definition arrive :: "nat \<Rightarrow> batch \<Rightarrow> batch" where
  "arrive max_size b =
     (let i = ba_next_id b + 1; m = ba_arrived b;
          b1 = (if ba_pending b = [] then start_timer b else b);
          b2 = b1\<lparr>ba_next_id := i, ba_arrived := m + 1, ba_pending := ba_pending b1 @ [(i, m)]\<rparr>
      in if length (ba_pending b2) \<ge> max_size then take_pending b2
         else b2\<lparr>ba_guards := (ba_guards b2)(m \<mapsto> i)\<rparr>)"

definition timer_fires :: "u64 \<Rightarrow> batch \<Rightarrow> batch" where
  "timer_fires g b =
     (let b1 = b\<lparr>ba_timers := remove1 g (ba_timers b)\<rparr>
      in if ba_generation b1 \<noteq> g \<or> ba_pending b1 = [] then b1 else take_pending b1)"

text \<open>The attempt of a member ends: its receiver goes away, and its guard, if armed, marks it and spawns
  the task that takes it out of the queue.\<close>

definition leave :: "nat \<Rightarrow> batch \<Rightarrow> batch" where
  "leave m b =
     (case ba_guards b m of
        None \<Rightarrow> b\<lparr>ba_gone := insert m (ba_gone b)\<rparr>
      | Some i \<Rightarrow>
          b\<lparr>ba_gone := insert m (ba_gone b), ba_cancelled := insert m (ba_cancelled b),
            ba_removals := ba_removals b @ [i], ba_guards := (ba_guards b)(m := None)\<rparr>)"

definition cancelled_arm :: "nat \<Rightarrow> batch \<Rightarrow> batch" where
  "cancelled_arm m b = leave m (b\<lparr>ba_cancelled := insert m (ba_cancelled b)\<rparr>)"

definition answered :: "nat \<Rightarrow> batch \<Rightarrow> batch" where
  "answered m b = leave m (b\<lparr>ba_guards := (ba_guards b)(m := None)\<rparr>)"

fun remove_first :: "u64 \<Rightarrow> (u64 \<times> nat) list \<Rightarrow> (u64 \<times> nat) list" where
  "remove_first i [] = []"
| "remove_first i (p # ps) = (if fst p = i then ps else p # remove_first i ps)"

definition removal :: "u64 \<Rightarrow> batch \<Rightarrow> batch" where
  "removal i b =
     (let b1 = b\<lparr>ba_removals := remove1 i (ba_removals b)\<rparr>
      in if i \<in> fst ` set (ba_pending b1)
         then let b2 = b1\<lparr>ba_pending := remove_first i (ba_pending b1)\<rparr>
              in if ba_pending b2 = [] then b2\<lparr>ba_generation := ba_generation b2 + 1, ba_timer := None\<rparr> else b2
         else b1)"

section \<open>Dispatching a batch\<close>

definition batch_call :: "nat list \<Rightarrow> batch \<Rightarrow> batch" where
  "batch_call ms b =
     (let live = filter (\<lambda>m. m \<notin> ba_cancelled b \<and> m \<notin> ba_gone b) ms;
          b1 = b\<lparr>ba_dispatched := remove1 ms (ba_dispatched b)\<rparr>
      in if live = [] then b1 else b1\<lparr>ba_running := ba_running b1 @ [live]\<rparr>)"

definition batch_error :: "string \<Rightarrow> handler_error + unit" where
  "batch_error msg = Inl (Step_Error (Step_Message msg))"

definition replies :: "nat list \<Rightarrow> batch_end \<Rightarrow> (handler_error + unit) list" where
  "replies ms out =
     (case out of
        Batch_Results rs \<Rightarrow>
          if length rs = length ms then rs
          else replicate (length ms) (batch_error (''batch handler returned '' @ show_nat (length rs) @ '' results for '' @
                 show_nat (length ms) @ '' jobs''))
      | Batch_Panicked \<Rightarrow> replicate (length ms) (batch_error ''batch handler panicked'')
      | Batch_Cancelled \<Rightarrow> replicate (length ms) (batch_error ''batch handler task was cancelled'')
      | Batch_Dropped \<Rightarrow> replicate (length ms) (batch_error ''batch dispatcher stopped before producing a result''))"

text \<open>A result is sent to the members that still wait.\<close>

definition batch_return :: "nat list \<Rightarrow> batch_end \<Rightarrow> batch \<Rightarrow> batch" where
  "batch_return ms out b =
     b\<lparr>ba_running := remove1 ms (ba_running b), ba_calls := ba_calls b @ [(ms, out)],
       ba_answers := (\<lambda>m. if m \<in> ba_gone b then ba_answers b m
                          else case map_of (zip ms (replies ms out)) m of
                                 None \<Rightarrow> ba_answers b m | Some r \<Rightarrow> Some r)\<rparr>"

inductive batch_reachable :: "nat \<Rightarrow> batch \<Rightarrow> bool" for max_size where
  new: "batch_reachable max_size batch_new"
| arrive: "batch_reachable max_size b \<Longrightarrow> batch_reachable max_size (arrive max_size b)"
| timer: "batch_reachable max_size b \<Longrightarrow> g \<in> set (ba_timers b) \<Longrightarrow> batch_reachable max_size (timer_fires g b)"
| leave: "batch_reachable max_size b \<Longrightarrow> m < ba_arrived b \<Longrightarrow> m \<notin> ba_gone b \<Longrightarrow> batch_reachable max_size (leave m b)"
| cancelled: "batch_reachable max_size b \<Longrightarrow> m < ba_arrived b \<Longrightarrow> m \<notin> ba_gone b \<Longrightarrow>
    batch_reachable max_size (cancelled_arm m b)"
| answered: "batch_reachable max_size b \<Longrightarrow> m \<notin> ba_gone b \<Longrightarrow> ba_answers b m = Some r \<Longrightarrow>
    batch_reachable max_size (answered m b)"
| removal: "batch_reachable max_size b \<Longrightarrow> i \<in> set (ba_removals b) \<Longrightarrow> batch_reachable max_size (removal i b)"
| call: "batch_reachable max_size b \<Longrightarrow> ms \<in> set (ba_dispatched b) \<Longrightarrow> batch_reachable max_size (batch_call ms b)"
| return: "batch_reachable max_size b \<Longrightarrow> ms \<in> set (ba_running b) \<Longrightarrow> batch_reachable max_size (batch_return ms out b)"

section \<open>Where the members are\<close>

definition members :: "batch \<Rightarrow> nat multiset" where
  "members b = mset (map snd (ba_pending b)) + mset (concat (ba_dispatched b)) + mset (concat (ba_running b)) +
     mset (concat (map fst (ba_calls b)))"

text \<open>Ids are the members' numbers, guards and removals name members, only members that are gone are
  marked as cancelled.\<close>

definition wired :: "batch \<Rightarrow> bool" where
  "wired b \<longleftrightarrow>
     ba_next_id b = of_nat (ba_arrived b) \<and> ba_cancelled b \<subseteq> ba_gone b \<and>
     (\<forall>p \<in> set (ba_pending b). fst p = of_nat (snd p + 1)) \<and>
     dom (ba_guards b) \<subseteq> {..<ba_arrived b} \<and>
     (\<forall>m \<in> dom (ba_guards b). ba_guards b m = Some (of_nat (m + 1))) \<and>
     set (ba_removals b) \<subseteq> (\<lambda>m. of_nat (m + 1)) ` (ba_gone b \<inter> {..<ba_arrived b})"

definition timely :: "nat \<Rightarrow> batch \<Rightarrow> bool" where
  "timely max_size b \<longleftrightarrow>
     length (ba_pending b) < max_size \<and>
     (\<forall>ms \<in> set (ba_dispatched b) \<union> set (ba_running b) \<union> fst ` set (ba_calls b). length ms \<le> max_size) \<and>
     (ba_pending b \<noteq> [] \<longrightarrow> ba_timer b = Some (ba_generation b) \<and> ba_generation b \<in> set (ba_timers b))"

definition placed :: "batch \<Rightarrow> bool" where
  "placed b \<longleftrightarrow>
     (\<forall>m. count (members b) m \<le> 1) \<and> (\<forall>m. m \<in># members b \<longrightarrow> m < ba_arrived b) \<and>
     (\<forall>m. m < ba_arrived b \<longrightarrow> m \<notin> ba_gone b \<longrightarrow> m \<in># members b)"

definition told_all :: "batch \<Rightarrow> bool" where
  "told_all b \<longleftrightarrow>
     (\<forall>ms out k. (ms, out) \<in> set (ba_calls b) \<longrightarrow> k < length ms \<longrightarrow> ms ! k \<notin> ba_gone b \<longrightarrow>
        ba_answers b (ms ! k) = Some (replies ms out ! k))"

lemma take_pending_sel [simp]:
  "ba_generation (take_pending b) = ba_generation b + 1" "ba_timer (take_pending b) = None"
  "ba_pending (take_pending b) = []" "ba_dispatched (take_pending b) = ba_dispatched b @ [map snd (ba_pending b)]"
  "ba_next_id (take_pending b) = ba_next_id b" "ba_timers (take_pending b) = ba_timers b"
  "ba_arrived (take_pending b) = ba_arrived b" "ba_guards (take_pending b) = ba_guards b"
  "ba_cancelled (take_pending b) = ba_cancelled b" "ba_gone (take_pending b) = ba_gone b"
  "ba_removals (take_pending b) = ba_removals b" "ba_running (take_pending b) = ba_running b"
  "ba_calls (take_pending b) = ba_calls b" "ba_answers (take_pending b) = ba_answers b"
  by (simp_all add: take_pending_def)

lemma members_take: "members (take_pending b) = members b"
  by (simp add: members_def)

lemma members_cong:
  "ba_pending b' = ba_pending b \<Longrightarrow> ba_dispatched b' = ba_dispatched b \<Longrightarrow> ba_running b' = ba_running b \<Longrightarrow>
   ba_calls b' = ba_calls b \<Longrightarrow> members b' = members b"
  by (simp add: members_def)

lemma distinct_if_count: "(\<And>x. count (mset xs) x \<le> 1) \<Longrightarrow> distinct xs"
proof (induction xs)
  case (Cons x xs)
  have "count (mset xs) x = 0" using Cons.prems [of x] by simp
  moreover have "count (mset xs) y \<le> 1" for y
    by (rule le_trans [OF _ Cons.prems [of y]]) simp
  ultimately show ?case using Cons.IH by (simp add: count_eq_zero_iff)
qed simp

lemma remove1_concat: "ms \<in> set xs \<Longrightarrow> mset (concat xs) = mset ms + mset (concat (remove1 ms xs))"
  by (induction xs) auto

lemma remove_first_split:
  "i \<in> fst ` set ps \<Longrightarrow> \<exists>m. (i, m) \<in> set ps \<and> mset (map snd ps) = add_mset m (mset (map snd (remove_first i ps)))"
proof (induction ps)
  case (Cons p ps)
  show ?case
  proof (cases "fst p = i")
    case True
    then show ?thesis by (intro exI [of _ "snd p"]) auto
  next
    case False
    with Cons.prems have "i \<in> fst ` set ps" by auto
    from Cons.IH [OF this] obtain m where "(i, m) \<in> set ps"
      "mset (map snd ps) = add_mset m (mset (map snd (remove_first i ps)))" by blast
    with False show ?thesis by (intro exI [of _ m]) auto
  qed
qed simp

lemma remove_first_sub: "set (remove_first i ps) \<subseteq> set ps" "length (remove_first i ps) \<le> length ps"
  by (induction ps) auto

section \<open>Every step keeps it\<close>

definition batch_ok :: "nat \<Rightarrow> batch \<Rightarrow> bool" where
  "batch_ok max_size b \<longleftrightarrow> wired b \<and> timely max_size b \<and> placed b \<and> told_all b"

lemma batch_new_ok: "0 < max_size \<Longrightarrow> batch_ok max_size batch_new"
  by (simp add: batch_ok_def batch_new_def wired_def timely_def placed_def told_all_def members_def)

lemma take_ok:
  assumes "wired b" "placed b" "told_all b" "length (ba_pending b) \<le> max_size" "0 < max_size"
    and "\<forall>ms \<in> set (ba_dispatched b) \<union> set (ba_running b) \<union> fst ` set (ba_calls b). length ms \<le> max_size"
  shows "batch_ok max_size (take_pending b)"
  using assms by (auto simp: batch_ok_def wired_def timely_def placed_def told_all_def members_take)

lemma timer_ok: "batch_ok max_size b \<Longrightarrow> batch_ok max_size (timer_fires g b)"
proof -
  assume ok: "batch_ok max_size b"
  let ?b = "b\<lparr>ba_timers := remove1 g (ba_timers b)\<rparr>"
  have mem: "members ?b = members b" by (rule members_cong) simp_all
  have keep: "wired ?b" "placed ?b" "told_all ?b" "length (ba_pending ?b) \<le> max_size" "0 < max_size"
    using ok by (auto simp: batch_ok_def wired_def placed_def told_all_def timely_def mem)
  show ?thesis
  proof (cases "ba_generation b \<noteq> g \<or> ba_pending b = []")
    case True
    with ok have "timely max_size ?b" by (auto simp: batch_ok_def timely_def in_set_remove1)
    with True keep show ?thesis by (simp add: timer_fires_def batch_ok_def)
  next
    case False
    with take_ok [OF keep] ok show ?thesis by (simp add: timer_fires_def batch_ok_def timely_def)
  qed
qed

lemma arrive_ok:
  assumes ok: "batch_ok max_size b"
  shows "batch_ok max_size (arrive max_size b)"
proof -
  define m where "m = ba_arrived b"
  define b1 where "b1 = (if ba_pending b = [] then start_timer b else b)"
  define b2 where "b2 = b1\<lparr>ba_next_id := ba_next_id b + 1, ba_arrived := m + 1, ba_pending := ba_pending b1 @ [(ba_next_id b + 1, m)]\<rparr>"
  have b1: "ba_pending b1 = ba_pending b" "ba_dispatched b1 = ba_dispatched b" "ba_running b1 = ba_running b"
    "ba_calls b1 = ba_calls b" "ba_gone b1 = ba_gone b" "ba_cancelled b1 = ba_cancelled b" "ba_guards b1 = ba_guards b"
    "ba_removals b1 = ba_removals b" "ba_answers b1 = ba_answers b"
    "ba_timer b1 = Some (ba_generation b1) \<and> ba_generation b1 \<in> set (ba_timers b1)"
    using ok by (auto simp: b1_def start_timer_def Let_def batch_ok_def timely_def)
  have mem: "members b2 = add_mset m (members b)" by (simp add: members_def b2_def b1)
  have w: "wired b2" using ok by (auto simp: b2_def b1 batch_ok_def wired_def m_def)
  have arr: "ba_arrived b2 = Suc m" "ba_gone b2 = ba_gone b" by (simp_all add: b2_def b1)
  have "m \<notin># members b" using ok by (auto simp: batch_ok_def placed_def m_def)
  then have pl: "placed b2"
    using ok unfolding placed_def mem arr by (auto simp: batch_ok_def placed_def m_def less_Suc_eq not_in_iff)
  have t: "told_all b2" using ok by (simp add: b2_def b1 batch_ok_def told_all_def)
  have size: "\<forall>ms \<in> set (ba_dispatched b2) \<union> set (ba_running b2) \<union> fst ` set (ba_calls b2). length ms \<le> max_size"
    "length (ba_pending b2) \<le> max_size" "0 < max_size" using ok by (auto simp: b2_def b1 batch_ok_def timely_def)
  show ?thesis
  proof (cases "length (ba_pending b2) \<ge> max_size")
    case True
    then have "arrive max_size b = take_pending b2" by (simp add: arrive_def Let_def b2_def b1_def m_def)
    with take_ok [OF w pl t size(2,3,1)] show ?thesis by simp
  next
    case False
    let ?b = "b2\<lparr>ba_guards := (ba_guards b2)(m \<mapsto> ba_next_id b + 1)\<rparr>"
    have eq: "arrive max_size b = ?b" using False by (simp add: arrive_def Let_def b2_def b1_def m_def)
    have "members ?b = members b2" by (rule members_cong) simp_all
    with pl have "placed ?b" by (simp add: placed_def)
    moreover have "wired ?b" using w ok by (auto simp: wired_def batch_ok_def b2_def b1 m_def)
    moreover have "timely max_size ?b" using False size b1(10) by (simp add: timely_def b2_def)
    moreover have "told_all ?b" using t by (simp add: told_all_def)
    ultimately show ?thesis unfolding eq batch_ok_def by blast
  qed
qed

lemma leave_ok:
  assumes ok: "batch_ok max_size b" and m: "m < ba_arrived b"
  shows "batch_ok max_size (leave m b)"
proof -
  have mem: "members (leave m b) = members b" by (rule members_cong) (simp_all add: leave_def split: option.split)
  have w: "wired b" using ok by (simp add: batch_ok_def)
  have "wired (leave m b)"
  proof (cases "ba_guards b m")
    case None
    with w show ?thesis by (auto simp: leave_def wired_def)
  next
    case (Some i)
    then have "m \<in> dom (ba_guards b)" by blast
    with w Some have "i = of_nat (m + 1)" by (simp add: wired_def)
    with w Some m show ?thesis by (auto simp: leave_def wired_def)
  qed
  moreover have "timely max_size (leave m b)" using ok by (auto simp: leave_def batch_ok_def timely_def split: option.split)
  moreover have "placed (leave m b)" using ok mem by (auto simp: leave_def batch_ok_def placed_def split: option.split)
  moreover have "told_all (leave m b)" using ok by (auto simp: leave_def batch_ok_def told_all_def split: option.split)
  ultimately show ?thesis by (simp add: batch_ok_def)
qed

lemma mark_ok: "batch_ok max_size b \<Longrightarrow> m \<in> ba_gone b \<Longrightarrow> batch_ok max_size (b\<lparr>ba_cancelled := insert m (ba_cancelled b)\<rparr>)"
  using members_cong [of "b\<lparr>ba_cancelled := insert m (ba_cancelled b)\<rparr>" b]
  by (simp add: batch_ok_def wired_def timely_def placed_def told_all_def)

lemma leave_gone: "m \<in> ba_gone (leave m b)"
  by (simp add: leave_def split: option.split)

lemma cancelled_ok:
  assumes "batch_ok max_size b" "m < ba_arrived b"
  shows "batch_ok max_size (cancelled_arm m b)"
proof -
  have "cancelled_arm m b = (leave m b)\<lparr>ba_cancelled := insert m (ba_cancelled (leave m b))\<rparr>"
    by (simp add: cancelled_arm_def leave_def split: option.split)
  with mark_ok [OF leave_ok [OF assms] leave_gone] show ?thesis by simp
qed

lemma answered_ok:
  assumes "batch_ok max_size b"
  shows "batch_ok max_size (answered m b)"
proof -
  have b': "answered m b = b\<lparr>ba_gone := insert m (ba_gone b), ba_guards := (ba_guards b)(m := None)\<rparr>"
    by (simp add: answered_def leave_def)
  have mem: "members (answered m b) = members b" by (rule members_cong) (simp_all add: b')
  have "wired (answered m b)" using assms by (auto simp: b' batch_ok_def wired_def)
  moreover have "timely max_size (answered m b)" using assms by (simp add: b' batch_ok_def timely_def)
  moreover have "placed (answered m b)" using assms mem by (simp add: b' batch_ok_def placed_def)
  moreover have "told_all (answered m b)" using assms by (simp add: b' batch_ok_def told_all_def)
  ultimately show ?thesis by (simp add: batch_ok_def)
qed

lemma placed_sub:
  assumes "placed b" "members b' \<subseteq># members b" "ba_arrived b' = ba_arrived b" "ba_gone b' = ba_gone b"
    and "\<And>m. m \<notin> ba_gone b \<Longrightarrow> m \<in># members b \<Longrightarrow> m \<in># members b'"
  shows "placed b'"
proof -
  have "count (members b') m \<le> 1" for m
    using assms(1) mset_subset_eq_count [OF assms(2), of m] by (auto simp: placed_def intro: le_trans)
  with assms show ?thesis by (auto simp: placed_def dest: mset_subset_eqD)
qed

lemma removal_ok:
  assumes ok: "batch_ok max_size b" and i: "i \<in> set (ba_removals b)" and few: "ba_arrived b < 2 ^ 64"
  shows "batch_ok max_size (removal i b)"
proof -
  define b' where "b' = removal i b"
  have keep: "ba_next_id b' = ba_next_id b" "ba_arrived b' = ba_arrived b" "ba_cancelled b' = ba_cancelled b"
    "ba_gone b' = ba_gone b" "ba_guards b' = ba_guards b" "ba_dispatched b' = ba_dispatched b" "ba_running b' = ba_running b"
    "ba_calls b' = ba_calls b" "ba_answers b' = ba_answers b" "ba_removals b' = remove1 i (ba_removals b)"
    "ba_timers b' = ba_timers b"
    "ba_pending b' = (if i \<in> fst ` set (ba_pending b) then remove_first i (ba_pending b) else ba_pending b)"
    by (simp_all add: b'_def removal_def Let_def)
  have live: "ba_timer b' = ba_timer b \<and> ba_generation b' = ba_generation b" if "ba_pending b' \<noteq> []"
    using that by (auto simp: b'_def removal_def Let_def split: if_splits)
  have sub: "set (ba_pending b') \<subseteq> set (ba_pending b)" "length (ba_pending b') \<le> length (ba_pending b)"
    using remove_first_sub [of i "ba_pending b"] by (auto simp: keep split: if_splits)
  have "wired b'" using ok sub(1) set_remove1_subset [of i "ba_removals b"] by (auto simp: batch_ok_def wired_def keep(1-5,10))
  moreover have "timely max_size b'"
    using ok sub live by (auto simp: batch_ok_def timely_def keep(6-8,11))
  moreover have "placed b'"
  proof (cases "i \<in> fst ` set (ba_pending b)")
    case True
    from remove_first_split [OF True] obtain m where m: "(i, m) \<in> set (ba_pending b)"
      "mset (map snd (ba_pending b)) = add_mset m (mset (map snd (ba_pending b')))" using True by (auto simp: keep)
    then have mem: "members b = add_mset m (members b')" by (simp add: members_def keep(6-8))
    obtain k where k: "k \<in> ba_gone b" "k < ba_arrived b" "i = of_nat (k + 1)"
      using ok i by (auto simp: batch_ok_def wired_def)
    have "i = of_nat (m + 1)" using ok m(1) by (auto simp: batch_ok_def wired_def)
    moreover have "m < ba_arrived b" using ok mem by (simp add: batch_ok_def placed_def)
    ultimately have "m = k" using k few of_nat_u64_inj [of m k] by simp
    with k(1) have gone: "m \<in> ba_gone b" by simp
    show ?thesis
    proof (rule placed_sub [of b])
      show "placed b" using ok by (simp add: batch_ok_def)
      show "x \<in># members b'" if "x \<notin> ba_gone b" "x \<in># members b" for x using that gone by (auto simp: mem)
    qed (simp_all add: mem keep(2,4))
  next
    case False
    then have "members b' = members b" by (intro members_cong) (simp_all add: keep)
    with ok show ?thesis by (simp add: batch_ok_def placed_def keep(2,4))
  qed
  moreover have "told_all b'" using ok by (simp add: batch_ok_def told_all_def keep(4,8,9))
  ultimately show ?thesis by (simp add: batch_ok_def b'_def)
qed

lemma batch_call_ok:
  assumes ok: "batch_ok max_size b" and ms: "ms \<in> set (ba_dispatched b)"
  shows "batch_ok max_size (batch_call ms b)"
proof -
  define live where "live = filter (\<lambda>m. m \<notin> ba_cancelled b \<and> m \<notin> ba_gone b) ms"
  define b' where "b' = batch_call ms b"
  have keep: "ba_next_id b' = ba_next_id b" "ba_arrived b' = ba_arrived b" "ba_cancelled b' = ba_cancelled b"
    "ba_gone b' = ba_gone b" "ba_guards b' = ba_guards b" "ba_removals b' = ba_removals b" "ba_pending b' = ba_pending b"
    "ba_calls b' = ba_calls b" "ba_answers b' = ba_answers b" "ba_timers b' = ba_timers b" "ba_timer b' = ba_timer b"
    "ba_generation b' = ba_generation b" "ba_dispatched b' = remove1 ms (ba_dispatched b)"
    "ba_running b' = (if live = [] then ba_running b else ba_running b @ [live])"
    by (simp_all add: b'_def batch_call_def Let_def live_def)
  have "length live \<le> length ms" by (simp add: live_def)
  moreover have "length ms \<le> max_size" using ok ms by (auto simp: batch_ok_def timely_def)
  ultimately have "timely max_size b'"
    using ok set_remove1_subset [of ms "ba_dispatched b"] by (auto simp: batch_ok_def timely_def keep)
  moreover have "wired b'" using ok by (simp add: batch_ok_def wired_def keep)
  moreover have "told_all b'" using ok by (simp add: batch_ok_def told_all_def keep)
  moreover have "placed b'"
  proof -
    have run: "mset (concat (ba_running b')) = mset (concat (ba_running b)) + mset live" by (simp add: keep)
    have disp: "mset (concat (ba_dispatched b)) = mset ms + mset (concat (ba_dispatched b'))"
      using remove1_concat [OF ms] by (simp add: keep)
    have part: "mset ms = mset live + mset (filter (\<lambda>m. \<not> (m \<notin> ba_cancelled b \<and> m \<notin> ba_gone b)) ms)"
      by (simp add: live_def del: de_Morgan_conj)
    have mem: "members b = members b' + mset (filter (\<lambda>m. \<not> (m \<notin> ba_cancelled b \<and> m \<notin> ba_gone b)) ms)"
      unfolding members_def run disp keep(7,8) by (subst part) (simp add: ac_simps)
    have "ba_cancelled b \<subseteq> ba_gone b" using ok by (simp add: batch_ok_def wired_def)
    then have dead: "x \<in> ba_gone b" if "x \<in># mset (filter (\<lambda>m. \<not> (m \<notin> ba_cancelled b \<and> m \<notin> ba_gone b)) ms)" for x
      using that by auto
    show ?thesis
    proof (rule placed_sub [of b])
      show "placed b" using ok by (simp add: batch_ok_def)
      show "members b' \<subseteq># members b" unfolding mem by (rule mset_subset_eq_add_left)
      show "x \<in># members b'" if "x \<notin> ba_gone b" "x \<in># members b" for x
        using that dead [of x] unfolding mem union_iff by blast
    qed (simp_all only: keep(2,4))
  qed
  ultimately show ?thesis by (simp add: batch_ok_def b'_def)
qed

lemma replies_length: "length (replies ms out) = length ms"
  by (simp add: replies_def split: batch_end.split)

lemma return_ok:
  assumes ok: "batch_ok max_size b" and ms: "ms \<in> set (ba_running b)"
  shows "batch_ok max_size (batch_return ms out b)"
proof -
  define b' where "b' = batch_return ms out b"
  have keep: "ba_next_id b' = ba_next_id b" "ba_arrived b' = ba_arrived b" "ba_cancelled b' = ba_cancelled b"
    "ba_gone b' = ba_gone b" "ba_guards b' = ba_guards b" "ba_removals b' = ba_removals b" "ba_pending b' = ba_pending b"
    "ba_dispatched b' = ba_dispatched b" "ba_timers b' = ba_timers b" "ba_timer b' = ba_timer b"
    "ba_generation b' = ba_generation b" "ba_calls b' = ba_calls b @ [(ms, out)]" "ba_running b' = remove1 ms (ba_running b)"
    by (simp_all add: b'_def batch_return_def)
  have run: "mset (concat (ba_running b)) = mset ms + mset (concat (ba_running b'))"
    using remove1_concat [OF ms] by (simp add: keep)
  have mem: "members b' = members b" unfolding members_def keep(7,8,12) run by simp
  have once: "count (members b) m \<le> 1" for m using ok by (simp add: batch_ok_def placed_def)
  have "count (mset ms) m \<le> 1" for m using once [of m] by (simp add: members_def run)
  then have dist: "distinct ms" by (rule distinct_if_count)
  have other: "m \<notin> set ms" if "(ns, o') \<in> set (ba_calls b)" "m \<in> set ns" for ns o' m
  proof
    assume "m \<in> set ms"
    then have "0 < count (mset ms) m" by simp
    moreover have "m \<in> set (concat (map fst (ba_calls b)))" using that by force
    then have "0 < count (mset (concat (map fst (ba_calls b)))) m" by (simp only: count_greater_zero_iff set_mset_mset)
    moreover have "count (mset ms) m + count (mset (concat (map fst (ba_calls b)))) m \<le> count (members b) m"
      by (simp add: members_def run)
    ultimately show False using once [of m] by linarith
  qed
  have "told_all b'"
    unfolding told_all_def
  proof (intro allI impI)
    fix ns o' k
    assume c: "(ns, o') \<in> set (ba_calls b')" "k < length ns" "ns ! k \<notin> ba_gone b'"
    show "ba_answers b' (ns ! k) = Some (replies ns o' ! k)"
    proof (cases "(ns, o') \<in> set (ba_calls b)")
      case True
      then have "ns ! k \<notin> set ms" using other c(2) by simp
      then have "map_of (zip ms (replies ms out)) (ns ! k) = None" by (auto simp: map_of_eq_None_iff dest: set_zip_leftD)
      moreover have "ba_answers b (ns ! k) = Some (replies ns o' ! k)"
        using ok True c by (simp add: batch_ok_def told_all_def keep)
      ultimately show ?thesis by (simp add: b'_def batch_return_def)
    next
      case False
      then have "ns = ms" "o' = out" using c(1) by (simp_all add: keep)
      moreover have "map_of (zip ms (replies ms out)) (ms ! k) = Some (replies ms out ! k)"
        using dist c(2) \<open>ns = ms\<close> by (intro map_of_zip_nth) (simp_all add: replies_length)
      ultimately show ?thesis using c(3) by (simp add: b'_def batch_return_def)
    qed
  qed
  moreover have "timely max_size b'"
    using ok ms set_remove1_subset [of ms "ba_running b"] by (auto simp: batch_ok_def timely_def keep)
  moreover have "wired b'" using ok by (simp add: batch_ok_def wired_def keep)
  moreover have "placed b'" using ok mem by (simp add: batch_ok_def placed_def keep)
  ultimately show ?thesis by (simp add: batch_ok_def b'_def)
qed

lemma steps_arrived:
  "ba_arrived b \<le> ba_arrived (arrive max_size b)" "ba_arrived (timer_fires g b) = ba_arrived b"
  "ba_arrived (leave m b) = ba_arrived b" "ba_arrived (cancelled_arm m b) = ba_arrived b"
  "ba_arrived (answered m b) = ba_arrived b" "ba_arrived (removal i b) = ba_arrived b"
  "ba_arrived (batch_call ms b) = ba_arrived b" "ba_arrived (batch_return ms out b) = ba_arrived b"
  by (simp_all add: arrive_def timer_fires_def leave_def cancelled_arm_def answered_def removal_def batch_call_def
      batch_return_def start_timer_def Let_def split: option.split)

lemma batch_reachable_ok:
  assumes "0 < max_size"
  shows "batch_reachable max_size b \<Longrightarrow> ba_arrived b < 2 ^ 64 \<Longrightarrow> batch_ok max_size b"
proof (induction rule: batch_reachable.induct)
  case new
  show ?case by (rule batch_new_ok [OF assms])
next
  case (arrive b)
  from arrive.prems steps_arrived(1) [of b max_size] have "ba_arrived b < 2 ^ 64" by (rule le_less_trans [rotated])
  with arrive.IH show ?case by (intro arrive_ok)
qed (simp_all add: steps_arrived timer_ok leave_ok cancelled_ok answered_ok removal_ok batch_call_ok return_ok)

text \<open>C14. No member of a batch is stranded, lost or run twice. However arrivals, timers, cancellations,
  removals, calls and returns interleave, a member that still waits is in the queue under a timer of the
  queue's generation that is going to dispatch it, or in a dispatched batch, or in a running call, or it has been
  sent the result at its own position of the one call it was part of (the same error for every member when
  the number of results is wrong or the call panicked); no member is in two calls, and no batch is larger
  than the limit.\<close>

theorem batch_members_served:
  assumes "batch_reachable max_size b" "0 < max_size" "ba_arrived b < 2 ^ 64"
  shows "(\<forall>m < ba_arrived b. m \<notin> ba_gone b \<longrightarrow>
      (m \<in> snd ` set (ba_pending b) \<and> ba_timer b = Some (ba_generation b) \<and> ba_generation b \<in> set (ba_timers b)) \<or>
      (\<exists>ms \<in> set (ba_dispatched b @ ba_running b). m \<in> set ms) \<or>
      (\<exists>ms out k. (ms, out) \<in> set (ba_calls b) \<and> k < length ms \<and> ms ! k = m \<and> ba_answers b m = Some (replies ms out ! k))) \<and>
    distinct (concat (ba_dispatched b @ ba_running b @ map fst (ba_calls b))) \<and>
    (\<forall>ms \<in> set (ba_dispatched b @ ba_running b @ map fst (ba_calls b)). length ms \<le> max_size)"
proof -
  have ok: "wired b" "timely max_size b" "placed b" "told_all b"
    using batch_reachable_ok [OF assms(2,1,3)] by (simp_all add: batch_ok_def)
  have "(m \<in> snd ` set (ba_pending b) \<and> ba_timer b = Some (ba_generation b) \<and> ba_generation b \<in> set (ba_timers b)) \<or>
      (\<exists>ms \<in> set (ba_dispatched b @ ba_running b). m \<in> set ms) \<or>
      (\<exists>ms out k. (ms, out) \<in> set (ba_calls b) \<and> k < length ms \<and> ms ! k = m \<and> ba_answers b m = Some (replies ms out ! k))"
    if m: "m < ba_arrived b" "m \<notin> ba_gone b" for m
  proof -
    have "m \<in># members b" using ok(3) m by (simp add: placed_def)
    then consider "m \<in> snd ` set (ba_pending b)" | "\<exists>ms \<in> set (ba_dispatched b @ ba_running b). m \<in> set ms"
      | ms out where "(ms, out) \<in> set (ba_calls b)" "m \<in> set ms" by (fastforce simp: members_def)
    then show ?thesis
    proof cases
      case 1
      then have "ba_pending b \<noteq> []" by auto
      with 1 ok(2) show ?thesis by (simp add: timely_def)
    next
      case (3 ms out)
      then obtain k where k: "k < length ms" "ms ! k = m" by (auto simp: in_set_conv_nth)
      with 3(1) m(2) ok(4) have "ba_answers b m = Some (replies ms out ! k)" by (auto simp: told_all_def)
      with 3(1) k show ?thesis by blast
    qed blast
  qed
  moreover have "distinct (concat (ba_dispatched b @ ba_running b @ map fst (ba_calls b)))"
  proof -
    have sub: "mset (concat (ba_dispatched b @ ba_running b @ map fst (ba_calls b))) \<subseteq># members b"
      by (simp add: members_def)
    have once: "count (members b) m \<le> 1" for m using ok(3) unfolding placed_def by blast
    have "count (mset (concat (ba_dispatched b @ ba_running b @ map fst (ba_calls b)))) m \<le> 1" for m
      by (rule le_trans [OF mset_subset_eq_count [OF sub] once])
    then show ?thesis by (rule distinct_if_count)
  qed
  moreover have "\<forall>ms \<in> set (ba_dispatched b @ ba_running b @ map fst (ba_calls b)). length ms \<le> max_size"
    using ok(2) by (auto simp: timely_def)
  ultimately show ?thesis by blast
qed

text \<open>Two members, a batch of two, and a handler that returns one result.\<close>

definition short_batch :: batch where
  "short_batch = batch_return [0, 1] (Batch_Results [Inr ()]) (batch_call [0, 1] (arrive 2 (arrive 2 batch_new)))"

lemma two_arrived:
  "ba_dispatched (arrive 2 (arrive 2 batch_new)) = [[0, 1]]" "ba_pending (arrive 2 (arrive 2 batch_new)) = []"
  "ba_running (arrive 2 (arrive 2 batch_new)) = []" "ba_gone (arrive 2 (arrive 2 batch_new)) = {}"
  "ba_cancelled (arrive 2 (arrive 2 batch_new)) = {}" "ba_arrived (arrive 2 (arrive 2 batch_new)) = 2"
  by (simp_all add: arrive_def start_timer_def batch_new_def Let_def)

lemma short_batch_sel:
  "ba_dispatched short_batch = []" "ba_pending short_batch = []" "ba_running short_batch = []" "ba_gone short_batch = {}"
  "ba_arrived short_batch = 2"
  by (simp_all add: short_batch_def batch_return_def batch_call_def Let_def two_arrived)

theorem batch_members_served_witness:
  "batch_reachable 2 short_batch \<and>
   (\<exists>ms out k. (ms, out) \<in> set (ba_calls short_batch) \<and> k < length ms \<and> ms ! k = 1 \<and>
      ba_answers short_batch 1 = Some (replies ms out ! k))"
proof -
  have "batch_reachable 2 (arrive 2 (arrive 2 batch_new))" by (intro batch_reachable.intros)
  then have "batch_reachable 2 (batch_call [0, 1] (arrive 2 (arrive 2 batch_new)))"
    by (rule batch_reachable.call) (simp add: two_arrived)
  then have run: "batch_reachable 2 short_batch"
    unfolding short_batch_def by (rule batch_reachable.return) (simp add: batch_call_def Let_def two_arrived)
  have "ba_arrived short_batch < 2 ^ 64" by (simp add: short_batch_sel)
  from batch_members_served [OF run _ this] have "\<forall>m < ba_arrived short_batch. m \<notin> ba_gone short_batch \<longrightarrow>
      (\<exists>ms out k. (ms, out) \<in> set (ba_calls short_batch) \<and> k < length ms \<and> ms ! k = m \<and>
         ba_answers short_batch m = Some (replies ms out ! k))" by (simp add: short_batch_sel)
  from this [rule_format, of 1] run show ?thesis by (simp add: short_batch_sel)
qed

end
