(* ===== verification/Spec2Isabelle.thy ===== *)
theory Spec2Isabelle
  imports Lifecycle Boundary Claims Trace MemSteps Client Scheduler WorkflowCursor WorkflowControl StepReplay Perform
    Duties EventBus Dispatch
begin

text \<open>
  Headgate is a durable job queue. Producers enqueue envelopes into a store; workers ask the store
  to admit jobs under a lease, run a handler, and acknowledge an outcome; sweeps promote due jobs,
  reclaim expired leases and evict retained rows; a scheduler fires periodic jobs; workflows are
  graphs of jobs that a coordinator, itself a job, drives through the store. This development
  models the store-independent core (src/crates/headgate-core, headgate-shared), the reference
  store of headgate-testkit, whose operations carry the contract that the SQL and Redis backends
  follow, the producer client, the scheduler and the worker runtime of src/crates/headgate, the
  transactions of headgate-sqlite that durable steps run in, and the workflow crate.

  \<^bold>\<open>Conventions.\<close> A struct is a record, an enum a datatype, u8, u32 and u64 are words, i64 is \<open>int\<close> with
  the wrap-around written out (\<open>wrap64\<close>), a duration is its nanoseconds. A string or a byte vector
  is a list of characters. A hash map is a map; where code iterates over one, the order is an
  argument, constrained by \<open>iter_order\<close> or \<open>hash_ok\<close> only. \<open>Result\<close> is a sum with the error on the
  left. A method on shared state takes the state and returns it; the lock around it in the code is
  the atomicity of one step here. Panics and loops that do not end have a value of their own
  (\<open>Stuck\<close>, or \<open>None\<close> of a partial function), and theorems show that they do not occur.

  \<^bold>\<open>The core.\<close>
  \<^item> \<open>Prelude\<close>: machine integers, decimal and hexadecimal text, splitting, iteration orders, sorted
    deduplication.
  \<^item> \<open>Shared\<close>: headgate-shared/src/lib.rs: vocabularies, defaults, admission explanation, checkpoints.
  \<^item> \<open>Lifecycle\<close>: the states, the outcome table and the event table of headgate-core/src/lib.rs;
    terminal states are final, and the tables agree.
  \<^item> \<open>Envelope\<close>, \<open>Boundary\<close>: the envelope, store errors, fingerprints and unique keys, and the checks
    that run before anything is written, characterised as one predicate.
  \<^item> \<open>Claims\<close>: admission requests, leases, claims, admission units. \<open>Trace\<close>: the traceparent header.

  \<^bold>\<open>The store\<close> (headgate-testkit/src/lib.rs, \<open>MemoryStore\<close>).
  \<^item> \<open>MemStore\<close>: rows, indexes, the invariant \<open>store_ok\<close>. \<open>MemEnqueue\<close>: enqueue with uniqueness,
    replacement, throttling and debouncing. \<open>MemGate\<close>, \<open>MemAdmit\<close>: the candidates, the gates of
    rate, concurrency and fairness, and admission; a bucket may be in debt. \<open>MemAck\<close>: acknowledgement, renewal, checkpoints,
    results, output, progress. \<open>MemSweep\<close>: promotion, reclaim, eviction, duties.
  \<^item> \<open>MemSteps\<close>: all of them as one machine. Reachable stores satisfy the invariant, one live job
    holds a unique key, every row moves as the lifecycle allows, a lost lease never comes back, a
    quarantined fingerprint stays contained, a duty has one holder at a time.

  \<^bold>\<open>Producing.\<close>
  \<^item> \<open>Text\<close>: header text. \<open>Circuit\<close>: circuit_breaker.rs as a machine of permits. \<open>Client\<close>: client.rs
    with its middleware, hooks and plugins, called in the order of their installation; the store is
    behind authorization and the circuit.
  \<^item> \<open>ScheduleSpec\<close>, \<open>Scheduler\<close>: schedule_spec.rs and scheduler.rs: ticks, missed runs, zones, the
    sweep, and why firing a tick again, at whatever later time, adds no job.

  \<^bold>\<open>Running jobs\<close> (headgate/src/worker.rs, ctx.rs, lib.rs and the files named below).
  \<^item> \<open>JobLog\<close>: headgate-shared/src/log.rs and headgate/src/log.rs. The loop that shortens a record until it
    fits ends, and what it wrote is read back.
  \<^item> \<open>JobSteps\<close>: the context of an attempt: results, progress, leases, step boundaries, cursors and
    transactional steps. The locale \<open>transactions\<close> is the contract of the store's transactions.
  \<^item> \<open>SqliteTx\<close>: the connection of headgate-sqlite/src/lib.rs with its one transaction, an interpretation of
    that contract: an effect, its key and the step commit together or not at all, and an effect runs
    at most once under redelivery, faults and rollbacks. \<open>StepReplay\<close>: an attempt resumes after the
    steps that earlier attempts completed.
  \<^item> \<open>Attempt\<close>, \<open>AttemptTruth\<close>: \<open>process_one\<close> with tracked.rs, death_handler.rs and the events of
    subscription.rs, over any store, and against the in-memory store: what the application is told is
    what the store holds. \<open>Perform\<close>: promotion, admission and attempt in one (testing.rs).
  \<^item> \<open>WorkerLoop\<close>: the loop as a step relation over a store behind the locale \<open>admission\<close>, interpreted on
    the gate of \<open>MemGate\<close>: capacity, own leases, commands, backoff; draining gives jobs back.
  \<^item> \<open>Duties\<close>: the singleton sweeps, over the locale \<open>sweeps\<close>, interpreted on \<open>MemSweep\<close> with the surface
    of inspection as an argument: the reclaimer, the promoter and the retention report what they take
    away, and one tick finishes the work.
  \<^item> \<open>EventBus\<close>: subscription.rs with its channels as a heap: a subscriber sees a subsequence, and what it
    lost is counted.
  \<^item> \<open>Dispatch\<close>: the registry, typed handlers, and the batch handler as a step relation of arrivals, timers,
    guards and calls: no member is stranded, run twice or given another's result.

  \<^bold>\<open>Workflows\<close> (headgate-workflow/src/lib.rs).
  \<^item> \<open>Graph\<close>: the in-degree loop that four validations share: it ends, and it visits every node
    exactly when the graph has no cycle.
  \<^item> \<open>Workflow\<close>: the builder, the durable specification, the enqueue batch, grafts, bundles, and
    both validations; what the builder prepares, the coordinator accepts.
  \<^item> \<open>Coordinator\<close>: the durable cursor, the evidence of completion, the propagation of failure and
    the tick, with what it decides.
  \<^item> \<open>WorkflowRun\<close>: the coordinator against a store. The locale \<open>job_board\<close> is the contract between
    them, interpreted on the rows of \<open>MemStore\<close> with the operations of headgate-sqlite/src/inspect.rs;
    no task starts before its dependencies, under any interleaving with the store and with other
    attempts of the coordinator, unless an operator or the quarantine forced it, and the run keeps the
    set of the jobs that were. A tick is never stuck: it concludes, or leaves rows that can move.
  \<^item> \<open>WorkflowOps\<close>: inspection, cancellation, signals, retries, grafts and the registered handlers.
  \<^item> \<open>WorkflowCursor\<close>: a logic of actions (locale \<open>cursor_writer\<close>, interpreted on the same store) that
    walks the whole handler: the durable cursor only moves forward, whatever happens.
  \<^item> \<open>WorkflowControl\<close>: the exact effect of a cancellation and of a signal emission.

  \<^bold>\<open>Bounds and fuel.\<close> Loops are recursive with a termination proof; the search for the next wall-clock
  time and the visiting loop are partial functions into \<open>option\<close>, and the theorems about them show
  that they return, as is the loop that shortens a log record. The cancellation's traversal ends
  because it visits at most 999 workflows. Ids of subscriptions and of batch members are 64-bit
  counters; theorems that need them distinct assume fewer than \<open>2 ^ 64\<close> of them.

  \<^bold>\<open>Parameters.\<close> serde_json, the cron, chrono-tz and cel crates and SHA-256 are functions that the
  definitions take as arguments; where a theorem needs that a decoder reads what its encoder wrote,
  or that a hash map yields each key once, that is a hypothesis, with a witness. Handlers, middleware,
  hooks and extractors are functions; the products with a floating-point factor in the poll backoff and
  the printed form of a duration are functions too.

  \<^bold>\<open>Not modelled.\<close> The SQL and Redis backends beyond the operations named above: their bodies are SQL and
  Lua text whose meaning is the server's. Of the worker runtime, the timers themselves, extractors
  (resolved by types at compile time), child processes, the watch for stuck handlers (it reports and
  changes nothing), typed scratch data and \<open>drain\<close> of testing.rs. The HTTP API, the dashboard, the wire
  format, telemetry exporters, encryption, migrations, and macros: routing, output, generated code and
  wrappers around libraries. Records that only carry wall-clock times leave them out.
\<close>

end
